(* ===== verification/Prelude.thy ===== *)
theory Prelude
  imports Main "HOL-Library.Word" "HOL-Library.Monad_Syntax"
begin

text \<open>
  Shared vocabulary of the development: the fixed-width integer types of the C sources,
  the addresses they are used as, the outcomes a kernel routine can have, and the generic
  lemmas on words, options and lists that the component theories rely on.

  A routine that dereferences pointers returns an \<open>option\<close>: \<open>None\<close> stands for a
  dereference of \<open>NULL\<close> or for a loop that never leaves. A routine that can reach the
  \<open>PANIC\<close> macro of \<^verbatim>\<open>include/mikroKernellib-common.h\<close> returns a sum: \<open>Inl\<close> carries
  the panic (the machine halts), \<open>Inr\<close> the new state.
\<close>

unbundle bit_operations_syntax

section \<open>Types of the C sources\<close>

type_synonym u8 = "8 word"
type_synonym u16 = "16 word"
type_synonym u32 = "32 word"
type_synonym u64 = "64 word"

type_synonym addr = "64 word"

abbreviation NULL :: addr where
  "NULL \<equiv> 0"

definition PAGE_SIZE :: u64 where
  "PAGE_SIZE = 0x1000"

definition HUGE_PAGE_SIZE :: u64 where
  "HUGE_PAGE_SIZE = 0x200000"

section \<open>Outcomes\<close>

datatype kerror =
    Panic string  \<comment> \<open>the \<open>PANIC\<close> macro: message printed, machine halted\<close>
  | Fault         \<comment> \<open>undefined behaviour in C: a \<open>NULL\<close> dereference, a division by zero\<close>

type_synonym 'a res = "kerror + 'a"

definition bindE :: "'a res \<Rightarrow> ('a \<Rightarrow> 'b res) \<Rightarrow> 'b res" where
  "bindE m f = (case m of Inl e \<Rightarrow> Inl e | Inr x \<Rightarrow> f x)"

definition of_option :: "'a option \<Rightarrow> 'a res" where
  "of_option m = (case m of None \<Rightarrow> Inl Fault | Some x \<Rightarrow> Inr x)"

lemma bindE_simps [simp]:
  "bindE (Inl e) f = Inl e"
  "bindE (Inr x) f = f x"
  by (simp_all add: bindE_def)

lemma bindE_eq_Inr: "bindE m f = Inr y \<longleftrightarrow> (\<exists>x. m = Inr x \<and> f x = Inr y)"
  by (cases m) simp_all

lemma of_option_simps [simp]:
  "of_option None = Inl Fault"
  "of_option (Some x) = Inr x"
  by (simp_all add: of_option_def)

lemma of_option_eq_Inr [simp]: "of_option m = Inr x \<longleftrightarrow> m = Some x"
  by (cases m) simp_all

section \<open>Collections of facts\<close>

named_theorems heap_simps \<open>reading a field of an updated heap\<close>
named_theorems const_defs \<open>constants of the headers\<close>

lemmas page_sizes [const_defs] = PAGE_SIZE_def HUGE_PAGE_SIZE_def

section \<open>Words\<close>

lemma unat_lt_2p: "unat (x :: 'a::len word) < 2 ^ LENGTH('a)"
  by (rule unsigned_less)

lemma unat_lt_u8: "unat (x :: u8) < 256"
  using unat_lt_2p [of x] by simp

lemma unat_lt_u16: "unat (x :: u16) < 65536"
  using unat_lt_2p [of x] by simp

lemma unat_lt_u32: "unat (x :: u32) < 4294967296"
  using unat_lt_2p [of x] by simp

lemma unat_lt_u64: "unat (x :: u64) < 18446744073709551616"
  using unat_lt_2p [of x] by simp

lemma of_nat_unat_id: "of_nat (unat x) = (x :: 'a::len word)"
  by simp

lemma unat_of_nat_id: "n < 2 ^ LENGTH('a) \<Longrightarrow> unat (of_nat n :: 'a::len word) = n"
  by (simp add: unsigned_of_nat take_bit_nat_eq_self)

lemma unat_drop_bit_div: "unat (drop_bit n x) = unat (x :: 'a::len word) div 2 ^ n"
  unfolding unat_drop_bit_eq by (rule drop_bit_eq_div)

lemma word_shift_less:
  fixes x :: "'a::len word"
  assumes "x \<noteq> 0" "0 < n"
  shows "unat (drop_bit n x) < unat x"
proof -
  have "0 < unat x" using assms(1) by (simp add: unat_gt_0)
  moreover have "(1::nat) < 2 ^ n" using assms(2) one_less_power [of "2::nat" n] by simp
  ultimately show ?thesis by (simp add: unat_drop_bit_div)
qed

lemma unat_power2 [simp]:
  assumes "n < LENGTH('a)"
  shows "unat ((2::'a::len word) ^ n) = 2 ^ n"
proof -
  have "(2::nat) ^ n < 2 ^ LENGTH('a)" using assms by simp
  then have "unat (word_of_nat (2 ^ n) :: 'a word) = 2 ^ n"
    unfolding unsigned_of_nat by (simp add: take_bit_nat_eq_self)
  then show ?thesis by simp
qed

lemma unat_push_bit_1:
  "n < LENGTH('a) \<Longrightarrow> unat (push_bit n 1 :: 'a::len word) = 2 ^ n"
  by (simp add: push_bit_eq_mult)

lemma word_less_unatI: "unat a < unat b \<Longrightarrow> a < b"
  by (simp add: word_less_nat_alt)

lemma unat_add_no_overflow:
  fixes a b :: "'a::len word"
  assumes "unat a + unat b < 2 ^ LENGTH('a)"
  shows "unat (a + b) = unat a + unat b"
  using assms by (simp add: unat_word_ariths)

lemma unat_diff_le: "b \<le> a \<Longrightarrow> unat (a - b :: 'a::len word) = unat a - unat b"
  by (simp add: unat_sub)

end
