(* ===== verification/Kmath.thy ===== *)
theory Kmath
  imports Prelude
begin

text \<open>
  \<^verbatim>\<open>src/mikroKernellib/kmath.c\<close>: the integer helpers of the allocators. Every value keeps
  the width it has in C, so the wrap-around of \<open>align_up\<close> and \<open>round_up_pow2\<close> near
  \<open>2 ^ 32\<close> is part of the model.
\<close>

section \<open>The functions\<close>

definition align_up :: "u32 \<Rightarrow> u32 \<Rightarrow> u32 option" where
  "align_up x y = (if y = 0 then None else Some (((x + y - 1) div y) * y))"

function klog2_loop :: "u64 \<Rightarrow> u32 \<Rightarrow> u32" where
  "klog2_loop x r =
     (let x' = drop_bit 1 x in if x' \<noteq> 0 then klog2_loop x' (r + 1) else r)"
  by pat_completeness auto
termination
proof (relation "measure (\<lambda>(x, r). unat x)", simp)
  fix x x' :: u64 and r :: u32
  assume "x' = drop_bit 1 x" "x' \<noteq> 0"
  then have "x \<noteq> 0" by auto
  with \<open>x' = drop_bit 1 x\<close> show "((x', r + 1), (x, r)) \<in> measure (\<lambda>(x, r). unat x)"
    by (simp add: word_shift_less)
qed

declare klog2_loop.simps [simp del]

definition klog2 :: "u64 \<Rightarrow> u32" where
  "klog2 x = klog2_loop x 0"

definition round_up_pow2 :: "u32 \<Rightarrow> u32" where
  "round_up_pow2 x =
     (if x = 0 then 1
      else
        let x = x - 1;
            x = x OR drop_bit 1 x;
            x = x OR drop_bit 2 x;
            x = x OR drop_bit 4 x;
            x = x OR drop_bit 8 x;
            x = x OR drop_bit 16 x
        in x + 1)"

text \<open>
  The loop of \<open>buddy_order\<close> shifts \<open>1ULL\<close> by \<open>order\<close>; a count of 64 or more is
  undefined in C and is \<open>None\<close> here.
\<close>

function buddy_order_loop :: "u64 \<Rightarrow> u32 \<Rightarrow> u32 option" where
  "buddy_order_loop pages order =
     (if 64 \<le> order then None
      else if push_bit (unat order) 1 < pages then buddy_order_loop pages (order + 1)
      else Some order)"
  by pat_completeness auto
termination
proof (relation "measure (\<lambda>(pages, order). 64 - unat order)", simp)
  fix pages :: u64 and order :: u32
  assume "\<not> 64 \<le> order"
  then have "unat order < 64" by (simp add: word_le_nat_alt)
  then have "unat (order + 1) = unat order + 1" by (simp add: unat_word_ariths)
  with \<open>unat order < 64\<close>
  show "((pages, order + 1), (pages, order)) \<in> measure (\<lambda>(pages, order). 64 - unat order)"
    by simp
qed

declare buddy_order_loop.simps [simp del]

definition buddy_order :: "u64 \<Rightarrow> u32 option" where
  "buddy_order sz = buddy_order_loop (sz div PAGE_SIZE) 0"

section \<open>\<open>klog2\<close> is the floor of the binary logarithm\<close>

lemma klog2_loop_spec:
  "x \<noteq> 0 \<Longrightarrow> \<exists>k<64. klog2_loop x r = r + of_nat k \<and> 2 ^ k \<le> unat x \<and> unat x < 2 ^ Suc k"
proof (induction x r rule: klog2_loop.induct)
  case (1 x r)
  define x' where "x' = drop_bit 1 x"
  have half: "unat x' = unat x div 2" unfolding x'_def by (simp only: unat_drop_bit_div power_one_right)
  show ?case
  proof (cases "x' = 0")
    case True
    then have "unat x div 2 = 0" using half by simp
    moreover have "unat x \<noteq> 0" using "1.prems" by (simp add: unat_eq_0)
    ultimately have "unat x = 1" by linarith
    moreover have "klog2_loop x r = r"
      using True by (simp add: klog2_loop.simps [of x r] x'_def)
    ultimately show ?thesis by (intro exI [of _ 0]) simp
  next
    case False
    with "1.IH" [OF x'_def False False] obtain k where k:
      "klog2_loop x' (r + 1) = r + 1 + of_nat k" "2 ^ k \<le> unat x'" "unat x' < 2 ^ Suc k"
      by blast
    have eq: "klog2_loop x r = r + of_nat (Suc k)"
      using False k(1) by (simp add: klog2_loop.simps [of x r] x'_def)
    have low: "2 ^ Suc k \<le> unat x" and high: "unat x < 2 ^ Suc (Suc k)"
      using k(2,3) half by auto
    have "(2::nat) ^ Suc k < 2 ^ 64" using low unat_lt_2p [of x] by simp
    then have "Suc k < 64" by (rule power_less_imp_less_exp [rotated]) simp
    with eq low high show ?thesis by blast
  qed
qed

lemma klog2_bounds:
  assumes "x \<noteq> 0"
  shows "2 ^ unat (klog2 x) \<le> unat x \<and> unat x < 2 ^ Suc (unat (klog2 x))"
proof -
  obtain k where "k < 64" "klog2 x = of_nat k" "2 ^ k \<le> unat x" "unat x < 2 ^ Suc k"
    using klog2_loop_spec [OF assms, of 0] by (auto simp: klog2_def)
  moreover from \<open>k < 64\<close> have "unat (of_nat k :: u32) = k"
    by (simp add: unsigned_of_nat take_bit_nat_eq_self)
  ultimately show ?thesis by simp
qed

lemma klog2_0 [simp]: "klog2 0 = 0"
  by (simp add: klog2_def klog2_loop.simps)

lemma klog2_power2: "n < 64 \<Longrightarrow> klog2 (2 ^ n) = of_nat n"
proof -
  assume n: "n < 64"
  then have "unat ((2::u64) ^ n) = 2 ^ n" by simp
  moreover from this have "(2::u64) ^ n \<noteq> 0" by (metis unat_0 power_not_zero zero_neq_numeral)
  ultimately obtain k where k: "klog2 (2 ^ n) = of_nat k"
    "(2::nat) ^ k \<le> 2 ^ n" "(2::nat) ^ n < 2 ^ Suc k"
    using klog2_loop_spec [of "2 ^ n" 0] by (auto simp: klog2_def)
  from k(2,3) have "k = n" by (simp del: power_Suc)
  with k(1) show ?thesis by simp
qed

section \<open>\<open>round_up_pow2\<close>: smearing the bits of \<open>x - 1\<close>\<close>

lemma smear_step:
  fixes x y :: "'a::len word"
  assumes "\<And>i. bit x i \<longleftrightarrow> (\<exists>d<w. bit y (i + d))"
  shows "bit (x OR drop_bit w x) i \<longleftrightarrow> (\<exists>d<w + w. bit y (i + d))"
proof -
  have "bit (x OR drop_bit w x) i \<longleftrightarrow> (\<exists>d<w. bit y (i + d)) \<or> (\<exists>d<w. bit y (i + (w + d)))"
    by (simp add: bit_or_iff bit_drop_bit_eq assms ac_simps)
  also have "\<dots> \<longleftrightarrow> (\<exists>d<w + w. bit y (i + d))"
  proof
    assume "\<exists>d<w + w. bit y (i + d)"
    then obtain d where d: "d < w + w" "bit y (i + d)" by blast
    show "(\<exists>d<w. bit y (i + d)) \<or> (\<exists>d<w. bit y (i + (w + d)))"
    proof (cases "d < w")
      case False
      then have "d - w < w \<and> bit y (i + (w + (d - w)))" using d by simp
      then show ?thesis by blast
    qed (use d in blast)
  next
    assume "(\<exists>d<w. bit y (i + d)) \<or> (\<exists>d<w. bit y (i + (w + d)))"
    then show "\<exists>d<w + w. bit y (i + d)"
      by (meson add_less_cancel_left trans_less_add1)
  qed
  finally show ?thesis .
qed

definition smear :: "u32 \<Rightarrow> u32" where
  "smear y =
     (let x = y OR drop_bit 1 y; x = x OR drop_bit 2 x; x = x OR drop_bit 4 x;
          x = x OR drop_bit 8 x in x OR drop_bit 16 x)"

lemma round_up_pow2_smear: "x \<noteq> 0 \<Longrightarrow> round_up_pow2 x = smear (x - 1) + 1"
  by (simp add: round_up_pow2_def smear_def Let_def)

lemma bit_smear: "bit (smear y) i \<longleftrightarrow> (\<exists>d<32. bit y (i + d))"
proof -
  define x1 where "x1 = y OR drop_bit 1 y"
  define x2 where "x2 = x1 OR drop_bit 2 x1"
  define x3 where "x3 = x2 OR drop_bit 4 x2"
  define x4 where "x4 = x3 OR drop_bit 8 x3"
  have b1: "bit x1 i \<longleftrightarrow> (\<exists>d<2. bit y (i + d))" for i
    unfolding x1_def using smear_step [of y 1 y i] by (simp add: numeral_2_eq_2)
  have b2: "bit x2 i \<longleftrightarrow> (\<exists>d<4. bit y (i + d))" for i
    unfolding x2_def using smear_step [of x1 2 y i, OF b1] by simp
  have b3: "bit x3 i \<longleftrightarrow> (\<exists>d<8. bit y (i + d))" for i
    unfolding x3_def using smear_step [of x2 4 y i, OF b2] by simp
  have b4: "bit x4 i \<longleftrightarrow> (\<exists>d<16. bit y (i + d))" for i
    unfolding x4_def using smear_step [of x3 8 y i, OF b3] by simp
  have "smear y = x4 OR drop_bit 16 x4"
    by (simp only: smear_def x1_def x2_def x3_def x4_def Let_def)
  then show ?thesis using smear_step [of x4 16 y i, OF b4] by simp
qed

lemma some_high_bit: "(\<exists>d. bit y (i + d)) \<longleftrightarrow> 2 ^ i \<le> unat (y :: 'a::len word)"
proof -
  have "(\<exists>d. bit y (i + d)) \<longleftrightarrow> drop_bit i y \<noteq> 0"
    by (simp add: bit_eq_iff [of "drop_bit i y"] bit_drop_bit_eq) (metis bit_imp_le_length add.commute trans_less_add2 leD le_add2 le_less_trans)
  also have "\<dots> \<longleftrightarrow> unat (drop_bit i y) \<noteq> 0" by (simp add: unat_eq_0)
  also have "\<dots> \<longleftrightarrow> 2 ^ i \<le> unat y" by (simp add: unat_drop_bit_div div_eq_0_iff not_less)
  finally show ?thesis .
qed

lemma bit_smear_le: "bit (smear y) i \<longleftrightarrow> 2 ^ i \<le> unat y"
proof -
  have "(\<exists>d<32. bit y (i + d)) \<longleftrightarrow> (\<exists>d. bit y (i + d))"
  proof safe
    fix d assume d: "bit y (i + d)"
    then have "i + d < 32" using bit_imp_le_length [OF d] by simp
    with d show "\<exists>d<32. bit y (i + d)" by (intro exI [of _ d]) simp
  qed blast
  then show ?thesis by (simp add: bit_smear some_high_bit)
qed

lemma round_up_pow2_least:
  assumes "x \<noteq> 0"
  shows "\<exists>k\<le>32. round_up_pow2 x = 2 ^ k \<and> unat x \<le> 2 ^ k \<and> (\<forall>j. unat x \<le> 2 ^ j \<longrightarrow> k \<le> j)"
proof -
  define k where "k = (LEAST k. unat x \<le> 2 ^ k)"
  have top: "unat x \<le> 2 ^ 32" using unat_lt_u32 [of x] by simp
  have kx: "unat x \<le> 2 ^ k" unfolding k_def using top by (rule LeastI)
  have least: "k \<le> j" if "unat x \<le> 2 ^ j" for j
    unfolding k_def using that by (rule Least_le)
  have "bit (smear (x - 1)) i \<longleftrightarrow> i < k" for i
  proof -
    have "bit (smear (x - 1)) i \<longleftrightarrow> 2 ^ i < unat x"
      using assms unat_gt_0 [of x] by (simp add: bit_smear_le unat_minus_one) linarith
    also have "\<dots> \<longleftrightarrow> i < k"
      using kx least [of i] by (metis leD le_less_linear power_increasing_iff one_less_numeral_iff
          order_less_le_trans semiring_norm(76))
    finally show ?thesis .
  qed
  then have "smear (x - 1) = mask k"
    by (intro bit_word_eqI) (simp add: bit_mask_iff)
  then have "round_up_pow2 x = mask k + 1" using assms by (simp add: round_up_pow2_smear)
  then have "round_up_pow2 x = 2 ^ k" by (simp add: mask_eq_decr_exp)
  with kx least top show ?thesis by blast
qed

section \<open>\<open>buddy_order\<close> and \<open>align_up\<close>\<close>

lemma buddy_order_loop_spec:
  assumes "unat order \<le> k" "k < 64" "unat pages \<le> 2 ^ k"
    and "\<And>j. j < k \<Longrightarrow> 2 ^ j < unat pages"
  shows "buddy_order_loop pages order = Some (of_nat k)"
  using assms(1)
proof (induction "k - unat order" arbitrary: order)
  case 0
  then have [simp]: "unat order = k" using 0 by simp
  then have "order = of_nat k" by (metis of_nat_unat_id)
  have "\<not> 64 \<le> order" using assms(2) by (simp add: word_le_nat_alt)
  moreover have "\<not> push_bit (unat order) 1 < pages"
    using assms(2,3) by (simp add: word_less_nat_alt unat_push_bit_1 not_less)
  ultimately have "buddy_order_loop pages order = Some order"
    by (subst buddy_order_loop.simps) simp
  then show ?case using \<open>order = of_nat k\<close> by simp
next
  case (Suc n)
  then have lt: "unat order < k" by simp
  then have "unat order < 64" using assms(2) by simp
  then have u: "unat (order + 1) = unat order + 1" by (simp add: unat_word_ariths)
  have "\<not> 64 \<le> order" using \<open>unat order < 64\<close> by (simp add: word_le_nat_alt)
  moreover have "push_bit (unat order) 1 < pages"
    using assms(4) [OF lt] \<open>unat order < 64\<close> by (simp add: word_less_nat_alt unat_push_bit_1)
  moreover have "buddy_order_loop pages (order + 1) = Some (of_nat k)"
    using Suc.hyps(2) lt u by (intro Suc.hyps(1)) auto
  ultimately show ?case by (simp add: buddy_order_loop.simps [of pages order])
qed

lemma buddy_order_spec:
  "\<exists>k\<le>52. buddy_order sz = Some (of_nat k) \<and> unat sz div 4096 \<le> 2 ^ k \<and>
     (\<forall>j. unat sz div 4096 \<le> 2 ^ j \<longrightarrow> k \<le> j)"
proof -
  define p where "p = unat sz div 4096"
  define k where "k = (LEAST k. p \<le> 2 ^ k)"
  have pages: "unat (sz div PAGE_SIZE) = p"
    by (simp add: unat_div p_def PAGE_SIZE_def)
  have "p < 2 ^ 52" using unat_lt_u64 [of sz] by (simp add: p_def)
  then have k: "p \<le> 2 ^ k" "k \<le> 52"
    unfolding k_def by (auto intro: LeastI [of _ 52] Least_le)
  have least: "k \<le> j" if "p \<le> 2 ^ j" for j
    unfolding k_def using that by (rule Least_le)
  then have "2 ^ j < p" if "j < k" for j using that by (meson leD not_less)
  then have "buddy_order sz = Some (of_nat k)"
    unfolding buddy_order_def using k by (intro buddy_order_loop_spec) (simp_all add: pages)
  with k least show ?thesis unfolding p_def by blast
qed

lemma align_up_spec:
  assumes "y \<noteq> 0" "unat x + unat y \<le> 2 ^ 32"
  shows "\<exists>r. align_up x y = Some r \<and> unat y dvd unat r \<and> unat x \<le> unat r \<and> unat r < unat x + unat y"
proof -
  define X Y where "X = unat x" and "Y = unat y"
  have Y: "0 < Y" using assms(1) by (simp add: Y_def unat_gt_0)
  have "x + y - 1 = x + (y - 1)" by simp
  moreover have "unat (y - 1) = Y - 1" using assms(1) by (simp add: unat_minus_one Y_def)
  ultimately have s: "unat (x + y - 1) = X + (Y - 1)"
    using assms(2) Y by (simp only:) (subst unat_add_no_overflow, auto simp: X_def Y_def)
  define q where "q = (X + (Y - 1)) div Y"
  have le: "q * Y \<le> X + (Y - 1)" unfolding q_def by simp
  have gt: "X + (Y - 1) < q * Y + Y" unfolding q_def
    using Y by (metis add.commute dividend_less_div_times)
  have "unat ((x + y - 1) div y * y) = q * Y"
  proof -
    have "unat ((x + y - 1) div y) = q" by (simp only: unat_div s Y_def [symmetric] q_def)
    moreover have "q * Y < 2 ^ 32" using le assms(2) Y by (simp add: X_def Y_def)
    ultimately show ?thesis by (simp add: unat_word_ariths Y_def)
  qed
  with le gt Y assms(1) show ?thesis
    unfolding align_up_def X_def [symmetric] Y_def [symmetric] by auto
qed

section \<open>Properties\<close>

text \<open>
  C22. \<open>buddy_order\<close> returns for every size, and the order it returns is the least one whose block
  of \<open>2 ^ order\<close> pages holds the whole pages of the request. The partial page at the end of a
  request is not counted: a request of 4097 bytes gets order 0, a block of 4096.
\<close>

theorem buddy_order_least:
  "(\<exists>k\<le>52. buddy_order sz = Some (of_nat k) \<and> unat sz div 4096 \<le> 2 ^ k \<and>
     (k = 0 \<or> 2 ^ (k - 1) < unat sz div 4096)) \<and>
   buddy_order 4097 = Some 0"
proof -
  obtain k where k: "k \<le> 52" "buddy_order sz = Some (of_nat k)" "unat sz div 4096 \<le> 2 ^ k"
      "\<forall>j. unat sz div 4096 \<le> 2 ^ j \<longrightarrow> k \<le> j"
    using buddy_order_spec [of sz] by blast
  then have "k = 0 \<or> 2 ^ (k - 1) < unat sz div 4096" by (metis One_nat_def Suc_pred not_less not_less_eq_eq order_refl neq0_conv)
  moreover have "buddy_order 4097 = Some 0"
    by (simp add: buddy_order_def buddy_order_loop.simps PAGE_SIZE_def)
  ultimately show ?thesis using k by blast
qed

text \<open>
  \<open>klog2\<close> is the floor of the binary logarithm of its 64-bit argument.
\<close>

theorem klog2_floor:
  assumes "x \<noteq> 0"
  shows "2 ^ unat (klog2 x) \<le> unat x \<and> unat x < 2 ^ Suc (unat (klog2 x))"
  using assms by (rule klog2_bounds)

theorem klog2_witness: "2 ^ unat (klog2 4097) \<le> (4097::nat) \<and> (4097::nat) < 2 ^ Suc (unat (klog2 4097))"
  using klog2_floor [of 4097] by simp

text \<open>
  \<open>round_up_pow2\<close> of a positive 32-bit value is the least power of two that is not below it,
  as long as that power fits: above \<open>2 ^ 31\<close> the addition wraps and the result is 0.
\<close>

theorem round_up_pow2_correct:
  assumes "x \<noteq> 0"
  shows "if unat x \<le> 2 ^ 31
    then \<exists>k\<le>31. unat (round_up_pow2 x) = 2 ^ k \<and> unat x \<le> 2 ^ k \<and> (k = 0 \<or> 2 ^ (k - 1) < unat x)
    else round_up_pow2 x = 0"
proof -
  obtain k where k: "k \<le> 32" "round_up_pow2 x = 2 ^ k" "unat x \<le> 2 ^ k" "\<forall>j. unat x \<le> 2 ^ j \<longrightarrow> k \<le> j"
    using round_up_pow2_least [OF assms] by blast
  show ?thesis
  proof (cases "unat x \<le> 2 ^ 31")
    case True
    then have "k \<le> 31" using k(4) by blast
    moreover have "k = 0 \<or> 2 ^ (k - 1) < unat x"
      using k(4) by (metis One_nat_def Suc_pred not_less not_less_eq_eq order_refl neq0_conv)
    moreover have "unat ((2::u32) ^ k) = 2 ^ k" using \<open>k \<le> 31\<close> by simp
    ultimately have "k \<le> 31 \<and> unat (round_up_pow2 x) = 2 ^ k \<and> unat x \<le> 2 ^ k \<and> (k = 0 \<or> 2 ^ (k - 1) < unat x)"
      using k(2,3) by simp
    then show ?thesis unfolding if_P [OF True] by blast
  next
    case False
    then have "\<not> k \<le> 31" using k(3) by (meson order_trans power_increasing one_le_numeral)
    then have "k = 32" using k(1) by simp
    then have "round_up_pow2 x = 2 ^ 32" using k(2) by simp
    then show ?thesis using False by simp
  qed
qed

theorem round_up_pow2_witness: "\<exists>k\<le>31. unat (round_up_pow2 33) = 2 ^ k \<and> 33 \<le> (2::nat) ^ k"
  using round_up_pow2_correct [of 33] by auto

text \<open>
  \<open>align_up\<close> returns the least multiple of its second argument that is not below the first,
  as long as their sum does not exceed \<open>2 ^ 32\<close>.
\<close>

theorem align_up_correct:
  assumes "y \<noteq> 0" "unat x + unat y \<le> 2 ^ 32"
  shows "\<exists>r. align_up x y = Some r \<and> unat y dvd unat r \<and> unat x \<le> unat r \<and> unat r < unat x + unat y"
  using assms by (rule align_up_spec)

theorem align_up_witness:
  "\<exists>r. align_up 100 64 = Some r \<and> 64 dvd unat r \<and> 100 \<le> unat r \<and> unat r < 164"
  using align_up_correct [of 64 100] by simp

end
