(* ===== verification/Rb_Tree.thy ===== *)
theory Rb_Tree
  imports Prelude
begin

text \<open>
  \<^verbatim>\<open>src/mikroKernellib/rb_tree.c\<close> and \<^verbatim>\<open>include/rb_tree.h\<close>: the intrusive red-black tree,
  operation by operation, on a heap of \<open>rb_node\<close> structs.

  The heap is keyed by the pointers the program stores. The source reaches every node
  through \<open>directmap_p2v\<close>, which translates a stored pointer to an address that can be
  dereferenced and never changes what is stored; the theory \<open>Directmap\<close> models that
  macro and shows that the cell it reaches is the one the stored pointer names.
  \<open>None\<close> is a dereference of \<open>NULL\<close> or a loop that does not end.
\<close>

section \<open>Nodes and the heap\<close>

abbreviation RB_RED :: u8 where
  "RB_RED \<equiv> 0"

abbreviation RB_BLACK :: u8 where
  "RB_BLACK \<equiv> 1"

record rb_node =
  right :: addr
  left :: addr
  parent :: addr
  color :: u8

text \<open>
  \<open>rb_root\<close> is the cell the argument \<open>struct rb_node** root\<close> points to.
\<close>

record rb_state =
  rb_root :: addr
  rb_mem :: "addr \<Rightarrow> rb_node"

type_synonym rb_cmp = "addr \<Rightarrow> addr \<Rightarrow> int"

definition rd :: "rb_state \<Rightarrow> addr \<Rightarrow> rb_node option" where
  "rd s p = (if p = NULL then None else Some (rb_mem s p))"

definition upd :: "rb_state \<Rightarrow> addr \<Rightarrow> (rb_node \<Rightarrow> rb_node) \<Rightarrow> rb_state option" where
  "upd s p f = (if p = NULL then None else Some (s\<lparr>rb_mem := (rb_mem s)(p := f (rb_mem s p))\<rparr>))"

section \<open>Rotations\<close>

definition rb_rotate_left :: "rb_state \<Rightarrow> addr \<Rightarrow> rb_state option" where
  "rb_rotate_left s node = do {
     n \<leftarrow> rd s node;
     let tmp = right n;
     t \<leftarrow> rd s tmp;
     s \<leftarrow> upd s node (\<lambda>n. n\<lparr>right := left t\<rparr>);
     t \<leftarrow> rd s tmp;
     s \<leftarrow> (if left t \<noteq> NULL
           then do { n \<leftarrow> rd s node; upd s (right n) (\<lambda>c. c\<lparr>parent := node\<rparr>) }
           else Some s);
     n \<leftarrow> rd s node;
     s \<leftarrow> upd s tmp (\<lambda>t. t\<lparr>parent := parent n\<rparr>);
     n \<leftarrow> rd s node;
     s \<leftarrow> (if parent n = NULL then Some (s\<lparr>rb_root := tmp\<rparr>)
           else do {
             p \<leftarrow> rd s (parent n);
             if node = left p then upd s (parent n) (\<lambda>p. p\<lparr>left := tmp\<rparr>)
             else upd s (parent n) (\<lambda>p. p\<lparr>right := tmp\<rparr>)
           });
     s \<leftarrow> upd s tmp (\<lambda>t. t\<lparr>left := node\<rparr>);
     upd s node (\<lambda>n. n\<lparr>parent := tmp\<rparr>)
   }"

definition rb_rotate_right :: "rb_state \<Rightarrow> addr \<Rightarrow> rb_state option" where
  "rb_rotate_right s node = do {
     n \<leftarrow> rd s node;
     let tmp = left n;
     t \<leftarrow> rd s tmp;
     s \<leftarrow> upd s node (\<lambda>n. n\<lparr>left := right t\<rparr>);
     t \<leftarrow> rd s tmp;
     s \<leftarrow> (if right t \<noteq> NULL
           then do { n \<leftarrow> rd s node; upd s (left n) (\<lambda>c. c\<lparr>parent := node\<rparr>) }
           else Some s);
     n \<leftarrow> rd s node;
     s \<leftarrow> upd s tmp (\<lambda>t. t\<lparr>parent := parent n\<rparr>);
     n \<leftarrow> rd s node;
     s \<leftarrow> (if parent n = NULL then Some (s\<lparr>rb_root := tmp\<rparr>)
           else do {
             p \<leftarrow> rd s (parent n);
             if node = right p then upd s (parent n) (\<lambda>p. p\<lparr>right := tmp\<rparr>)
             else upd s (parent n) (\<lambda>p. p\<lparr>left := tmp\<rparr>)
           });
     s \<leftarrow> upd s tmp (\<lambda>t. t\<lparr>right := node\<rparr>);
     upd s node (\<lambda>n. n\<lparr>parent := tmp\<rparr>)
   }"

section \<open>Searching\<close>

partial_function (option) rb_find_exact_loop ::
  "rb_state \<Rightarrow> addr \<Rightarrow> rb_cmp \<Rightarrow> addr \<Rightarrow> addr option" where
  "rb_find_exact_loop s key cmp current =
     (if current = NULL then Some NULL
      else
        let result = cmp key current in
        if result < 0 then do { c \<leftarrow> rd s current; rb_find_exact_loop s key cmp (left c) }
        else if result > 0 then do { c \<leftarrow> rd s current; rb_find_exact_loop s key cmp (right c) }
        else Some current)"

definition rb_find_exact :: "rb_state \<Rightarrow> addr \<Rightarrow> rb_cmp \<Rightarrow> addr option" where
  "rb_find_exact s key cmp = rb_find_exact_loop s key cmp (rb_root s)"

partial_function (option) rb_minimum :: "rb_state \<Rightarrow> addr \<Rightarrow> addr option" where
  "rb_minimum s node = do {
     n \<leftarrow> rd s node;
     if left n \<noteq> NULL then rb_minimum s (left n) else Some node
   }"

section \<open>Transplant\<close>

definition rb_transplant :: "rb_state \<Rightarrow> addr \<Rightarrow> addr \<Rightarrow> rb_state option" where
  "rb_transplant s node replacement = do {
     n \<leftarrow> rd s node;
     s \<leftarrow> (if parent n = NULL then Some (s\<lparr>rb_root := replacement\<rparr>)
           else do {
             p \<leftarrow> rd s (parent n);
             if node = left p then upd s (parent n) (\<lambda>p. p\<lparr>left := replacement\<rparr>)
             else upd s (parent n) (\<lambda>p. p\<lparr>right := replacement\<rparr>)
           });
     if replacement \<noteq> NULL
     then do { n \<leftarrow> rd s node; upd s replacement (\<lambda>r. r\<lparr>parent := parent n\<rparr>) }
     else Some s
   }"

section \<open>Insertion\<close>

text \<open>
  One pass of the loop of \<open>rb_insert_fixup\<close>, from a state in which \<open>x\<close> has a red parent
  and a grandparent; it returns the new state and the new \<open>x\<close>.
\<close>

definition rb_insert_fixup_body :: "rb_state \<Rightarrow> addr \<Rightarrow> (rb_state \<times> addr) option" where
  "rb_insert_fixup_body s x = do {
     xn \<leftarrow> rd s x;
     p \<leftarrow> rd s (parent xn);
     g \<leftarrow> rd s (parent p);
     if parent xn = left g then do {
       let uncle = right g;
       red \<leftarrow> (if uncle \<noteq> NULL then do { u \<leftarrow> rd s uncle; Some (color u = RB_RED) } else Some False);
       if red then do {
         s \<leftarrow> upd s (parent xn) (\<lambda>n. n\<lparr>color := RB_BLACK\<rparr>);
         s \<leftarrow> upd s uncle (\<lambda>n. n\<lparr>color := RB_BLACK\<rparr>);
         xn \<leftarrow> rd s x;
         p \<leftarrow> rd s (parent xn);
         s \<leftarrow> upd s (parent p) (\<lambda>n. n\<lparr>color := RB_RED\<rparr>);
         xn \<leftarrow> rd s x;
         p \<leftarrow> rd s (parent xn);
         Some (s, parent p)
       } else do {
         (s, x) \<leftarrow> (if x = right p
                    then do { s' \<leftarrow> rb_rotate_left s (parent xn); Some (s', parent xn) }
                    else Some (s, x));
         xn \<leftarrow> rd s x;
         s \<leftarrow> upd s (parent xn) (\<lambda>n. n\<lparr>color := RB_BLACK\<rparr>);
         xn \<leftarrow> rd s x;
         p \<leftarrow> rd s (parent xn);
         s \<leftarrow> upd s (parent p) (\<lambda>n. n\<lparr>color := RB_RED\<rparr>);
         xn \<leftarrow> rd s x;
         p \<leftarrow> rd s (parent xn);
         s \<leftarrow> rb_rotate_right s (parent p);
         Some (s, x)
       }
     } else do {
       let uncle = left g;
       red \<leftarrow> (if uncle \<noteq> NULL then do { u \<leftarrow> rd s uncle; Some (color u = RB_RED) } else Some False);
       if red then do {
         s \<leftarrow> upd s (parent xn) (\<lambda>n. n\<lparr>color := RB_BLACK\<rparr>);
         s \<leftarrow> upd s uncle (\<lambda>n. n\<lparr>color := RB_BLACK\<rparr>);
         xn \<leftarrow> rd s x;
         p \<leftarrow> rd s (parent xn);
         s \<leftarrow> upd s (parent p) (\<lambda>n. n\<lparr>color := RB_RED\<rparr>);
         xn \<leftarrow> rd s x;
         p \<leftarrow> rd s (parent xn);
         Some (s, parent p)
       } else do {
         (s, x) \<leftarrow> (if x = left p
                    then do { s' \<leftarrow> rb_rotate_right s (parent xn); Some (s', parent xn) }
                    else Some (s, x));
         xn \<leftarrow> rd s x;
         s \<leftarrow> upd s (parent xn) (\<lambda>n. n\<lparr>color := RB_BLACK\<rparr>);
         xn \<leftarrow> rd s x;
         p \<leftarrow> rd s (parent xn);
         s \<leftarrow> upd s (parent p) (\<lambda>n. n\<lparr>color := RB_RED\<rparr>);
         xn \<leftarrow> rd s x;
         p \<leftarrow> rd s (parent xn);
         s \<leftarrow> rb_rotate_left s (parent p);
         Some (s, x)
       }
     }
   }"

partial_function (option) rb_insert_fixup_loop :: "rb_state \<Rightarrow> addr \<Rightarrow> rb_state option" where
  "rb_insert_fixup_loop s x = do {
     xn \<leftarrow> rd s x;
     if parent xn = NULL then Some s
     else do {
       p \<leftarrow> rd s (parent xn);
       if color p \<noteq> RB_RED then Some s
       else if parent p = NULL then Some s
       else do {
         sx \<leftarrow> rb_insert_fixup_body s x;
         rb_insert_fixup_loop (fst sx) (snd sx)
       }
     }
   }"

definition rb_insert_fixup :: "rb_state \<Rightarrow> addr \<Rightarrow> rb_state option" where
  "rb_insert_fixup s x = do {
     s \<leftarrow> rb_insert_fixup_loop s x;
     upd s (rb_root s) (\<lambda>n. n\<lparr>color := RB_BLACK\<rparr>)
   }"

text \<open>
  The walk of \<open>rb_insert\<close> to the insertion point: \<open>Some (Some p)\<close> with the last node
  visited (\<open>NULL\<close> in an empty tree), \<open>Some None\<close> when a node with an equal key is met.
\<close>

partial_function (option) rb_insert_walk ::
  "rb_state \<Rightarrow> addr \<Rightarrow> rb_cmp \<Rightarrow> addr \<Rightarrow> addr \<Rightarrow> addr option option" where
  "rb_insert_walk s node cmp current par =
     (if current = NULL then Some (Some par)
      else
        let result = cmp node current in
        if result < 0 then do { c \<leftarrow> rd s current; rb_insert_walk s node cmp (left c) current }
        else if result > 0 then do { c \<leftarrow> rd s current; rb_insert_walk s node cmp (right c) current }
        else Some None)"

definition rb_insert :: "rb_state \<Rightarrow> addr \<Rightarrow> rb_cmp \<Rightarrow> (addr \<times> rb_state) option" where
  "rb_insert s node cmp = do {
     s \<leftarrow> upd s node (\<lambda>n. n\<lparr>left := NULL\<rparr>);
     s \<leftarrow> upd s node (\<lambda>n. n\<lparr>right := NULL\<rparr>);
     w \<leftarrow> rb_insert_walk s node cmp (rb_root s) NULL;
     case w of
       None \<Rightarrow> Some (NULL, s)
     | Some par \<Rightarrow>
         if par = NULL then do {
           let s = s\<lparr>rb_root := node\<rparr>;
           s \<leftarrow> upd s node (\<lambda>n. n\<lparr>parent := NULL\<rparr>);
           s \<leftarrow> upd s node (\<lambda>n. n\<lparr>color := RB_BLACK\<rparr>);
           Some (node, s)
         } else do {
           let result = cmp node par;
           if result = 0 then Some (NULL, s)
           else do {
             s \<leftarrow> (if result < 0 then upd s par (\<lambda>p. p\<lparr>left := node\<rparr>)
                   else upd s par (\<lambda>p. p\<lparr>right := node\<rparr>));
             s \<leftarrow> upd s node (\<lambda>n. n\<lparr>parent := par\<rparr>);
             s \<leftarrow> upd s node (\<lambda>n. n\<lparr>color := RB_RED\<rparr>);
             s \<leftarrow> rb_insert_fixup s node;
             Some (node, s)
           }
         }
   }"

section \<open>Deletion\<close>

text \<open>\<open>c == NULL || c->color == RB_BLACK\<close>, as the fixup tests a child pointer.\<close>

definition null_or_black :: "rb_state \<Rightarrow> addr \<Rightarrow> bool" where
  "null_or_black s p \<longleftrightarrow> p = NULL \<or> color (rb_mem s p) = RB_BLACK"

text \<open>
  One pass of the loop of \<open>rb_delete_fixup\<close>, by the cases its comments name; \<open>left\<close> is the
  branch in which \<open>x\<close> is the left child of \<open>x_parent\<close>. It returns the state and the new
  values of \<open>x\<close> and \<open>x_parent\<close>; cases 3 and 4 set \<open>x\<close> to the root, which ends the loop.
\<close>

definition rb_delete_case1_left :: "rb_state \<Rightarrow> addr \<Rightarrow> addr \<Rightarrow> (rb_state \<times> addr) option" where
  "rb_delete_case1_left s x_parent sibling =
     (if sibling \<noteq> NULL \<and> color (rb_mem s sibling) = RB_RED
      then do {
        s \<leftarrow> upd s sibling (\<lambda>n. n\<lparr>color := RB_BLACK\<rparr>);
        s \<leftarrow> upd s x_parent (\<lambda>n. n\<lparr>color := RB_RED\<rparr>);
        s \<leftarrow> rb_rotate_left s x_parent;
        xp \<leftarrow> rd s x_parent;
        Some (s, right xp)
      } else Some (s, sibling))"

definition rb_delete_case3_left :: "rb_state \<Rightarrow> addr \<Rightarrow> addr \<Rightarrow> (rb_state \<times> addr) option" where
  "rb_delete_case3_left s x_parent sibling = do {
     sb \<leftarrow> rd s sibling;
     if null_or_black s (right sb)
     then do {
       s \<leftarrow> (if left sb \<noteq> NULL then upd s (left sb) (\<lambda>n. n\<lparr>color := RB_BLACK\<rparr>) else Some s);
       s \<leftarrow> upd s sibling (\<lambda>n. n\<lparr>color := RB_RED\<rparr>);
       s \<leftarrow> rb_rotate_right s sibling;
       xp \<leftarrow> rd s x_parent;
       Some (s, right xp)
     } else Some (s, sibling)
   }"

definition rb_delete_case4_left :: "rb_state \<Rightarrow> addr \<Rightarrow> addr \<Rightarrow> rb_state option" where
  "rb_delete_case4_left s x_parent sibling = do {
     xp \<leftarrow> rd s x_parent;
     s \<leftarrow> upd s sibling (\<lambda>n. n\<lparr>color := color xp\<rparr>);
     s \<leftarrow> upd s x_parent (\<lambda>n. n\<lparr>color := RB_BLACK\<rparr>);
     sb \<leftarrow> rd s sibling;
     s \<leftarrow> (if right sb \<noteq> NULL then upd s (right sb) (\<lambda>n. n\<lparr>color := RB_BLACK\<rparr>) else Some s);
     rb_rotate_left s x_parent
   }"

definition rb_delete_fixup_left ::
  "rb_state \<Rightarrow> addr \<Rightarrow> addr \<Rightarrow> (rb_state \<times> addr \<times> addr) option" where
  "rb_delete_fixup_left s x_parent sibling = do {
     (s, sibling) \<leftarrow> rb_delete_case1_left s x_parent sibling;
     sb \<leftarrow> rd s sibling;
     if null_or_black s (left sb) \<and> null_or_black s (right sb) then do {
       s \<leftarrow> upd s sibling (\<lambda>n. n\<lparr>color := RB_RED\<rparr>);
       xp \<leftarrow> rd s x_parent;
       Some (s, x_parent, parent xp)
     } else do {
       (s, sibling) \<leftarrow> rb_delete_case3_left s x_parent sibling;
       s \<leftarrow> rb_delete_case4_left s x_parent sibling;
       Some (s, rb_root s, x_parent)
     }
   }"

definition rb_delete_case1_right :: "rb_state \<Rightarrow> addr \<Rightarrow> addr \<Rightarrow> (rb_state \<times> addr) option" where
  "rb_delete_case1_right s x_parent sibling =
     (if sibling \<noteq> NULL \<and> color (rb_mem s sibling) = RB_RED
      then do {
        s \<leftarrow> upd s sibling (\<lambda>n. n\<lparr>color := RB_BLACK\<rparr>);
        s \<leftarrow> upd s x_parent (\<lambda>n. n\<lparr>color := RB_RED\<rparr>);
        s \<leftarrow> rb_rotate_right s x_parent;
        xp \<leftarrow> rd s x_parent;
        Some (s, left xp)
      } else Some (s, sibling))"

definition rb_delete_case3_right :: "rb_state \<Rightarrow> addr \<Rightarrow> addr \<Rightarrow> (rb_state \<times> addr) option" where
  "rb_delete_case3_right s x_parent sibling = do {
     sb \<leftarrow> rd s sibling;
     if null_or_black s (left sb)
     then do {
       s \<leftarrow> (if right sb \<noteq> NULL then upd s (right sb) (\<lambda>n. n\<lparr>color := RB_BLACK\<rparr>) else Some s);
       s \<leftarrow> upd s sibling (\<lambda>n. n\<lparr>color := RB_RED\<rparr>);
       s \<leftarrow> rb_rotate_left s sibling;
       xp \<leftarrow> rd s x_parent;
       Some (s, left xp)
     } else Some (s, sibling)
   }"

definition rb_delete_case4_right :: "rb_state \<Rightarrow> addr \<Rightarrow> addr \<Rightarrow> rb_state option" where
  "rb_delete_case4_right s x_parent sibling = do {
     xp \<leftarrow> rd s x_parent;
     s \<leftarrow> upd s sibling (\<lambda>n. n\<lparr>color := color xp\<rparr>);
     s \<leftarrow> upd s x_parent (\<lambda>n. n\<lparr>color := RB_BLACK\<rparr>);
     sb \<leftarrow> rd s sibling;
     s \<leftarrow> (if left sb \<noteq> NULL then upd s (left sb) (\<lambda>n. n\<lparr>color := RB_BLACK\<rparr>) else Some s);
     rb_rotate_right s x_parent
   }"

definition rb_delete_fixup_right ::
  "rb_state \<Rightarrow> addr \<Rightarrow> addr \<Rightarrow> (rb_state \<times> addr \<times> addr) option" where
  "rb_delete_fixup_right s x_parent sibling = do {
     (s, sibling) \<leftarrow> rb_delete_case1_right s x_parent sibling;
     sb \<leftarrow> rd s sibling;
     if null_or_black s (right sb) \<and> null_or_black s (left sb) then do {
       s \<leftarrow> upd s sibling (\<lambda>n. n\<lparr>color := RB_RED\<rparr>);
       xp \<leftarrow> rd s x_parent;
       Some (s, x_parent, parent xp)
     } else do {
       (s, sibling) \<leftarrow> rb_delete_case3_right s x_parent sibling;
       s \<leftarrow> rb_delete_case4_right s x_parent sibling;
       Some (s, rb_root s, x_parent)
     }
   }"

definition rb_delete_fixup_body ::
  "rb_state \<Rightarrow> addr \<Rightarrow> addr \<Rightarrow> (rb_state \<times> addr \<times> addr) option" where
  "rb_delete_fixup_body s x x_parent = do {
     xp \<leftarrow> rd s x_parent;
     if x = left xp then rb_delete_fixup_left s x_parent (right xp)
     else rb_delete_fixup_right s x_parent (left xp)
   }"

partial_function (option) rb_delete_fixup_loop ::
  "rb_state \<Rightarrow> addr \<Rightarrow> addr \<Rightarrow> (rb_state \<times> addr) option" where
  "rb_delete_fixup_loop s x x_parent =
     (if x \<noteq> rb_root s \<and> null_or_black s x
      then do {
        r \<leftarrow> rb_delete_fixup_body s x x_parent;
        rb_delete_fixup_loop (fst r) (fst (snd r)) (snd (snd r))
      } else Some (s, x))"

definition rb_delete_fixup :: "rb_state \<Rightarrow> addr \<Rightarrow> addr \<Rightarrow> rb_state option" where
  "rb_delete_fixup s x x_parent = do {
     (s, x) \<leftarrow> rb_delete_fixup_loop s x x_parent;
     if x \<noteq> NULL then upd s x (\<lambda>n. n\<lparr>color := RB_BLACK\<rparr>) else Some s
   }"

text \<open>
  Taking \<open>node\<close> out of the tree: the state, \<open>x\<close>, \<open>x_parent\<close> and \<open>y_original_color\<close> when
  \<open>rb_delete\<close> reaches the test before the fixup. \<open>rb_delete_successor\<close> is the branch of a
  node with two children; its end, where the successor takes the place of the node, is
  \<open>rb_delete_relink\<close>.
\<close>

definition rb_delete_relink :: "rb_state \<Rightarrow> addr \<Rightarrow> addr \<Rightarrow> rb_state option" where
  "rb_delete_relink s node y = do {
     s \<leftarrow> rb_transplant s node y;
     n \<leftarrow> rd s node;
     s \<leftarrow> upd s y (\<lambda>c. c\<lparr>left := left n\<rparr>);
     yn \<leftarrow> rd s y;
     s \<leftarrow> upd s (left yn) (\<lambda>c. c\<lparr>parent := y\<rparr>);
     n \<leftarrow> rd s node;
     upd s y (\<lambda>c. c\<lparr>color := color n\<rparr>)
   }"

definition rb_delete_successor ::
  "rb_state \<Rightarrow> addr \<Rightarrow> (rb_state \<times> addr \<times> addr \<times> u8) option" where
  "rb_delete_successor s node = do {
     n \<leftarrow> rd s node;
     y \<leftarrow> rb_minimum s (right n);
     yn \<leftarrow> rd s y;
     let y_original_color = color yn;
     let x = right yn;
     (s, x_parent) \<leftarrow>
       (if parent yn = node then do {
          s' \<leftarrow> (if x \<noteq> NULL then upd s x (\<lambda>c. c\<lparr>parent := y\<rparr>) else Some s);
          Some (s', y)
        } else do {
          s' \<leftarrow> rb_transplant s y (right yn);
          n \<leftarrow> rd s' node;
          s' \<leftarrow> upd s' y (\<lambda>c. c\<lparr>right := right n\<rparr>);
          yn \<leftarrow> rd s' y;
          s' \<leftarrow> upd s' (right yn) (\<lambda>c. c\<lparr>parent := y\<rparr>);
          yn \<leftarrow> rd s' y;
          Some (s', parent yn)
        });
     s \<leftarrow> rb_delete_relink s node y;
     Some (s, x, x_parent, y_original_color)
   }"

definition rb_delete_unlink ::
  "rb_state \<Rightarrow> addr \<Rightarrow> (rb_state \<times> addr \<times> addr \<times> u8) option" where
  "rb_delete_unlink s node = do {
     n \<leftarrow> rd s node;
     if left n = NULL then do {
       s' \<leftarrow> rb_transplant s node (right n);
       Some (s', right n, parent n, color n)
     } else if right n = NULL then do {
       s' \<leftarrow> rb_transplant s node (left n);
       Some (s', left n, parent n, color n)
     } else rb_delete_successor s node
   }"

definition rb_delete :: "rb_state \<Rightarrow> addr \<Rightarrow> rb_cmp \<Rightarrow> (bool \<times> rb_state) option" where
  "rb_delete s key cmp = do {
     node \<leftarrow> rb_find_exact s key cmp;
     if node = NULL then Some (False, s)
     else do {
       (s, x, x_parent, y_original_color) \<leftarrow> rb_delete_unlink s node;
       s \<leftarrow> (if y_original_color = RB_BLACK then rb_delete_fixup s x x_parent else Some s);
       Some (True, s)
     }
   }"

section \<open>Traversal and printing\<close>

text \<open>
  \<open>rb_traverse_inorder\<close> calls back on every node; the model returns the nodes in the order
  of the calls. \<open>rb_print_tree\<close> prints one line per node; the model returns the calls of
  \<open>vesa_print_virt_addr\<close> (value, row, column) and the final row.
\<close>

partial_function (option) rb_traverse_inorder :: "rb_state \<Rightarrow> addr \<Rightarrow> addr list option" where
  "rb_traverse_inorder s root =
     (if root = NULL then Some []
      else do {
        n \<leftarrow> rd s root;
        ls \<leftarrow> rb_traverse_inorder s (left n);
        rs \<leftarrow> rb_traverse_inorder s (right n);
        Some (ls @ root # rs)
      })"

partial_function (option) rb_print_tree ::
  "rb_state \<Rightarrow> addr \<Rightarrow> int \<Rightarrow> int \<Rightarrow> (addr \<Rightarrow> u64) \<Rightarrow> ((u64 \<times> int \<times> int) list \<times> int) option" where
  "rb_print_tree s x row col addr_of_node =
     (if x = NULL then Some ([], row)
      else do {
        n \<leftarrow> rd s x;
        r1 \<leftarrow> rb_print_tree s (right n) row (col + 4) addr_of_node;
        r2 \<leftarrow> rb_print_tree s (left n) (snd r1 + 1) (col + 4) addr_of_node;
        Some (fst r1 @ (addr_of_node x, snd r1, col) # fst r2, snd r2)
      })"

end
