(* ===== verification/Rb_Rep.thy ===== *)
theory Rb_Rep
  imports Rb_Tree
begin

text \<open>
  What a heap of \<open>rb_node\<close> structs represents: a tree together with the path that leads
  to a subtree of it (a zipper), so that the local surgery of the rotations and fixups is
  a local change of the represented value. The lemmas here say what one rotation, one
  recolouring and one transplant do to the represented tree.
\<close>

section \<open>Trees and contexts\<close>

datatype rbt = Leaf | Node u8 rbt addr rbt

text \<open>One step of a path from a hole to the root: the hole is the left or the right child.\<close>

datatype frame = CL u8 addr rbt | CR u8 rbt addr

type_synonym ctx = "frame list"

fun ptr :: "rbt \<Rightarrow> addr" where
  "ptr Leaf = NULL"
| "ptr (Node c l a r) = a"

fun inorder :: "rbt \<Rightarrow> addr list" where
  "inorder Leaf = []"
| "inorder (Node c l a r) = inorder l @ a # inorder r"

fun plug1 :: "frame \<Rightarrow> rbt \<Rightarrow> rbt" where
  "plug1 (CL c a r) t = Node c t a r"
| "plug1 (CR c l a) t = Node c l a t"

fun plug :: "ctx \<Rightarrow> rbt \<Rightarrow> rbt" where
  "plug [] t = t"
| "plug (f # fs) t = plug fs (plug1 f t)"

fun cpar :: "ctx \<Rightarrow> addr" where
  "cpar [] = NULL"
| "cpar (CL c a r # _) = a"
| "cpar (CR c l a # _) = a"

fun cnodes :: "ctx \<Rightarrow> addr set" where
  "cnodes [] = {}"
| "cnodes (CL c a r # fs) = insert a (set (inorder r) \<union> cnodes fs)"
| "cnodes (CR c l a # fs) = insert a (set (inorder l) \<union> cnodes fs)"

abbreviation nodes :: "rbt \<Rightarrow> addr set" where
  "nodes t \<equiv> set (inorder t)"

section \<open>Representation in the heap\<close>

fun is_tree :: "(addr \<Rightarrow> rb_node) \<Rightarrow> addr \<Rightarrow> rbt \<Rightarrow> bool" where
  "is_tree h par Leaf = True"
| "is_tree h par (Node c l a r) =
     (a \<noteq> NULL \<and> h a = \<lparr>right = ptr r, left = ptr l, parent = par, color = c\<rparr> \<and>
      is_tree h a l \<and> is_tree h a r \<and>
      a \<notin> nodes l \<and> a \<notin> nodes r \<and> nodes l \<inter> nodes r = {})"

fun is_ctx :: "(addr \<Rightarrow> rb_node) \<Rightarrow> addr \<Rightarrow> addr \<Rightarrow> ctx \<Rightarrow> bool" where
  "is_ctx h root p [] = (root = p)"
| "is_ctx h root p (CL c a r # fs) =
     (a \<noteq> NULL \<and> h a = \<lparr>right = ptr r, left = p, parent = cpar fs, color = c\<rparr> \<and>
      is_tree h a r \<and> is_ctx h root a fs \<and>
      a \<notin> nodes r \<and> a \<notin> cnodes fs \<and> nodes r \<inter> cnodes fs = {})"
| "is_ctx h root p (CR c l a # fs) =
     (a \<noteq> NULL \<and> h a = \<lparr>right = p, left = ptr l, parent = cpar fs, color = c\<rparr> \<and>
      is_tree h a l \<and> is_ctx h root a fs \<and>
      a \<notin> nodes l \<and> a \<notin> cnodes fs \<and> nodes l \<inter> cnodes fs = {})"

text \<open>
  \<open>rep F s fs t\<close>: the state \<open>s\<close> represents the tree \<open>t\<close> in the context \<open>fs\<close>, and every
  cell that is not a node of the whole tree holds what \<open>F\<close> holds.
\<close>

definition rep :: "(addr \<Rightarrow> rb_node) \<Rightarrow> rb_state \<Rightarrow> ctx \<Rightarrow> rbt \<Rightarrow> bool" where
  "rep F s fs t \<longleftrightarrow>
     is_tree (rb_mem s) (cpar fs) t \<and> is_ctx (rb_mem s) (rb_root s) (ptr t) fs \<and>
     nodes t \<inter> cnodes fs = {} \<and>
     (\<forall>a. a \<notin> nodes t \<and> a \<notin> cnodes fs \<longrightarrow> rb_mem s a = F a)"

section \<open>Frame lemmas\<close>

lemma is_tree_upd [simp]:
  "a \<notin> nodes t \<Longrightarrow> is_tree (h(a := v)) par t = is_tree h par t"
  by (induction t arbitrary: par) auto

lemma is_ctx_upd [simp]:
  "a \<notin> cnodes fs \<Longrightarrow> is_ctx (h(a := v)) root p fs = is_ctx h root p fs"
  by (induction fs arbitrary: p rule: cnodes.induct) auto

lemma is_tree_cong:
  "(\<And>a. a \<in> nodes t \<Longrightarrow> h a = h' a) \<Longrightarrow> is_tree h par t = is_tree h' par t"
  by (induction t arbitrary: par) auto

lemma NULL_notin_nodes [simp]: "is_tree h par t \<Longrightarrow> NULL \<notin> nodes t"
  by (induction t arbitrary: par) auto

lemma NULL_notin_cnodes [simp]: "is_ctx h root p fs \<Longrightarrow> NULL \<notin> cnodes fs"
  by (induction fs arbitrary: p rule: cnodes.induct) auto

lemma distinct_inorder: "is_tree h par t \<Longrightarrow> distinct (inorder t)"
  by (induction t arbitrary: par) auto

lemma ptr_in_nodes: "t \<noteq> Leaf \<Longrightarrow> ptr t \<in> nodes t"
  by (cases t) auto

lemma ptr_neq [simp]:
  assumes "x \<noteq> NULL" "x \<notin> nodes t"
  shows "x \<noteq> ptr t" "ptr t \<noteq> x"
  using assms by (cases t; auto)+

lemma ptr_NULL_iff: "is_tree h par t \<Longrightarrow> ptr t = NULL \<longleftrightarrow> t = Leaf"
  by (cases t) auto

lemma cpar_in_cnodes: "fs \<noteq> [] \<Longrightarrow> cpar fs \<in> cnodes fs"
  by (cases fs rule: cpar.cases) auto

lemma cpar_NULL_iff: "is_ctx h root p fs \<Longrightarrow> cpar fs = NULL \<longleftrightarrow> fs = []"
  by (cases fs rule: cpar.cases) auto

section \<open>Moving in the zipper\<close>

lemma rep_up_L: "rep F s (CL c a r # fs) t \<longleftrightarrow> rep F s fs (Node c t a r)"
  by (auto simp: rep_def)

lemma rep_up_R: "rep F s (CR c l a # fs) t \<longleftrightarrow> rep F s fs (Node c l a t)"
  by (auto simp: rep_def)

lemma rep_plug1: "rep F s (f # fs) t \<longleftrightarrow> rep F s fs (plug1 f t)"
  by (cases f) (simp_all add: rep_up_L rep_up_R)

lemma rep_plug: "rep F s (fs @ gs) t \<longleftrightarrow> rep F s gs (plug fs t)"
  by (induction fs arbitrary: t) (simp_all add: rep_plug1)

lemma rep_top: "rep F s fs t \<longleftrightarrow> rep F s [] (plug fs t)"
  using rep_plug [of F s fs "[]" t] by simp

lemma rd_Some [simp]: "p \<noteq> NULL \<Longrightarrow> rd s p = Some (rb_mem s p)"
  by (simp add: rd_def)

lemma upd_Some [simp]:
  "p \<noteq> NULL \<Longrightarrow> upd s p f = Some (s\<lparr>rb_mem := (rb_mem s)(p := f (rb_mem s p))\<rparr>)"
  by (simp add: upd_def)

section \<open>Rotations\<close>

lemma rotate_left_rep:
  assumes "rep F s fs (Node c a x (Node d b y e))"
  shows "\<exists>s'. rb_rotate_left s x = Some s' \<and> rep F s' fs (Node d (Node c a x b) y e)"
proof -
  from assms have ne: "x \<noteq> y" "x \<noteq> NULL" "y \<noteq> NULL" by (auto simp: rep_def)
  show ?thesis
  proof (cases fs rule: cpar.cases)
    case 1
    with assms ne show ?thesis
      by (cases b) (auto simp: rep_def rb_rotate_left_def)
  next
    case (2 pc p pr gs)
    with assms ne show ?thesis
      by (cases b) (auto simp: rep_def rb_rotate_left_def)
  next
    case (3 pc pl p gs)
    with assms ne show ?thesis
      by (cases b) (auto simp: rep_def rb_rotate_left_def)
  qed
qed

lemma rotate_right_rep:
  assumes "rep F s fs (Node c (Node d a y b) x e)"
  shows "\<exists>s'. rb_rotate_right s x = Some s' \<and> rep F s' fs (Node d a y (Node c b x e))"
proof -
  from assms have ne: "x \<noteq> y" "x \<noteq> NULL" "y \<noteq> NULL" by (auto simp: rep_def)
  show ?thesis
  proof (cases fs rule: cpar.cases)
    case 1
    with assms ne show ?thesis
      by (cases b) (auto simp: rep_def rb_rotate_right_def)
  next
    case (2 pc p pr gs)
    with assms ne show ?thesis
      by (cases b) (auto simp: rep_def rb_rotate_right_def)
  next
    case (3 pc pl p gs)
    with assms ne show ?thesis
      by (cases b) (auto simp: rep_def rb_rotate_right_def)
  qed
qed

section \<open>Recolouring\<close>

definition recolor :: "rb_state \<Rightarrow> addr \<Rightarrow> u8 \<Rightarrow> rb_state" where
  "recolor s a c = s\<lparr>rb_mem := (rb_mem s)(a := (rb_mem s a)\<lparr>color := c\<rparr>)\<rparr>"

lemma upd_color: "a \<noteq> NULL \<Longrightarrow> upd s a (color_update (\<lambda>_. c)) = Some (recolor s a c)"
  by (simp add: recolor_def)

lemma recolor_sel [heap_simps]:
  "right (rb_mem (recolor s a c) b) = right (rb_mem s b)"
  "left (rb_mem (recolor s a c) b) = left (rb_mem s b)"
  "parent (rb_mem (recolor s a c) b) = parent (rb_mem s b)"
  "color (rb_mem (recolor s a c) b) = (if b = a then c else color (rb_mem s b))"
  "rb_root (recolor s a c) = rb_root s"
  by (simp_all add: recolor_def)

lemma rep_recolor:
  "rep F s fs (Node c l a r) \<Longrightarrow> rep F (recolor s a d) fs (Node d l a r)"
  by (auto simp: rep_def recolor_def)

lemma rep_recolor_CL: "rep F s (CL c a r # fs) t \<Longrightarrow> rep F (recolor s a d) (CL d a r # fs) t"
  unfolding rep_up_L by (rule rep_recolor)

lemma rep_recolor_CR: "rep F s (CR c l a # fs) t \<Longrightarrow> rep F (recolor s a d) (CR d l a # fs) t"
  unfolding rep_up_R by (rule rep_recolor)

lemma rep_recolor_sub_R:
  "rep F s fs (Node k t g (Node c l a r)) \<Longrightarrow> rep F (recolor s a d) fs (Node k t g (Node d l a r))"
  using rep_recolor [of F s "CR k t g # fs"] by (simp add: rep_up_R)

lemma rep_recolor_sub_L:
  "rep F s fs (Node k (Node c l a r) g t) \<Longrightarrow> rep F (recolor s a d) fs (Node k (Node d l a r) g t)"
  using rep_recolor [of F s "CL k g t # fs"] by (simp add: rep_up_L)

section \<open>Reading what is represented\<close>

lemma rep_node:
  assumes "rep F s fs (Node c l a r)"
  shows "a \<noteq> NULL" "right (rb_mem s a) = ptr r" "left (rb_mem s a) = ptr l"
    "parent (rb_mem s a) = cpar fs" "color (rb_mem s a) = c"
  using assms by (auto simp: rep_def)

lemma rep_CL:
  assumes "rep F s (CL c a r # fs) t"
  shows "a \<noteq> NULL" "right (rb_mem s a) = ptr r" "left (rb_mem s a) = ptr t"
    "parent (rb_mem s a) = cpar fs" "color (rb_mem s a) = c"
    "a \<notin> nodes t" "a \<notin> nodes r" "nodes t \<inter> nodes r = {}"
  using assms by (auto simp: rep_def)

lemma rep_CR:
  assumes "rep F s (CR c l a # fs) t"
  shows "a \<noteq> NULL" "right (rb_mem s a) = ptr t" "left (rb_mem s a) = ptr l"
    "parent (rb_mem s a) = cpar fs" "color (rb_mem s a) = c"
    "a \<notin> nodes t" "a \<notin> nodes l" "nodes t \<inter> nodes l = {}"
  using assms by (auto simp: rep_def)

lemma rep_cpar_NULL: "rep F s fs t \<Longrightarrow> cpar fs = NULL \<longleftrightarrow> fs = []"
  unfolding rep_def by (blast dest: cpar_NULL_iff)

lemma rep_ptr_NULL: "rep F s fs t \<Longrightarrow> ptr t = NULL \<longleftrightarrow> t = Leaf"
  unfolding rep_def by (blast dest: ptr_NULL_iff)

lemma rep_root: "rep F s [] t \<Longrightarrow> rb_root s = ptr t"
  by (simp add: rep_def)

lemma rep_root_ptr: "rep F s fs t \<Longrightarrow> rb_root s = ptr (plug fs t)"
  using rep_top rep_root by blast

end
