(* ===== verification/Rb_Zipper.thy ===== *)
theory Rb_Zipper
  imports Rb_Rep
begin

text \<open>
  The algorithms of \<^verbatim>\<open>rb_tree.c\<close> on represented trees: the two fixup loops as functions on
  zippers, the red-black invariant, and the proofs that insertion and deletion restore the
  invariant and keep the order of the nodes. Nothing here mentions the heap.
\<close>

section \<open>Colours and frames\<close>

fun col :: "rbt \<Rightarrow> u8" where
  "col Leaf = RB_BLACK"
| "col (Node c l a r) = c"

fun paint :: "u8 \<Rightarrow> rbt \<Rightarrow> rbt" where
  "paint c Leaf = Leaf"
| "paint c (Node _ l a r) = Node c l a r"

fun fcol :: "frame \<Rightarrow> u8" where
  "fcol (CL c a r) = c"
| "fcol (CR c l a) = c"

fun faddr :: "frame \<Rightarrow> addr" where
  "faddr (CL c a r) = a"
| "faddr (CR c l a) = a"

fun fpaint :: "u8 \<Rightarrow> frame \<Rightarrow> frame" where
  "fpaint d (CL c a r) = CL d a r"
| "fpaint d (CR c l a) = CR d l a"

lemma red_Node: "col t = RB_RED \<Longrightarrow> \<exists>l a r. t = Node RB_RED l a r"
  by (cases t) auto

lemma col_paint [simp]: "col (paint RB_BLACK t) = RB_BLACK"
  by (cases t) simp_all

lemma inorder_paint [simp]: "inorder (paint c t) = inorder t"
  by (cases t) simp_all

lemma paint_Leaf_iff [simp]: "paint c t = Leaf \<longleftrightarrow> t = Leaf"
  by (cases t) simp_all

text \<open>The nodes to the left and to the right of a hole, in order.\<close>

fun cleft :: "ctx \<Rightarrow> addr list" where
  "cleft [] = []"
| "cleft (CL c a r # fs) = cleft fs"
| "cleft (CR c l a # fs) = cleft fs @ inorder l @ [a]"

fun cright :: "ctx \<Rightarrow> addr list" where
  "cright [] = []"
| "cright (CL c a r # fs) = a # inorder r @ cright fs"
| "cright (CR c l a # fs) = cright fs"

lemma inorder_plug: "inorder (plug fs t) = cleft fs @ inorder t @ cright fs"
  by (induction fs arbitrary: t rule: cleft.induct) simp_all

lemma plug_append [simp]: "plug (fs @ gs) t = plug gs (plug fs t)"
  by (induction fs arbitrary: t) simp_all

section \<open>The red-black invariant\<close>

fun bheight :: "rbt \<Rightarrow> nat" where
  "bheight Leaf = 0"
| "bheight (Node c l a r) = bheight l + (if c = RB_BLACK then 1 else 0)"

fun invc :: "rbt \<Rightarrow> bool" where
  "invc Leaf = True"
| "invc (Node c l a r) =
     ((c = RB_RED \<and> col l = RB_BLACK \<and> col r = RB_BLACK \<or> c = RB_BLACK) \<and> invc l \<and> invc r)"

fun invh :: "rbt \<Rightarrow> bool" where
  "invh Leaf = True"
| "invh (Node c l a r) = (bheight l = bheight r \<and> invh l \<and> invh r)"

definition rb_inv :: "rbt \<Rightarrow> bool" where
  "rb_inv t \<longleftrightarrow> invc t \<and> invh t \<and> col t = RB_BLACK"

fun ccol :: "ctx \<Rightarrow> u8" where
  "ccol [] = RB_BLACK"
| "ccol (f # fs) = fcol f"

text \<open>\<open>cinv fs n\<close>: filling the hole with a valid tree of black height \<open>n\<close> gives a valid tree.\<close>

fun cinv :: "ctx \<Rightarrow> nat \<Rightarrow> bool" where
  "cinv [] n = True"
| "cinv (CL c a r # fs) n =
     (invc r \<and> invh r \<and> bheight r = n \<and>
      (c = RB_RED \<and> col r = RB_BLACK \<and> ccol fs = RB_BLACK \<or> c = RB_BLACK) \<and>
      cinv fs (n + (if c = RB_BLACK then 1 else 0)))"
| "cinv (CR c l a # fs) n =
     (invc l \<and> invh l \<and> bheight l = n \<and>
      (c = RB_RED \<and> col l = RB_BLACK \<and> ccol fs = RB_BLACK \<or> c = RB_BLACK) \<and>
      cinv fs (n + (if c = RB_BLACK then 1 else 0)))"

lemma invc_paint: "invc t \<Longrightarrow> invc (paint RB_BLACK t)"
  by (cases t) simp_all

lemma bheight_paint_black [simp]: "col t = RB_RED \<Longrightarrow> bheight (paint RB_BLACK t) = Suc (bheight t)"
  by (cases t) simp_all

lemma invh_paint [simp]: "invh (paint c t) = invh t"
  by (cases t) simp_all

lemma invc_col: "invc t \<Longrightarrow> col t = RB_RED \<or> col t = RB_BLACK"
  by (cases t) auto

lemma plug_inv:
  "cinv fs (bheight t) \<Longrightarrow> invc t \<Longrightarrow> invh t \<Longrightarrow> ccol fs = RB_RED \<longrightarrow> col t = RB_BLACK \<Longrightarrow>
   invc (plug fs t) \<and> invh (plug fs t)"
  by (induction fs arbitrary: t rule: cleft.induct) (auto split: if_splits)

lemma cinv_ccol: "cinv fs n \<Longrightarrow> ccol fs = RB_RED \<or> ccol fs = RB_BLACK"
  by (cases fs rule: cleft.cases) auto

lemma unplug_inv:
  "invc (plug fs t) \<Longrightarrow> invh (plug fs t) \<Longrightarrow>
   cinv fs (bheight t) \<and> invc t \<and> invh t \<and> (ccol fs = RB_RED \<longrightarrow> col t = RB_BLACK)"
proof (induction fs arbitrary: t)
  case (Cons f fs)
  then have "cinv fs (bheight (plug1 f t)) \<and> invc (plug1 f t) \<and> invh (plug1 f t) \<and>
      (ccol fs = RB_RED \<longrightarrow> col (plug1 f t) = RB_BLACK)" by simp
  then show ?case using cinv_ccol [of fs] by (cases f) auto
qed simp

lemma col_plug: "col (plug fs t) = (if fs = [] then col t else fcol (last fs))"
proof (induction fs arbitrary: t)
  case (Cons f fs)
  then show ?case by (cases f) simp_all
qed simp

section \<open>Insertion\<close>

text \<open>
  The zipper algorithm of \<open>rb_insert_fixup\<close>: the hole holds the red node \<open>x\<close>. With a red
  uncle the conflict moves two levels up; otherwise one or two rotations end it.
\<close>

fun ins_fix :: "ctx \<Rightarrow> rbt \<Rightarrow> rbt" where
  "ins_fix (CL pc p pr # CL gc g u # fs) t =
     (if pc \<noteq> RB_RED then plug (CL pc p pr # CL gc g u # fs) t
      else if col u = RB_RED
      then ins_fix fs (Node RB_RED (Node RB_BLACK t p pr) g (paint RB_BLACK u))
      else plug fs (Node RB_BLACK t p (Node RB_RED pr g u)))"
| "ins_fix (CR pc pl p # CL gc g u # fs) (Node c l x r) =
     (if pc \<noteq> RB_RED then plug (CR pc pl p # CL gc g u # fs) (Node c l x r)
      else if col u = RB_RED
      then ins_fix fs (Node RB_RED (Node RB_BLACK pl p (Node c l x r)) g (paint RB_BLACK u))
      else plug fs (Node RB_BLACK (Node pc pl p l) x (Node RB_RED r g u)))"
| "ins_fix (CR pc pl p # CR gc u g # fs) t =
     (if pc \<noteq> RB_RED then plug (CR pc pl p # CR gc u g # fs) t
      else if col u = RB_RED
      then ins_fix fs (Node RB_RED (paint RB_BLACK u) g (Node RB_BLACK pl p t))
      else plug fs (Node RB_BLACK (Node RB_RED u g pl) p t))"
| "ins_fix (CL pc p pr # CR gc u g # fs) (Node c l x r) =
     (if pc \<noteq> RB_RED then plug (CL pc p pr # CR gc u g # fs) (Node c l x r)
      else if col u = RB_RED
      then ins_fix fs (Node RB_RED (paint RB_BLACK u) g (Node RB_BLACK (Node c l x r) p pr))
      else plug fs (Node RB_BLACK (Node RB_RED u g l) x (Node pc r p pr)))"
| "ins_fix fs t = plug fs t"

lemma ins_fix_exit:
  "fs = [] \<or> fcol (hd fs) \<noteq> RB_RED \<or> tl fs = [] \<Longrightarrow> ins_fix fs (Node c l x r) = plug fs (Node c l x r)"
  by (cases "(fs, Node c l x r)" rule: ins_fix.cases) auto

lemma inorder_ins_fix: "inorder (ins_fix fs t) = inorder (plug fs t)"
  by (induction fs t rule: ins_fix.induct) (auto simp: inorder_plug)

lemma plug_rb_inv:
  assumes "cinv fs (bheight t)" "invc t" "invh t" "ccol fs = RB_RED \<longrightarrow> col t = RB_BLACK"
  shows "rb_inv (paint RB_BLACK (plug fs t))"
  using plug_inv [OF assms] by (simp add: rb_inv_def invc_paint)

lemma plug1_inv [simp]:
  "cinv [f] (bheight t) \<Longrightarrow> invc t \<Longrightarrow> invh t \<Longrightarrow> invc (paint RB_BLACK (plug1 f t)) \<and> invh (plug1 f t)"
  by (cases f) auto

lemma ins_fix_inv:
  "invc t \<Longrightarrow> invh t \<Longrightarrow> col t = RB_RED \<Longrightarrow> cinv fs (bheight t) \<Longrightarrow>
   rb_inv (paint RB_BLACK (ins_fix fs t))"
proof (induction fs t rule: ins_fix.induct)
  case (1 pc p pr gc g u fs t)
  show ?case
  proof (cases "pc = RB_RED \<and> col u \<noteq> RB_RED")
    case True
    then show ?thesis using "1.prems" invc_col [of u] plug_rb_inv [of fs "Node RB_BLACK t p (Node RB_RED pr g u)"] by auto
  next
    case False
    then show ?thesis using "1.IH" "1.prems" plug_rb_inv [of "CL pc p pr # CL gc g u # fs" "t"]
      by (auto simp: invc_paint)
  qed
next
  case (2 pc pl p gc g u fs c l x r)
  show ?case
  proof (cases "pc = RB_RED \<and> col u \<noteq> RB_RED")
    case True
    then show ?thesis using "2.prems" invc_col [of u] plug_rb_inv [of fs "Node RB_BLACK (Node pc pl p l) x (Node RB_RED r g u)"] by auto
  next
    case False
    then show ?thesis using "2.IH" "2.prems" plug_rb_inv [of "CR pc pl p # CL gc g u # fs" "Node c l x r"]
      by (auto simp: invc_paint)
  qed
next
  case (3 pc pl p gc u g fs t)
  show ?case
  proof (cases "pc = RB_RED \<and> col u \<noteq> RB_RED")
    case True
    then show ?thesis using "3.prems" invc_col [of u] plug_rb_inv [of fs "Node RB_BLACK (Node RB_RED u g pl) p t"] by auto
  next
    case False
    then show ?thesis using "3.IH" "3.prems" plug_rb_inv [of "CR pc pl p # CR gc u g # fs" "t"]
      by (auto simp: invc_paint)
  qed
next
  case (4 pc p pr gc u g fs c l x r)
  show ?case
  proof (cases "pc = RB_RED \<and> col u \<noteq> RB_RED")
    case True
    then show ?thesis using "4.prems" invc_col [of u] plug_rb_inv [of fs "Node RB_BLACK (Node RB_RED u g l) x (Node pc r p pr)"] by auto
  next
    case False
    then show ?thesis using "4.IH" "4.prems" plug_rb_inv [of "CL pc p pr # CR gc u g # fs" "Node c l x r"]
      by (auto simp: invc_paint)
  qed
next
qed (auto simp: rb_inv_def invc_paint)

section \<open>Deletion\<close>

text \<open>
  The last step of \<open>rb_delete_fixup\<close> (cases 3 and 4): the sibling has a red child, and one
  or two rotations give the missing black node back.
\<close>

fun del_rot_L :: "u8 \<Rightarrow> rbt \<Rightarrow> addr \<Rightarrow> rbt \<Rightarrow> rbt" where
  "del_rot_L pc t p (Node sc sl s sr) =
     (if col sr = RB_RED then Node pc (Node RB_BLACK t p sl) s (paint RB_BLACK sr)
      else case sl of
        Node _ a q b \<Rightarrow> Node pc (Node RB_BLACK t p a) q (Node RB_BLACK b s sr)
      | Leaf \<Rightarrow> Node pc t p (Node sc sl s sr))"
| "del_rot_L pc t p Leaf = Node pc t p Leaf"

fun del_rot_R :: "u8 \<Rightarrow> rbt \<Rightarrow> addr \<Rightarrow> rbt \<Rightarrow> rbt" where
  "del_rot_R pc (Node sc sl s sr) p t =
     (if col sl = RB_RED then Node pc (paint RB_BLACK sl) s (Node RB_BLACK sr p t)
      else case sr of
        Node _ a q b \<Rightarrow> Node pc (Node RB_BLACK sl s a) q (Node RB_BLACK b p t)
      | Leaf \<Rightarrow> Node pc (Node sc sl s sr) p t)"
| "del_rot_R pc Leaf p t = Node pc Leaf p t"

text \<open>
  The zipper algorithm of \<open>rb_delete_fixup\<close>: the tree \<open>t\<close> in the hole is one black node
  short. A red sibling (case 1) is rotated up first.
\<close>

fun del_fix :: "ctx \<Rightarrow> rbt \<Rightarrow> rbt" where
  "del_fix [] t = paint RB_BLACK t"
| "del_fix (CL pc p sib # fs) t =
     (if col t = RB_RED then plug (CL pc p sib # fs) (paint RB_BLACK t)
      else case sib of
        Leaf \<Rightarrow> plug (CL pc p sib # fs) t
      | Node sc sl s sr \<Rightarrow>
          if sc = RB_RED then
            (case sl of
               Leaf \<Rightarrow> plug (CL pc p sib # fs) t
             | Node qc a q b \<Rightarrow>
                 if col a \<noteq> RB_RED \<and> col b \<noteq> RB_RED
                 then plug (CL RB_BLACK s sr # fs) (Node RB_BLACK t p (Node RB_RED a q b))
                 else paint RB_BLACK (plug (CL RB_BLACK s sr # fs) (del_rot_L RB_RED t p sl)))
          else if col sl \<noteq> RB_RED \<and> col sr \<noteq> RB_RED
          then del_fix fs (Node pc t p (Node RB_RED sl s sr))
          else paint RB_BLACK (plug fs (del_rot_L pc t p sib)))"
| "del_fix (CR pc sib p # fs) t =
     (if col t = RB_RED then plug (CR pc sib p # fs) (paint RB_BLACK t)
      else case sib of
        Leaf \<Rightarrow> plug (CR pc sib p # fs) t
      | Node sc sl s sr \<Rightarrow>
          if sc = RB_RED then
            (case sr of
               Leaf \<Rightarrow> plug (CR pc sib p # fs) t
             | Node qc a q b \<Rightarrow>
                 if col a \<noteq> RB_RED \<and> col b \<noteq> RB_RED
                 then plug (CR RB_BLACK sl s # fs) (Node RB_BLACK (Node RB_RED a q b) p t)
                 else paint RB_BLACK (plug (CR RB_BLACK sl s # fs) (del_rot_R RB_RED sr p t)))
          else if col sl \<noteq> RB_RED \<and> col sr \<noteq> RB_RED
          then del_fix fs (Node pc (Node RB_RED sl s sr) p t)
          else paint RB_BLACK (plug fs (del_rot_R pc sib p t)))"

lemma inorder_del_rot:
  "inorder (del_rot_L pc t p sib) = inorder t @ p # inorder sib"
  "inorder (del_rot_R pc sib p t) = inorder sib @ p # inorder t"
  by (cases sib; auto split: rbt.splits)+

lemma inorder_del_fix: "inorder (del_fix fs t) = inorder (plug fs t)"
  by (induction fs t rule: del_fix.induct)
    (auto simp: inorder_plug inorder_del_rot split: rbt.splits)

lemma plug_rb_inv_root:
  assumes "cinv fs (bheight t)" "invc t" "invh t" "ccol fs = RB_RED \<longrightarrow> col t = RB_BLACK"
    and "fs \<noteq> []" "fcol (last fs) = RB_BLACK"
  shows "rb_inv (plug fs t)"
  using plug_inv [OF assms(1-4)] assms(5,6) by (simp add: rb_inv_def col_plug)

lemma del_rot_L_inv:
  assumes "invc t" "invh t" "col t = RB_BLACK" "invc sib" "invh sib" "bheight sib = Suc (bheight t)"
    and "pc = RB_RED \<or> pc = RB_BLACK"
    and "sib = Node RB_BLACK sl s sr" "col sl = RB_RED \<or> col sr = RB_RED"
  shows "invc (del_rot_L pc t p sib) \<and> invh (del_rot_L pc t p sib) \<and>
    bheight (del_rot_L pc t p sib) = bheight sib + (if pc = RB_BLACK then 1 else 0) \<and>
    col (del_rot_L pc t p sib) = pc"
  using assms invc_col [of sr] by (auto simp: invc_paint split: rbt.splits)

lemma del_rot_R_inv:
  assumes "invc t" "invh t" "col t = RB_BLACK" "invc sib" "invh sib" "bheight sib = Suc (bheight t)"
    and "pc = RB_RED \<or> pc = RB_BLACK"
    and "sib = Node RB_BLACK sl s sr" "col sl = RB_RED \<or> col sr = RB_RED"
  shows "invc (del_rot_R pc sib p t) \<and> invh (del_rot_R pc sib p t) \<and>
    bheight (del_rot_R pc sib p t) = bheight sib + (if pc = RB_BLACK then 1 else 0) \<and>
    col (del_rot_R pc sib p t) = pc"
  using assms invc_col [of sl] by (auto simp: invc_paint split: rbt.splits)

lemma paint_black_id: "col t = RB_BLACK \<Longrightarrow> paint RB_BLACK t = t"
  by (cases t) simp_all

lemma del_fix_inv_red_sibling_L:
  assumes t: "invc t" "invh t" "col t = RB_BLACK"
    and c: "cinv (CL pc p sib # fs) (Suc (bheight t))"
    and root: "fcol (last (CL pc p sib # fs)) = RB_BLACK"
    and sib: "sib = Node RB_RED sl s sr"
  shows "rb_inv (del_fix (CL pc p sib # fs) t)"
proof -
  from c sib have pc: "pc = RB_BLACK" and cs: "cinv (CL RB_BLACK s sr # fs) (bheight sl)"
    and sl: "invc sl" "invh sl" "col sl = RB_BLACK" "bheight sl = Suc (bheight t)"
    by auto
  from sl(3,4) obtain a q b where n: "sl = Node RB_BLACK a q b" by (cases sl) auto
  have last: "fcol (last (CL RB_BLACK s sr # fs)) = RB_BLACK" using root by auto
  show ?thesis
  proof (cases "col a \<noteq> RB_RED \<and> col b \<noteq> RB_RED")
    case True
    then have "rb_inv (plug (CL RB_BLACK s sr # fs) (Node RB_BLACK t p (Node RB_RED a q b)))"
      using t sl n cs last invc_col [of a] invc_col [of b] by (intro plug_rb_inv_root) auto
    with True sib n t(3) show ?thesis by simp
  next
    case False
    then have "rb_inv (paint RB_BLACK (plug (CL RB_BLACK s sr # fs) (del_rot_L RB_RED t p sl)))"
      using del_rot_L_inv [OF t sl(1,2,4) _ n, of RB_RED p] cs sl(4) by (intro plug_rb_inv) auto
    with False sib n t(3) show ?thesis by auto
  qed
qed

lemma del_fix_inv_rot_L:
  assumes t: "invc t" "invh t" "col t = RB_BLACK"
    and c: "cinv (CL pc p sib # fs) (Suc (bheight t))"
    and sib: "sib = Node RB_BLACK sl s sr" "col sl = RB_RED \<or> col sr = RB_RED"
  shows "rb_inv (del_fix (CL pc p sib # fs) t)"
proof -
  from c have s: "invc sib" "invh sib" "bheight sib = Suc (bheight t)" "pc = RB_RED \<or> pc = RB_BLACK"
    by auto
  have "rb_inv (paint RB_BLACK (plug fs (del_rot_L pc t p sib)))"
    using del_rot_L_inv [OF t s sib, of p] c by (intro plug_rb_inv) auto
  with sib t(3) show ?thesis by auto
qed

lemma del_fix_inv_red_sibling_R:
  assumes t: "invc t" "invh t" "col t = RB_BLACK"
    and c: "cinv (CR pc sib p # fs) (Suc (bheight t))"
    and root: "fcol (last (CR pc sib p # fs)) = RB_BLACK"
    and sib: "sib = Node RB_RED sl s sr"
  shows "rb_inv (del_fix (CR pc sib p # fs) t)"
proof -
  from c sib have pc: "pc = RB_BLACK" and cs: "cinv (CR RB_BLACK sl s # fs) (bheight sr)"
    and sl: "invc sr" "invh sr" "col sr = RB_BLACK" "bheight sr = Suc (bheight t)"
    by auto
  from sl(3,4) obtain a q b where n: "sr = Node RB_BLACK a q b" by (cases sr) auto
  have last: "fcol (last (CR RB_BLACK sl s # fs)) = RB_BLACK" using root by auto
  show ?thesis
  proof (cases "col a \<noteq> RB_RED \<and> col b \<noteq> RB_RED")
    case True
    then have "rb_inv (plug (CR RB_BLACK sl s # fs) (Node RB_BLACK (Node RB_RED a q b) p t))"
      using t sl n cs last invc_col [of a] invc_col [of b] by (intro plug_rb_inv_root) auto
    with True sib n t(3) show ?thesis by simp
  next
    case False
    then have "rb_inv (paint RB_BLACK (plug (CR RB_BLACK sl s # fs) (del_rot_R RB_RED sr p t)))"
      using del_rot_R_inv [OF t sl(1,2,4) _ n, of RB_RED p] cs sl(4) by (intro plug_rb_inv) auto
    with False sib n t(3) show ?thesis by auto
  qed
qed

lemma del_fix_inv_rot_R:
  assumes t: "invc t" "invh t" "col t = RB_BLACK"
    and c: "cinv (CR pc sib p # fs) (Suc (bheight t))"
    and sib: "sib = Node RB_BLACK sl s sr" "col sl = RB_RED \<or> col sr = RB_RED"
  shows "rb_inv (del_fix (CR pc sib p # fs) t)"
proof -
  from c have s: "invc sib" "invh sib" "bheight sib = Suc (bheight t)" "pc = RB_RED \<or> pc = RB_BLACK"
    by auto
  have "rb_inv (paint RB_BLACK (plug fs (del_rot_R pc sib p t)))"
    using del_rot_R_inv [OF t s sib, of p] c by (intro plug_rb_inv) auto
  with sib t(3) show ?thesis by auto
qed

text \<open>
  The tree in the hole may be red with a red child (case 2 below a red parent): it is
  painted black when the loop stops there, so only \<open>paint RB_BLACK t\<close> has to be valid.
\<close>

definition del_pre :: "ctx \<Rightarrow> rbt \<Rightarrow> bool" where
  "del_pre fs t \<longleftrightarrow>
     invc (paint RB_BLACK t) \<and> invh t \<and> cinv fs (Suc (bheight t)) \<and>
     (col t = RB_RED \<or> col t = RB_BLACK) \<and> (fs \<noteq> [] \<longrightarrow> fcol (last fs) = RB_BLACK)"

lemma del_fix_inv_L:
  assumes IH: "\<And>t. del_pre fs t \<Longrightarrow> rb_inv (del_fix fs t)" and pre: "del_pre (CL pc p sib # fs) t"
  shows "rb_inv (del_fix (CL pc p sib # fs) t)"
proof (cases "col t = RB_RED")
  case True
  then show ?thesis using pre
    plug_rb_inv_root [of "CL pc p sib # fs" "paint RB_BLACK t"] by (simp add: del_pre_def)
next
  case False
  with pre have t: "invc t" "invh t" "col t = RB_BLACK"
    and c: "cinv (CL pc p sib # fs) (Suc (bheight t))"
    and root: "fcol (last (CL pc p sib # fs)) = RB_BLACK" "fs \<noteq> [] \<longrightarrow> fcol (last fs) = RB_BLACK"
    by (auto simp: paint_black_id del_pre_def split: if_splits)
  obtain sc sl s sr where sib: "sib = Node sc sl s sr" using c by (cases sib) auto
  have sc: "sc = RB_RED \<or> sc = RB_BLACK" using sib c by auto
  show ?thesis
  proof (cases "sc = RB_RED")
    case True
    with sib t c root show ?thesis by (intro del_fix_inv_red_sibling_L) auto
  next
    case black: False
    show ?thesis
    proof (cases "col sl = RB_RED \<or> col sr = RB_RED")
      case True
      with sib black sc t c show ?thesis by (intro del_fix_inv_rot_L) auto
    next
      case False
      with c sib black t root(2) have "del_pre fs (Node pc t p (Node RB_RED sl s sr))"
        using invc_col [of sl] invc_col [of sr] by (auto simp: del_pre_def)
      from IH [OF this] show ?thesis using False sib black t by simp
    qed
  qed
qed

lemma del_fix_inv_R:
  assumes IH: "\<And>t. del_pre fs t \<Longrightarrow> rb_inv (del_fix fs t)" and pre: "del_pre (CR pc sib p # fs) t"
  shows "rb_inv (del_fix (CR pc sib p # fs) t)"
proof (cases "col t = RB_RED")
  case True
  then show ?thesis using pre
    plug_rb_inv_root [of "CR pc sib p # fs" "paint RB_BLACK t"] by (simp add: del_pre_def)
next
  case False
  with pre have t: "invc t" "invh t" "col t = RB_BLACK"
    and c: "cinv (CR pc sib p # fs) (Suc (bheight t))"
    and root: "fcol (last (CR pc sib p # fs)) = RB_BLACK" "fs \<noteq> [] \<longrightarrow> fcol (last fs) = RB_BLACK"
    by (auto simp: paint_black_id del_pre_def split: if_splits)
  obtain sc sl s sr where sib: "sib = Node sc sl s sr" using c by (cases sib) auto
  have sc: "sc = RB_RED \<or> sc = RB_BLACK" using sib c by auto
  show ?thesis
  proof (cases "sc = RB_RED")
    case True
    with sib t c root show ?thesis by (intro del_fix_inv_red_sibling_R) auto
  next
    case black: False
    show ?thesis
    proof (cases "col sl = RB_RED \<or> col sr = RB_RED")
      case True
      with sib black sc t c show ?thesis by (intro del_fix_inv_rot_R) auto
    next
      case False
      with c sib black t root(2) have "del_pre fs (Node pc (Node RB_RED sl s sr) p t)"
        using invc_col [of sl] invc_col [of sr] by (auto simp: del_pre_def)
      from IH [OF this] show ?thesis using False sib black t by simp
    qed
  qed
qed

lemma del_fix_inv: "del_pre fs t \<Longrightarrow> rb_inv (del_fix fs t)"
proof (induction fs arbitrary: t)
  case Nil
  then show ?case by (simp add: rb_inv_def del_pre_def)
next
  case (Cons f fs)
  show ?case
  proof (cases f)
    case (CL pc p sib)
    with Cons show ?thesis using del_fix_inv_L by blast
  next
    case (CR pc sib p)
    with Cons show ?thesis using del_fix_inv_R by blast
  qed
qed

text \<open>
  \<open>rb_minimum\<close> as a split of a tree at its leftmost node: the path to it, its colour, the
  node and its right subtree.
\<close>

fun min_split :: "rbt \<Rightarrow> ctx \<times> u8 \<times> addr \<times> rbt" where
  "min_split Leaf = ([], RB_BLACK, NULL, Leaf)"
| "min_split (Node c Leaf a r) = ([], c, a, r)"
| "min_split (Node c l a r) =
     (case min_split l of (fs, d, y, yr) \<Rightarrow> (fs @ [CL c a r], d, y, yr))"

lemma plug_min_split:
  "t \<noteq> Leaf \<Longrightarrow> min_split t = (fs, c, y, yr) \<Longrightarrow> plug fs (Node c Leaf y yr) = t"
  by (induction t arbitrary: fs rule: min_split.induct) (auto split: prod.splits)

text \<open>Removing the node at the hole, as \<open>rb_delete\<close> does.\<close>

definition del_node :: "ctx \<Rightarrow> u8 \<Rightarrow> rbt \<Rightarrow> rbt \<Rightarrow> rbt" where
  "del_node fs c l r =
     (if l = Leaf then (if c = RB_BLACK then del_fix fs r else plug fs r)
      else if r = Leaf then (if c = RB_BLACK then del_fix fs l else plug fs l)
      else case min_split r of (ms, cy, y, yr) \<Rightarrow>
        if cy = RB_BLACK then del_fix (ms @ CR c l y # fs) yr
        else plug (ms @ CR c l y # fs) yr)"

lemma cleft_append [simp]: "cleft (fs @ gs) = cleft gs @ cleft fs"
  by (induction fs rule: cleft.induct) simp_all

lemma cright_append [simp]: "cright (fs @ gs) = cright fs @ cright gs"
  by (induction fs rule: cright.induct) simp_all

lemma inorder_del_node:
  "inorder (del_node fs c l r) = cleft fs @ inorder l @ inorder r @ cright fs"
proof (cases "l = Leaf \<or> r = Leaf")
  case False
  obtain ms cy y yr where m: "min_split r = (ms, cy, y, yr)" by (metis prod_cases4)
  have "inorder r = cleft ms @ y # inorder yr @ cright ms"
    using plug_min_split [OF _ m] False inorder_plug [of ms "Node cy Leaf y yr"] by simp
  moreover have "cleft ms = []"
    using m by (induction r arbitrary: ms rule: min_split.induct) (auto split: prod.splits)
  ultimately show ?thesis using False m by (auto simp: del_node_def inorder_del_fix inorder_plug)
qed (auto simp: del_node_def inorder_del_fix inorder_plug)

lemma cinv_addr: "cinv (ms @ CR c l y # fs) n = cinv (ms @ CR c l z # fs) n"
proof (induction ms arbitrary: n)
  case (Cons f ms)
  have "ccol (ms @ CR c l y # fs) = ccol (ms @ CR c l z # fs)" by (cases ms) simp_all
  with Cons show ?case by (cases f) simp_all
qed simp

lemma ccol_addr: "ccol (ms @ CR c l y # fs) = ccol (ms @ CR c l z # fs)"
  by (cases ms) simp_all

lemma unplug_root:
  assumes "rb_inv (plug fs t)"
  shows "cinv fs (bheight t)" "invc t" "invh t" "ccol fs = RB_RED \<longrightarrow> col t = RB_BLACK"
    "fs = [] \<longrightarrow> col t = RB_BLACK" "fs \<noteq> [] \<longrightarrow> fcol (last fs) = RB_BLACK"
  using assms unplug_inv [of fs t] by (auto simp: rb_inv_def col_plug split: if_splits)

lemma remove_pre:
  assumes "rb_inv (plug fs (Node RB_BLACK l z r))" and "l = Leaf \<and> t = r \<or> r = Leaf \<and> t = l"
  shows "del_pre fs t"
  using unplug_root [OF assms(1)] assms(2) by (auto simp: del_pre_def invc_paint dest: invc_col)

lemma remove_inv:
  assumes inv: "rb_inv (plug fs (Node c l z r))" and leaf: "l = Leaf \<and> t = r \<or> r = Leaf \<and> t = l"
  shows "rb_inv (if c = RB_BLACK then del_fix fs t else plug fs t)"
proof (cases "c = RB_BLACK")
  case True
  with inv leaf show ?thesis using remove_pre [of fs l z r t] by (simp add: del_fix_inv)
next
  case False
  then have "rb_inv (plug fs t)" using unplug_root [OF inv] leaf cinv_ccol [of fs "bheight (Node c l z r)"]
    by (intro plug_rb_inv_root) auto
  with False show ?thesis by simp
qed

text \<open>The tree with the successor in the place of the removed node, before it is unlinked below.\<close>

lemma successor_inv:
  assumes inv: "rb_inv (plug fs (Node c l z r))" and r: "plug ms (Node cy Leaf y yr) = r"
  shows "rb_inv (plug (ms @ CR c l y # fs) (Node cy Leaf y yr))"
proof -
  have "rb_inv (plug (ms @ CR c l z # fs) (Node cy Leaf y yr))" using inv r by simp
  from unplug_root [OF this] show ?thesis
    by (intro plug_rb_inv_root) (auto simp: cinv_addr [of ms c l y fs _ z] ccol_addr [of ms c l y fs z])
qed

lemma del_node_inv:
  assumes inv: "rb_inv (plug fs (Node c l z r))"
  shows "rb_inv (del_node fs c l r)"
proof (cases "l = Leaf \<or> r = Leaf")
  case True
  then show ?thesis using remove_inv [OF inv, of r] remove_inv [OF inv, of l]
    by (auto simp: del_node_def)
next
  case False
  obtain ms cy y yr where m: "min_split r = (ms, cy, y, yr)" by (metis prod_cases4)
  then have "plug ms (Node cy Leaf y yr) = r" using False by (intro plug_min_split) auto
  from remove_inv [OF successor_inv [OF inv this], of yr] show ?thesis
    using False m by (simp add: del_node_def)
qed

end
