(* ===== verification/Rb_Fixup.thy ===== *)
theory Rb_Fixup
  imports Rb_Zipper
begin

text \<open>
  The pointer code of the two fixup loops of \<^verbatim>\<open>rb_tree.c\<close> computes the zipper functions: every pass of a loop takes a represented zipper to the next
  one, without a \<open>NULL\<close> dereference, and the loops end.
\<close>

section \<open>Insertion\<close>

lemma red_uncle_test:
  assumes "rep F s fs (Node k t g u)" 
  shows "(if ptr u \<noteq> NULL then do { n \<leftarrow> rd s (ptr u); Some (color n = RB_RED) } else Some False)
    = Some (col u = RB_RED)"
  using assms by (cases u) (auto simp: rep_def)

lemma red_uncle_test_L:
  assumes "rep F s fs (Node k u g t)" 
  shows "(if ptr u \<noteq> NULL then do { n \<leftarrow> rd s (ptr u); Some (color n = RB_RED) } else Some False)
    = Some (col u = RB_RED)"
  using assms by (cases u) (auto simp: rep_def)

lemma cpar_faddr [simp]: "cpar (f # fs) = faddr f"
  by (cases f) simp_all

lemma plug1_fpaint: "plug1 (fpaint d f) t = paint d (plug1 f t)"
  by (cases f) simp_all

lemma rep_frame:
  assumes "rep F s (f # fs) t"
  shows "faddr f \<noteq> NULL" "parent (rb_mem s (faddr f)) = cpar fs"
  using assms by (cases f; auto simp: rep_def)+

lemma rep_recolor_frame:
  "rep F s (f # fs) t \<Longrightarrow> rep F (recolor s (faddr f) d) fs (paint d (plug1 f t))"
  by (cases f) (auto dest: rep_recolor simp: rep_plug1)

lemma rep_frame_plug: "rep F s (f # gf # fs) t \<Longrightarrow> rep F s (gf # fs) (plug1 f t)"
  by (simp add: rep_plug1)

text \<open>Red uncle: three recolourings, and the conflict moves to the grandparent.\<close>

lemma body_red_L:
  assumes r: "rep F s (f # CL gc g u # fs) (Node c l x r)" and u: "col u = RB_RED"
  shows "\<exists>s'. rb_insert_fixup_body s x = Some (s', g) \<and>
    rep F s' fs (Node RB_RED (paint RB_BLACK (plug1 f (Node c l x r))) g (paint RB_BLACK u))"
proof -
  obtain ul ua ur where U: "u = Node RB_RED ul ua ur" using red_Node [OF u] by blast
  note x = rep_node [OF r] and p = rep_frame [OF r] and g = rep_CL [OF rep_frame_plug [OF r]]
  let ?T = "paint RB_BLACK (plug1 f (Node c l x r))"
  define s1 where "s1 = recolor s (faddr f) RB_BLACK"
  define s2 where "s2 = recolor s1 ua RB_BLACK"
  define s3 where "s3 = recolor s2 g RB_RED"
  have "rep F s1 fs (Node gc ?T g u)"
    using rep_recolor_frame [OF r, of RB_BLACK] by (simp add: s1_def rep_up_L)
  then have "rep F s2 fs (Node gc ?T g (Node RB_BLACK ul ua ur))"
    unfolding s2_def U by (rule rep_recolor_sub_R)
  then have "rep F s3 fs (Node RB_RED ?T g (Node RB_BLACK ul ua ur))"
    unfolding s3_def by (rule rep_recolor)
  moreover have "ua \<noteq> NULL" using rep_frame_plug [OF r] U by (auto simp: rep_def)
  then have "rb_insert_fixup_body s x = Some (s3, g)"
    using red_uncle_test [OF rep_frame_plug [OF r, unfolded rep_up_L]] u x p g
    by (cases f) (simp_all add: rb_insert_fixup_body_def upd_color heap_simps s1_def s2_def s3_def U del: upd_Some)
  ultimately show ?thesis using U by simp
qed

lemma body_red_R:
  assumes r: "rep F s (f # CR gc u g # fs) (Node c l x r)" and u: "col u = RB_RED"
  shows "\<exists>s'. rb_insert_fixup_body s x = Some (s', g) \<and>
    rep F s' fs (Node RB_RED (paint RB_BLACK u) g (paint RB_BLACK (plug1 f (Node c l x r))))"
proof -
  obtain ul ua ur where U: "u = Node RB_RED ul ua ur" using red_Node [OF u] by blast
  note x = rep_node [OF r] and p = rep_frame [OF r] and g = rep_CR [OF rep_frame_plug [OF r]]
  let ?T = "paint RB_BLACK (plug1 f (Node c l x r))"
  define s1 where "s1 = recolor s (faddr f) RB_BLACK"
  define s2 where "s2 = recolor s1 ua RB_BLACK"
  define s3 where "s3 = recolor s2 g RB_RED"
  have "rep F s1 fs (Node gc u g ?T)"
    using rep_recolor_frame [OF r, of RB_BLACK] by (simp add: s1_def rep_up_R)
  then have "rep F s2 fs (Node gc (Node RB_BLACK ul ua ur) g ?T)"
    unfolding s2_def U by (rule rep_recolor_sub_L)
  then have "rep F s3 fs (Node RB_RED (Node RB_BLACK ul ua ur) g ?T)"
    unfolding s3_def by (rule rep_recolor)
  moreover have "ua \<noteq> NULL" using rep_frame_plug [OF r] U by (auto simp: rep_def)
  moreover have "ua \<noteq> faddr f" using r U by (cases f) (auto simp: rep_def)
  ultimately have "rb_insert_fixup_body s x = Some (s3, g)"
    using red_uncle_test_L [OF rep_frame_plug [OF r, unfolded rep_up_R]] u x p g
    by (cases f) (simp_all add: rb_insert_fixup_body_def upd_color heap_simps s1_def s2_def s3_def U del: upd_Some)
  with \<open>rep F s3 fs _\<close> show ?thesis using U by simp
qed

text \<open>Black uncle, outer grandchild: one rotation.\<close>

lemma body_black_LL:
  assumes r: "rep F s (CL pc p pr # CL gc g u # fs) (Node c l x r)" and u: "col u \<noteq> RB_RED"
  shows "\<exists>s'. rb_insert_fixup_body s x = Some (s', x) \<and>
    rep F s' fs (Node RB_BLACK (Node c l x r) p (Node RB_RED pr g u))"
proof -
  note x = rep_node [OF r] and p = rep_CL [OF r] and g = rep_CL [OF rep_frame_plug [OF r]]
  define s2 where "s2 = recolor (recolor s p RB_BLACK) g RB_RED"
  have "rep F s2 fs (Node RB_RED (Node RB_BLACK (Node c l x r) p pr) g u)"
    using rep_recolor [OF rep_recolor_frame [OF r, of RB_BLACK, unfolded rep_up_L]] by (simp add: s2_def)
  from rotate_right_rep [OF this] obtain s3 where
    s3: "rb_rotate_right s2 g = Some s3" "rep F s3 fs (Node RB_BLACK (Node c l x r) p (Node RB_RED pr g u))"
    by blast
  have "x \<noteq> ptr pr" using p(8) x(1) by simp
  then have "rb_insert_fixup_body s x = Some (s3, x)"
    using red_uncle_test [OF rep_frame_plug [OF r, unfolded rep_up_L]] u x p g s3(1)
    by (simp add: rb_insert_fixup_body_def upd_color heap_simps s2_def del: upd_Some)
  with s3(2) show ?thesis by blast
qed

lemma body_black_RR:
  assumes r: "rep F s (CR pc pl p # CR gc u g # fs) (Node c l x r)" and u: "col u \<noteq> RB_RED"
  shows "\<exists>s'. rb_insert_fixup_body s x = Some (s', x) \<and>
    rep F s' fs (Node RB_BLACK (Node RB_RED u g pl) p (Node c l x r))"
proof -
  note x = rep_node [OF r] and p = rep_CR [OF r] and g = rep_CR [OF rep_frame_plug [OF r]]
  define s2 where "s2 = recolor (recolor s p RB_BLACK) g RB_RED"
  have "rep F s2 fs (Node RB_RED u g (Node RB_BLACK pl p (Node c l x r)))"
    using rep_recolor [OF rep_recolor_frame [OF r, of RB_BLACK, unfolded rep_up_R]] by (simp add: s2_def)
  from rotate_left_rep [OF this] obtain s3 where
    s3: "rb_rotate_left s2 g = Some s3" "rep F s3 fs (Node RB_BLACK (Node RB_RED u g pl) p (Node c l x r))"
    by blast
  have "x \<noteq> ptr pl" using p(8) x(1) by simp
  then have "rb_insert_fixup_body s x = Some (s3, x)"
    using red_uncle_test_L [OF rep_frame_plug [OF r, unfolded rep_up_R]] u x p g s3(1)
    by (simp add: rb_insert_fixup_body_def upd_color heap_simps s2_def del: upd_Some)
  with s3(2) show ?thesis by blast
qed

text \<open>Black uncle, inner grandchild: two rotations; the old parent is the new \<open>x\<close>.\<close>

lemma body_black_LR:
  assumes r: "rep F s (CR pc pl p # CL gc g u # fs) (Node c l x r)" and u: "col u \<noteq> RB_RED"
  shows "\<exists>s'. rb_insert_fixup_body s x = Some (s', p) \<and>
    rep F s' fs (Node RB_BLACK (Node pc pl p l) x (Node RB_RED r g u))"
proof -
  note x = rep_node [OF r] and p = rep_CR [OF r] and g = rep_CL [OF rep_frame_plug [OF r]]
  obtain s1 where s1: "rb_rotate_left s p = Some s1"
    "rep F s1 (CL gc g u # fs) (Node c (Node pc pl p l) x r)"
    using rotate_left_rep [OF r [unfolded rep_up_R]] by blast
  then have r1: "rep F s1 (CL c x r # CL gc g u # fs) (Node pc pl p l)" by (simp add: rep_up_L)
  note p1 = rep_node [OF r1] and x1 = rep_CL [OF r1] and g1 = rep_CL [OF s1(2)]
  define s2 where "s2 = recolor (recolor s1 x RB_BLACK) g RB_RED"
  have "rep F s2 fs (Node RB_RED (Node RB_BLACK (Node pc pl p l) x r) g u)"
    using rep_recolor [OF rep_recolor_frame [OF r1, of RB_BLACK, unfolded rep_up_L]] by (simp add: s2_def)
  from rotate_right_rep [OF this] obtain s3 where
    s3: "rb_rotate_right s2 g = Some s3" "rep F s3 fs (Node RB_BLACK (Node pc pl p l) x (Node RB_RED r g u))"
    by blast
  have "rb_insert_fixup_body s x = Some (s3, p)"
    using red_uncle_test [OF rep_frame_plug [OF r, unfolded rep_up_L]] u x p g p1 x1 g1 s1(1) s3(1)
    by (simp add: rb_insert_fixup_body_def upd_color heap_simps s2_def del: upd_Some)
  with s3(2) show ?thesis by blast
qed

lemma body_black_RL:
  assumes r: "rep F s (CL pc p pr # CR gc u g # fs) (Node c l x r)" and u: "col u \<noteq> RB_RED"
  shows "\<exists>s'. rb_insert_fixup_body s x = Some (s', p) \<and>
    rep F s' fs (Node RB_BLACK (Node RB_RED u g l) x (Node pc r p pr))"
proof -
  note x = rep_node [OF r] and p = rep_CL [OF r] and g = rep_CR [OF rep_frame_plug [OF r]]
  obtain s1 where s1: "rb_rotate_right s p = Some s1"
    "rep F s1 (CR gc u g # fs) (Node c l x (Node pc r p pr))"
    using rotate_right_rep [OF r [unfolded rep_up_L]] by blast
  then have r1: "rep F s1 (CR c l x # CR gc u g # fs) (Node pc r p pr)" by (simp add: rep_up_R)
  note p1 = rep_node [OF r1] and x1 = rep_CR [OF r1] and g1 = rep_CR [OF s1(2)]
  define s2 where "s2 = recolor (recolor s1 x RB_BLACK) g RB_RED"
  have "rep F s2 fs (Node RB_RED u g (Node RB_BLACK l x (Node pc r p pr)))"
    using rep_recolor [OF rep_recolor_frame [OF r1, of RB_BLACK, unfolded rep_up_R]] by (simp add: s2_def)
  from rotate_left_rep [OF this] obtain s3 where
    s3: "rb_rotate_left s2 g = Some s3" "rep F s3 fs (Node RB_BLACK (Node RB_RED u g l) x (Node pc r p pr))"
    by blast
  have "rb_insert_fixup_body s x = Some (s3, p)"
    using red_uncle_test_L [OF rep_frame_plug [OF r, unfolded rep_up_R]] u x p g p1 x1 g1 s1(1) s3(1)
    by (simp add: rb_insert_fixup_body_def upd_color heap_simps s2_def del: upd_Some)
  with s3(2) show ?thesis by blast
qed

text \<open>
  The loop leaves at once when \<open>x\<close> is the root, or its parent is not red, or its parent is
  the root.
\<close>

lemma rep_fcol: "rep F s (f # fs) t \<Longrightarrow> color (rb_mem s (faddr f)) = fcol f"
  by (cases f) (auto simp: rep_def)

lemma fixup_loop_exit:
  assumes r: "rep F s fs (Node c l x r)"
    and stop: "fs = [] \<or> fcol (hd fs) \<noteq> RB_RED \<or> tl fs = []"
  shows "rb_insert_fixup_loop s x = Some s"
proof (cases fs)
  case Nil
  with rep_node [OF r] show ?thesis by (subst rb_insert_fixup_loop.simps) simp
next
  case (Cons f gs)
  with r have r': "rep F s (f # gs) (Node c l x r)" by simp
  note f = rep_frame [OF r'] rep_fcol [OF r']
  from Cons stop have "fcol f \<noteq> RB_RED \<or> gs = []" by simp
  then show ?thesis using rep_node [OF r'] f
    by (subst rb_insert_fixup_loop.simps) auto
qed

lemma fixup_loop_step:
  assumes r: "rep F s (f # gf # fs) (Node c l x r)" and red: "fcol f = RB_RED"
    and body: "rb_insert_fixup_body s x = Some (s', x')"
  shows "rb_insert_fixup_loop s x = rb_insert_fixup_loop s' x'"
proof -
  note f = rep_frame [OF r] rep_fcol [OF r] and x = rep_node [OF r]
  have "faddr gf \<noteq> NULL" using rep_frame [OF rep_frame_plug [OF r]] by simp
  with f x red body show ?thesis by (subst rb_insert_fixup_loop.simps) simp
qed

text \<open>After a rotation the parent is black, so the next test leaves the loop.\<close>

lemma fixup_loop_after_rotation:
  assumes "rep F s (f # fs) (Node c l x r)" "fcol f = RB_BLACK"
  shows "rb_insert_fixup_loop s x = Some s"
  using fixup_loop_exit [OF assms(1)] assms(2) by simp

lemma fixup_loop_black_L:
  assumes r: "rep F s (f # CL gc g u # gs) (Node c l x r)"
    and red: "fcol f = RB_RED" and black: "col u \<noteq> RB_RED"
  shows "\<exists>s'. rb_insert_fixup_loop s x = Some s' \<and>
    rep F s' [] (ins_fix (f # CL gc g u # gs) (Node c l x r))"
proof (cases f)
  case (CL pc p pr)
  from body_black_LL [OF r [unfolded CL] black] obtain s' where
    b: "rb_insert_fixup_body s x = Some (s', x)" and
    s': "rep F s' gs (Node RB_BLACK (Node c l x r) p (Node RB_RED pr g u))" by blast
  then have "rb_insert_fixup_loop s' x = Some s'"
    by (intro fixup_loop_after_rotation [of F s' "CL RB_BLACK p (Node RB_RED pr g u)" gs])
      (simp_all add: rep_up_L)
  with s' fixup_loop_step [OF r red b] show ?thesis
    using black red CL rep_top by simp
next
  case (CR pc pl p)
  from body_black_LR [OF r [unfolded CR] black] obtain s' where
    b: "rb_insert_fixup_body s x = Some (s', p)" and
    s': "rep F s' gs (Node RB_BLACK (Node pc pl p l) x (Node RB_RED r g u))" by blast
  then have "rb_insert_fixup_loop s' p = Some s'"
    by (intro fixup_loop_after_rotation [of F s' "CL RB_BLACK x (Node RB_RED r g u)" gs])
      (simp_all add: rep_up_L)
  with s' fixup_loop_step [OF r red b] show ?thesis
    using black red CR rep_top by simp
qed

lemma fixup_loop_black_R:
  assumes r: "rep F s (f # CR gc u g # gs) (Node c l x r)"
    and red: "fcol f = RB_RED" and black: "col u \<noteq> RB_RED"
  shows "\<exists>s'. rb_insert_fixup_loop s x = Some s' \<and>
    rep F s' [] (ins_fix (f # CR gc u g # gs) (Node c l x r))"
proof (cases f)
  case (CR pc pl p)
  from body_black_RR [OF r [unfolded CR] black] obtain s' where
    b: "rb_insert_fixup_body s x = Some (s', x)" and
    s': "rep F s' gs (Node RB_BLACK (Node RB_RED u g pl) p (Node c l x r))" by blast
  then have "rb_insert_fixup_loop s' x = Some s'"
    by (intro fixup_loop_after_rotation [of F s' "CR RB_BLACK (Node RB_RED u g pl) p" gs])
      (simp_all add: rep_up_R)
  with s' fixup_loop_step [OF r red b] show ?thesis
    using black red CR rep_top by simp
next
  case (CL pc p pr)
  from body_black_RL [OF r [unfolded CL] black] obtain s' where
    b: "rb_insert_fixup_body s x = Some (s', p)" and
    s': "rep F s' gs (Node RB_BLACK (Node RB_RED u g l) x (Node pc r p pr))" by blast
  then have "rb_insert_fixup_loop s' p = Some s'"
    by (intro fixup_loop_after_rotation [of F s' "CR RB_BLACK (Node RB_RED u g l) x" gs])
      (simp_all add: rep_up_R)
  with s' fixup_loop_step [OF r red b] show ?thesis
    using black red CL rep_top by simp
qed

lemma fixup_loop_rep:
  "rep F s fs (Node c l x r) \<Longrightarrow>
   \<exists>s'. rb_insert_fixup_loop s x = Some s' \<and> rep F s' [] (ins_fix fs (Node c l x r))"
proof (induction fs arbitrary: s c l x r rule: length_induct)
  case (1 fs)
  note r = "1.prems" and IH = "1.IH" [rule_format]
  show ?case
  proof (cases "fs = [] \<or> fcol (hd fs) \<noteq> RB_RED \<or> tl fs = []")
    case True
    then have "ins_fix fs (Node c l x r) = plug fs (Node c l x r)" by (rule ins_fix_exit)
    with fixup_loop_exit [OF r True] r show ?thesis using rep_top by simp
  next
    case False
    then obtain f gf gs where fs: "fs = f # gf # gs" and red: "fcol f = RB_RED"
      by (cases fs rule: list.exhaust) (auto simp: neq_Nil_conv)
    note r' = r [unfolded fs]
    show ?thesis
    proof (cases gf)
      case (CL gc g u)
      show ?thesis
      proof (cases "col u = RB_RED")
        case True
        with body_red_L [OF r' [unfolded CL]] obtain s' where
          b: "rb_insert_fixup_body s x = Some (s', g)" and
          s': "rep F s' gs (Node RB_RED (paint RB_BLACK (plug1 f (Node c l x r))) g (paint RB_BLACK u))"
          by blast
        from IH [OF _ s'] fs fixup_loop_step [OF r' red b] show ?thesis
          using True red CL by (cases f) simp_all
      qed (use fixup_loop_black_L [OF r' [unfolded CL] red] fs CL in simp)
    next
      case (CR gc u g)
      show ?thesis
      proof (cases "col u = RB_RED")
        case True
        with body_red_R [OF r' [unfolded CR]] obtain s' where
          b: "rb_insert_fixup_body s x = Some (s', g)" and
          s': "rep F s' gs (Node RB_RED (paint RB_BLACK u) g (paint RB_BLACK (plug1 f (Node c l x r))))"
          by blast
        from IH [OF _ s'] fs fixup_loop_step [OF r' red b] show ?thesis
          using True red CR by (cases f) simp_all
      qed (use fixup_loop_black_R [OF r' [unfolded CR] red] fs CR in simp)
    qed
  qed
qed

lemma insert_fixup_rep:
  assumes "rep F s fs (Node c l x r)"
  shows "\<exists>s'. rb_insert_fixup s x = Some s' \<and> rep F s' [] (paint RB_BLACK (ins_fix fs (Node c l x r)))"
proof -
  obtain s1 where s1: "rb_insert_fixup_loop s x = Some s1" "rep F s1 [] (ins_fix fs (Node c l x r))"
    using fixup_loop_rep [OF assms] by blast
  have "inorder (ins_fix fs (Node c l x r)) \<noteq> []" by (simp add: inorder_ins_fix inorder_plug)
  then obtain d a y b where t: "ins_fix fs (Node c l x r) = Node d a y b"
    by (cases "ins_fix fs (Node c l x r)") auto
  with s1(2) have r1: "rep F s1 [] (Node d a y b)" by simp
  from rep_recolor [OF r1] have "rep F (recolor s1 y RB_BLACK) [] (Node RB_BLACK a y b)" .
  moreover have "rb_insert_fixup s x = Some (recolor s1 y RB_BLACK)"
    using s1(1) rep_root [OF r1] rep_node [OF r1]
    by (simp add: rb_insert_fixup_def upd_color del: upd_Some)
  ultimately show ?thesis using t by simp
qed

section \<open>Deletion\<close>

lemma null_or_black_ptr:
  assumes "is_tree (rb_mem s) par t"
  shows "null_or_black s (ptr t) \<longleftrightarrow> col t = RB_BLACK"
  using assms by (cases t) (auto simp: null_or_black_def)

lemma rep_tree_parts:
  assumes "rep F s fs (Node c l a r)"
  shows "is_tree (rb_mem s) a l" "is_tree (rb_mem s) a r"
  using assms by (auto simp: rep_def)

text \<open>
  In the names below \<open>L\<close> is a hole that is the left child; \<open>R\<close> is its mirror image.
\<close>

lemma del_case4_L:
  assumes r: "rep F s fs (Node pc t p (Node sc sl sb (Node rc a q b)))"
  shows "\<exists>s'. rb_delete_case4_left s p sb = Some s' \<and>
    rep F s' fs (Node pc (Node RB_BLACK t p sl) sb (Node RB_BLACK a q b))"
proof -
  have rs: "rep F s (CR pc t p # fs) (Node sc sl sb (Node rc a q b))"
    and rq: "rep F s (CR sc sl sb # CR pc t p # fs) (Node rc a q b)" using r by (simp_all add: rep_up_R)
  note p = rep_node [OF r] and sb = rep_node [OF rs] and q = rep_node [OF rq]
  define s1 where "s1 = recolor s sb pc"
  define s2 where "s2 = recolor s1 p RB_BLACK"
  define s3 where "s3 = recolor s2 q RB_BLACK"
  have "rep F s1 fs (Node pc t p (Node pc sl sb (Node rc a q b)))"
    using rep_recolor_sub_R [OF r] by (simp add: s1_def)
  then have "rep F s2 (CR RB_BLACK t p # fs) (Node pc sl sb (Node rc a q b))"
    unfolding s2_def rep_up_R by (rule rep_recolor)
  from rep_recolor_sub_R [OF this] have "rep F s3 fs (Node RB_BLACK t p (Node pc sl sb (Node RB_BLACK a q b)))"
    by (simp add: s3_def rep_up_R)
  from rotate_left_rep [OF this] obtain s4 where "rb_rotate_left s3 p = Some s4"
    "rep F s4 fs (Node pc (Node RB_BLACK t p sl) sb (Node RB_BLACK a q b))" by blast
  then show ?thesis using p sb q
    by (simp add: rb_delete_case4_left_def upd_color heap_simps s1_def s2_def s3_def del: upd_Some)
qed

lemma del_case3_L:
  assumes r: "rep F s fs (Node pc t p (Node sc (Node qc a q b) sb sr))" and sr: "col sr = RB_BLACK"
  shows "\<exists>s'. rb_delete_case3_left s p sb = Some (s', q) \<and>
    rep F s' fs (Node pc t p (Node RB_BLACK a q (Node RB_RED b sb sr)))"
proof -
  have rs: "rep F s (CR pc t p # fs) (Node sc (Node qc a q b) sb sr)"
    and rq: "rep F s (CL sc sb sr # CR pc t p # fs) (Node qc a q b)"
    using r by (simp_all add: rep_up_L rep_up_R)
  note p = rep_node [OF r] and sb = rep_node [OF rs] and q = rep_node [OF rq]
  define s1 where "s1 = recolor s q RB_BLACK"
  define s2 where "s2 = recolor s1 sb RB_RED"
  have "rep F s1 (CR pc t p # fs) (Node sc (Node RB_BLACK a q b) sb sr)"
    unfolding s1_def using rs by (rule rep_recolor_sub_L)
  then have "rep F s2 (CR pc t p # fs) (Node RB_RED (Node RB_BLACK a q b) sb sr)"
    unfolding s2_def by (rule rep_recolor)
  from rotate_right_rep [OF this] obtain s3 where s3: "rb_rotate_right s2 sb = Some s3"
    "rep F s3 (CR pc t p # fs) (Node RB_BLACK a q (Node RB_RED b sb sr))" by blast
  then have "right (rb_mem s3 p) = q" using rep_CR [OF s3(2)] by simp
  with s3 show ?thesis using p sb q null_or_black_ptr [OF rep_tree_parts(2) [OF rs]] sr
    by (simp add: rb_delete_case3_left_def upd_color s1_def s2_def rep_up_R del: upd_Some)
qed

lemma del_case4_R:
  assumes r: "rep F s fs (Node pc (Node sc (Node rc a q b) sb sl) p t)"
  shows "\<exists>s'. rb_delete_case4_right s p sb = Some s' \<and>
    rep F s' fs (Node pc (Node RB_BLACK a q b) sb (Node RB_BLACK sl p t))"
proof -
  have rs: "rep F s (CL pc p t # fs) (Node sc (Node rc a q b) sb sl)"
    and rq: "rep F s (CL sc sb sl # CL pc p t # fs) (Node rc a q b)" using r by (simp_all add: rep_up_L)
  note p = rep_node [OF r] and sb = rep_node [OF rs] and q = rep_node [OF rq]
  define s1 where "s1 = recolor s sb pc"
  define s2 where "s2 = recolor s1 p RB_BLACK"
  define s3 where "s3 = recolor s2 q RB_BLACK"
  have "rep F s1 fs (Node pc (Node pc (Node rc a q b) sb sl) p t)"
    using rep_recolor_sub_L [OF r] by (simp add: s1_def)
  then have "rep F s2 (CL RB_BLACK p t # fs) (Node pc (Node rc a q b) sb sl)"
    unfolding s2_def rep_up_L by (rule rep_recolor)
  from rep_recolor_sub_L [OF this] have "rep F s3 fs (Node RB_BLACK (Node pc (Node RB_BLACK a q b) sb sl) p t)"
    by (simp add: s3_def rep_up_L)
  from rotate_right_rep [OF this] obtain s4 where "rb_rotate_right s3 p = Some s4"
    "rep F s4 fs (Node pc (Node RB_BLACK a q b) sb (Node RB_BLACK sl p t))" by blast
  then show ?thesis using p sb q
    by (simp add: rb_delete_case4_right_def upd_color heap_simps s1_def s2_def s3_def del: upd_Some)
qed

lemma del_case3_R:
  assumes r: "rep F s fs (Node pc (Node sc sr sb (Node qc a q b)) p t)" and sr: "col sr = RB_BLACK"
  shows "\<exists>s'. rb_delete_case3_right s p sb = Some (s', q) \<and>
    rep F s' fs (Node pc (Node RB_BLACK (Node RB_RED sr sb a) q b) p t)"
proof -
  have rs: "rep F s (CL pc p t # fs) (Node sc sr sb (Node qc a q b))"
    and rq: "rep F s (CR sc sr sb # CL pc p t # fs) (Node qc a q b)"
    using r by (simp_all add: rep_up_L rep_up_R)
  note p = rep_node [OF r] and sb = rep_node [OF rs] and q = rep_node [OF rq]
  define s1 where "s1 = recolor s q RB_BLACK"
  define s2 where "s2 = recolor s1 sb RB_RED"
  have "rep F s1 (CL pc p t # fs) (Node sc sr sb (Node RB_BLACK a q b))"
    unfolding s1_def using rs by (rule rep_recolor_sub_R)
  then have "rep F s2 (CL pc p t # fs) (Node RB_RED sr sb (Node RB_BLACK a q b))"
    unfolding s2_def by (rule rep_recolor)
  from rotate_left_rep [OF this] obtain s3 where s3: "rb_rotate_left s2 sb = Some s3"
    "rep F s3 (CL pc p t # fs) (Node RB_BLACK (Node RB_RED sr sb a) q b)" by blast
  then have "left (rb_mem s3 p) = q" using rep_CL [OF s3(2)] by simp
  with s3 show ?thesis using p sb q null_or_black_ptr [OF rep_tree_parts(1) [OF rs]] sr
    by (simp add: rb_delete_case3_right_def upd_color s1_def s2_def rep_up_L del: upd_Some)
qed

lemma del_case1_L:
  assumes r: "rep F s fs (Node pc t p (Node RB_RED sl sb sr))"
  shows "\<exists>s'. rb_delete_case1_left s p sb = Some (s', ptr sl) \<and>
    rep F s' (CL RB_BLACK sb sr # fs) (Node RB_RED t p sl)"
proof -
  have rs: "rep F s (CR pc t p # fs) (Node RB_RED sl sb sr)" using r by (simp add: rep_up_R)
  note p = rep_node [OF r] and sb = rep_node [OF rs]
  define s2 where "s2 = recolor (recolor s sb RB_BLACK) p RB_RED"
  have "rep F s2 fs (Node RB_RED t p (Node RB_BLACK sl sb sr))"
    unfolding s2_def by (rule rep_recolor [OF rep_recolor_sub_R [OF r]])
  from rotate_left_rep [OF this] obtain s3 where s3: "rb_rotate_left s2 p = Some s3"
    "rep F s3 (CL RB_BLACK sb sr # fs) (Node RB_RED t p sl)"
    by (auto simp: rep_up_L)
  then show ?thesis using p sb rep_node [OF s3(2)]
    by (simp add: rb_delete_case1_left_def upd_color s2_def del: upd_Some)
qed

lemma del_case1_skip_L:
  assumes "rep F s fs (Node pc t p (Node RB_BLACK sl sb sr))"
  shows "rb_delete_case1_left s p sb = Some (s, sb)"
  using assms by (auto simp: rb_delete_case1_left_def rep_def)

lemma del_case3_skip_L:
  assumes r: "rep F s fs (Node pc t p (Node sc sl sb sr))" and red: "col sr = RB_RED"
  shows "rb_delete_case3_left s p sb = Some (s, sb)"
proof -
  have rs: "rep F s (CR pc t p # fs) (Node sc sl sb sr)" using r by (simp add: rep_up_R)
  show ?thesis using rep_node [OF rs] red null_or_black_ptr [OF rep_tree_parts(2) [OF rs]]
    by (simp add: rb_delete_case3_left_def)
qed

text \<open>Case 2: the shortage moves up.\<close>

lemma del_pass_up_L:
  assumes r: "rep F s fs (Node pc t p (Node RB_BLACK sl sb sr))"
    and black: "col sl = RB_BLACK" "col sr = RB_BLACK"
  shows "\<exists>s'. rb_delete_fixup_left s p sb = Some (s', p, cpar fs) \<and>
    rep F s' fs (Node pc t p (Node RB_RED sl sb sr))"
proof -
  have rs: "rep F s (CR pc t p # fs) (Node RB_BLACK sl sb sr)" using r by (simp add: rep_up_R)
  note sb = rep_node [OF rs] and p = rep_node [OF r]
  have "rep F (recolor s sb RB_RED) fs (Node pc t p (Node RB_RED sl sb sr))"
    using r by (rule rep_recolor_sub_R)
  moreover have "rb_delete_fixup_left s p sb = Some (recolor s sb RB_RED, p, cpar fs)"
    using del_case1_skip_L [OF r] sb p rep_tree_parts [OF rs, THEN null_or_black_ptr] black
    by (simp add: rb_delete_fixup_left_def upd_color heap_simps del: upd_Some)
  ultimately show ?thesis by blast
qed

text \<open>Cases 3 and 4: the loop ends with \<open>x\<close> at the root.\<close>

lemma del_pass_rot_L:
  assumes r: "rep F s fs (Node pc t p (Node RB_BLACK sl sb sr))"
    and red: "col sl = RB_RED \<or> col sr = RB_RED" and inv: "invc (Node RB_BLACK sl sb sr)"
  shows "\<exists>s'. rb_delete_fixup_left s p sb = Some (s', rb_root s', p) \<and>
    rep F s' fs (del_rot_L pc t p (Node RB_BLACK sl sb sr))"
proof -
  have rs: "rep F s (CR pc t p # fs) (Node RB_BLACK sl sb sr)" using r by (simp add: rep_up_R)
  have start: "rb_delete_fixup_left s p sb = do {
      (s, sb) \<leftarrow> rb_delete_case3_left s p sb; s \<leftarrow> rb_delete_case4_left s p sb; Some (s, rb_root s, p) }"
    using del_case1_skip_L [OF r] rep_node [OF rs] rep_tree_parts [OF rs, THEN null_or_black_ptr] red
    by (auto simp: rb_delete_fixup_left_def)
  show ?thesis
  proof (cases "col sr = RB_RED")
    case True
    then obtain a q b where n: "sr = Node RB_RED a q b" using red_Node by blast
    from del_case4_L [OF r [unfolded n]] True show ?thesis
      using del_case3_skip_L [OF r True] start n by auto
  next
    case False
    then have far: "col sr = RB_BLACK" and "col sl = RB_RED"
      using red inv invc_col [of sr] by auto
    then obtain a q b where n: "sl = Node RB_RED a q b" using red_Node by blast
    from del_case3_L [OF r [unfolded n] far] obtain s1 where
      s1: "rb_delete_case3_left s p sb = Some (s1, q)" and
      r1: "rep F s1 fs (Node pc t p (Node RB_BLACK a q (Node RB_RED b sb sr)))"
      by blast
    from del_case4_L [OF r1] False show ?thesis using start s1 n by auto
  qed
qed

lemma del_case1_R:
  assumes r: "rep F s fs (Node pc (Node RB_RED sl sb sr) p t)"
  shows "\<exists>s'. rb_delete_case1_right s p sb = Some (s', ptr sr) \<and>
    rep F s' (CR RB_BLACK sl sb # fs) (Node RB_RED sr p t)"
proof -
  have rs: "rep F s (CL pc p t # fs) (Node RB_RED sl sb sr)" using r by (simp add: rep_up_L)
  note p = rep_node [OF r] and sb = rep_node [OF rs]
  define s2 where "s2 = recolor (recolor s sb RB_BLACK) p RB_RED"
  have "rep F s2 fs (Node RB_RED (Node RB_BLACK sl sb sr) p t)"
    unfolding s2_def by (rule rep_recolor [OF rep_recolor_sub_L [OF r]])
  from rotate_right_rep [OF this] obtain s3 where s3: "rb_rotate_right s2 p = Some s3"
    "rep F s3 (CR RB_BLACK sl sb # fs) (Node RB_RED sr p t)"
    by (auto simp: rep_up_R)
  then show ?thesis using p sb rep_node [OF s3(2)]
    by (simp add: rb_delete_case1_right_def upd_color s2_def del: upd_Some)
qed

lemma del_case1_skip_R:
  assumes "rep F s fs (Node pc (Node RB_BLACK sl sb sr) p t)"
  shows "rb_delete_case1_right s p sb = Some (s, sb)"
  using assms by (auto simp: rb_delete_case1_right_def rep_def)

lemma del_case3_skip_R:
  assumes r: "rep F s fs (Node pc (Node sc sl sb sr) p t)" and red: "col sl = RB_RED"
  shows "rb_delete_case3_right s p sb = Some (s, sb)"
proof -
  have rs: "rep F s (CL pc p t # fs) (Node sc sl sb sr)" using r by (simp add: rep_up_L)
  show ?thesis using rep_node [OF rs] red null_or_black_ptr [OF rep_tree_parts(1) [OF rs]]
    by (simp add: rb_delete_case3_right_def)
qed

text \<open>Case 2: the shortage moves up.\<close>

lemma del_pass_up_R:
  assumes r: "rep F s fs (Node pc (Node RB_BLACK sl sb sr) p t)"
    and black: "col sl = RB_BLACK" "col sr = RB_BLACK"
  shows "\<exists>s'. rb_delete_fixup_right s p sb = Some (s', p, cpar fs) \<and>
    rep F s' fs (Node pc (Node RB_RED sl sb sr) p t)"
proof -
  have rs: "rep F s (CL pc p t # fs) (Node RB_BLACK sl sb sr)" using r by (simp add: rep_up_L)
  note sb = rep_node [OF rs] and p = rep_node [OF r]
  have "rep F (recolor s sb RB_RED) fs (Node pc (Node RB_RED sl sb sr) p t)"
    using r by (rule rep_recolor_sub_L)
  moreover have "rb_delete_fixup_right s p sb = Some (recolor s sb RB_RED, p, cpar fs)"
    using del_case1_skip_R [OF r] sb p rep_tree_parts [OF rs, THEN null_or_black_ptr] black
    by (simp add: rb_delete_fixup_right_def upd_color heap_simps del: upd_Some)
  ultimately show ?thesis by blast
qed

text \<open>Cases 3 and 4: the loop ends with \<open>x\<close> at the root.\<close>

lemma del_pass_rot_R:
  assumes r: "rep F s fs (Node pc (Node RB_BLACK sl sb sr) p t)"
    and red: "col sl = RB_RED \<or> col sr = RB_RED" and inv: "invc (Node RB_BLACK sl sb sr)"
  shows "\<exists>s'. rb_delete_fixup_right s p sb = Some (s', rb_root s', p) \<and>
    rep F s' fs (del_rot_R pc (Node RB_BLACK sl sb sr) p t)"
proof -
  have rs: "rep F s (CL pc p t # fs) (Node RB_BLACK sl sb sr)" using r by (simp add: rep_up_L)
  have start: "rb_delete_fixup_right s p sb = do {
      (s, sb) \<leftarrow> rb_delete_case3_right s p sb; s \<leftarrow> rb_delete_case4_right s p sb; Some (s, rb_root s, p) }"
    using del_case1_skip_R [OF r] rep_node [OF rs] rep_tree_parts [OF rs, THEN null_or_black_ptr] red
    by (auto simp: rb_delete_fixup_right_def)
  show ?thesis
  proof (cases "col sl = RB_RED")
    case True
    then obtain a q b where n: "sl = Node RB_RED a q b" using red_Node by blast
    from del_case4_R [OF r [unfolded n]] True show ?thesis
      using del_case3_skip_R [OF r True] start n by auto
  next
    case False
    then have far: "col sl = RB_BLACK" and "col sr = RB_RED"
      using red inv invc_col [of sl] by auto
    then obtain a q b where n: "sr = Node RB_RED a q b" using red_Node by blast
    from del_case3_R [OF r [unfolded n] far] obtain s1 where
      s1: "rb_delete_case3_right s p sb = Some (s1, q)" and
      r1: "rep F s1 fs (Node pc (Node RB_BLACK (Node RB_RED sl sb a) q b) p t)"
      by blast
    from del_case4_R [OF r1] False show ?thesis using start s1 n by auto
  qed
qed

text \<open>The loop, unrolled once.\<close>

lemma rb_delete_fixup_unroll:
  "rb_delete_fixup s x xp =
     (if x \<noteq> rb_root s \<and> null_or_black s x
      then do { r \<leftarrow> rb_delete_fixup_body s x xp; rb_delete_fixup (fst r) (fst (snd r)) (snd (snd r)) }
      else if x \<noteq> NULL then upd s x (\<lambda>n. n\<lparr>color := RB_BLACK\<rparr>) else Some s)"
  by (cases "rb_delete_fixup_body s x xp")
    (simp_all add: rb_delete_fixup_def rb_delete_fixup_loop.simps [of s x xp])

lemma is_ctx_root: "is_ctx h root p fs \<Longrightarrow> fs \<noteq> [] \<Longrightarrow> root \<in> cnodes fs"
proof (induction fs arbitrary: p)
  case (Cons f fs)
  then show ?case by (cases f; cases fs) auto
qed simp

lemma rep_root_neq: "rep F s (f # fs) t \<Longrightarrow> rb_root s \<noteq> ptr t"
proof
  assume r: "rep F s (f # fs) t" and eq: "rb_root s = ptr t"
  from r have "rb_root s \<in> cnodes (f # fs)" unfolding rep_def by (blast intro: is_ctx_root)
  moreover have "NULL \<notin> cnodes (f # fs)" "nodes t \<inter> cnodes (f # fs) = {}"
    using r unfolding rep_def by (blast dest: NULL_notin_cnodes)+
  ultimately show False using eq ptr_in_nodes [of t] by (cases "t = Leaf") auto
qed

lemma del_finish:
  assumes r: "rep F s fs t" and stop: "fs = [] \<or> col t = RB_RED"
  shows "\<exists>s'. rb_delete_fixup s (ptr t) xp = Some s' \<and> rep F s' [] (plug fs (paint RB_BLACK t))"
proof -
  have guard: "\<not> (ptr t \<noteq> rb_root s \<and> null_or_black s (ptr t))"
    using stop rep_root [of F s t] r null_or_black_ptr [of s "cpar fs" t]
    by (auto simp: rep_def)
  show ?thesis
  proof (cases t)
    case Leaf
    with r guard show ?thesis using rep_top by (subst rb_delete_fixup_unroll) auto
  next
    case (Node c l a r')
    with r have "rep F (recolor s a RB_BLACK) fs (paint RB_BLACK t)" by (simp add: rep_recolor)
    moreover have "a \<noteq> NULL" using r Node by (auto simp: rep_def)
    ultimately show ?thesis using guard Node rep_top
      by (subst rb_delete_fixup_unroll) (auto simp: upd_color simp del: upd_Some)
  qed
qed

lemma del_finish_root:
  assumes "rep F s fs t"
  shows "\<exists>s'. rb_delete_fixup s (rb_root s) xp = Some s' \<and> rep F s' [] (paint RB_BLACK (plug fs t))"
  using del_finish [of F s "[]" "plug fs t" xp] assms rep_top rep_root by (metis plug.simps(1))

lemma del_loop_enter_L:
  assumes r: "rep F s (CL pc p sib # fs) t" and t: "col t = RB_BLACK" and "sib \<noteq> Leaf"
  shows "rb_delete_fixup s (ptr t) p =
    do { r \<leftarrow> rb_delete_fixup_left s p (ptr sib); rb_delete_fixup (fst r) (fst (snd r)) (snd (snd r)) }"
proof -
  have "null_or_black s (ptr t)" using r t null_or_black_ptr [of s p t] by (simp add: rep_def)
  with rep_CL [OF r] rep_root_neq [OF r] show ?thesis
    by (subst rb_delete_fixup_unroll) (simp add: rb_delete_fixup_body_def)
qed

lemma del_loop_enter_R:
  assumes r: "rep F s (CR pc sib p # fs) t" and t: "col t = RB_BLACK" and "sib \<noteq> Leaf"
  shows "rb_delete_fixup s (ptr t) p =
    do { r \<leftarrow> rb_delete_fixup_right s p (ptr sib); rb_delete_fixup (fst r) (fst (snd r)) (snd (snd r)) }"
proof -
  have "null_or_black s (ptr t)" using r t null_or_black_ptr [of s p t] by (simp add: rep_def)
  moreover have "ptr t \<noteq> ptr sib"
    using r \<open>sib \<noteq> Leaf\<close> by (cases t; cases sib) (auto simp: rep_def)
  ultimately show ?thesis using rep_CR [OF r] rep_root_neq [OF r]
    by (subst rb_delete_fixup_unroll) (simp add: rb_delete_fixup_body_def)
qed

lemma del_loop_red_sibling_L:
  assumes r: "rep F s (CL pc p sib # fs) t" and pre: "del_pre (CL pc p sib # fs) t" and t: "col t = RB_BLACK"
    and sib: "sib = Node RB_RED sl sb sr"
  shows "\<exists>s'. rb_delete_fixup s (ptr t) p = Some s' \<and> rep F s' [] (del_fix (CL pc p sib # fs) t)"
proof -
  from pre sib have n: "invc sl" "col sl = RB_BLACK" "bheight sl = Suc (bheight t)" "sib \<noteq> Leaf"
    by (auto simp: del_pre_def)
  then obtain a q b where nq: "sl = Node RB_BLACK a q b" by (cases sl) auto
  obtain s1 where s1: "rb_delete_case1_left s p sb = Some (s1, q)"
    and r1: "rep F s1 (CL RB_BLACK sb sr # fs) (Node RB_RED t p sl)"
    using del_case1_L [OF r [unfolded sib rep_up_L]] nq by auto
  have start: "rb_delete_fixup_left s p sb = rb_delete_fixup_left s1 p q"
    using s1 del_case1_skip_L [OF r1 [unfolded nq]] by (simp add: rb_delete_fixup_left_def)
  show ?thesis
  proof (cases "col a \<noteq> RB_RED \<and> col b \<noteq> RB_RED")
    case True
    then have "col a = RB_BLACK" "col b = RB_BLACK" using n(1) nq invc_col [of a] invc_col [of b] by auto
    from del_pass_up_L [OF r1 [unfolded nq] this] obtain s2 where
      s2: "rb_delete_fixup_left s1 p q = Some (s2, p, sb)"
        "rep F s2 (CL RB_BLACK sb sr # fs) (Node RB_RED t p (Node RB_RED a q b))" by auto
    with del_finish [OF s2(2), of sb] show ?thesis
      using del_loop_enter_L [OF r t n(4)] True sib nq t start by auto
  next
    case False
    then have "col a = RB_RED \<or> col b = RB_RED" by blast
    from del_pass_rot_L [OF r1 [unfolded nq] this] n(1) nq obtain s2 where
      s2: "rb_delete_fixup_left s1 p q = Some (s2, rb_root s2, p)"
        "rep F s2 (CL RB_BLACK sb sr # fs) (del_rot_L RB_RED t p sl)" by auto
    with del_finish_root [OF s2(2), of p] show ?thesis
      using del_loop_enter_L [OF r t n(4)] False sib nq t start by auto
  qed
qed

lemma del_loop_L:
  assumes IH: "\<And>s t. rep F s fs t \<Longrightarrow> del_pre fs t \<Longrightarrow>
      \<exists>s'. rb_delete_fixup s (ptr t) (cpar fs) = Some s' \<and> rep F s' [] (del_fix fs t)"
    and r: "rep F s (CL pc p sib # fs) t" and pre: "del_pre (CL pc p sib # fs) t"
  shows "\<exists>s'. rb_delete_fixup s (ptr t) p = Some s' \<and> rep F s' [] (del_fix (CL pc p sib # fs) t)"
proof (cases "col t = RB_RED")
  case True
  then show ?thesis using del_finish [OF r, of p] by simp
next
  case False
  with pre have t: "col t = RB_BLACK" by (auto simp: del_pre_def)
  obtain sc sl sb sr where sib: "sib = Node sc sl sb sr" using pre by (cases sib) (auto simp: del_pre_def)
  then have ne: "sib \<noteq> Leaf" by simp
  have i: "invc sib" using pre by (auto simp: del_pre_def)
  have r': "rep F s fs (Node pc t p (Node sc sl sb sr))" using r sib by (simp add: rep_up_L)
  consider "sc = RB_RED" | "sc = RB_BLACK" "col sl = RB_RED \<or> col sr = RB_RED"
    | "sc = RB_BLACK" "col sl = RB_BLACK" "col sr = RB_BLACK"
    using i sib invc_col [of sl] invc_col [of sr] by auto
  then show ?thesis
  proof cases
    case 1
    with del_loop_red_sibling_L [OF r pre t] sib show ?thesis by blast
  next
    case 2
    from del_pass_rot_L [OF r' [unfolded 2(1)] 2(2)] i sib 2(1) obtain s' where
      "rb_delete_fixup_left s p sb = Some (s', rb_root s', p)" "rep F s' fs (del_rot_L pc t p sib)"
      by auto
    with del_finish_root [of F s' fs _ p] show ?thesis
      using del_loop_enter_L [OF r t ne] 2 t sib by auto
  next
    case 3
    have "del_pre fs (Node pc t p (Node RB_RED sl sb sr))"
      using pre 3 sib t by (auto simp: del_pre_def paint_black_id split: if_splits)
    with del_pass_up_L [OF r' [unfolded 3(1)] 3(2,3)] IH show ?thesis
      using del_loop_enter_L [OF r t ne] 3 t sib by fastforce
  qed
qed

lemma del_loop_red_sibling_R:
  assumes r: "rep F s (CR pc sib p # fs) t" and pre: "del_pre (CR pc sib p # fs) t" and t: "col t = RB_BLACK"
    and sib: "sib = Node RB_RED sl sb sr"
  shows "\<exists>s'. rb_delete_fixup s (ptr t) p = Some s' \<and> rep F s' [] (del_fix (CR pc sib p # fs) t)"
proof -
  from pre sib have n: "invc sr" "col sr = RB_BLACK" "bheight sr = Suc (bheight t)" "sib \<noteq> Leaf"
    by (auto simp: del_pre_def)
  then obtain a q b where nq: "sr = Node RB_BLACK a q b" by (cases sr) auto
  obtain s1 where s1: "rb_delete_case1_right s p sb = Some (s1, q)"
    and r1: "rep F s1 (CR RB_BLACK sl sb # fs) (Node RB_RED sr p t)"
    using del_case1_R [OF r [unfolded sib rep_up_R]] nq by auto
  have start: "rb_delete_fixup_right s p sb = rb_delete_fixup_right s1 p q"
    using s1 del_case1_skip_R [OF r1 [unfolded nq]] by (simp add: rb_delete_fixup_right_def)
  show ?thesis
  proof (cases "col a \<noteq> RB_RED \<and> col b \<noteq> RB_RED")
    case True
    then have "col a = RB_BLACK" "col b = RB_BLACK" using n(1) nq invc_col [of a] invc_col [of b] by auto
    from del_pass_up_R [OF r1 [unfolded nq] this] obtain s2 where
      s2: "rb_delete_fixup_right s1 p q = Some (s2, p, sb)"
        "rep F s2 (CR RB_BLACK sl sb # fs) (Node RB_RED (Node RB_RED a q b) p t)" by auto
    with del_finish [OF s2(2), of sb] show ?thesis
      using del_loop_enter_R [OF r t n(4)] True sib nq t start by auto
  next
    case False
    then have "col a = RB_RED \<or> col b = RB_RED" by blast
    from del_pass_rot_R [OF r1 [unfolded nq] this] n(1) nq obtain s2 where
      s2: "rb_delete_fixup_right s1 p q = Some (s2, rb_root s2, p)"
        "rep F s2 (CR RB_BLACK sl sb # fs) (del_rot_R RB_RED sr p t)" by auto
    with del_finish_root [OF s2(2), of p] show ?thesis
      using del_loop_enter_R [OF r t n(4)] False sib nq t start by auto
  qed
qed

lemma del_loop_R:
  assumes IH: "\<And>s t. rep F s fs t \<Longrightarrow> del_pre fs t \<Longrightarrow>
      \<exists>s'. rb_delete_fixup s (ptr t) (cpar fs) = Some s' \<and> rep F s' [] (del_fix fs t)"
    and r: "rep F s (CR pc sib p # fs) t" and pre: "del_pre (CR pc sib p # fs) t"
  shows "\<exists>s'. rb_delete_fixup s (ptr t) p = Some s' \<and> rep F s' [] (del_fix (CR pc sib p # fs) t)"
proof (cases "col t = RB_RED")
  case True
  then show ?thesis using del_finish [OF r, of p] by simp
next
  case False
  with pre have t: "col t = RB_BLACK" by (auto simp: del_pre_def)
  obtain sc sl sb sr where sib: "sib = Node sc sl sb sr" using pre by (cases sib) (auto simp: del_pre_def)
  then have ne: "sib \<noteq> Leaf" by simp
  have i: "invc sib" using pre by (auto simp: del_pre_def)
  have r': "rep F s fs (Node pc (Node sc sl sb sr) p t)" using r sib by (simp add: rep_up_R)
  consider "sc = RB_RED" | "sc = RB_BLACK" "col sl = RB_RED \<or> col sr = RB_RED"
    | "sc = RB_BLACK" "col sl = RB_BLACK" "col sr = RB_BLACK"
    using i sib invc_col [of sl] invc_col [of sr] by auto
  then show ?thesis
  proof cases
    case 1
    with del_loop_red_sibling_R [OF r pre t] sib show ?thesis by blast
  next
    case 2
    from del_pass_rot_R [OF r' [unfolded 2(1)] 2(2)] i sib 2(1) obtain s' where
      "rb_delete_fixup_right s p sb = Some (s', rb_root s', p)" "rep F s' fs (del_rot_R pc sib p t)"
      by auto
    with del_finish_root [of F s' fs _ p] show ?thesis
      using del_loop_enter_R [OF r t ne] 2 t sib by auto
  next
    case 3
    have "del_pre fs (Node pc (Node RB_RED sl sb sr) p t)"
      using pre 3 sib t by (auto simp: del_pre_def paint_black_id split: if_splits)
    with del_pass_up_R [OF r' [unfolded 3(1)] 3(2,3)] IH show ?thesis
      using del_loop_enter_R [OF r t ne] 3 t sib by fastforce
  qed
qed

lemma delete_fixup_rep:
  "rep F s fs t \<Longrightarrow> del_pre fs t \<Longrightarrow>
   \<exists>s'. rb_delete_fixup s (ptr t) (cpar fs) = Some s' \<and> rep F s' [] (del_fix fs t)"
proof (induction fs arbitrary: s t)
  case Nil
  then show ?case using del_finish [of F s "[]" t NULL] by simp
next
  case (Cons f fs)
  show ?case
  proof (cases f)
    case (CL pc p sib)
    with Cons.prems show ?thesis using del_loop_L [OF Cons.IH] by simp
  next
    case (CR pc sib p)
    with Cons.prems show ?thesis using del_loop_R [OF Cons.IH] by simp
  qed
qed

end
