(* ===== verification/Rb_Correct.thy ===== *)
theory Rb_Correct
  imports Rb_Fixup
begin

text \<open>
  The interface of \<^verbatim>\<open>rb_tree.h\<close>: what searching, inserting and deleting do to the tree the
  heap represents, under the contract of the comparison function.
\<close>

section \<open>Unlinking a node\<close>

lemma transplant_right:
  assumes r: "rep F s fs (Node c Leaf z t)"
  shows "\<exists>s'. rb_transplant s z (ptr t) = Some s' \<and> rep (F(z := rb_mem s z)) s' fs t"
proof (cases fs rule: cpar.cases)
  case 1
  with r show ?thesis by (cases t) (auto simp: rep_def rb_transplant_def)
next
  case (2 pc p pr gs)
  with r show ?thesis by (cases t) (auto simp: rep_def rb_transplant_def)
next
  case (3 pc pl p gs)
  with r show ?thesis by (cases t) (auto simp: rep_def rb_transplant_def)
qed

lemma transplant_left:
  assumes r: "rep F s fs (Node c t z Leaf)"
  shows "\<exists>s'. rb_transplant s z (ptr t) = Some s' \<and> rep (F(z := rb_mem s z)) s' fs t"
proof (cases fs rule: cpar.cases)
  case 1
  with r show ?thesis by (cases t) (auto simp: rep_def rb_transplant_def)
next
  case (2 pc p pr gs)
  with r show ?thesis by (cases t) (auto simp: rep_def rb_transplant_def)
next
  case (3 pc pl p gs)
  with r show ?thesis by (cases t) (auto simp: rep_def rb_transplant_def)
qed

lemma minimum_rep:
  "is_tree (rb_mem s) par t \<Longrightarrow> t \<noteq> Leaf \<Longrightarrow> min_split t = (ms, cy, y, yr) \<Longrightarrow>
   rb_minimum s (ptr t) = Some y"
proof (induction t arbitrary: par ms rule: min_split.induct)
  case (2 c a r)
  then show ?case by (subst rb_minimum.simps) simp
next
  case (3 c v va vb vc a r)
  then show ?case by (subst rb_minimum.simps) (auto split: prod.splits)
qed simp

text \<open>
  The successor takes the place of the node: the state just before has the old node at the
  hole and the successor, with its new right subtree, outside the tree.
\<close>

lemma relink_rep:
  assumes ctx: "is_ctx (rb_mem s) (rb_root s) z fs" and z: "z \<noteq> NULL"
    "left (rb_mem s z) = ptr l" "parent (rb_mem s z) = cpar fs" "color (rb_mem s z) = c"
    and l: "is_tree (rb_mem s) z l" "l \<noteq> Leaf"
    and y: "y \<noteq> NULL" "right (rb_mem s y) = ptr R" "is_tree (rb_mem s) y R"
    and dis: "z \<noteq> y" "z \<notin> nodes l" "z \<notin> nodes R" "z \<notin> cnodes fs" "y \<notin> nodes l" "y \<notin> nodes R"
      "y \<notin> cnodes fs" "nodes l \<inter> nodes R = {}" "nodes l \<inter> cnodes fs = {}" "nodes R \<inter> cnodes fs = {}"
    and frame: "\<forall>a. a \<notin> nodes l \<and> a \<notin> nodes R \<and> a \<notin> cnodes fs \<and> a \<noteq> y \<and> a \<noteq> z \<longrightarrow> rb_mem s a = F a"
  shows "\<exists>s'. rb_delete_relink s z y = Some s' \<and> rep (F(z := rb_mem s' z)) s' fs (Node c l y R)"
proof -
  obtain lc ll la lr where L: "l = Node lc ll la lr" using l(2) by (cases l) auto
  have la: "la \<noteq> NULL" "la \<noteq> y" "la \<noteq> z" "la \<notin> nodes R" "la \<notin> cnodes fs"
    "la \<notin> nodes ll" "la \<notin> nodes lr" "nodes ll \<inter> nodes lr = {}"
    "rb_mem s la = \<lparr>right = ptr lr, left = ptr ll, parent = z, color = lc\<rparr>"
    "is_tree (rb_mem s) la ll" "is_tree (rb_mem s) la lr" "y \<notin> nodes ll" "y \<notin> nodes lr"
    "nodes ll \<inter> cnodes fs = {}" "nodes lr \<inter> cnodes fs = {}" "nodes ll \<inter> nodes R = {}" "nodes lr \<inter> nodes R = {}"
    using l(1) dis unfolding L by auto
  obtain yl yp yc where yc: "rb_mem s y = \<lparr>right = ptr R, left = yl, parent = yp, color = yc\<rparr>"
    using y(2) by (cases "rb_mem s y") simp
  note facts = z(1) z(2) [unfolded L, simplified] z(3,4) la y(1,3) yc dis(1,3,4,6,7,10)
  note disl = dis(2,5,8,9)
  show ?thesis
  proof (cases fs rule: cpar.cases)
    case 1
    let ?h = "(rb_mem s)(la := \<lparr>right = ptr lr, left = ptr ll, parent = y, color = lc\<rparr>,
      y := \<lparr>right = ptr R, left = la, parent = NULL, color = c\<rparr>)"
    have "rb_delete_relink s z y = Some (s\<lparr>rb_root := y, rb_mem := ?h\<rparr>)"
      using facts 1 by (simp add: rb_delete_relink_def rb_transplant_def)
    then show ?thesis using facts 1 L ctx frame by (auto simp: rep_def)
  next
    case (2 pc p pr gs)
    let ?h' = "(rb_mem s)(p := \<lparr>right = ptr pr, left = y, parent = cpar gs, color = pc\<rparr>,
      la := \<lparr>right = ptr lr, left = ptr ll, parent = y, color = lc\<rparr>,
      y := \<lparr>right = ptr R, left = la, parent = p, color = c\<rparr>)"
    have "rb_delete_relink s z y = Some (s\<lparr>rb_mem := ?h'\<rparr>)"
      using facts ctx 2 by (simp add: rb_delete_relink_def rb_transplant_def)
    then show ?thesis using facts 2 L ctx frame disl by (simp add: rep_def) blast
  next
    case (3 pc pl p gs)
    let ?h' = "(rb_mem s)(p := \<lparr>right = y, left = ptr pl, parent = cpar gs, color = pc\<rparr>,
      la := \<lparr>right = ptr lr, left = ptr ll, parent = y, color = lc\<rparr>,
      y := \<lparr>right = ptr R, left = la, parent = p, color = c\<rparr>)"
    have "rb_delete_relink s z y = Some (s\<lparr>rb_mem := ?h'\<rparr>)"
      using facts ctx 3 by (simp add: rb_delete_relink_def rb_transplant_def)
    then show ?thesis using facts 3 L ctx frame disl by (simp add: rep_def) blast
  qed
qed

lemma successor_direct:
  assumes r: "rep F s fs (Node c l z (Node cy Leaf y yr))" and l: "l \<noteq> Leaf"
  shows "\<exists>s'. rb_delete_successor s z = Some (s', ptr yr, y, cy) \<and>
    rep (F(z := rb_mem s' z)) s' (CR c l y # fs) yr"
proof -
  have ry: "rep F s (CR c l z # fs) (Node cy Leaf y yr)" using r by (simp add: rep_up_R)
  have "\<exists>s'. rb_delete_relink s z y = Some s' \<and> rep (F(z := rb_mem s' z)) s' fs (Node c l y yr)"
    by (rule relink_rep) (use r l in \<open>auto simp: rep_def\<close>)
  then obtain s' where s': "rb_delete_relink s z y = Some s'"
    "rep (F(z := rb_mem s' z)) s' (CR c l y # fs) yr" by (auto simp: rep_up_R)
  have keep: "(if ptr yr \<noteq> NULL then upd s (ptr yr) (\<lambda>c. c\<lparr>parent := y\<rparr>) else Some s) = Some s"
  proof (cases yr)
    case (Node d a q b)
    with ry have "rb_mem s q\<lparr>parent := y\<rparr> = rb_mem s q" by (auto simp: rep_def)
    then show ?thesis using Node by (simp add: upd_def)
  qed simp
  have "rb_minimum s y = Some y"
    using minimum_rep [of s z "Node cy Leaf y yr" "[]" cy y yr] r by (simp add: rep_def)
  with s' keep rep_node [OF r] rep_node [OF ry] show ?thesis
    by (simp add: rb_delete_successor_def)
qed

lemma nodes_plug: "nodes (plug fs t) = nodes t \<union> cnodes fs"
  by (induction fs arbitrary: t rule: cnodes.induct) auto

lemma successor_deep:
  assumes r: "rep F s fs (Node c l z r)" and l: "l \<noteq> Leaf"
    and m: "min_split r = (ms, cy, y, yr)" "r \<noteq> Leaf" "ms \<noteq> []"
  shows "\<exists>s'. rb_delete_successor s z = Some (s', ptr yr, cpar ms, cy) \<and>
    rep (F(z := rb_mem s' z)) s' (ms @ CR c l y # fs) yr"
proof -
  have rm: "plug ms (Node cy Leaf y yr) = r" using plug_min_split m by blast
  have ry: "rep F s (ms @ CR c l z # fs) (Node cy Leaf y yr)"
    using r rm by (simp add: rep_plug rep_up_R)
  have cp: "cpar (ms @ CR c l z # fs) = cpar ms" using m(3) by (cases ms) simp_all
  have nr: "nodes r = insert y (nodes yr \<union> cnodes ms)" by (simp add: nodes_plug flip: rm)
  then have "z \<noteq> cpar ms" using r cpar_in_cnodes [OF m(3)] by (auto simp: rep_def)
  obtain s1 where s1: "rb_transplant s y (ptr yr) = Some s1"
    "rep (F(y := rb_mem s y)) s1 (ms @ CR c l z # fs) yr"
    using transplant_right [OF ry] by blast
  obtain rc ra q rb where R: "plug ms yr = Node rc ra q rb"
    using cpar_in_cnodes [OF m(3)] nodes_plug [of ms yr] by (cases "plug ms yr") auto
  have r1: "rep (F(y := rb_mem s y)) s1 fs (Node c l z (Node rc ra q rb))"
    using s1(2) R by (simp add: rep_plug rep_up_R)
  then have rq: "rep (F(y := rb_mem s y)) s1 (CR c l z # fs) (Node rc ra q rb)" by (simp add: rep_up_R)
  have "distinct (inorder r)" using r by (auto simp: rep_def dest: distinct_inorder)
  then have yn: "y \<notin> nodes (Node rc ra q rb)" by (auto simp: R [symmetric] inorder_plug simp flip: rm)
  have y: "y \<noteq> NULL" "y \<noteq> z" "y \<notin> nodes l" "y \<notin> cnodes fs"
    using rep_node(1) [OF ry] r nr by (auto simp: rep_def)
  have y1: "rb_mem s1 y = rb_mem s y" using r1 yn y by (auto simp: rep_def)
  define s2 where "s2 = s1\<lparr>rb_mem := (rb_mem s1)(y := (rb_mem s1 y)\<lparr>right := q\<rparr>,
      q := (rb_mem s1 q)\<lparr>parent := y\<rparr>)\<rparr>"
  have "\<exists>s'. rb_delete_relink s2 z y = Some s' \<and> rep (F(z := rb_mem s' z)) s' fs (Node c l y (Node rc ra q rb))"
    by (rule relink_rep) (use r1 l yn y in \<open>auto simp: rep_def s2_def\<close>)
  then obtain s' where s': "rb_delete_relink s2 z y = Some s'"
    "rep (F(z := rb_mem s' z)) s' (ms @ CR c l y # fs) yr" using R by (auto simp: rep_plug rep_up_R)
  have "rb_minimum s (ptr r) = Some y" using minimum_rep [OF _ m(2,1)] r by (auto simp: rep_def)
  with s' s1(1) y1 y yn cp \<open>z \<noteq> cpar ms\<close> rep_node [OF r] rep_node [OF r1] rep_node [OF ry]
    rep_node [OF rq]
  show ?thesis by (auto simp: rb_delete_successor_def s2_def)
qed

lemma unlink_rep:
  assumes r: "rep F s fs (Node c l z r)" and inv: "rb_inv (plug fs (Node c l z r))"
  shows "\<exists>s' gs t d. rb_delete_unlink s z = Some (s', ptr t, cpar gs, d) \<and>
    rep (F(z := rb_mem s' z)) s' gs t \<and> (d = RB_BLACK \<longrightarrow> del_pre gs t) \<and>
    del_node fs c l r = (if d = RB_BLACK then del_fix gs t else plug gs t)"
proof -
  note z = rep_node [OF r]
  have ne: "ptr l = NULL \<longleftrightarrow> l = Leaf" "ptr r = NULL \<longleftrightarrow> r = Leaf"
    using r ptr_NULL_iff by (auto simp: rep_def)
  consider "l = Leaf" | "l \<noteq> Leaf" "r = Leaf" | "l \<noteq> Leaf" "r \<noteq> Leaf" by blast
  then show ?thesis
  proof cases
    case 1
    with transplant_right [of F s fs c z r] r obtain s' where
      s': "rb_transplant s z (ptr r) = Some s'" "rep (F(z := rb_mem s z)) s' fs r" by blast
    have "rb_mem s' z = rb_mem s z" using s'(2) r by (auto simp: rep_def)
    with s' 1 z ne inv show ?thesis using remove_pre [of fs l z r r]
      by (intro exI [of _ s'] exI [of _ fs] exI [of _ r] exI [of _ c])
        (auto simp: rb_delete_unlink_def del_node_def)
  next
    case 2
    with transplant_left [of F s fs c l z] r obtain s' where
      s': "rb_transplant s z (ptr l) = Some s'" "rep (F(z := rb_mem s z)) s' fs l" by blast
    have "rb_mem s' z = rb_mem s z" using s'(2) r by (auto simp: rep_def)
    with s' 2 z ne inv show ?thesis using remove_pre [of fs l z r l]
      by (intro exI [of _ s'] exI [of _ fs] exI [of _ l] exI [of _ c])
        (auto simp: rb_delete_unlink_def del_node_def)
  next
    case 3
    obtain ms cy y yr where m: "min_split r = (ms, cy, y, yr)" by (metis prod_cases4)
    then have rm: "plug ms (Node cy Leaf y yr) = r" using 3 by (intro plug_min_split) auto
    let ?gs = "ms @ CR c l y # fs"
    obtain s' where "rb_delete_successor s z = Some (s', ptr yr, cpar ?gs, cy)"
      "rep (F(z := rb_mem s' z)) s' ?gs yr"
    proof (cases "ms = []")
      case True
      with rm r successor_direct [of F s fs c l z cy y yr] 3 that show ?thesis by auto
    next
      case False
      then have "cpar ?gs = cpar ms" by (cases ms) simp_all
      with successor_deep [OF r 3(1) m 3(2) False] that show ?thesis by auto
    qed
    moreover have "cy = RB_BLACK \<longrightarrow> del_pre ?gs yr"
      using remove_pre successor_inv [OF inv rm] by blast
    ultimately show ?thesis using 3 m z ne
      by (intro exI [of _ s'] exI [of _ ?gs] exI [of _ yr] exI [of _ cy])
        (simp add: rb_delete_unlink_def del_node_def)
  qed
qed

lemma delete_node_rep:
  assumes r: "rep F s fs (Node c l z r)" and inv: "rb_inv (plug fs (Node c l z r))"
  shows "\<exists>s'. do {
      (s, x, x_parent, y_original_color) \<leftarrow> rb_delete_unlink s z;
      if y_original_color = RB_BLACK then rb_delete_fixup s x x_parent else Some s
    } = Some s' \<and> rep (F(z := rb_mem s' z)) s' [] (del_node fs c l r)"
proof -
  obtain s1 gs t d where u: "rb_delete_unlink s z = Some (s1, ptr t, cpar gs, d)"
    "rep (F(z := rb_mem s1 z)) s1 gs t" "d = RB_BLACK \<longrightarrow> del_pre gs t"
    "del_node fs c l r = (if d = RB_BLACK then del_fix gs t else plug gs t)"
    using unlink_rep [OF assms] by blast
  have z: "z \<notin> nodes (del_node fs c l r)"
  proof -
    have "rep F s [] (plug fs (Node c l z r))" using r rep_top by blast
    then have "distinct (inorder (plug fs (Node c l z r)))" by (auto simp: rep_def dest: distinct_inorder)
    then show ?thesis by (auto simp: inorder_del_node inorder_plug)
  qed
  have "\<exists>s'. (if d = RB_BLACK then rb_delete_fixup s1 (ptr t) (cpar gs) else Some s1) = Some s' \<and>
      rep (F(z := rb_mem s1 z)) s' [] (del_node fs c l r)"
    using u delete_fixup_rep [OF u(2)] rep_top by (cases "d = RB_BLACK") auto
  then obtain s' where s': "(if d = RB_BLACK then rb_delete_fixup s1 (ptr t) (cpar gs) else Some s1) = Some s'"
    "rep (F(z := rb_mem s1 z)) s' [] (del_node fs c l r)" by blast
  then have "rb_mem s' z = rb_mem s1 z" using z by (auto simp: rep_def)
  with s' u(1) show ?thesis by auto
qed

section \<open>Search trees in the heap\<close>

definition bst :: "(addr \<Rightarrow> u64) \<Rightarrow> rbt \<Rightarrow> bool" where
  "bst key t \<longleftrightarrow> sorted_wrt (\<lambda>a b. key a < key b) (inorder t)"

text \<open>
  \<open>rb_tree key s t\<close>: the state \<open>s\<close> holds the red-black tree \<open>t\<close>, with consistent links and
  parent pointers, a black root, and nodes in strictly increasing order of their keys.
\<close>

definition rb_tree :: "(addr \<Rightarrow> u64) \<Rightarrow> rb_state \<Rightarrow> rbt \<Rightarrow> bool" where
  "rb_tree key s t \<longleftrightarrow>
     rb_root s = ptr t \<and> is_tree (rb_mem s) NULL t \<and> rb_inv t \<and> bst key t"

lemma rb_tree_rep: "rb_tree key s t \<longleftrightarrow> rep (rb_mem s) s [] t \<and> rb_inv t \<and> bst key t"
  by (auto simp: rb_tree_def rep_def)

lemma rep_rb_tree: "rep F s [] t \<Longrightarrow> rb_inv t \<Longrightarrow> bst key t \<Longrightarrow> rb_tree key s t"
  by (auto simp: rb_tree_def rep_def)

lemma bst_Node:
  "bst key (Node c l a r) \<longleftrightarrow>
     bst key l \<and> bst key r \<and> (\<forall>x\<in>nodes l. key x < key a) \<and> (\<forall>x\<in>nodes r. key a < key x)"
  by (auto simp: bst_def sorted_wrt_append intro: less_trans)

text \<open>Every node of a tree is the focus of some zipper.\<close>

lemma focus_node: "z \<in> nodes t \<Longrightarrow> \<exists>fs c l r. t = plug fs (Node c l z r)"
proof (induction t)
  case (Node c l a r)
  consider "z = a" | "z \<in> nodes l" | "z \<in> nodes r" using Node.prems by auto
  then show ?case
  proof cases
    case 1
    then show ?thesis by (metis plug.simps(1))
  next
    case 2
    with Node.IH(1) obtain fs d l' r' where "l = plug fs (Node d l' z r')" by blast
    then have "Node c l a r = plug (fs @ [CL c a r]) (Node d l' z r')" by simp
    then show ?thesis by blast
  next
    case 3
    with Node.IH(2) obtain fs d l' r' where "r = plug fs (Node d l' z r')" by blast
    then have "Node c l a r = plug (fs @ [CR c l a]) (Node d l' z r')" by simp
    then show ?thesis by blast
  qed
qed simp

section \<open>The insertion point\<close>

fun ins_ctx :: "(addr \<Rightarrow> u64) \<Rightarrow> u64 \<Rightarrow> ctx \<Rightarrow> rbt \<Rightarrow> ctx" where
  "ins_ctx key k fs Leaf = fs"
| "ins_ctx key k fs (Node c l a r) =
     (if k < key a then ins_ctx key k (CL c a r # fs) l else ins_ctx key k (CR c l a # fs) r)"

lemma plug_ins_ctx: "plug (ins_ctx key k fs t) Leaf = plug fs t"
  by (induction key k fs t rule: ins_ctx.induct) simp_all

definition ctx_between :: "(addr \<Rightarrow> u64) \<Rightarrow> u64 \<Rightarrow> ctx \<Rightarrow> bool" where
  "ctx_between key k fs \<longleftrightarrow>
     (\<forall>a\<in>set (cleft fs). key a < k) \<and> (\<forall>a\<in>set (cright fs). k < key a)"

lemma ins_ctx_between:
  "bst key t \<Longrightarrow> \<forall>a\<in>nodes t. key a \<noteq> k \<Longrightarrow> ctx_between key k fs \<Longrightarrow>
   ctx_between key k (ins_ctx key k fs t)"
proof (induction key k fs t rule: ins_ctx.induct)
  case (2 key k fs c l a r)
  then show ?case
    by (cases "k < key a") (fastforce simp: bst_Node ctx_between_def)+
qed simp

lemma cleft_cright_cnodes: "set (cleft fs) \<union> set (cright fs) = cnodes fs"
  by (induction fs rule: cnodes.induct) auto

text \<open>Linking a fresh red node below the last node of the walk.\<close>

lemma attach_rep_CL:
  assumes "rep F s (CL c p r # fs) Leaf" "n \<noteq> NULL" "n \<notin> cnodes (CL c p r # fs)"
    "left (rb_mem s n) = NULL" "right (rb_mem s n) = NULL"
  shows "\<exists>s'. do { s \<leftarrow> upd s p (\<lambda>p. p\<lparr>left := n\<rparr>); s \<leftarrow> upd s n (\<lambda>n. n\<lparr>parent := p\<rparr>);
      upd s n (\<lambda>n. n\<lparr>color := RB_RED\<rparr>) } = Some s' \<and>
    rep F s' (CL c p r # fs) (Node RB_RED Leaf n Leaf)"
  using assms by (cases "rb_mem s n") (auto simp: rep_def)

lemma attach_rep_CR:
  assumes "rep F s (CR c l p # fs) Leaf" "n \<noteq> NULL" "n \<notin> cnodes (CR c l p # fs)"
    "left (rb_mem s n) = NULL" "right (rb_mem s n) = NULL"
  shows "\<exists>s'. do { s \<leftarrow> upd s p (\<lambda>p. p\<lparr>right := n\<rparr>); s \<leftarrow> upd s n (\<lambda>n. n\<lparr>parent := p\<rparr>);
      upd s n (\<lambda>n. n\<lparr>color := RB_RED\<rparr>) } = Some s' \<and>
    rep F s' (CR c l p # fs) (Node RB_RED Leaf n Leaf)"
  using assms by (cases "rb_mem s n") (auto simp: rep_def)

lemma attach_inv:
  assumes "rb_inv (plug fs Leaf)"
  shows "rb_inv (paint RB_BLACK (ins_fix fs (Node RB_RED Leaf n Leaf)))"
  using unplug_root [OF assms] by (intro ins_fix_inv) auto

lemma attach_bst:
  assumes "bst key (plug fs Leaf)" "ctx_between key (key n) fs"
  shows "bst key (paint RB_BLACK (ins_fix fs (Node RB_RED Leaf n Leaf)))"
  using assms by (auto simp: bst_def ctx_between_def inorder_ins_fix inorder_plug sorted_wrt_append)

text \<open>Clearing the links of the node to insert, which \<open>rb_insert\<close> does first.\<close>

definition unlink_node :: "rb_state \<Rightarrow> addr \<Rightarrow> rb_state" where
  "unlink_node s n = s\<lparr>rb_mem := (rb_mem s)(n := (rb_mem s n)\<lparr>left := NULL, right := NULL\<rparr>)\<rparr>"

lemma unlink_node_tree:
  "rb_tree key s t \<Longrightarrow> n \<notin> nodes t \<Longrightarrow> rb_tree key (unlink_node s n) t"
  by (simp add: rb_tree_def unlink_node_def)

lemma unlink_node_frame: "a \<noteq> n \<Longrightarrow> rb_mem (unlink_node s n) a = rb_mem s a"
  by (simp add: unlink_node_def)

section \<open>The operations, under the contract of the comparison function\<close>

locale rb_order =
  fixes cmp :: rb_cmp and key :: "addr \<Rightarrow> u64"
  assumes cmp_less: "cmp a b < 0 \<longleftrightarrow> key a < key b"
    and cmp_greater: "0 < cmp a b \<longleftrightarrow> key b < key a"
begin

lemma find_loop_rep:
  "is_tree (rb_mem s) par t \<Longrightarrow> bst key t \<Longrightarrow>
   (\<exists>a\<in>nodes t. key a = key k \<and> rb_find_exact_loop s k cmp (ptr t) = Some a) \<or>
   (\<forall>a\<in>nodes t. key a \<noteq> key k) \<and> rb_find_exact_loop s k cmp (ptr t) = Some NULL"
proof (induction t arbitrary: par)
  case Leaf
  then show ?case by (simp add: rb_find_exact_loop.simps)
next
  case (Node c l a r)
  have a: "a \<noteq> NULL" "rb_mem s a = \<lparr>right = ptr r, left = ptr l, parent = par, color = c\<rparr>"
    and sub: "is_tree (rb_mem s) a l" "bst key l" "is_tree (rb_mem s) a r" "bst key r"
    using Node.prems by (auto simp: bst_Node)
  consider "key k < key a" | "key a < key k" | "key k = key a" by force
  then show ?case
  proof cases
    case 1
    then have "rb_find_exact_loop s k cmp a = rb_find_exact_loop s k cmp (ptr l)"
      using a cmp_less by (subst rb_find_exact_loop.simps) simp
    moreover have "\<forall>x\<in>nodes r. key x \<noteq> key k" using Node.prems(2) 1 by (auto simp: bst_Node)
    ultimately show ?thesis using Node.IH(1) [OF sub(1,2)] 1 by auto
  next
    case 2
    then have "\<not> cmp k a < 0" "0 < cmp k a" using cmp_greater [of k a] by auto
    then have "rb_find_exact_loop s k cmp a = rb_find_exact_loop s k cmp (ptr r)"
      using a by (subst rb_find_exact_loop.simps) simp
    moreover have "\<forall>x\<in>nodes l. key x \<noteq> key k" using Node.prems(2) 2 by (auto simp: bst_Node)
    ultimately show ?thesis using Node.IH(2) [OF sub(3,4)] 2 by auto
  next
    case 3
    then have "cmp k a = 0" using cmp_less [of k a] cmp_greater [of k a] by auto
    then have "rb_find_exact_loop s k cmp a = Some a"
      using a by (subst rb_find_exact_loop.simps) simp
    then show ?thesis using 3 by simp
  qed
qed

lemma find_exact_rep:
  assumes "rb_tree key s t"
  shows "(\<exists>a\<in>nodes t. key a = key k \<and> rb_find_exact s k cmp = Some a) \<or>
    (\<forall>a\<in>nodes t. key a \<noteq> key k) \<and> rb_find_exact s k cmp = Some NULL"
  using assms find_loop_rep [of s NULL t k] by (simp add: rb_find_exact_def rb_tree_def)

lemma walk_found:
  "is_tree (rb_mem s) par t \<Longrightarrow> bst key t \<Longrightarrow> \<exists>a\<in>nodes t. key a = key n \<Longrightarrow>
   rb_insert_walk s n cmp (ptr t) q = Some None"
proof (induction t arbitrary: par q)
  case (Node c l a r)
  have a: "a \<noteq> NULL" "rb_mem s a = \<lparr>right = ptr r, left = ptr l, parent = par, color = c\<rparr>"
    and sub: "is_tree (rb_mem s) a l" "bst key l" "is_tree (rb_mem s) a r" "bst key r"
    using Node.prems by (auto simp: bst_Node)
  consider "key n < key a" | "key a < key n" | "key n = key a" by force
  then show ?case
  proof cases
    case 1
    then have "\<exists>x\<in>nodes l. key x = key n" using Node.prems(2,3) by (auto simp: bst_Node)
    then show ?thesis using 1 a cmp_less Node.IH(1) [OF sub(1,2)]
      by (subst rb_insert_walk.simps) auto
  next
    case 2
    then have "\<exists>x\<in>nodes r. key x = key n" using Node.prems(2,3) by (auto simp: bst_Node)
    moreover have "\<not> cmp n a < 0" "0 < cmp n a" using 2 cmp_greater [of n a] by auto
    ultimately show ?thesis using a Node.IH(2) [OF sub(3,4)]
      by (subst rb_insert_walk.simps) auto
  next
    case 3
    then have "cmp n a = 0" using cmp_less [of n a] cmp_greater [of n a] by auto
    then show ?thesis using a by (subst rb_insert_walk.simps) simp
  qed
qed simp

lemma walk_not_found:
  "is_tree (rb_mem s) par t \<Longrightarrow> bst key t \<Longrightarrow> \<forall>a\<in>nodes t. key a \<noteq> key n \<Longrightarrow>
   rb_insert_walk s n cmp (ptr t) (cpar fs) = Some (Some (cpar (ins_ctx key (key n) fs t)))"
proof (induction t arbitrary: par fs)
  case Leaf
  then show ?case by (simp add: rb_insert_walk.simps)
next
  case (Node c l a r)
  have a: "a \<noteq> NULL" "rb_mem s a = \<lparr>right = ptr r, left = ptr l, parent = par, color = c\<rparr>"
    and sub: "is_tree (rb_mem s) a l" "bst key l" "is_tree (rb_mem s) a r" "bst key r"
    using Node.prems by (auto simp: bst_Node)
  consider "key n < key a" | "key a < key n" using Node.prems(3) by force
  then show ?case
  proof cases
    case 1
    then have "rb_insert_walk s n cmp a (cpar fs) = rb_insert_walk s n cmp (ptr l) (cpar (CL c a r # fs))"
      using a cmp_less by (subst rb_insert_walk.simps) simp
    then show ?thesis using 1 Node.IH(1) [OF sub(1,2), of "CL c a r # fs"] Node.prems(3) by auto
  next
    case 2
    then have "\<not> cmp n a < 0" "0 < cmp n a" using cmp_greater [of n a] by auto
    then have "rb_insert_walk s n cmp a (cpar fs) = rb_insert_walk s n cmp (ptr r) (cpar (CR c l a # fs))"
      using a by (subst rb_insert_walk.simps) simp
    then show ?thesis using 2 Node.IH(2) [OF sub(3,4), of "CR c l a # fs"] Node.prems(3) by auto
  qed
qed

lemma insert_start:
  assumes "n \<noteq> NULL"
  shows "rb_insert s n cmp = do {
     w \<leftarrow> rb_insert_walk (unlink_node s n) n cmp (rb_root s) NULL;
     case w of
       None \<Rightarrow> Some (NULL, unlink_node s n)
     | Some par \<Rightarrow>
         if par = NULL then do {
           s \<leftarrow> upd ((unlink_node s n)\<lparr>rb_root := n\<rparr>) n (\<lambda>n. n\<lparr>parent := NULL\<rparr>);
           s \<leftarrow> upd s n (\<lambda>n. n\<lparr>color := RB_BLACK\<rparr>);
           Some (n, s)
         } else if cmp n par = 0 then Some (NULL, unlink_node s n)
         else do {
           s \<leftarrow> (if cmp n par < 0 then upd (unlink_node s n) par (\<lambda>p. p\<lparr>left := n\<rparr>)
                 else upd (unlink_node s n) par (\<lambda>p. p\<lparr>right := n\<rparr>));
           s \<leftarrow> upd s n (\<lambda>n. n\<lparr>parent := par\<rparr>);
           s \<leftarrow> upd s n (\<lambda>n. n\<lparr>color := RB_RED\<rparr>);
           s \<leftarrow> rb_insert_fixup s n;
           Some (n, s)
         }
   }"
proof -
  define s0 where "s0 = s\<lparr>rb_mem := (rb_mem s)(n := (rb_mem s n)\<lparr>left := NULL\<rparr>)\<rparr>"
  have "upd s n (\<lambda>n. n\<lparr>left := NULL\<rparr>) = Some s0"
    "upd s0 n (\<lambda>n. n\<lparr>right := NULL\<rparr>) = Some (unlink_node s n)"
    "rb_root (unlink_node s n) = rb_root s"
    using assms by (simp_all add: s0_def unlink_node_def)
  note step = this
  show ?thesis
  proof (cases "rb_insert_walk (unlink_node s n) n cmp (rb_root s) NULL")
    case None
    with step show ?thesis by (simp add: rb_insert_def Let_def del: upd_Some)
  next
    case (Some w)
    with step show ?thesis
      by (cases w) (simp_all add: rb_insert_def Let_def del: upd_Some)
  qed
qed

lemma insert_duplicate:
  assumes t: "rb_tree key s t" and n: "n \<noteq> NULL" "n \<notin> nodes t" and dup: "\<exists>a\<in>nodes t. key a = key n"
  shows "rb_insert s n cmp = Some (NULL, unlink_node s n)"
  using walk_found [of "unlink_node s n" NULL t n] unlink_node_tree [OF t n(2)] dup t
  by (simp add: insert_start [OF n(1)] rb_tree_def)

lemma insert_empty:
  assumes t: "rb_tree key s Leaf" and n: "n \<noteq> NULL"
  shows "\<exists>s'. rb_insert s n cmp = Some (n, s') \<and> rep (rb_mem s) s' [] (Node RB_BLACK Leaf n Leaf)"
  using t n by (auto simp: insert_start rb_tree_def rb_insert_walk.simps rep_def unlink_node_def)

lemma insert_attach:
  assumes t: "rb_tree key s t" and n: "n \<noteq> NULL" "n \<notin> nodes t"
    and new: "\<forall>a\<in>nodes t. key a \<noteq> key n" and fs: "ins_ctx key (key n) [] t = f # gs"
  shows "\<exists>s'. rb_insert s n cmp = Some (n, s') \<and>
    rep (rb_mem (unlink_node s n)) s' [] (paint RB_BLACK (ins_fix (f # gs) (Node RB_RED Leaf n Leaf)))"
proof -
  let ?u = "unlink_node s n"
  have tu: "rb_tree key ?u t" using t n by (intro unlink_node_tree)
  have pl: "plug (f # gs) Leaf = t" using plug_ins_ctx [of key "key n" "[]" t] fs by simp
  have r: "rep (rb_mem ?u) ?u (f # gs) Leaf"
    using tu rep_top [of _ ?u "f # gs" Leaf] pl by (simp add: rb_tree_rep)
  have nn: "n \<notin> cnodes (f # gs)" using n(2) nodes_plug [of "f # gs" Leaf] pl by simp
  have "ctx_between key (key n) (f # gs)"
    using ins_ctx_between [of key t "key n" "[]"] t new fs by (simp add: ctx_between_def rb_tree_def)
  then have dir: "case f of CL c a r \<Rightarrow> cmp n a < 0 | CR c l a \<Rightarrow> 0 < cmp n a"
    using cmp_less cmp_greater by (cases f) (auto simp: ctx_between_def)
  have walk: "rb_insert_walk ?u n cmp (rb_root s) NULL = Some (Some (faddr f))"
    using walk_not_found [of ?u NULL t n "[]"] tu new fs t by (simp add: rb_tree_def)
  have p: "faddr f \<noteq> NULL" using rep_frame [OF r] by simp
  have cell: "left (rb_mem ?u n) = NULL" "right (rb_mem ?u n) = NULL" by (simp_all add: unlink_node_def)
  obtain s1 where s1: "do { s \<leftarrow> (if cmp n (faddr f) < 0 then upd ?u (faddr f) (\<lambda>p. p\<lparr>left := n\<rparr>)
             else upd ?u (faddr f) (\<lambda>p. p\<lparr>right := n\<rparr>));
           s \<leftarrow> upd s n (\<lambda>n. n\<lparr>parent := faddr f\<rparr>);
           upd s n (\<lambda>n. n\<lparr>color := RB_RED\<rparr>) } = Some s1"
    "rep (rb_mem ?u) s1 (f # gs) (Node RB_RED Leaf n Leaf)"
  proof (cases f)
    case (CL c a r')
    with attach_rep_CL [OF r [unfolded CL] n(1) nn [unfolded CL] cell] dir that show thesis by auto
  next
    case (CR c l' a)
    with attach_rep_CR [OF r [unfolded CR] n(1) nn [unfolded CR] cell] dir that show thesis by auto
  qed
  obtain s2 where "rb_insert_fixup s1 n = Some s2"
    "rep (rb_mem ?u) s2 [] (paint RB_BLACK (ins_fix (f # gs) (Node RB_RED Leaf n Leaf)))"
    using insert_fixup_rep [OF s1(2)] by blast
  moreover have "cmp n (faddr f) \<noteq> 0" using dir by (cases f) auto
  ultimately show ?thesis using walk p n(1) s1(1)
    by (auto simp: insert_start bind_eq_Some_conv split: if_splits)
qed

text \<open>The contract of \<open>rb_insert\<close>.\<close>

lemma insert_correct:
  assumes t: "rb_tree key s t" and n: "n \<noteq> NULL" "n \<notin> nodes t"
  shows "if \<exists>a\<in>nodes t. key a = key n
    then \<exists>s'. rb_insert s n cmp = Some (NULL, s') \<and> rb_tree key s' t \<and>
      (\<forall>a. a \<noteq> n \<longrightarrow> rb_mem s' a = rb_mem s a)
    else \<exists>s' t'. rb_insert s n cmp = Some (n, s') \<and> rb_tree key s' t' \<and>
      nodes t' = insert n (nodes t) \<and> (\<forall>a. a \<notin> nodes t' \<longrightarrow> rb_mem s' a = rb_mem s a)"
proof (cases "\<exists>a\<in>nodes t. key a = key n")
  case True
  then show ?thesis using insert_duplicate [OF t n True] unlink_node_tree [OF t n(2)]
    by (simp add: unlink_node_frame)
next
  case new: False
  show ?thesis
  proof (cases "ins_ctx key (key n) [] t")
    case Nil
    then have "t = Leaf" using plug_ins_ctx [of key "key n" "[]" t] by simp
    with insert_empty [of s n] t n obtain s' where s': "rb_insert s n cmp = Some (n, s')"
      "rep (rb_mem s) s' [] (Node RB_BLACK Leaf n Leaf)" by auto
    then have "rb_tree key s' (Node RB_BLACK Leaf n Leaf)"
      by (intro rep_rb_tree) (auto simp: rb_inv_def bst_def)
    moreover have "\<forall>a. a \<notin> nodes (Node RB_BLACK Leaf n Leaf) \<longrightarrow> rb_mem s' a = rb_mem s a"
      using s'(2) by (auto simp: rep_def)
    ultimately have "rb_tree key s' (Node RB_BLACK Leaf n Leaf) \<and>
      nodes (Node RB_BLACK Leaf n Leaf) = insert n (nodes t) \<and>
      (\<forall>a. a \<notin> nodes (Node RB_BLACK Leaf n Leaf) \<longrightarrow> rb_mem s' a = rb_mem s a)"
      using \<open>t = Leaf\<close> by simp
    with new s'(1) show ?thesis by metis
  next
    case (Cons f gs)
    let ?t = "paint RB_BLACK (ins_fix (f # gs) (Node RB_RED Leaf n Leaf))"
    have pl: "plug (f # gs) Leaf = t" using plug_ins_ctx [of key "key n" "[]" t] Cons by simp
    obtain s' where s': "rb_insert s n cmp = Some (n, s')" "rep (rb_mem (unlink_node s n)) s' [] ?t"
      using insert_attach [OF t n _ Cons] new by blast
    have "ctx_between key (key n) (f # gs)"
      using ins_ctx_between [of key t "key n" "[]"] t new Cons by (simp add: ctx_between_def rb_tree_def)
    then have "rb_tree key s' ?t"
      using rep_rb_tree [OF s'(2)] attach_inv [of "f # gs" n] attach_bst [of key "f # gs" n] t pl
      by (simp add: rb_tree_def)
    moreover have nodes: "nodes ?t = insert n (nodes t)"
      unfolding pl [symmetric]
      by (simp add: inorder_ins_fix inorder_plug insert_commute del: plug.simps)
    moreover have "\<forall>a. a \<notin> nodes ?t \<longrightarrow> rb_mem s' a = rb_mem s a"
      using s'(2) nodes unlink_node_frame [of _ n s] by (auto simp: rep_def)
    ultimately show ?thesis using new s'(1) by metis
  qed
qed

text \<open>The contract of \<open>rb_delete\<close>.\<close>

lemma delete_correct:
  assumes t: "rb_tree key s t"
  shows "if \<exists>a\<in>nodes t. key a = key k
    then \<exists>s' t' z. rb_delete s k cmp = Some (True, s') \<and> z \<in> nodes t \<and> key z = key k \<and>
      rb_tree key s' t' \<and> inorder t' = remove1 z (inorder t) \<and>
      (\<forall>a. a \<notin> nodes t \<longrightarrow> rb_mem s' a = rb_mem s a)
    else rb_delete s k cmp = Some (False, s)"
proof (cases "\<exists>a\<in>nodes t. key a = key k")
  case True
  then obtain z where z: "z \<in> nodes t" "key z = key k" "rb_find_exact s k cmp = Some z"
    using find_exact_rep [OF t, of k] by blast
  obtain fs c l r where f: "t = plug fs (Node c l z r)" using focus_node [OF z(1)] by blast
  let ?t = "del_node fs c l r"
  have rf: "rep (rb_mem s) s fs (Node c l z r)" using t f rep_top by (simp add: rb_tree_rep)
  have inv: "rb_inv (plug fs (Node c l z r))" using t f by (simp add: rb_tree_def)
  obtain s' where s': "do {
      (s, x, x_parent, y_original_color) \<leftarrow> rb_delete_unlink s z;
      if y_original_color = RB_BLACK then rb_delete_fixup s x x_parent else Some s } = Some s'"
    "rep ((rb_mem s)(z := rb_mem s' z)) s' [] ?t"
    using delete_node_rep [OF rf inv] by blast
  have "distinct (inorder t)" using t by (auto simp: rb_tree_def dest: distinct_inorder)
  then have io: "inorder ?t = remove1 z (inorder t)"
    by (auto simp: f inorder_del_node inorder_plug remove1_append)
  have "bst key ?t" using t
    by (auto simp: rb_tree_def bst_def f inorder_del_node inorder_plug sorted_wrt_append)
  with s'(2) inv have "rb_tree key s' ?t" by (intro rep_rb_tree del_node_inv)
  moreover have "rb_delete s k cmp = Some (True, s')"
    using z(3) s'(1) rep_node(1) [OF rf] by (auto simp: rb_delete_def bind_eq_Some_conv)
  moreover have "\<forall>a. a \<notin> nodes t \<longrightarrow> rb_mem s' a = rb_mem s a"
  proof (intro allI impI)
    fix a assume a: "a \<notin> nodes t"
    then have "a \<notin> nodes ?t" unfolding io by (meson notin_set_remove1)
    moreover have "a \<noteq> z" using a z(1) by blast
    ultimately show "rb_mem s' a = rb_mem s a" using s'(2) by (simp add: rep_def)
  qed
  ultimately show ?thesis using True z(1,2) io by auto
next
  case False
  with find_exact_rep [OF t, of k] show ?thesis by (auto simp: rb_delete_def)
qed

end

end
