(* ===== verification/Rb_Search.thy ===== *)
theory Rb_Search
  imports Rb_Correct
begin

text \<open>
  Reading a red-black tree without changing it: the in-order traversal and the printed
  picture of \<^verbatim>\<open>rb_tree.c\<close>, the height bound that makes every walk logarithmic, and the
  contract shared by the neighbour and stabbing searches of \<^verbatim>\<open>vm.c\<close> and
  \<^verbatim>\<open>virt_kmalloc.c\<close>.
\<close>

section \<open>Traversal and printing\<close>

lemma traverse_rep: "is_tree (rb_mem s) par t \<Longrightarrow> rb_traverse_inorder s (ptr t) = Some (inorder t)"
proof (induction t arbitrary: par)
  case Leaf
  then show ?case by (simp add: rb_traverse_inorder.simps)
next
  case (Node c l a r)
  then show ?case by (subst rb_traverse_inorder.simps) auto
qed

text \<open>The picture of a subtree: one line per node, right subtree first, four columns per level.\<close>

fun picture :: "(addr \<Rightarrow> u64) \<Rightarrow> int \<Rightarrow> int \<Rightarrow> rbt \<Rightarrow> (u64 \<times> int \<times> int) list" where
  "picture f row c Leaf = []"
| "picture f row c (Node _ l a r) =
     picture f row (c + 4) r @
     (f a, row + int (length (inorder r)), c) #
     picture f (row + int (length (inorder r)) + 1) (c + 4) l"

lemma print_rep:
  "is_tree (rb_mem s) par t \<Longrightarrow>
   rb_print_tree s (ptr t) row c f = Some (picture f row c t, row + int (length (inorder t)))"
proof (induction t arbitrary: par row c)
  case Leaf
  then show ?case by (simp add: rb_print_tree.simps)
next
  case (Node d l a r)
  have n: "a \<noteq> NULL" "rb_mem s a = \<lparr>right = ptr r, left = ptr l, parent = par, color = d\<rparr>"
    and sub: "is_tree (rb_mem s) a l" "is_tree (rb_mem s) a r"
    using Node.prems by auto
  show ?case using n Node.IH(1) [OF sub(1)] Node.IH(2) [OF sub(2)]
    by (subst rb_print_tree.simps) (simp add: algebra_simps)
qed

lemma picture_values: "map fst (picture f row c t) = map f (rev (inorder t))"
  by (induction f row c t rule: picture.induct) simp_all

lemma upt_split: "[0..<m + Suc n] = [0..<n] @ n # map (\<lambda>i. n + 1 + i) [0..<m]"
  by (induction m) simp_all

lemma picture_rows:
  "map (fst \<circ> snd) (picture f row c t) = map (\<lambda>i. row + int i) [0..<length (inorder t)]"
proof (induction f row c t rule: picture.induct)
  case (2 f row c d l a r)
  have "length (inorder (Node d l a r)) = length (inorder l) + Suc (length (inorder r))" by simp
  with 2 show ?case by (simp only: upt_split) (simp add: comp_def algebra_simps)
qed simp

section \<open>Height\<close>

fun height :: "rbt \<Rightarrow> nat" where
  "height Leaf = 0"
| "height (Node c l a r) = Suc (max (height l) (height r))"

lemma height_bheight:
  "invc t \<Longrightarrow> invh t \<Longrightarrow> height t \<le> 2 * bheight t + (if col t = RB_BLACK then 0 else 1)"
  by (induction t) (auto split: if_splits)

lemma bheight_size: "invh t \<Longrightarrow> 2 ^ bheight t \<le> length (inorder t) + 1"
proof (induction t)
  case (Node c l a r)
  then have "(2::nat) ^ bheight l \<le> length (inorder l) + 1" "(2::nat) ^ bheight l \<le> length (inorder r) + 1"
    by auto
  then show ?case by (cases "c = RB_BLACK") (simp_all add: mult_2)
qed simp

lemma rb_tree_height:
  assumes "rb_tree key s t"
  shows "2 ^ height t \<le> (length (inorder t) + 1) ^ 2"
proof -
  have "height t \<le> 2 * bheight t" and h: "invh t"
    using assms height_bheight [of t] by (auto simp: rb_tree_def rb_inv_def)
  then have "(2::nat) ^ height t \<le> (2 ^ bheight t) ^ 2"
    by (simp add: power_mult [symmetric] mult.commute power_increasing)
  also have "\<dots> \<le> (length (inorder t) + 1) ^ 2"
    using bheight_size [OF h] by (rule power_mono) simp
  finally show ?thesis .
qed

section \<open>Neighbour and stabbing searches\<close>

text \<open>
  What the three loops compute, over the nodes in order: the first node whose key is above
  \<open>addr\<close>, the last whose key is below it, and the node whose range holds it.
\<close>

definition first_above :: "(addr \<Rightarrow> u64) \<Rightarrow> u64 \<Rightarrow> addr list \<Rightarrow> addr \<Rightarrow> addr" where
  "first_above key x ns d = (case filter (\<lambda>a. x < key a) ns of [] \<Rightarrow> d | a # _ \<Rightarrow> a)"

definition last_below :: "(addr \<Rightarrow> u64) \<Rightarrow> u64 \<Rightarrow> addr list \<Rightarrow> addr \<Rightarrow> addr" where
  "last_below key x ns d =
     (let below = filter (\<lambda>a. key a < x) ns in if below = [] then d else last below)"

definition disjoint_ranges :: "(addr \<Rightarrow> u64) \<Rightarrow> (addr \<Rightarrow> u64) \<Rightarrow> addr list \<Rightarrow> bool" where
  "disjoint_ranges key fin ns \<longleftrightarrow>
     sorted_wrt (\<lambda>a b. fin a \<le> key b) ns \<and> (\<forall>a\<in>set ns. key a < fin a)"

lemma first_above_mem:
  "first_above key x ns d = d \<and> (\<forall>a\<in>set ns. key a \<le> x) \<or>
   first_above key x ns d \<in> set ns \<and> x < key (first_above key x ns d)"
proof (cases "filter (\<lambda>a. x < key a) ns")
  case Nil
  then show ?thesis by (auto simp: first_above_def filter_empty_conv not_less)
next
  case (Cons a as)
  then have "a \<in> set ns \<and> x < key a" using filter_set [of "\<lambda>a. x < key a" ns] by auto
  with Cons show ?thesis by (simp add: first_above_def)
qed

lemma first_above_least:
  assumes "sorted_wrt (\<lambda>a b. key a < key b) ns" "b \<in> set ns" "x < key b"
  shows "first_above key x ns d \<in> set ns \<and> x < key (first_above key x ns d) \<and>
    key (first_above key x ns d) \<le> key b"
proof (cases "filter (\<lambda>a. x < key a) ns")
  case Nil
  with assms(2,3) show ?thesis by (auto simp: filter_empty_conv)
next
  case (Cons a as)
  have "sorted_wrt (\<lambda>a b. key a < key b) (a # as)"
    unfolding Cons [symmetric] by (rule sorted_wrt_filter [OF assms(1)])
  moreover have "b \<in> set (a # as)" unfolding Cons [symmetric] using assms(2,3) by simp
  moreover have "a \<in> set ns \<and> x < key a" using Cons filter_set [of "\<lambda>a. x < key a" ns] by auto
  ultimately show ?thesis using Cons by (auto simp: first_above_def)
qed

lemma last_below_greatest:
  assumes "sorted_wrt (\<lambda>a b. key a < key b) ns" "b \<in> set ns" "key b < x"
  shows "last_below key x ns d \<in> set ns \<and> key (last_below key x ns d) < x \<and>
    key b \<le> key (last_below key x ns d)"
proof -
  define xs where "xs = filter (\<lambda>a. key a < x) ns"
  have b: "b \<in> set xs" and ne: "xs \<noteq> []" using assms(2,3) by (auto simp: xs_def filter_empty_conv)
  have l: "last xs \<in> set ns" "key (last xs) < x" using last_in_set [OF ne] by (auto simp: xs_def)
  have "sorted_wrt (\<lambda>a b. key a < key b) (butlast xs @ [last xs])"
    using sorted_wrt_filter [OF assms(1)] ne by (simp add: xs_def)
  moreover have "b = last xs \<or> b \<in> set (butlast xs)"
    using b ne by (metis append_butlast_last_id in_set_butlastD rotate1.simps(2) set_ConsD set_rotate1)
  ultimately have "key b \<le> key (last xs)" by (auto simp: sorted_wrt_append)
  with l ne show ?thesis by (simp add: last_below_def xs_def [symmetric])
qed

lemma disjoint_ranges_append:
  "disjoint_ranges key fin (ls @ a # rs) \<longleftrightarrow>
     disjoint_ranges key fin ls \<and> disjoint_ranges key fin rs \<and> key a < fin a \<and>
     (\<forall>x\<in>set ls. fin x \<le> key a \<and> (\<forall>y\<in>set rs. fin x \<le> key y)) \<and> (\<forall>y\<in>set rs. fin a \<le> key y)"
  by (auto simp: disjoint_ranges_def sorted_wrt_append)

lemma disjoint_ranges_bst: "disjoint_ranges key fin (inorder t) \<Longrightarrow> bst key t"
  unfolding bst_def disjoint_ranges_def
  by (auto elim!: sorted_wrt_mono_rel [rotated] intro: less_le_trans)

lemma sorted_wrt_total:
  assumes "sorted_wrt P ns" "a \<in> set ns" "b \<in> set ns"
  shows "a = b \<or> P a b \<or> P b a"
proof -
  obtain i j where ij: "i < length ns" "a = ns ! i" "j < length ns" "b = ns ! j"
    using assms(2,3) by (auto simp: in_set_conv_nth)
  show ?thesis using ij sorted_wrt_nth_less [OF assms(1)]
    by (cases i j rule: linorder_cases) auto
qed

lemma bst_inj:
  assumes "bst key t" "a \<in> nodes t" "b \<in> nodes t" "key a = key b"
  shows "a = b"
  using sorted_wrt_total [OF assms(1) [unfolded bst_def] assms(2,3)] assms(4) by simp

lemma disjoint_ranges_apart:
  assumes "disjoint_ranges key fin ns" "a \<in> set ns" "b \<in> set ns" "key a < key b"
  shows "fin a \<le> key b"
proof -
  have "key a < fin a" "key b < fin b" using assms(1-3) by (auto simp: disjoint_ranges_def)
  moreover have "a = b \<or> fin a \<le> key b \<or> fin b \<le> key a"
    using sorted_wrt_total [of "\<lambda>a b. fin a \<le> key b" ns a b] assms(1-3) by (simp add: disjoint_ranges_def)
  ultimately show ?thesis using assms(4) by (metis leD less_trans order.irrefl le_less_trans)
qed

lemma bst_disjoint_ranges:
  assumes "bst key t" "\<And>a b. a \<in> nodes t \<Longrightarrow> b \<in> nodes t \<Longrightarrow> key a < key b \<Longrightarrow> fin a \<le> key b"
    "\<forall>a\<in>nodes t. key a < fin a"
  shows "disjoint_ranges key fin (inorder t)"
  using assms(1,3) unfolding bst_def disjoint_ranges_def
  by (auto intro!: sorted_wrt_mono_rel [of "inorder t" "\<lambda>a b. key a < key b"] assms(2))

text \<open>A new range that is apart from the others joins the tree.\<close>

lemma disjoint_ranges_insert:
  assumes d: "disjoint_ranges key fin (inorder t)" and t': "bst key t'" "nodes t' = insert n (nodes t)"
    and n: "key n < fin n" "\<forall>a\<in>nodes t. fin a \<le> key n \<or> fin n \<le> key a"
  shows "disjoint_ranges key fin (inorder t')"
proof (rule bst_disjoint_ranges [OF t'(1)])
  have ne: "\<forall>a\<in>nodes t. key a < fin a" using d by (simp add: disjoint_ranges_def)
  with n(1) t'(2) show "\<forall>a\<in>nodes t'. key a < fin a" by simp
  fix a b assume ab: "a \<in> nodes t'" "b \<in> nodes t'" "key a < key b"
  then consider "a = n" "b \<in> nodes t" | "b = n" "a \<in> nodes t" | "a \<in> nodes t" "b \<in> nodes t"
    using t'(2) by auto
  then show "fin a \<le> key b"
  proof cases
    case 1
    with n(2) ne ab(3) show ?thesis by (meson leD less_le_trans less_trans)
  next
    case 2
    with n ne ab(3) show ?thesis by (meson leD less_le_trans less_trans)
  next
    case 3
    with disjoint_ranges_apart [OF d] ab(3) show ?thesis by blast
  qed
qed

text \<open>At most one range of the tree holds an address.\<close>

lemma disjoint_ranges_unique:
  assumes "disjoint_ranges key fin (inorder t)" "a \<in> nodes t" "b \<in> nodes t"
    "key a \<le> x" "x < fin a" "key b \<le> x" "x < fin b"
  shows "a = b"
proof -
  have "\<not> key a < key b"
    using disjoint_ranges_apart [OF assms(1,2,3)] assms(5,6) by (meson leD order_trans)
  moreover have "\<not> key b < key a"
    using disjoint_ranges_apart [OF assms(1,3,2)] assms(4,7) by (meson leD order_trans)
  ultimately have "key a = key b" by (simp add: not_less)
  with bst_inj [OF disjoint_ranges_bst [OF assms(1)] assms(2,3)] show ?thesis by simp
qed

locale rb_search =
  fixes key fin :: "addr \<Rightarrow> u64"
    and container :: "addr \<Rightarrow> addr"
    and succ_loop pred_loop :: "rb_state \<Rightarrow> u64 \<Rightarrow> addr \<Rightarrow> addr \<Rightarrow> addr option"
    and find_loop :: "rb_state \<Rightarrow> u64 \<Rightarrow> addr \<Rightarrow> addr option"
  assumes succ_NULL: "succ_loop s x NULL d = Some d"
    and succ_left: "p \<noteq> NULL \<Longrightarrow> x < key p \<Longrightarrow> succ_loop s x p d = succ_loop s x (left (rb_mem s p)) p"
    and succ_right: "p \<noteq> NULL \<Longrightarrow> key p \<le> x \<Longrightarrow> succ_loop s x p d = succ_loop s x (right (rb_mem s p)) d"
    and pred_NULL: "pred_loop s x NULL d = Some d"
    and pred_right: "p \<noteq> NULL \<Longrightarrow> key p < x \<Longrightarrow> pred_loop s x p d = pred_loop s x (right (rb_mem s p)) p"
    and pred_left: "p \<noteq> NULL \<Longrightarrow> x \<le> key p \<Longrightarrow> pred_loop s x p d = pred_loop s x (left (rb_mem s p)) d"
    and find_NULL: "find_loop s x NULL = Some NULL"
    and find_left: "p \<noteq> NULL \<Longrightarrow> x < key p \<Longrightarrow> find_loop s x p = find_loop s x (left (rb_mem s p))"
    and find_right: "p \<noteq> NULL \<Longrightarrow> key p \<le> x \<Longrightarrow> fin p \<le> x \<Longrightarrow>
      find_loop s x p = find_loop s x (right (rb_mem s p))"
    and find_hit: "p \<noteq> NULL \<Longrightarrow> key p \<le> x \<Longrightarrow> x < fin p \<Longrightarrow> find_loop s x p = Some (container p)"
begin

lemma succ_loop_rep:
  "is_tree (rb_mem s) par t \<Longrightarrow> bst key t \<Longrightarrow>
   succ_loop s x (ptr t) d = Some (first_above key x (inorder t) d)"
proof (induction t arbitrary: par d)
  case Leaf
  then show ?case by (simp add: succ_NULL first_above_def)
next
  case (Node c l a r)
  have sub: "is_tree (rb_mem s) a l" "bst key l" "is_tree (rb_mem s) a r" "bst key r"
    and a: "a \<noteq> NULL" "left (rb_mem s a) = ptr l" "right (rb_mem s a) = ptr r"
    using Node.prems by (auto simp: bst_Node)
  show ?case
  proof (cases "x < key a")
    case True
    then have "first_above key x (inorder (Node c l a r)) d = first_above key x (inorder l) a"
      by (auto simp: first_above_def split: list.splits)
    with True a Node.IH(1) [OF sub(1,2)] show ?thesis by (simp add: succ_left)
  next
    case False
    with Node.prems(2) have "filter (\<lambda>a. x < key a) (inorder l) = []"
      by (auto simp: bst_Node filter_empty_conv)
    with False have "first_above key x (inorder (Node c l a r)) d = first_above key x (inorder r) d"
      by (simp add: first_above_def)
    with False a Node.IH(2) [OF sub(3,4)] show ?thesis by (simp add: succ_right)
  qed
qed

lemma pred_loop_rep:
  "is_tree (rb_mem s) par t \<Longrightarrow> bst key t \<Longrightarrow>
   pred_loop s x (ptr t) d = Some (last_below key x (inorder t) d)"
proof (induction t arbitrary: par d)
  case Leaf
  then show ?case by (simp add: pred_NULL last_below_def)
next
  case (Node c l a r)
  have sub: "is_tree (rb_mem s) a l" "bst key l" "is_tree (rb_mem s) a r" "bst key r"
    and a: "a \<noteq> NULL" "left (rb_mem s a) = ptr l" "right (rb_mem s a) = ptr r"
    using Node.prems by (auto simp: bst_Node)
  show ?case
  proof (cases "key a < x")
    case True
    then have "last_below key x (inorder (Node c l a r)) d = last_below key x (inorder r) a"
      by (simp add: last_below_def Let_def)
    with True a Node.IH(2) [OF sub(3,4)] show ?thesis by (simp add: pred_right)
  next
    case False
    with Node.prems(2) have "filter (\<lambda>a. key a < x) (inorder r) = []"
      by (auto simp: bst_Node filter_empty_conv)
    with False have "last_below key x (inorder (Node c l a r)) d = last_below key x (inorder l) d"
      by (simp add: last_below_def)
    with False a Node.IH(1) [OF sub(1,2)] show ?thesis by (simp add: pred_left)
  qed
qed

lemma find_loop_rep:
  "is_tree (rb_mem s) par t \<Longrightarrow> disjoint_ranges key fin (inorder t) \<Longrightarrow>
   (\<exists>a\<in>nodes t. key a \<le> x \<and> x < fin a \<and> find_loop s x (ptr t) = Some (container a)) \<or>
   (\<forall>a\<in>nodes t. \<not> (key a \<le> x \<and> x < fin a)) \<and> find_loop s x (ptr t) = Some NULL"
proof (induction t arbitrary: par)
  case Leaf
  then show ?case by (simp add: find_NULL)
next
  case (Node c l a r)
  have sub: "is_tree (rb_mem s) a l" "is_tree (rb_mem s) a r"
      "disjoint_ranges key fin (inorder l)" "disjoint_ranges key fin (inorder r)"
    and a: "a \<noteq> NULL" "left (rb_mem s a) = ptr l" "right (rb_mem s a) = ptr r"
    and lt: "key a < fin a" "\<forall>b\<in>nodes l. fin b \<le> key a" "\<forall>b\<in>nodes r. fin a \<le> key b"
    using Node.prems by (auto simp: disjoint_ranges_append)
  consider "x < key a" | "key a \<le> x" "fin a \<le> x" | "key a \<le> x" "x < fin a" by (meson not_le)
  then show ?case
  proof cases
    case 1
    then have "\<forall>b\<in>nodes r. \<not> key b \<le> x" using lt(1,3) by (meson leD le_less_trans less_trans)
    moreover have "find_loop s x a = find_loop s x (ptr l)" using find_left [OF a(1) 1] a(2) by simp
    ultimately show ?thesis using 1 Node.IH(1) [OF sub(1,3)] by auto
  next
    case 2
    then have "\<forall>b\<in>nodes l. \<not> x < fin b" using lt(2) by (meson leD order_trans)
    moreover have "find_loop s x a = find_loop s x (ptr r)" using find_right [OF a(1) 2] a(3) by simp
    ultimately show ?thesis using 2 Node.IH(2) [OF sub(2,4)] by auto
  next
    case 3
    then show ?thesis using find_hit [OF a(1) 3] by auto
  qed
qed

end

end
