(* ===== verification/Vm.thy ===== *)
theory Vm
  imports Rb_Search
begin

text \<open>
  \<^verbatim>\<open>src/mikroKernellib/vm.c\<close>, \<^verbatim>\<open>include/vm.h\<close> and the debug validator of
  \<^verbatim>\<open>include/rb_tree.h\<close>: the virtual memory areas whose nodes the kernel's red-black tree
  links, the comparison the tree is ordered by, and the three address searches.

  A \<open>vma_t\<close> is kept in two typed heaps: its three 64-bit fields in a heap of areas keyed by
  the area's address, its embedded \<open>struct rb_node\<close>, 24 bytes further, in the heap of nodes
  of \<open>Rb_Tree\<close>.
\<close>

section \<open>Areas\<close>

record vma =
  vma_start :: u64
  vma_end :: u64
  vma_pte :: u64

type_synonym vma_heap = "addr \<Rightarrow> vma"

definition vma_node :: "addr \<Rightarrow> addr" where
  "vma_node v = v + 24"

definition vma_of_node :: "addr \<Rightarrow> addr" where
  "vma_of_node n = n - 24"

definition vma_cmp :: "vma_heap \<Rightarrow> addr \<Rightarrow> addr \<Rightarrow> int" where
  "vma_cmp vm a b =
     (let va = vma_of_node a; vb = vma_of_node b in
      if vma_start (vm va) < vma_start (vm vb) then -1
      else if vma_start (vm va) > vma_start (vm vb) then 1
      else 0)"

section \<open>Searches by address\<close>

partial_function (option) rb_successor_loop ::
  "vma_heap \<Rightarrow> rb_state \<Rightarrow> u64 \<Rightarrow> addr \<Rightarrow> addr \<Rightarrow> addr option" where
  "rb_successor_loop vm s x current successor =
     (if current = NULL then Some successor
      else if x < vma_start (vm (vma_of_node current))
      then do { c \<leftarrow> rd s current; rb_successor_loop vm s x (left c) current }
      else do { c \<leftarrow> rd s current; rb_successor_loop vm s x (right c) successor })"

definition rb_successor :: "vma_heap \<Rightarrow> rb_state \<Rightarrow> u64 \<Rightarrow> addr option" where
  "rb_successor vm s x = do {
     successor \<leftarrow> rb_successor_loop vm s x (rb_root s) NULL;
     Some (if successor \<noteq> NULL then vma_of_node successor else NULL)
   }"

partial_function (option) rb_predeccessor_loop ::
  "vma_heap \<Rightarrow> rb_state \<Rightarrow> u64 \<Rightarrow> addr \<Rightarrow> addr \<Rightarrow> addr option" where
  "rb_predeccessor_loop vm s x current predecessor =
     (if current = NULL then Some predecessor
      else if x > vma_start (vm (vma_of_node current))
      then do { c \<leftarrow> rd s current; rb_predeccessor_loop vm s x (right c) current }
      else do { c \<leftarrow> rd s current; rb_predeccessor_loop vm s x (left c) predecessor })"

definition rb_predeccessor :: "vma_heap \<Rightarrow> rb_state \<Rightarrow> u64 \<Rightarrow> addr option" where
  "rb_predeccessor vm s x = do {
     predecessor \<leftarrow> rb_predeccessor_loop vm s x (rb_root s) NULL;
     Some (if predecessor \<noteq> NULL then vma_of_node predecessor else NULL)
   }"

partial_function (option) rb_find_vma_loop ::
  "vma_heap \<Rightarrow> rb_state \<Rightarrow> u64 \<Rightarrow> addr \<Rightarrow> addr option" where
  "rb_find_vma_loop vm s x current =
     (if current = NULL then Some NULL
      else if x < vma_start (vm (vma_of_node current))
      then do { c \<leftarrow> rd s current; rb_find_vma_loop vm s x (left c) }
      else if x \<ge> vma_end (vm (vma_of_node current))
      then do { c \<leftarrow> rd s current; rb_find_vma_loop vm s x (right c) }
      else Some (vma_of_node current))"

definition rb_find_vma :: "vma_heap \<Rightarrow> rb_state \<Rightarrow> u64 \<Rightarrow> addr option" where
  "rb_find_vma vm s x = rb_find_vma_loop vm s x (rb_root s)"

section \<open>The debug validator\<close>

text \<open>
  \<open>rb_validate_helper\<close> returns its verdict and the value left in \<open>*path_black_count\<close>.
\<close>

definition rb_validate_links :: "vma_heap \<Rightarrow> rb_state \<Rightarrow> addr \<Rightarrow> bool" where
  "rb_validate_links vm s node \<longleftrightarrow>
     (let n = rb_mem s node; l = left n; r = right n in
      \<not> (color n = RB_RED \<and> l \<noteq> NULL \<and> color (rb_mem s l) = RB_RED) \<and>
      \<not> (color n = RB_RED \<and> r \<noteq> NULL \<and> color (rb_mem s r) = RB_RED) \<and>
      \<not> (l \<noteq> NULL \<and> parent (rb_mem s l) \<noteq> node) \<and>
      \<not> (r \<noteq> NULL \<and> parent (rb_mem s r) \<noteq> node) \<and>
      \<not> (l \<noteq> NULL \<and> vma_start (vm (vma_of_node l)) \<ge> vma_start (vm (vma_of_node node))) \<and>
      \<not> (r \<noteq> NULL \<and> vma_start (vm (vma_of_node r)) \<le> vma_start (vm (vma_of_node node))))"

partial_function (option) rb_validate_helper ::
  "vma_heap \<Rightarrow> rb_state \<Rightarrow> addr \<Rightarrow> int \<Rightarrow> int \<Rightarrow> (bool \<times> int) option" where
  "rb_validate_helper vm s node black_count path_black_count =
     (if node = NULL then
        if path_black_count = -1 then Some (True, black_count)
        else if black_count \<noteq> path_black_count then Some (False, path_black_count)
        else Some (True, path_black_count)
      else if \<not> rb_validate_links vm s node then Some (False, path_black_count)
      else do {
        n \<leftarrow> rd s node;
        r \<leftarrow> rb_validate_helper vm s (left n)
              (if color n = RB_BLACK then black_count + 1 else black_count) path_black_count;
        if fst r
        then rb_validate_helper vm s (right n)
               (if color n = RB_BLACK then black_count + 1 else black_count) (snd r)
        else Some (False, snd r)
      })"

definition rb_validate :: "vma_heap \<Rightarrow> rb_state \<Rightarrow> bool option" where
  "rb_validate vm s =
     (if rb_root s = NULL then Some True
      else do {
        n \<leftarrow> rd s (rb_root s);
        if color n \<noteq> RB_BLACK then Some False
        else if parent n \<noteq> NULL then Some False
        else do { r \<leftarrow> rb_validate_helper vm s (rb_root s) 0 (-1); Some (fst r) }
      })"

section \<open>The contracts of the tree, for areas\<close>

definition vma_key :: "vma_heap \<Rightarrow> addr \<Rightarrow> u64" where
  "vma_key vm n = vma_start (vm (vma_of_node n))"

definition vma_fin :: "vma_heap \<Rightarrow> addr \<Rightarrow> u64" where
  "vma_fin vm n = vma_end (vm (vma_of_node n))"

lemma vma_of_node_node [simp]: "vma_of_node (vma_node v) = v"
  by (simp add: vma_of_node_def vma_node_def)

lemma vma_node_of_node [simp]: "vma_node (vma_of_node n) = n"
  by (simp add: vma_of_node_def vma_node_def)

interpretation vma_order: rb_order "vma_cmp vm" "vma_key vm" for vm
  by unfold_locales (auto simp: vma_cmp_def vma_key_def Let_def)

lemma vma_loops_NULL:
  "rb_successor_loop vm s x NULL d = Some d"
  "rb_predeccessor_loop vm s x NULL d = Some d"
  "rb_find_vma_loop vm s x NULL = Some NULL"
  by (simp_all add: rb_successor_loop.simps rb_predeccessor_loop.simps rb_find_vma_loop.simps)

interpretation vma_search: rb_search "vma_key vm" "vma_fin vm" vma_of_node
  "rb_successor_loop vm" "rb_predeccessor_loop vm" "rb_find_vma_loop vm" for vm
proof (unfold_locales, goal_cases)
  case (2 p x s d)
  then show ?case by (subst rb_successor_loop.simps) (simp add: vma_key_def)
next
  case (3 p x s d)
  then show ?case by (subst rb_successor_loop.simps) (simp add: vma_key_def flip: not_less)
next
  case (5 p x s d)
  then show ?case by (subst rb_predeccessor_loop.simps) (simp add: vma_key_def)
next
  case (6 p x s d)
  then show ?case by (subst rb_predeccessor_loop.simps) (simp add: vma_key_def flip: not_less)
next
  case (8 p x s)
  then show ?case by (subst rb_find_vma_loop.simps) (simp add: vma_key_def)
next
  case (9 p x s)
  then show ?case by (subst rb_find_vma_loop.simps) (simp add: vma_key_def vma_fin_def flip: not_less)
next
  case (10 p x s)
  then show ?case by (subst rb_find_vma_loop.simps) (simp add: vma_key_def vma_fin_def flip: not_less)
qed (simp_all add: vma_loops_NULL)

lemma validate_links_rep:
  assumes "is_tree (rb_mem s) par (Node c l a r)" "invc (Node c l a r)" "bst (vma_key vm) (Node c l a r)"
  shows "rb_validate_links vm s a"
proof -
  have child: "is_tree (rb_mem s) a u \<Longrightarrow> ptr u \<noteq> NULL \<Longrightarrow>
      parent (rb_mem s (ptr u)) = a \<and> color (rb_mem s (ptr u)) = col u \<and> ptr u \<in> nodes u" for u
    by (cases u) auto
  have n: "rb_mem s a = \<lparr>right = ptr r, left = ptr l, parent = par, color = c\<rparr>"
    and t: "is_tree (rb_mem s) a l" "is_tree (rb_mem s) a r"
    and b: "\<forall>x\<in>nodes l. vma_key vm x < vma_key vm a" "\<forall>x\<in>nodes r. vma_key vm a < vma_key vm x"
    and ci: "c = RB_RED \<longrightarrow> col l = RB_BLACK \<and> col r = RB_BLACK"
    using assms by (auto simp: bst_Node)
  show ?thesis using child [OF t(1)] child [OF t(2)] b ci
    by (auto simp: rb_validate_links_def Let_def n vma_key_def not_le)
qed

lemma validate_helper_rep:
  "is_tree (rb_mem s) par t \<Longrightarrow> invc t \<Longrightarrow> invh t \<Longrightarrow> bst (vma_key vm) t \<Longrightarrow>
   p = -1 \<or> p = b + int (bheight t) \<Longrightarrow>
   rb_validate_helper vm s (ptr t) b p = Some (True, b + int (bheight t))"
proof (induction t arbitrary: par b p)
  case Leaf
  then show ?case by (subst rb_validate_helper.simps) auto
next
  case (Node c l a r)
  have n: "a \<noteq> NULL" "rb_mem s a = \<lparr>right = ptr r, left = ptr l, parent = par, color = c\<rparr>"
    and sub: "is_tree (rb_mem s) a l" "invc l" "invh l" "bst (vma_key vm) l"
      "is_tree (rb_mem s) a r" "invc r" "invh r" "bst (vma_key vm) r" "bheight l = bheight r"
    using Node.prems by (auto simp: bst_Node)
  have links: "rb_validate_links vm s a" using validate_links_rep Node.prems by blast
  define b' where "b' = (if c = RB_BLACK then b + 1 else b)"
  have p: "p = -1 \<or> p = b' + int (bheight l)" and
    b': "b' + int (bheight l) = b + int (bheight (Node c l a r))"
    using Node.prems(5) by (auto simp: b'_def)
  have "rb_validate_helper vm s (ptr l) b' p = Some (True, b' + int (bheight l))"
    using Node.IH(1) [OF sub(1-4) p] .
  moreover have "rb_validate_helper vm s (ptr r) b' (b' + int (bheight l)) = Some (True, b' + int (bheight r))"
    using Node.IH(2) [OF sub(5-8)] sub(9) by simp
  ultimately show ?case using n links b' sub(9)
    by (subst rb_validate_helper.simps) (simp add: b'_def)
qed

lemma validate_rep:
  assumes "rb_tree (vma_key vm) s t"
  shows "rb_validate vm s = Some True"
proof (cases t)
  case Leaf
  with assms show ?thesis by (simp add: rb_validate_def rb_tree_def)
next
  case (Node c l a r)
  then have "rb_root s = a" "a \<noteq> NULL" "color (rb_mem s a) = RB_BLACK" "parent (rb_mem s a) = NULL"
    using assms by (auto simp: rb_tree_def rb_inv_def)
  moreover have "rb_validate_helper vm s (ptr t) 0 (-1) = Some (True, 0 + int (bheight t))"
    using assms by (intro validate_helper_rep) (auto simp: rb_tree_def rb_inv_def)
  ultimately show ?thesis using Node by (simp add: rb_validate_def)
qed

section \<open>Properties\<close>

text \<open>
  C1. \<open>rb_insert\<close> on a red-black tree of areas, ordered by \<open>vma_cmp\<close>, always returns. A node
  whose start address is already in the tree is refused (\<open>NULL\<close>), and the tree is left as it
  was; otherwise the node itself is returned, and the heap holds a red-black tree (links and
  parent pointers consistent, root black, no red node with a red child, equal black heights,
  keys strictly increasing) of the old nodes and the new one. No cell outside the tree changes.
\<close>

theorem rb_insert_vma_correct:
  assumes "rb_tree (vma_key vm) s t" "n \<noteq> NULL" "n \<notin> nodes t"
  shows "if \<exists>a\<in>nodes t. vma_key vm a = vma_key vm n
    then \<exists>s'. rb_insert s n (vma_cmp vm) = Some (NULL, s') \<and> rb_tree (vma_key vm) s' t \<and>
      (\<forall>a. a \<noteq> n \<longrightarrow> rb_mem s' a = rb_mem s a)
    else \<exists>s' t'. rb_insert s n (vma_cmp vm) = Some (n, s') \<and> rb_tree (vma_key vm) s' t' \<and>
      nodes t' = insert n (nodes t) \<and> (\<forall>a. a \<notin> nodes t' \<longrightarrow> rb_mem s' a = rb_mem s a)"
  using assms by (rule vma_order.insert_correct)

text \<open>
  C2. \<open>rb_delete\<close> with a key node always returns. When a node with the key's start address is
  in the tree it is taken out: the in-order sequence loses exactly that node, the heap again
  holds a red-black tree, no cell outside the old tree changes, and the result is true.
  Otherwise the result is false and nothing changes at all.
\<close>

theorem rb_delete_vma_correct:
  assumes "rb_tree (vma_key vm) s t"
  shows "if \<exists>a\<in>nodes t. vma_key vm a = vma_key vm k
    then \<exists>s' t' z. rb_delete s k (vma_cmp vm) = Some (True, s') \<and> z \<in> nodes t \<and>
      vma_key vm z = vma_key vm k \<and> rb_tree (vma_key vm) s' t' \<and>
      inorder t' = remove1 z (inorder t) \<and>
      (\<forall>a. a \<notin> nodes t \<longrightarrow> rb_mem s' a = rb_mem s a)
    else rb_delete s k (vma_cmp vm) = Some (False, s)"
  using assms by (rule vma_order.delete_correct)

lemma rb_find_vma_spec:
  assumes "rb_tree (vma_key vm) s t" "disjoint_ranges (vma_key vm) (vma_fin vm) (inorder t)"
  shows "(\<exists>v. vma_node v \<in> nodes t \<and> vma_start (vm v) \<le> x \<and> x < vma_end (vm v) \<and>
      rb_find_vma vm s x = Some v) \<or>
    (\<forall>v. vma_node v \<in> nodes t \<longrightarrow> \<not> (vma_start (vm v) \<le> x \<and> x < vma_end (vm v))) \<and>
      rb_find_vma vm s x = Some NULL"
proof -
  have t: "rb_root s = ptr t" "is_tree (rb_mem s) NULL t" using assms(1) by (auto simp: rb_tree_def)
  consider a where "a \<in> nodes t" "vma_key vm a \<le> x" "x < vma_fin vm a"
      "rb_find_vma vm s x = Some (vma_of_node a)"
    | "\<forall>a\<in>nodes t. \<not> (vma_key vm a \<le> x \<and> x < vma_fin vm a)" "rb_find_vma vm s x = Some NULL"
    using vma_search.find_loop_rep [OF t(2) assms(2), of x] by (auto simp: rb_find_vma_def t(1))
  then show ?thesis
  proof cases
    case 1
    then have "vma_node (vma_of_node a) \<in> nodes t" by simp
    with 1 show ?thesis unfolding vma_key_def vma_fin_def by blast
  next
    case 2
    then show ?thesis unfolding vma_key_def vma_fin_def by (metis vma_of_node_node)
  qed
qed

text \<open>
  C19. \<open>rb_find_vma\<close> on a tree of non-empty, pairwise disjoint areas always returns: the area
  that holds the address when there is one, and \<open>NULL\<close> exactly when no area holds it.
\<close>

theorem rb_find_vma_correct:
  assumes "rb_tree (vma_key vm) s t" "disjoint_ranges (vma_key vm) (vma_fin vm) (inorder t)"
  shows "(\<exists>v. vma_node v \<in> nodes t \<and> vma_start (vm v) \<le> x \<and> x < vma_end (vm v) \<and>
      rb_find_vma vm s x = Some v) \<or>
    (\<forall>v. vma_node v \<in> nodes t \<longrightarrow> \<not> (vma_start (vm v) \<le> x \<and> x < vma_end (vm v))) \<and>
      rb_find_vma vm s x = Some NULL"
  using assms by (rule rb_find_vma_spec)

text \<open>
  C20. \<open>rb_successor\<close> and \<open>rb_predeccessor\<close> always return on a red-black tree of areas, and what
  they return is, over the areas in order, the first one that starts above the address and the
  last one that starts below it (\<open>NULL\<close> when there is none).
\<close>

theorem rb_neighbours_correct:
  assumes "rb_tree (vma_key vm) s t"
  shows "rb_successor vm s x = Some (let n = first_above (vma_key vm) x (inorder t) NULL in
      if n = NULL then NULL else vma_of_node n) \<and>
    rb_predeccessor vm s x = Some (let n = last_below (vma_key vm) x (inorder t) NULL in
      if n = NULL then NULL else vma_of_node n)"
proof -
  have t: "rb_root s = ptr t" "is_tree (rb_mem s) NULL t" "bst (vma_key vm) t"
    using assms by (auto simp: rb_tree_def)
  show ?thesis
    using vma_search.succ_loop_rep [OF t(2,3), of x NULL] vma_search.pred_loop_rep [OF t(2,3), of x NULL]
    by (simp add: rb_successor_def rb_predeccessor_def t(1) Let_def)
qed

text \<open>
  The debug validator \<open>rb_validate\<close> accepts every red-black tree of areas: it returns, with
  verdict 1, so an assertion on it cannot fire on a tree that \<open>rb_insert\<close> and \<open>rb_delete\<close> built.
\<close>

theorem rb_validate_accepts:
  assumes "rb_tree (vma_key vm) s t"
  shows "rb_validate vm s = Some True"
  using assms by (rule validate_rep)

text \<open>
  \<open>rb_traverse_inorder\<close> from the root of a red-black tree of areas returns, and calls back on
  every node of the tree exactly once, in strictly increasing order of the start addresses.
\<close>

theorem rb_traverse_inorder_sorted:
  assumes "rb_tree (vma_key vm) s t"
  shows "\<exists>ns. rb_traverse_inorder s (rb_root s) = Some ns \<and> set ns = nodes t \<and> distinct ns \<and>
    sorted_wrt (\<lambda>a b. vma_start (vm (vma_of_node a)) < vma_start (vm (vma_of_node b))) ns"
  using assms traverse_rep [of s NULL t] distinct_inorder [of "rb_mem s" NULL t]
  by (auto simp: rb_tree_def bst_def vma_key_def)

text \<open>
  \<open>rb_print_tree\<close> prints one line per node: starting at \<open>row\<close>, the rows it uses are
  consecutive and none is used twice, and the values appear from the greatest key to the least.
\<close>

theorem rb_print_tree_rows:
  assumes "rb_tree (vma_key vm) s t"
  shows "\<exists>ls. rb_print_tree s (rb_root s) row c (vma_key vm) = Some (ls, row + int (length ls)) \<and>
    map (fst \<circ> snd) ls = map (\<lambda>i. row + int i) [0..<length ls] \<and>
    map fst ls = rev (map (vma_key vm) (inorder t))"
proof -
  have t: "rb_root s = ptr t" "is_tree (rb_mem s) NULL t" using assms by (auto simp: rb_tree_def)
  have "length (picture (vma_key vm) row c t) = length (inorder t)"
    using arg_cong [OF picture_values [of "vma_key vm" row c t], of length] by simp
  with print_rep [OF t(2), of row c "vma_key vm"] show ?thesis
    by (auto simp: t(1) picture_rows picture_values rev_map)
qed

text \<open>
  A red-black tree of areas is shallow: a walk of \<open>rb_find_vma\<close>, \<open>rb_insert\<close> or \<open>rb_delete\<close>
  from the root of a tree of \<open>n\<close> nodes passes at most \<open>2 log2 (n + 1)\<close> of them.
\<close>

theorem rb_tree_vma_height:
  assumes "rb_tree (vma_key vm) s t"
  shows "2 ^ height t \<le> (card (nodes t) + 1) ^ 2"
  using rb_tree_height [OF assms] distinct_card [of "inorder t"] distinct_inorder [of "rb_mem s" NULL t] assms
  by (simp add: rb_tree_def)

section \<open>A concrete tree\<close>

text \<open>Two areas, the root at \<open>0x20000\<close> and its red left child at \<open>0x10000\<close>.\<close>

definition ex_vm :: vma_heap where
  "ex_vm = (\<lambda>_. \<lparr>vma_start = 0, vma_end = 0, vma_pte = 0\<rparr>)
     (0x1000 := \<lparr>vma_start = 0x20000, vma_end = 0x22000, vma_pte = 3\<rparr>,
      0x2000 := \<lparr>vma_start = 0x10000, vma_end = 0x12000, vma_pte = 3\<rparr>,
      0x3000 := \<lparr>vma_start = 0x30000, vma_end = 0x32000, vma_pte = 3\<rparr>)"

definition ex_tree :: rbt where
  "ex_tree = Node RB_BLACK (Node RB_RED Leaf 0x2018 Leaf) 0x1018 Leaf"

definition ex_rb :: rb_state where
  "ex_rb = \<lparr>rb_root = 0x1018, rb_mem = (\<lambda>_. \<lparr>right = 0, left = 0, parent = 0, color = 0\<rparr>)
     (0x1018 := \<lparr>right = 0, left = 0x2018, parent = 0, color = RB_BLACK\<rparr>,
      0x2018 := \<lparr>right = 0, left = 0, parent = 0x1018, color = RB_RED\<rparr>)\<rparr>"

lemmas ex_defs = ex_vm_def ex_tree_def ex_rb_def

lemma ex_keys:
  "vma_key ex_vm 0x1018 = 0x20000" "vma_key ex_vm 0x2018 = 0x10000" "vma_key ex_vm 0x3018 = 0x30000"
  "vma_fin ex_vm 0x1018 = 0x22000" "vma_fin ex_vm 0x2018 = 0x12000" "vma_fin ex_vm 0x3018 = 0x32000"
  by (simp_all add: ex_vm_def vma_key_def vma_fin_def vma_of_node_def)

lemma ex_rb_tree: "rb_tree (vma_key ex_vm) ex_rb ex_tree"
  by (simp add: rb_tree_def rb_inv_def bst_def ex_keys ex_tree_def ex_rb_def)

lemma ex_disjoint: "disjoint_ranges (vma_key ex_vm) (vma_fin ex_vm) (inorder ex_tree)"
  by (simp add: disjoint_ranges_def ex_keys ex_tree_def)

theorem rb_insert_vma_witness:
  "\<exists>s' t'. rb_insert ex_rb 0x3018 (vma_cmp ex_vm) = Some (0x3018, s') \<and>
     rb_tree (vma_key ex_vm) s' t' \<and> nodes t' = {0x1018, 0x2018, 0x3018}"
  using rb_insert_vma_correct [OF ex_rb_tree, of "0x3018"] by (auto simp: ex_keys ex_tree_def)

theorem rb_delete_vma_witness:
  "\<exists>s' t'. rb_delete ex_rb 0x1018 (vma_cmp ex_vm) = Some (True, s') \<and>
     rb_tree (vma_key ex_vm) s' t' \<and> inorder t' = [0x2018]"
  using rb_delete_vma_correct [OF ex_rb_tree, of "0x1018"] by (auto simp: ex_keys ex_tree_def)

theorem rb_find_vma_witness: "rb_find_vma ex_vm ex_rb 0x11000 = Some 0x2000"
  using rb_find_vma_correct [OF ex_rb_tree ex_disjoint, of "0x11000"]
  by (auto simp: ex_vm_def ex_tree_def vma_node_def)

theorem rb_neighbours_witness:
  "rb_successor ex_vm ex_rb 0x11000 = Some 0x1000 \<and> rb_predeccessor ex_vm ex_rb 0x11000 = Some 0x2000"
  using rb_neighbours_correct [OF ex_rb_tree, of "0x11000"]
  by (simp add: first_above_def last_below_def ex_keys ex_tree_def vma_of_node_def)

theorem rb_validate_witness: "rb_validate ex_vm ex_rb = Some True"
  using rb_validate_accepts [OF ex_rb_tree] .

theorem rb_traverse_witness:
  "\<exists>ns. rb_traverse_inorder ex_rb 0x1018 = Some ns \<and> set ns = {0x1018, 0x2018} \<and> distinct ns"
  using rb_traverse_inorder_sorted [OF ex_rb_tree] by (auto simp: ex_rb_def ex_tree_def insert_commute)

theorem rb_print_witness:
  "\<exists>ls. rb_print_tree ex_rb 0x1018 3 0 (vma_key ex_vm) = Some (ls, 5) \<and> map fst ls = [0x20000, 0x10000]"
proof -
  obtain ls where ls: "rb_print_tree ex_rb (rb_root ex_rb) 3 0 (vma_key ex_vm) = Some (ls, 3 + int (length ls))"
      "map fst ls = rev (map (vma_key ex_vm) (inorder ex_tree))"
    using rb_print_tree_rows [OF ex_rb_tree, of 3 0] by blast
  have "length ls = 2" using arg_cong [OF ls(2), of length] by (simp add: ex_tree_def)
  with ls show ?thesis by (simp add: ex_rb_def ex_tree_def ex_keys)
qed

theorem rb_tree_height_witness: "2 ^ height ex_tree \<le> (card (nodes ex_tree) + 1) ^ 2 \<and> height ex_tree = 2"
  using rb_tree_vma_height [OF ex_rb_tree] by (simp add: ex_tree_def)

end
