(* ===== verification/Buddy.thy ===== *)
theory Buddy
  imports Kmath
begin

text \<open>
  The buddy allocator of \<^verbatim>\<open>src/mikroKernellib/phys_kmalloc.c\<close>, lines 14 to 324: the metadata
  behind the kernel image, its construction from the BIOS memory map, the pair bitmap, and
  allocation and release of power-of-two blocks of pages.

  The links of a free list live inside the free pages; \<open>chunks\<close> is that part of physical
  memory, keyed by the physical address the lists store. The arrays \<open>free_lists_ptr\<close> and
  \<open>order_offsets\<close> are functions of the order, the bitmap one of the byte index. The lock is
  held around every access of the lists and is not part of this sequential model.
\<close>

section \<open>State\<close>

record buddy_chunk =
  chunk_next :: addr
  chunk_prev :: addr

record buddy_metadata =
  base_address :: addr
  region_size :: u64
  min_order :: nat
  max_order :: nat
  free_lists :: "nat \<Rightarrow> addr"
  bitmap :: "nat \<Rightarrow> u8"
  order_offsets :: "nat \<Rightarrow> u32"
  chunks :: "addr \<Rightarrow> buddy_chunk"

record mmap_entry_0xe820 =
  e820_base :: addr
  e820_chunk_size :: u64
  e820_type :: u32
  e820_ACPI_ext_attr :: u32

text \<open>\<open>(1ULL << order) * PAGE_SIZE\<close>, the bytes of a block.\<close>

definition chunk_bytes :: "nat \<Rightarrow> u64" where
  "chunk_bytes order = push_bit order 1 * PAGE_SIZE"

section \<open>Initialisation\<close>

text \<open>
  The scan of the memory map. \<open>coalesce\<close> extends a usable region by the entries that follow it
  without a gap and returns the size and the rest of the map.
\<close>

fun coalesce :: "addr \<Rightarrow> u64 \<Rightarrow> mmap_entry_0xe820 list \<Rightarrow> u64 \<times> mmap_entry_0xe820 list" where
  "coalesce base sz [] = (sz, [])"
| "coalesce base sz (e # es) =
     (if e820_type e = 1 \<and> e820_base e = base + sz
      then coalesce base (sz + e820_chunk_size e) es
      else (sz, e # es))"

lemma coalesce_length: "length (snd (coalesce base sz es)) \<le> length es"
  by (induction base sz es rule: coalesce.induct) auto

function best_region :: "mmap_entry_0xe820 list \<Rightarrow> addr \<Rightarrow> u64 \<Rightarrow> addr \<times> u64" where
  "best_region [] best_base best_size = (best_base, best_size)"
| "best_region (e # es) best_base best_size =
     (if e820_type e \<noteq> 1 then best_region es best_base best_size
      else
        let r = coalesce (e820_base e) (e820_chunk_size e) es in
        if fst r > best_size then best_region (snd r) (e820_base e) (fst r)
        else best_region (snd r) best_base best_size)"
  by pat_completeness auto
termination
  by (relation "measure (\<lambda>(es, _, _). length es)") (auto simp: le_imp_less_Suc coalesce_length)

text \<open>
  Moving the region past low memory, the kernel image and the metadata, then up to the
  alignment of the largest block. 78 is the size of the packed metadata struct, 88 that of the
  eleven list heads.
\<close>

definition ONE_MB_ADDRESS :: u64 where
  "ONE_MB_ADDRESS = 0x100000"

definition clear_lower_bound :: "u64 \<Rightarrow> addr \<times> u64 \<Rightarrow> addr \<times> u64" where
  "clear_lower_bound kernel_end best =
     (let base = fst best; sz = snd best;
          worst_case_bitmap = (sz div PAGE_SIZE) div 8;
          after_metadata = kernel_end + 78 + 88 + worst_case_bitmap;
          lower_bound = (if after_metadata > ONE_MB_ADDRESS then after_metadata else ONE_MB_ADDRESS)
      in if base < lower_bound \<and> lower_bound < base + sz
         then (lower_bound, sz - (lower_bound - base))
         else (base, sz))"

definition align_region :: "addr \<times> u64 \<Rightarrow> addr \<times> u64" where
  "align_region best =
     (let base = fst best;
          max_order_align = chunk_bytes 10;
          align = (max_order_align - (base AND (max_order_align - 1))) AND (max_order_align - 1)
      in (base + align, (snd best - align) AND NOT (PAGE_SIZE - 1)))"

text \<open>Splitting the region greedily into blocks, counted per order.\<close>

primrec fit_order :: "u64 \<Rightarrow> addr \<Rightarrow> nat \<Rightarrow> nat option" where
  "fit_order remaining a 0 =
     (if chunk_bytes 0 \<le> remaining \<and> a AND (chunk_bytes 0 - 1) = 0 then Some 0 else None)"
| "fit_order remaining a (Suc k) =
     (if chunk_bytes (Suc k) \<le> remaining \<and> a AND (chunk_bytes (Suc k) - 1) = 0 then Some (Suc k)
      else fit_order remaining a k)"

lemma fit_order_Some:
  "fit_order remaining a n = Some k \<Longrightarrow> k \<le> n \<and> chunk_bytes k \<le> remaining \<and> a AND (chunk_bytes k - 1) = 0"
  by (induction n) (auto split: if_splits)

lemma unat_chunk_bytes: "k \<le> 51 \<Longrightarrow> unat (chunk_bytes k) = 2 ^ (k + 12)"
proof -
  assume k: "k \<le> 51"
  have "chunk_bytes k = 2 ^ (k + 12)"
    by (simp add: chunk_bytes_def PAGE_SIZE_def push_bit_eq_mult power_add)
  then show ?thesis using k by simp
qed

function count_blocks :: "addr \<Rightarrow> u64 \<Rightarrow> (nat \<Rightarrow> u32) \<Rightarrow> (nat \<Rightarrow> u32)" where
  "count_blocks a remaining counts =
     (if remaining \<ge> PAGE_SIZE then
        case fit_order remaining a 10 of
          None \<Rightarrow> counts
        | Some order \<Rightarrow>
            count_blocks (a + chunk_bytes order) (remaining - chunk_bytes order)
              (counts(order := counts order + 1))
      else counts)"
  by pat_completeness auto
termination
proof (relation "measure (\<lambda>(a, remaining, counts). unat remaining)", simp)
  fix a remaining and counts :: "nat \<Rightarrow> u32" and order
  assume "fit_order remaining a 10 = Some order"
  then have k: "order \<le> 10" "chunk_bytes order \<le> remaining" using fit_order_Some by blast+
  then have "0 < unat (chunk_bytes order)" by (simp add: unat_chunk_bytes)
  moreover have "unat (chunk_bytes order) \<le> unat remaining" using k(2) by (simp add: word_le_nat_alt)
  ultimately show "((a + chunk_bytes order, remaining - chunk_bytes order, counts(order := counts order + 1)),
      a, remaining, counts) \<in> measure (\<lambda>(a, remaining, counts). unat remaining)"
    using k(2) by (simp add: unat_diff_le)
qed

declare count_blocks.simps [simp del]

text \<open>Linking the blocks of one order, then all orders from the largest down.\<close>

primrec init_links ::
  "nat \<Rightarrow> nat \<Rightarrow> nat list \<Rightarrow> addr \<Rightarrow> (addr \<Rightarrow> buddy_chunk) \<Rightarrow> addr \<times> (addr \<Rightarrow> buddy_chunk)" where
  "init_links order count [] cur h = (cur, h)"
| "init_links order count (i # is) cur h =
     (let next_chunk = cur + chunk_bytes order in
      init_links order count is next_chunk
        (h(cur := \<lparr>chunk_next = if i = count - 1 then NULL else next_chunk,
                  chunk_prev = if i = 0 then NULL else cur - chunk_bytes order\<rparr>)))"

primrec init_free_lists ::
  "(nat \<Rightarrow> u32) \<Rightarrow> nat list \<Rightarrow> addr \<Rightarrow> buddy_metadata \<Rightarrow> buddy_metadata" where
  "init_free_lists counts [] cur s = s"
| "init_free_lists counts (order # orders) cur s =
     (if counts order = 0 then init_free_lists counts orders cur s
      else
        let n = unat (counts order);
            r = init_links order n [0..<n] cur (chunks s)
        in init_free_lists counts orders (fst r)
             (s\<lparr>chunks := snd r, free_lists := (free_lists s)(order := cur)\<rparr>))"

primrec init_offsets :: "u64 \<Rightarrow> nat list \<Rightarrow> (nat \<Rightarrow> u32) \<Rightarrow> (nat \<Rightarrow> u32)" where
  "init_offsets num_pages [] offs = offs"
| "init_offsets num_pages (k # ks) offs =
     init_offsets num_pages ks (offs(k := offs (k - 1) + ucast (drop_bit k num_pages)))"

text \<open>
  \<open>__init_buddy\<close>, from the kernel's end address, the memory map, and what memory held before.
\<close>

definition init_buddy :: "u64 \<Rightarrow> mmap_entry_0xe820 list \<Rightarrow> buddy_metadata \<Rightarrow> buddy_metadata" where
  "init_buddy kernel_end entries s =
     (let s = s\<lparr>min_order := 0, max_order := 10,
               free_lists := (\<lambda>k. if k \<le> 10 then NULL else free_lists s k)\<rparr>;
          best = align_region (clear_lower_bound kernel_end (best_region entries 0 0));
          s = s\<lparr>base_address := fst best, region_size := snd best\<rparr>;
          counts = count_blocks (fst best) (snd best) (\<lambda>_. 0);
          s = init_free_lists counts (rev [0..<11]) (fst best) s;
          num_pages = region_size s div PAGE_SIZE;
          s = s\<lparr>bitmap := (\<lambda>i. if i < unat (num_pages div 8) then 0 else bitmap s i)\<rparr>
      in s\<lparr>order_offsets := init_offsets num_pages [1..<11] ((order_offsets s)(0 := 0))\<rparr>)"

section \<open>The pair bitmap\<close>

definition bit_pos :: "buddy_metadata \<Rightarrow> addr \<Rightarrow> nat \<Rightarrow> u32" where
  "bit_pos s a order =
     (let block_idx = ucast (drop_bit (12 + order) (a - base_address s)) :: u32;
          pair_idx = drop_bit 1 block_idx
      in order_offsets s order + pair_idx)"

definition toggle_bitmap :: "buddy_metadata \<Rightarrow> addr \<Rightarrow> nat \<Rightarrow> u8 \<times> buddy_metadata" where
  "toggle_bitmap s a order =
     (let byte_idx = unat (bit_pos s a order div 8);
          bit_offset = unat (bit_pos s a order mod 8);
          b = bitmap s byte_idx XOR push_bit bit_offset 1
      in (drop_bit bit_offset b AND 1, s\<lparr>bitmap := (bitmap s)(byte_idx := b)\<rparr>))"

section \<open>Free lists\<close>

text \<open>
  Taking the head, inserting at the head and unlinking from the middle, as the allocator and
  the release write them out.
\<close>

definition free_list_pop :: "buddy_metadata \<Rightarrow> nat \<Rightarrow> buddy_metadata" where
  "free_list_pop s idx =
     (let chunk = free_lists s idx;
          nxt = chunk_next (chunks s chunk);
          s = s\<lparr>free_lists := (free_lists s)(idx := nxt)\<rparr>;
          s = (if nxt \<noteq> NULL
               then s\<lparr>chunks := (chunks s)(nxt := (chunks s nxt)\<lparr>chunk_prev := NULL\<rparr>)\<rparr> else s)
      in s\<lparr>chunks := (chunks s)(chunk := (chunks s chunk)\<lparr>chunk_next := NULL\<rparr>)\<rparr>)"

definition free_list_push :: "buddy_metadata \<Rightarrow> nat \<Rightarrow> addr \<Rightarrow> buddy_metadata" where
  "free_list_push s order block =
     (let s = s\<lparr>chunks := (chunks s)(block := (chunks s block)\<lparr>chunk_prev := NULL\<rparr>)\<rparr>;
          s = s\<lparr>chunks := (chunks s)(block := (chunks s block)\<lparr>chunk_next := free_lists s order\<rparr>)\<rparr>;
          nxt = chunk_next (chunks s block);
          s = (if nxt \<noteq> NULL
               then s\<lparr>chunks := (chunks s)(nxt := (chunks s nxt)\<lparr>chunk_prev := block\<rparr>)\<rparr> else s)
      in s\<lparr>free_lists := (free_lists s)(order := block)\<rparr>)"

definition free_list_unlink :: "buddy_metadata \<Rightarrow> nat \<Rightarrow> addr \<Rightarrow> buddy_metadata" where
  "free_list_unlink s order buddy =
     (let b = chunks s buddy;
          s = (if chunk_prev b \<noteq> NULL
               then s\<lparr>chunks := (chunks s)(chunk_prev b :=
                      (chunks s (chunk_prev b))\<lparr>chunk_next := chunk_next b\<rparr>)\<rparr>
               else s\<lparr>free_lists := (free_lists s)(order := chunk_next b)\<rparr>);
          b = chunks s buddy;
          s = (if chunk_next b \<noteq> NULL
               then s\<lparr>chunks := (chunks s)(chunk_next b :=
                      (chunks s (chunk_next b))\<lparr>chunk_prev := chunk_prev b\<rparr>)\<rparr>
               else s);
          s = s\<lparr>chunks := (chunks s)(buddy := (chunks s buddy)\<lparr>chunk_next := NULL\<rparr>)\<rparr>
      in s\<lparr>chunks := (chunks s)(buddy := (chunks s buddy)\<lparr>chunk_prev := NULL\<rparr>)\<rparr>)"

section \<open>Allocation and release\<close>

text \<open>
  \<open>while (size > (1ULL << order) * PAGE_SIZE) order++\<close>, from order 0. A shift by 64 or more is
  undefined in C and is \<open>None\<close>; only a size above \<open>2 ^ 63\<close> gets there.
\<close>

function size_order :: "u64 \<Rightarrow> nat \<Rightarrow> nat option" where
  "size_order sz order =
     (if 64 \<le> order then None
      else if sz > chunk_bytes order then size_order sz (Suc order)
      else Some order)"
  by pat_completeness auto
termination
  by (relation "measure (\<lambda>(sz, order). 64 - order)") auto

declare size_order.simps [simp del]

fun buddy_split :: "buddy_metadata \<Rightarrow> addr \<Rightarrow> nat \<Rightarrow> nat \<Rightarrow> buddy_metadata" where
  "buddy_split s chunk order level =
     (if level > order
      then buddy_split (free_list_push s (level - 1) (chunk + chunk_bytes (level - 1))) chunk order (level - 1)
      else s)"

declare buddy_split.simps [simp del]

primrec buddy_kalloc_scan :: "buddy_metadata \<Rightarrow> nat \<Rightarrow> nat list \<Rightarrow> addr \<times> buddy_metadata" where
  "buddy_kalloc_scan s order [] = (NULL, s)"
| "buddy_kalloc_scan s order (idx # idxs) =
     (if free_lists s idx = NULL then buddy_kalloc_scan s order idxs
      else
        let chunk = free_lists s idx;
            s = free_list_pop s idx;
            s = buddy_split s chunk order idx
        in (chunk, snd (toggle_bitmap s chunk order)))"

definition buddy_kalloc :: "buddy_metadata \<Rightarrow> u64 \<Rightarrow> (addr \<times> buddy_metadata) option" where
  "buddy_kalloc s sz = do {
     order \<leftarrow> size_order sz 0;
     if order > max_order s then Some (NULL, s)
     else Some (buddy_kalloc_scan s order [order..<max_order s + 1])
   }"

lemma toggle_bitmap_sel [simp]:
  "free_lists (snd (toggle_bitmap s a k)) = free_lists s"
  "chunks (snd (toggle_bitmap s a k)) = chunks s"
  "max_order (snd (toggle_bitmap s a k)) = max_order s"
  "base_address (snd (toggle_bitmap s a k)) = base_address s"
  "region_size (snd (toggle_bitmap s a k)) = region_size s"
  "order_offsets (snd (toggle_bitmap s a k)) = order_offsets s"
  by (simp_all add: toggle_bitmap_def Let_def)

lemma free_list_unlink_sel [simp]:
  "max_order (free_list_unlink s k b) = max_order s"
  "bitmap (free_list_unlink s k b) = bitmap s"
  "base_address (free_list_unlink s k b) = base_address s"
  "region_size (free_list_unlink s k b) = region_size s"
  "order_offsets (free_list_unlink s k b) = order_offsets s"
  by (simp_all add: free_list_unlink_def Let_def)

function buddy_coalesce :: "buddy_metadata \<Rightarrow> addr \<Rightarrow> nat \<Rightarrow> buddy_metadata \<times> addr \<times> nat" where
  "buddy_coalesce s chunk order =
     (if order < max_order s then
        let (b, s) = toggle_bitmap s chunk order in
        if b \<noteq> 0 then (s, chunk, order)
        else
          let buddy = chunk XOR chunk_bytes order;
              s = free_list_unlink s order buddy;
              chunk = (if buddy < chunk then buddy else chunk)
          in buddy_coalesce s chunk (order + 1)
      else (s, chunk, order))"
  by pat_completeness auto
termination
proof (relation "measure (\<lambda>(s, chunk, order). max_order s - order)", goal_cases)
  case (2 s chunk order x b s' buddy s'' chunk')
  have "max_order s' = max_order s" using toggle_bitmap_sel(3) [of s chunk order] 2(2,3) by (metis snd_conv)
  with 2 show ?case by simp
qed simp

declare buddy_coalesce.simps [simp del]

definition buddy_kfree :: "buddy_metadata \<Rightarrow> addr \<Rightarrow> u64 \<Rightarrow> buddy_metadata option" where
  "buddy_kfree s chunk sz =
     (if chunk = NULL \<or> sz = 0 then Some s
      else do {
        order \<leftarrow> size_order sz 0;
        let order = (if order > max_order s then max_order s else order);
        let s = (if order = max_order s then snd (toggle_bitmap s chunk order) else s);
        let (s, block, order) = buddy_coalesce s chunk order;
        Some (free_list_push s order block)
      })"

end
