(* ===== verification/Buddy_Lists.thy ===== *)
theory Buddy_Lists
  imports Buddy
begin

text \<open>
  The free lists of the buddy allocator as sequences: \<open>dseg\<close> relates the links in memory to a
  list of blocks, \<open>buddy_rep\<close> does so for every order, and the three list operations of the
  source refine \<open>Cons\<close>, \<open>tl\<close> and \<open>remove1\<close>.
\<close>

section \<open>Doubly linked segments\<close>

fun dseg :: "(addr \<Rightarrow> buddy_chunk) \<Rightarrow> addr \<Rightarrow> addr \<Rightarrow> addr list \<Rightarrow> addr \<Rightarrow> bool" where
  "dseg h p a [] b \<longleftrightarrow> a = b"
| "dseg h p a (x # xs) b \<longleftrightarrow>
     a = x \<and> x \<noteq> NULL \<and> chunk_prev (h x) = p \<and> dseg h x (chunk_next (h x)) xs b"

lemma dseg_append:
  "dseg h p a (xs @ ys) b \<longleftrightarrow> (\<exists>m. dseg h p a xs m \<and> dseg h (last (p # xs)) m ys b)"
  by (induction xs arbitrary: p a) auto

lemma dseg_upd [simp]: "x \<notin> set xs \<Longrightarrow> dseg (h(x := c)) p a xs b = dseg h p a xs b"
  by (induction xs arbitrary: p a) auto

lemma dseg_NULL: "dseg h p a xs b \<Longrightarrow> NULL \<notin> set xs"
  by (induction xs arbitrary: p a) auto

lemma dseg_head: "dseg h p a xs NULL \<Longrightarrow> a = (case xs of [] \<Rightarrow> NULL | x # _ \<Rightarrow> x)"
  by (cases xs) auto

text \<open>Only the back pointer of the first cell depends on what comes before.\<close>

lemma dseg_set_prev:
  assumes "dseg h p a xs NULL" "distinct xs"
  shows "dseg (if a = NULL then h else h(a := (h a)\<lparr>chunk_prev := q\<rparr>)) q a xs NULL"
  using assms by (cases xs) auto

lemma dseg_set_next:
  assumes "dseg h p a (ys @ [y]) b" "distinct (ys @ [y])"
  shows "dseg (h(y := (h y)\<lparr>chunk_next := c\<rparr>)) p a (ys @ [y]) c"
  using assms by (auto simp: dseg_append)

section \<open>All the lists\<close>

definition buddy_rep :: "buddy_metadata \<Rightarrow> (nat \<Rightarrow> addr list) \<Rightarrow> bool" where
  "buddy_rep s fl \<longleftrightarrow>
     (\<forall>k\<le>10. dseg (chunks s) NULL (free_lists s k) (fl k) NULL \<and> distinct (fl k)) \<and>
     (\<forall>j\<le>10. \<forall>k\<le>10. j \<noteq> k \<longrightarrow> set (fl j) \<inter> set (fl k) = {})"

lemma buddy_repD:
  assumes "buddy_rep s fl" "k \<le> 10"
  shows "dseg (chunks s) NULL (free_lists s k) (fl k) NULL" "distinct (fl k)" "NULL \<notin> set (fl k)"
    "j \<le> 10 \<Longrightarrow> j \<noteq> k \<Longrightarrow> x \<in> set (fl k) \<Longrightarrow> x \<notin> set (fl j)"
  using assms dseg_NULL unfolding buddy_rep_def by blast+

lemma buddy_rep_head:
  assumes "buddy_rep s fl" "k \<le> 10"
  shows "free_lists s k = (case fl k of [] \<Rightarrow> NULL | x # _ \<Rightarrow> x)"
    "free_lists s k = NULL \<longleftrightarrow> fl k = []"
  using dseg_head [OF buddy_repD(1) [OF assms]] buddy_repD(3) [OF assms] by (auto split: list.splits)

text \<open>
  Changing one list: the other lists keep their links when only cells of this list, or of no
  list, are written.
\<close>

lemma buddy_rep_update:
  assumes r: "buddy_rep s fl" and k: "k \<le> 10"
    and l: "dseg (chunks s') NULL (free_lists s' k) xs NULL" "distinct xs"
    and heads: "\<And>j. j \<noteq> k \<Longrightarrow> free_lists s' j = free_lists s j"
    and frame: "\<And>j xs p a. j \<le> 10 \<Longrightarrow> j \<noteq> k \<Longrightarrow>
      dseg (chunks s') NULL (free_lists s j) (fl j) NULL = dseg (chunks s) NULL (free_lists s j) (fl j) NULL"
    and new: "\<And>j. j \<le> 10 \<Longrightarrow> j \<noteq> k \<Longrightarrow> set xs \<inter> set (fl j) = {}"
  shows "buddy_rep s' (fl(k := xs))"
proof -
  have "dseg (chunks s') NULL (free_lists s' j) ((fl(k := xs)) j) NULL \<and> distinct ((fl(k := xs)) j)"
    if "j \<le> 10" for j
    using l heads frame that buddy_repD(1,2) [OF r that] by (cases "j = k") auto
  moreover have "set ((fl(k := xs)) i) \<inter> set ((fl(k := xs)) j) = {}" if "i \<le> 10" "j \<le> 10" "i \<noteq> j" for i j
    using new that r by (auto simp: buddy_rep_def)
  ultimately show ?thesis unfolding buddy_rep_def by blast
qed

lemma push_rep:
  assumes r: "buddy_rep s fl" and k: "k \<le> 10" and x: "x \<noteq> NULL" "\<And>j. j \<le> 10 \<Longrightarrow> x \<notin> set (fl j)"
  shows "buddy_rep (free_list_push s k x) (fl(k := x # fl k))"
proof (rule buddy_rep_update [OF r k])
  note d = buddy_repD [OF r k]
  show "distinct (x # fl k)" using d x k by simp
  show "dseg (chunks (free_list_push s k x)) NULL (free_lists (free_list_push s k x) k) (x # fl k) NULL"
    using d x(1) x(2) [OF k] by (cases "fl k") (auto simp: free_list_push_def Let_def)
  fix j assume j: "j \<noteq> k"
  then show "free_lists (free_list_push s k x) j = free_lists s j"
    by (simp add: free_list_push_def Let_def)
  assume j10: "j \<le> 10"
  have "free_lists s k \<notin> set (fl j)" if "free_lists s k \<noteq> NULL"
    using d(4) [OF j10 j] buddy_rep_head [OF r k] that by (cases "fl k") auto
  with x(2) [OF j10] show "dseg (chunks (free_list_push s k x)) NULL (free_lists s j) (fl j) NULL =
      dseg (chunks s) NULL (free_lists s j) (fl j) NULL"
    by (auto simp: free_list_push_def Let_def)
  show "set (x # fl k) \<inter> set (fl j) = {}" using x(2) [OF j10] d(4) [OF j10 j] by auto
qed

lemma pop_rep:
  assumes r: "buddy_rep s fl" and k: "k \<le> 10" and x: "fl k = x # xs"
  shows "buddy_rep (free_list_pop s k) (fl(k := xs))"
proof (rule buddy_rep_update [OF r k])
  note d = buddy_repD [OF r k]
  show "distinct xs" using d x by simp
  show "dseg (chunks (free_list_pop s k)) NULL (free_lists (free_list_pop s k) k) xs NULL"
    using d(1,2) x by (cases xs) (auto simp: free_list_pop_def Let_def)
  fix j assume j: "j \<noteq> k"
  then show "free_lists (free_list_pop s k) j = free_lists s j"
    by (simp add: free_list_pop_def Let_def)
  assume j10: "j \<le> 10"
  have "y \<notin> set (fl j)" if "y \<in> set (fl k)" for y using d(4) [OF j10 j that] .
  then show "dseg (chunks (free_list_pop s k)) NULL (free_lists s j) (fl j) NULL =
      dseg (chunks s) NULL (free_lists s j) (fl j) NULL"
    using d(1) x by (cases xs) (auto simp: free_list_pop_def Let_def)
  show "set xs \<inter> set (fl j) = {}" using d(4) [OF j10 j] x by auto
qed

lemma unlink_dseg:
  assumes "dseg (chunks s) NULL (free_lists s k) (ys @ x # zs) NULL" "distinct (ys @ x # zs)"
  shows "dseg (chunks (free_list_unlink s k x)) NULL (free_lists (free_list_unlink s k x) k) (ys @ zs) NULL"
proof (cases ys rule: rev_cases)
  case Nil
  with assms show ?thesis by (cases zs) (auto simp: free_list_unlink_def Let_def)
next
  case (snoc ws y)
  with assms show ?thesis by (cases zs) (auto simp: free_list_unlink_def Let_def dseg_append)
qed

lemma unlink_frame:
  assumes "dseg (chunks s) NULL (free_lists s k) (ys @ x # zs) NULL" "distinct (ys @ x # zs)"
    "set (ys @ x # zs) \<inter> set us = {}"
  shows "dseg (chunks (free_list_unlink s k x)) NULL a us NULL = dseg (chunks s) NULL a us NULL"
proof (cases ys rule: rev_cases)
  case Nil
  with assms show ?thesis by (cases zs) (auto simp: free_list_unlink_def Let_def)
next
  case (snoc ws y)
  with assms show ?thesis by (cases zs) (auto simp: free_list_unlink_def Let_def dseg_append)
qed

lemma unlink_heads:
  "j \<noteq> k \<Longrightarrow> free_lists (free_list_unlink s k x) j = free_lists s j"
  by (simp add: free_list_unlink_def Let_def)

lemma free_unlink_rep:
  assumes r: "buddy_rep s fl" and k: "k \<le> 10" and x: "x \<in> set (fl k)"
  shows "buddy_rep (free_list_unlink s k x) (fl(k := remove1 x (fl k)))"
proof -
  obtain ys zs where f: "fl k = ys @ x # zs" using x by (meson split_list)
  note d = buddy_repD [OF r k]
  have rem: "remove1 x (fl k) = ys @ zs" using d(2) by (simp add: f remove1_append)
  show ?thesis
  proof (rule buddy_rep_update [OF r k])
    show "dseg (chunks (free_list_unlink s k x)) NULL (free_lists (free_list_unlink s k x) k) (remove1 x (fl k)) NULL"
      unfolding rem by (rule unlink_dseg [OF d(1,2) [unfolded f]])
    show "distinct (remove1 x (fl k))" using d(2) by simp
    fix j assume j: "j \<noteq> k"
    then show "free_lists (free_list_unlink s k x) j = free_lists s j" by (rule unlink_heads)
    assume j10: "j \<le> 10"
    show "dseg (chunks (free_list_unlink s k x)) NULL (free_lists s j) (fl j) NULL =
        dseg (chunks s) NULL (free_lists s j) (fl j) NULL"
      using unlink_frame [OF d(1,2) [unfolded f]] d(4) [OF j10 j] by (auto simp: f)
    show "set (remove1 x (fl k)) \<inter> set (fl j) = {}"
      using d(4) [OF j10 j] set_remove1_subset [of x "fl k"] by blast
  qed
qed

end
