(* ===== verification/Buddy_Correct.thy ===== *)
theory Buddy_Correct
  imports Buddy_Lists
begin

text \<open>
  What the buddy allocator promises. \<open>span x k\<close> is the block of order \<open>k\<close> at \<open>x\<close> as a set of
  byte addresses; \<open>free_bytes\<close> the bytes of all blocks on the lists. The invariant says that
  the listed blocks are aligned, inside the region and pairwise disjoint.
\<close>

section \<open>Blocks and the invariant\<close>

definition span :: "addr \<Rightarrow> nat \<Rightarrow> nat set" where
  "span x k = {unat x ..< unat x + 2 ^ (k + 12)}"

definition free_bytes :: "(nat \<Rightarrow> addr list) \<Rightarrow> nat set" where
  "free_bytes fl = (\<Union>k\<in>{..10}. \<Union>x\<in>set (fl k). span x k)"

definition wf_block :: "buddy_metadata \<Rightarrow> addr \<Rightarrow> nat \<Rightarrow> bool" where
  "wf_block s x k \<longleftrightarrow>
     2 ^ (k + 12) dvd unat x \<and> unat (base_address s) \<le> unat x \<and>
     unat x + 2 ^ (k + 12) \<le> unat (base_address s) + unat (region_size s)"

definition wf_region :: "buddy_metadata \<Rightarrow> bool" where
  "wf_region s \<longleftrightarrow>
     max_order s = 10 \<and> base_address s \<noteq> NULL \<and> 2 ^ 22 dvd unat (base_address s) \<and>
     unat (base_address s) + unat (region_size s) < 2 ^ 64"

definition disjoint_blocks :: "(nat \<Rightarrow> addr list) \<Rightarrow> bool" where
  "disjoint_blocks fl \<longleftrightarrow>
     (\<forall>j\<le>10. \<forall>k\<le>10. \<forall>x\<in>set (fl j). \<forall>y\<in>set (fl k). (x, j) \<noteq> (y, k) \<longrightarrow> span x j \<inter> span y k = {})"

definition buddy_inv :: "buddy_metadata \<Rightarrow> (nat \<Rightarrow> addr list) \<Rightarrow> bool" where
  "buddy_inv s fl \<longleftrightarrow>
     wf_region s \<and> buddy_rep s fl \<and> (\<forall>k\<le>10. \<forall>x\<in>set (fl k). wf_block s x k) \<and> disjoint_blocks fl"

text \<open>
  The lists as they are as long as nothing has been released: at most one block below the largest order.
  Then the free memory is in large blocks, and only its amount decides whether a request can be met.
\<close>

definition tidy :: "(nat \<Rightarrow> addr list) \<Rightarrow> bool" where
  "tidy fl \<longleftrightarrow> (\<forall>j<10. length (fl j) \<le> 1)"

lemma span_nonempty [simp]: "span x k \<noteq> {}" "unat x \<in> span x k"
  by (auto simp: span_def)

lemma in_free_bytes: "k \<le> 10 \<Longrightarrow> x \<in> set (fl k) \<Longrightarrow> span x k \<subseteq> free_bytes fl"
  by (auto simp: free_bytes_def)

lemma free_bytes_disjointD:
  "free_bytes fl \<inter> S = {} \<Longrightarrow> k \<le> 10 \<Longrightarrow> x \<in> set (fl k) \<Longrightarrow> span x k \<inter> S = {}"
  using in_free_bytes by blast

lemma free_bytes_push: "k \<le> 10 \<Longrightarrow> free_bytes (fl(k := x # fl k)) = free_bytes fl \<union> span x k"
  by (force simp: free_bytes_def split: if_splits)

lemma free_bytes_remove:
  assumes "disjoint_blocks fl" "k \<le> 10" "x \<in> set (fl k)" "set xs = set (fl k) - {x}"
  shows "free_bytes (fl(k := xs)) = free_bytes fl - span x k"
proof -
  have "free_bytes fl = free_bytes (fl(k := xs)) \<union> span x k"
    using assms(2-4) by (force simp: free_bytes_def split: if_splits)
  moreover have "free_bytes (fl(k := xs)) \<inter> span x k = {}"
    using assms unfolding free_bytes_def disjoint_blocks_def by (auto split: if_splits) blast+
  ultimately show ?thesis by blast
qed

lemma wf_block_nonnull: "wf_region s \<Longrightarrow> wf_block s x k \<Longrightarrow> x \<noteq> NULL"
  by (auto simp: wf_region_def wf_block_def unat_eq_0)

lemma disjoint_blocks_push:
  assumes "disjoint_blocks fl" "k \<le> 10" "free_bytes fl \<inter> span x k = {}"
  shows "disjoint_blocks (fl(k := x # fl k))"
proof -
  have "span y j \<inter> span x k = {}" if "j \<le> 10" "y \<in> set (fl j)" for y j
    using free_bytes_disjointD [OF assms(3) that] .
  then show ?thesis using assms(1,2) unfolding disjoint_blocks_def
    by (auto simp: Int_commute split: if_splits)
qed

lemma disjoint_blocks_remove:
  "disjoint_blocks fl \<Longrightarrow> set xs \<subseteq> set (fl k) \<Longrightarrow> disjoint_blocks (fl(k := xs))"
  unfolding disjoint_blocks_def by (auto split: if_splits) blast+

text \<open>The list operations, at the level of the invariant.\<close>

lemma free_list_push_sel [simp]:
  "max_order (free_list_push s k b) = max_order s"
  "bitmap (free_list_push s k b) = bitmap s"
  "base_address (free_list_push s k b) = base_address s"
  "region_size (free_list_push s k b) = region_size s"
  "order_offsets (free_list_push s k b) = order_offsets s"
  by (simp_all add: free_list_push_def Let_def)

lemma free_list_pop_sel [simp]:
  "max_order (free_list_pop s k) = max_order s"
  "bitmap (free_list_pop s k) = bitmap s"
  "base_address (free_list_pop s k) = base_address s"
  "region_size (free_list_pop s k) = region_size s"
  "order_offsets (free_list_pop s k) = order_offsets s"
  by (simp_all add: free_list_pop_def Let_def)

lemma wf_cong:
  assumes "max_order s' = max_order s" "base_address s' = base_address s" "region_size s' = region_size s"
  shows "wf_region s' = wf_region s" "wf_block s' = wf_block s"
  using assms by (auto simp: wf_region_def wf_block_def fun_eq_iff)

lemma push_inv:
  assumes i: "buddy_inv s fl" and k: "k \<le> 10" and x: "wf_block s x k" "free_bytes fl \<inter> span x k = {}"
  shows "buddy_inv (free_list_push s k x) (fl(k := x # fl k))"
proof -
  have "x \<noteq> NULL" using i x(1) wf_block_nonnull by (auto simp: buddy_inv_def)
  moreover have "x \<notin> set (fl j)" if "j \<le> 10" for j
    using free_bytes_disjointD [OF x(2) that] by (metis disjoint_iff span_nonempty(2))
  ultimately have "buddy_rep (free_list_push s k x) (fl(k := x # fl k))"
    using i k by (intro push_rep) (auto simp: buddy_inv_def)
  then show ?thesis using i k x disjoint_blocks_push
    by (auto simp: buddy_inv_def wf_cong [of "free_list_push s k x" s])
qed

lemma pop_inv:
  assumes i: "buddy_inv s fl" and k: "k \<le> 10" and x: "fl k = x # xs"
  shows "buddy_inv (free_list_pop s k) (fl(k := xs))"
proof -
  have "buddy_rep (free_list_pop s k) (fl(k := xs))" using i k x by (auto simp: buddy_inv_def intro: pop_rep)
  moreover have "disjoint_blocks (fl(k := xs))"
    using i x by (auto simp: buddy_inv_def intro: disjoint_blocks_remove)
  ultimately show ?thesis using i x by (auto simp: buddy_inv_def wf_cong [of "free_list_pop s k" s])
qed

lemma unlink_inv:
  assumes i: "buddy_inv s fl" and k: "k \<le> 10" and x: "x \<in> set (fl k)"
  shows "buddy_inv (free_list_unlink s k x) (fl(k := remove1 x (fl k)))"
    "free_bytes (fl(k := remove1 x (fl k))) = free_bytes fl - span x k"
proof -
  have d: "disjoint_blocks fl" "distinct (fl k)" using i k buddy_repD(2) by (auto simp: buddy_inv_def)
  have "buddy_rep (free_list_unlink s k x) (fl(k := remove1 x (fl k)))"
    using i k x by (auto simp: buddy_inv_def intro: free_unlink_rep)
  moreover have "disjoint_blocks (fl(k := remove1 x (fl k)))"
    using d(1) set_remove1_subset by (rule disjoint_blocks_remove)
  ultimately show "buddy_inv (free_list_unlink s k x) (fl(k := remove1 x (fl k)))"
    using i set_remove1_subset [of x "fl k"] by (auto simp: buddy_inv_def wf_cong [of "free_list_unlink s k x" s])
  show "free_bytes (fl(k := remove1 x (fl k))) = free_bytes fl - span x k"
    using d k x by (intro free_bytes_remove) auto
qed

lemma toggle_inv [simp]: "buddy_inv (snd (toggle_bitmap s a k)) fl = buddy_inv s fl"
  by (simp add: buddy_inv_def buddy_rep_def wf_cong [of "snd (toggle_bitmap s a k)" s])

section \<open>The order of a size\<close>

lemma size_order_hit:
  assumes "k \<le> 51" "unat sz \<le> 2 ^ (k + 12)" "\<And>j. j < k \<Longrightarrow> 2 ^ (j + 12) < unat sz"
  shows "order \<le> k \<Longrightarrow> size_order sz order = Some k"
proof (induction rule: inc_induct)
  case base
  then show ?case using assms(1,2)
    by (subst size_order.simps) (simp add: word_less_nat_alt unat_chunk_bytes not_less)
next
  case (step n)
  then show ?case using assms(1) assms(3) [of n]
    by (subst size_order.simps) (simp add: word_less_nat_alt unat_chunk_bytes)
qed

lemma size_order_spec:
  assumes "unat sz \<le> 2 ^ 63"
  obtains k where "k \<le> 51" "size_order sz 0 = Some k" "unat sz \<le> 2 ^ (k + 12)"
    "\<And>j. j < k \<Longrightarrow> 2 ^ (j + 12) < unat sz"
proof -
  define k where "k = (LEAST k. unat sz \<le> 2 ^ (k + 12))"
  have ex: "unat sz \<le> 2 ^ (51 + 12)" using assms by simp
  have k: "unat sz \<le> 2 ^ (k + 12)" unfolding k_def by (rule LeastI, rule ex)
  have k51: "k \<le> 51" unfolding k_def by (rule Least_le, rule ex)
  have low: "2 ^ (j + 12) < unat sz" if "j < k" for j
    using not_less_Least [of j "\<lambda>k. unat sz \<le> 2 ^ (k + 12)"] that by (auto simp: k_def)
  show thesis using that [OF k51 size_order_hit [OF k51 k low] k low] by blast
qed

lemma size_order_page: "size_order PAGE_SIZE 0 = Some 0"
  by (subst size_order.simps) (simp add: chunk_bytes_def PAGE_SIZE_def)

section \<open>Splitting\<close>

lemma block_double [simp]: "(2::nat) ^ (13 + k) = 2 ^ (k + 12) + 2 ^ (k + 12)"
  by (simp add: power_add)

lemma wf_block_bounds: "wf_region s \<Longrightarrow> wf_block s x k \<Longrightarrow> unat x + 2 ^ (k + 12) < 2 ^ 64"
  by (auto simp: wf_region_def wf_block_def)

lemma unat_upper_half:
  assumes "unat x + 2 ^ (Suc k + 12) < 2 ^ 64" "k \<le> 10"
  shows "unat (x + chunk_bytes k) = unat x + 2 ^ (k + 12)"
  using assms by (subst unat_add_no_overflow) (auto simp: unat_chunk_bytes)

lemma wf_block_halves:
  assumes "wf_region s" "wf_block s x (Suc k)" "k \<le> 10"
  shows "wf_block s x k" "wf_block s (x + chunk_bytes k) k"
proof -
  note u = unat_upper_half [OF wf_block_bounds [OF assms(1,2)] assms(3)]
  have d: "2 ^ (k + 12) dvd unat x"
    using assms(2) dvd_trans [of "2 ^ (k + 12)" "2 ^ (Suc k + 12)" "unat x"] le_imp_power_dvd [of "k + 12" "Suc k + 12"]
    unfolding wf_block_def by simp
  show "wf_block s x k" using assms(2) d by (simp add: wf_block_def)
  show "wf_block s (x + chunk_bytes k) k" using assms(2) d u by (simp add: wf_block_def)
qed

lemma span_halves:
  assumes "unat x + 2 ^ (Suc k + 12) < 2 ^ 64" "k \<le> 10"
  shows "span x (Suc k) = span x k \<union> span (x + chunk_bytes k) k" "span x k \<inter> span (x + chunk_bytes k) k = {}"
  using unat_upper_half [OF assms] by (auto simp: span_def)

lemma span_mono: "j \<le> k \<Longrightarrow> span x j \<subseteq> span x k"
  using power_increasing [of "j + 12" "k + 12" "2::nat"] by (auto simp: span_def)

lemma split_sel [simp]:
  "max_order (buddy_split s x order level) = max_order s"
  "bitmap (buddy_split s x order level) = bitmap s"
  "base_address (buddy_split s x order level) = base_address s"
  "region_size (buddy_split s x order level) = region_size s"
  "order_offsets (buddy_split s x order level) = order_offsets s"
  by (induction s x order level rule: buddy_split.induct; subst buddy_split.simps; simp)+

lemma split_inv:
  assumes "buddy_inv s fl" "level \<le> 10" "order \<le> level" "wf_block s x level" "free_bytes fl \<inter> span x level = {}"
  shows "\<exists>fl'. buddy_inv (buddy_split s x order level) fl' \<and> wf_block s x order \<and>
    free_bytes fl' = free_bytes fl \<union> (span x level - span x order) \<and>
    (\<forall>j. length (fl' j) = length (fl j) + (if order \<le> j \<and> j < level then 1 else 0))"
  using assms
proof (induction level arbitrary: s fl)
  case 0
  then show ?case by (subst buddy_split.simps) auto
next
  case (Suc k)
  show ?case
  proof (cases "order = Suc k")
    case True
    with Suc.prems show ?thesis by (subst buddy_split.simps) auto
  next
    case False
    let ?y = "x + chunk_bytes k" and ?s = "free_list_push s k (x + chunk_bytes k)"
    have rg: "wf_region s" using Suc.prems(1) by (simp add: buddy_inv_def)
    have k: "k \<le> 10" "order \<le> k" using Suc.prems(2,3) False by auto
    note b = wf_block_bounds [OF rg Suc.prems(4)]
    note halves = wf_block_halves [OF rg Suc.prems(4) k(1)] span_halves [OF b k(1)]
    have i: "buddy_inv ?s (fl(k := ?y # fl k))"
      using Suc.prems(1,5) k halves by (intro push_inv) auto
    have f: "free_bytes (fl(k := ?y # fl k)) = free_bytes fl \<union> span ?y k" using k by (intro free_bytes_push) auto
    have "wf_block ?s x k" using halves(1) by (simp add: wf_cong [of ?s s])
    moreover have "free_bytes (fl(k := ?y # fl k)) \<inter> span x k = {}" using f Suc.prems(5) halves(3,4) by auto
    ultimately obtain fl' where
      fl': "buddy_inv (buddy_split ?s x order k) fl'" "wf_block ?s x order"
        "free_bytes fl' = free_bytes fl \<union> span ?y k \<union> (span x k - span x order)"
        "\<forall>j. length (fl' j) = length ((fl(k := ?y # fl k)) j) + (if order \<le> j \<and> j < k then 1 else 0)"
      using Suc.IH [OF i k] unfolding f by blast
    moreover have "buddy_split s x order (Suc k) = buddy_split ?s x order k"
      using k by (subst buddy_split.simps) simp
    moreover have "span ?y k \<inter> span x order = {}" using halves(4) span_mono [OF k(2), of x] by blast
    moreover have "length (fl' j) = length (fl j) + (if order \<le> j \<and> j < Suc k then 1 else 0)" for j
      using fl'(4) [rule_format, of j] k by (cases "j = k") auto
    ultimately show ?thesis using halves(3) by (auto simp: wf_cong [of ?s s] intro!: exI [of _ fl'])
  qed
qed

section \<open>Allocation\<close>

text \<open>The scan skips empty lists, so splitting never puts a second block on a list.\<close>

lemma scan_inv:
  assumes i: "buddy_inv s fl" and l: "\<forall>k\<in>set idxs. order \<le> k \<and> k \<le> 10"
    and e: "sorted idxs" "\<forall>j. order \<le> j \<and> j \<le> 10 \<and> j \<notin> set idxs \<longrightarrow> fl j = []"
  shows "if \<forall>k\<in>set idxs. fl k = [] then buddy_kalloc_scan s order idxs = (NULL, s)
    else \<exists>x s' fl'. buddy_kalloc_scan s order idxs = (x, s') \<and> wf_block s x order \<and>
      buddy_inv s' fl' \<and> span x order \<subseteq> free_bytes fl \<and> free_bytes fl' = free_bytes fl - span x order \<and>
      base_address s' = base_address s \<and> region_size s' = region_size s \<and> (tidy fl \<longrightarrow> tidy fl')"
  using l e
proof (induction idxs)
  case (Cons k ks)
  then have k: "order \<le> k" "k \<le> 10" by auto
  have low: "fl j = []" if "order \<le> j" "j < k" for j
  proof -
    have "j \<notin> set (k # ks)" using Cons.prems(2) that(2) by auto
    then show ?thesis using Cons.prems(3) k that by auto
  qed
  have r: "buddy_rep s fl" and db: "disjoint_blocks fl" using i by (auto simp: buddy_inv_def)
  show ?case
  proof (cases "fl k")
    case Nil
    then have "\<forall>j. order \<le> j \<and> j \<le> 10 \<and> j \<notin> set ks \<longrightarrow> fl j = []" using Cons.prems(3) by auto
    with Cons Nil buddy_rep_head(2) [OF r k(2)] show ?thesis by (simp split: if_splits)
  next
    case (Cons x xs)
    let ?s = "free_list_pop s k"
    have head: "free_lists s k = x" "x \<noteq> NULL"
      using buddy_rep_head [OF r k(2)] Cons by auto
    have d: "distinct (fl k)" using buddy_repD [OF r k(2)] by simp
    have p: "buddy_inv ?s (fl(k := xs))" by (rule pop_inv [OF i k(2) Cons])
    have f: "free_bytes (fl(k := xs)) = free_bytes fl - span x k"
      using db k(2) Cons d by (intro free_bytes_remove) auto
    have w: "wf_block ?s x k" using i k Cons by (auto simp: buddy_inv_def wf_cong [of ?s s])
    have sub: "span x k \<subseteq> free_bytes fl" using in_free_bytes [OF k(2), of x fl] Cons by simp
    obtain fl' where fl': "buddy_inv (buddy_split ?s x order k) fl'" "wf_block ?s x order"
        "free_bytes fl' = free_bytes fl - span x k \<union> (span x k - span x order)"
        "\<forall>j. length (fl' j) = length ((fl(k := xs)) j) + (if order \<le> j \<and> j < k then 1 else 0)"
      using split_inv [OF p k(2,1) w] f by auto
    have ti: "tidy fl'" if "tidy fl"
    proof -
      have "length (fl' j) \<le> 1" if j: "j < 10" for j
        using fl'(4) [rule_format, of j] low [of j] \<open>tidy fl\<close> [unfolded tidy_def, rule_format, OF j] Cons by (auto split: if_splits)
      then show ?thesis by (simp add: tidy_def)
    qed
    have "free_bytes fl' = free_bytes fl - span x order" "span x order \<subseteq> free_bytes fl"
      using fl'(3) sub span_mono [OF k(1), of x] by blast+
    moreover have "buddy_kalloc_scan s order (k # ks) =
        (x, snd (toggle_bitmap (buddy_split ?s x order k) x order))"
      using head by (simp add: Let_def)
    ultimately show ?thesis using fl'(1,2) Cons ti
      by (auto simp: wf_cong [of ?s s] simp del: buddy_kalloc_scan.simps)
  qed
qed simp

lemma kalloc_inv:
  assumes i: "buddy_inv s fl" and sz: "size_order sz 0 = Some k"
  shows "if k > 10 \<or> (\<forall>j\<in>{k..10}. fl j = []) then buddy_kalloc s sz = Some (NULL, s)
    else \<exists>x s' fl'. buddy_kalloc s sz = Some (x, s') \<and> x \<noteq> NULL \<and> wf_block s x k \<and> buddy_inv s' fl' \<and>
      span x k \<subseteq> free_bytes fl \<and> free_bytes fl' = free_bytes fl - span x k \<and>
      base_address s' = base_address s \<and> region_size s' = region_size s \<and> (tidy fl \<longrightarrow> tidy fl')"
proof -
  have m: "max_order s = 10" and rg: "wf_region s" using i by (auto simp: buddy_inv_def wf_region_def)
  show ?thesis
  proof (cases "k > 10")
    case True
    then show ?thesis using sz m by (simp add: buddy_kalloc_def)
  next
    case False
    have "set [k..<11] = {k..10}" by auto
    moreover have "sorted [k..<11]" by (rule sorted_upt)
    ultimately show ?thesis using scan_inv [OF i, of "[k..<11]" k] False m sz wf_block_nonnull [OF rg]
      by (fastforce simp: buddy_kalloc_def simp del: upt_Suc split: if_splits)
  qed
qed

text \<open>Tidy lists with more than 12 KB have a block for every request up to 16 KB.\<close>

lemma tidy_block:
  assumes "tidy fl" "12288 < card (free_bytes fl)"
  shows "\<exists>j\<in>{2..10}. fl j \<noteq> []"
proof (rule ccontr)
  assume "\<not> ?thesis"
  then have e: "fl j = []" if "2 \<le> j" "j \<le> 10" for j using that by auto
  have one: "card (\<Union>x\<in>set (fl j). span x j) \<le> 2 ^ (j + 12)" if j: "j < 10" for j
  proof -
    have "length (fl j) \<le> 1" using assms(1) j by (simp add: tidy_def)
    then have "fl j = [] \<or> (\<exists>x. fl j = [x])" by (cases "fl j") auto
    then show ?thesis by (auto simp: span_def)
  qed
  have "free_bytes fl \<subseteq> (\<Union>x\<in>set (fl 0). span x 0) \<union> (\<Union>x\<in>set (fl 1). span x 1)"
  proof
    fix b assume "b \<in> free_bytes fl"
    then obtain j x where j: "j \<le> 10" "x \<in> set (fl j)" "b \<in> span x j" by (auto simp: free_bytes_def)
    then have "j < 2" using e [of j] by (cases "j < 2") auto
    then have "j = 0 \<or> j = 1" by linarith
    then show "b \<in> (\<Union>x\<in>set (fl 0). span x 0) \<union> (\<Union>x\<in>set (fl 1). span x 1)" using j by auto
  qed
  then have "card (free_bytes fl) \<le> card ((\<Union>x\<in>set (fl 0). span x 0) \<union> (\<Union>x\<in>set (fl 1). span x 1))"
    by (intro card_mono) (simp_all add: span_def)
  also have "\<dots> \<le> card (\<Union>x\<in>set (fl 0). span x 0) + card (\<Union>x\<in>set (fl 1). span x 1)" by (rule card_Un_le)
  also have "\<dots> \<le> 12288" using one [of 0] one [of 1] by simp
  finally show False using assms(2) by simp
qed

end
