(* ===== verification/Buddy_Free.thy ===== *)
theory Buddy_Free
  imports Buddy_Correct
begin

text \<open>
  Release. \<open>buddy_kfree\<close> trusts the pair bitmap: a bit that becomes 0 makes it unlink the buddy
  from its free list without looking. The lemmas here find the exact condition under which that
  is right, \<open>bits_sound\<close>, show that releasing keeps it, and give the addresses of buddies and
  the positions of their bits.
\<close>

section \<open>Buddies\<close>

lemma chunk_bytes_power: "chunk_bytes k = 2 ^ (k + 12)"
  by (simp add: chunk_bytes_def PAGE_SIZE_def push_bit_eq_mult power_add)

lemma xor_chunk_bytes:
  "x XOR chunk_bytes k = (if bit x (k + 12) then x - chunk_bytes k else x + chunk_bytes k)"
proof -
  have "x XOR chunk_bytes k = flip_bit (k + 12) x"
    by (simp add: flip_bit_eq_xor chunk_bytes_power push_bit_eq_mult)
  then show ?thesis by (simp add: flip_bit_eq_if set_bit_eq unset_bit_eq chunk_bytes_power)
qed

lemma xor_cancel:
  fixes x z c :: u64
  assumes "z XOR c = x XOR c"
  shows "z = x"
  using arg_cong [OF assms, of "\<lambda>w. w XOR c"] unfolding xor.assoc by simp

lemma bit_unat_odd: "bit (x :: u64) n \<longleftrightarrow> odd (unat x div 2 ^ n)"
  using bit_iff_odd [of "unat x" n] by (simp add: bit_unsigned_iff)

definition whole_region :: "buddy_metadata \<Rightarrow> bool" where
  "whole_region s \<longleftrightarrow> wf_region s \<and> 2 ^ 22 dvd unat (region_size s)"

lemma even_block_room:
  assumes "(2::nat) ^ n dvd p" "2 ^ n dvd e" "p < e"
  shows "p + 2 ^ n \<le> e"
proof -
  obtain i j where "p = 2 ^ n * i" "e = 2 ^ n * j" using assms(1,2) by (auto elim!: dvdE)
  with assms(3) have "i < j" by simp
  then have "2 ^ n * Suc i \<le> 2 ^ n * j" by (intro mult_le_mono2) simp
  then show ?thesis using \<open>p = 2 ^ n * i\<close> \<open>e = 2 ^ n * j\<close> by (simp add: add.commute)
qed

text \<open>
  The buddy of a block is the other half of the block of the next order that holds it, and that
  block is again inside the region.
\<close>

lemma buddy_cases:
  assumes w: "whole_region s" and b: "wf_block s x k" and k: "k < 10"
  shows "(x XOR chunk_bytes k = x + chunk_bytes k \<and> x < x XOR chunk_bytes k \<and> wf_block s x (Suc k)) \<or>
    (x = (x XOR chunk_bytes k) + chunk_bytes k \<and> x XOR chunk_bytes k < x \<and> wf_block s (x XOR chunk_bytes k) (Suc k))"
proof -
  define P where "P = (2::nat) ^ (k + 12)"
  have P: "0 < P" "(2::nat) ^ (13 + k) = P + P" "(2::nat) ^ (Suc k + 12) = P + P" by (simp_all add: P_def)
  obtain m where m: "unat x = P * m" using b by (auto simp: wf_block_def P_def elim!: dvdE)
  have dv: "(2::nat) ^ (Suc k + 12) dvd 2 ^ 22" using k by (intro le_imp_power_dvd) simp
  have base: "P + P dvd unat (base_address s)" and fin: "P + P dvd unat (base_address s) + unat (region_size s)"
    using w dv unfolding P(3) whole_region_def wf_region_def by (auto intro: dvd_trans dvd_add)
  have rg: "unat (base_address s) + unat (region_size s) < 2 ^ 64" using w by (simp add: whole_region_def wf_region_def)
  have lo: "unat (base_address s) \<le> unat x" and hi: "unat x + P \<le> unat (base_address s) + unat (region_size s)"
    using b by (auto simp: wf_block_def P_def)
  have cb: "unat (chunk_bytes k) = P" using k by (simp add: unat_chunk_bytes P_def)
  have bit: "bit x (k + 12) \<longleftrightarrow> odd m" using P(1) by (simp add: bit_unat_odd m P_def [symmetric])
  show ?thesis
  proof (cases "odd m")
    case False
    then obtain i where i: "m = 2 * i" by auto
    have d: "P + P dvd unat x" by (simp add: m i mult_2 [symmetric])
    have "unat x + (P + P) \<le> unat (base_address s) + unat (region_size s)"
      using even_block_room [of "Suc k + 12" "unat x"] d fin hi P(1,3) by simp
    then have "unat (x + chunk_bytes k) = unat x + P"
      using rg cb by (subst unat_add_no_overflow) auto
    then show ?thesis using False bit P d lo \<open>unat x + (P + P) \<le> _\<close>
      by (simp add: xor_chunk_bytes wf_block_def word_less_nat_alt)
  next
    case True
    then obtain i where i: "m = Suc (2 * i)" by (auto elim!: oddE)
    have ux: "unat x = (P + P) * i + P" by (simp add: m i algebra_simps)
    have le: "chunk_bytes k \<le> x" by (simp add: word_le_nat_alt cb ux)
    have u: "unat (x - chunk_bytes k) = (P + P) * i" using unat_diff_le [OF le] cb ux by simp
    obtain j where j: "unat (base_address s) = (P + P) * j" using base by (auto elim!: dvdE)
    have "(P + P) * j < (P + P) * Suc i" using lo ux j P(1) by simp
    then have "j \<le> i" by (metis mult_less_cancel1 less_Suc_eq_le)
    then have "unat (base_address s) \<le> (P + P) * i" unfolding j by simp
    then show ?thesis using True bit P u ux hi
      by (simp add: xor_chunk_bytes wf_block_def word_less_nat_alt)
  qed
qed

lemma buddy_parent:
  assumes w: "whole_region s" and b: "wf_block s x k" and k: "k < 10"
  defines "p \<equiv> if x XOR chunk_bytes k < x then x XOR chunk_bytes k else x"
  shows "wf_block s p (Suc k)" "wf_block s (x XOR chunk_bytes k) k"
    "span p (Suc k) = span x k \<union> span (x XOR chunk_bytes k) k"
    "span x k \<inter> span (x XOR chunk_bytes k) k = {}"
    "unat x = unat p \<or> unat x = unat p + 2 ^ (k + 12)"
    "unat (x XOR chunk_bytes k) = unat p \<or> unat (x XOR chunk_bytes k) = unat p + 2 ^ (k + 12)"
proof -
  have rg: "wf_region s" and k': "k \<le> 10" using w k by (auto simp: whole_region_def)
  let ?q = "p + chunk_bytes k"
  have pq: "x = p \<and> x XOR chunk_bytes k = ?q \<or> x = ?q \<and> x XOR chunk_bytes k = p"
    and wf: "wf_block s p (Suc k)"
    using buddy_cases [OF w b k] by (auto simp: p_def)
  note bd = wf_block_bounds [OF rg wf]
  note h = wf_block_halves [OF rg wf k'] span_halves [OF bd k'] unat_upper_half [OF bd k']
  show "wf_block s p (Suc k)" by fact
  show "wf_block s (x XOR chunk_bytes k) k" "span x k \<inter> span (x XOR chunk_bytes k) k = {}"
    "span p (Suc k) = span x k \<union> span (x XOR chunk_bytes k) k"
    "unat x = unat p \<or> unat x = unat p + 2 ^ (k + 12)"
    "unat (x XOR chunk_bytes k) = unat p \<or> unat (x XOR chunk_bytes k) = unat p + 2 ^ (k + 12)"
    using pq h by auto
qed

section \<open>Positions in the bitmap\<close>

definition pages_of :: "buddy_metadata \<Rightarrow> nat" where
  "pages_of s = unat (region_size s) div 4096"

definition offset_of :: "nat \<Rightarrow> nat \<Rightarrow> nat" where
  "offset_of pages k = (\<Sum>i<k. pages div 2 ^ (i + 1))"

definition offsets_ok :: "buddy_metadata \<Rightarrow> bool" where
  "offsets_ok s \<longleftrightarrow> pages_of s < 2 ^ 31 \<and> (\<forall>k\<le>10. unat (order_offsets s k) = offset_of (pages_of s) k)"

lemma offset_of_mono: "j \<le> k \<Longrightarrow> offset_of n j \<le> offset_of n k"
  unfolding offset_of_def by (intro sum_mono2) auto

lemma offset_of_le: "offset_of n k + n div 2 ^ k \<le> n"
proof (induction k)
  case (Suc k)
  have "n div 2 ^ Suc k + n div 2 ^ Suc k \<le> n div 2 ^ k"
  proof -
    have "n div 2 ^ Suc k = n div 2 ^ k div 2" by (simp only: power_Suc mult.commute [of 2] div_mult2_eq)
    then show ?thesis by linarith
  qed
  with Suc show ?case by (simp add: offset_of_def)
qed (simp add: offset_of_def)

lemma block_index_bound:
  assumes "wf_block s x k" "pages_of s < 2 ^ 31"
  shows "(unat x - unat (base_address s)) div 2 ^ (12 + k) < 2 ^ 31"
proof -
  have "unat x - unat (base_address s) \<le> unat (region_size s)" using assms(1) by (auto simp: wf_block_def)
  then have "(unat x - unat (base_address s)) div 4096 \<le> pages_of s" by (simp add: pages_of_def div_le_mono)
  then have "(unat x - unat (base_address s)) div 4096 div 2 ^ k \<le> pages_of s"
    using div_le_dividend order_trans by blast
  then show ?thesis using assms(2) by (simp add: power_add div_mult2_eq)
qed

lemma unat_bit_pos:
  assumes o: "offsets_ok s" and b: "wf_block s x k" and k: "k \<le> 10"
  shows "unat (bit_pos s x k) = offset_of (pages_of s) k + (unat x - unat (base_address s)) div 2 ^ (k + 13)"
proof -
  let ?D = "unat x - unat (base_address s)"
  have n: "pages_of s < 2 ^ 31" and off: "unat (order_offsets s k) = offset_of (pages_of s) k"
    using o k by (auto simp: offsets_ok_def)
  have bound: "?D div 2 ^ (12 + k) < 2 ^ 31" by (rule block_index_bound [OF b n])
  have D: "unat (x - base_address s) = ?D"
    using b by (intro unat_diff_le) (simp add: wf_block_def word_le_nat_alt)
  have idx: "unat (ucast (drop_bit (12 + k) (x - base_address s)) :: u32) = ?D div 2 ^ (12 + k)"
    using bound by (simp add: unsigned_ucast_eq unat_drop_bit_div D take_bit_nat_eq_self)
  have pair: "?D div 2 ^ (12 + k) div 2 = ?D div 2 ^ (k + 13)"
    by (simp add: div_mult2_eq [symmetric] power_add mult.commute)
  have "offset_of (pages_of s) k < 2 ^ 31" using offset_of_le [of "pages_of s" k] n by simp
  then have "unat (order_offsets s k) + unat (drop_bit 1 (ucast (drop_bit (12 + k) (x - base_address s)) :: u32)) < 2 ^ 32"
    using bound off by (simp add: unat_drop_bit_div idx)
  then show ?thesis unfolding bit_pos_def Let_def
    using unat_add_no_overflow [of "order_offsets s k" "drop_bit 1 (ucast (drop_bit (12 + k) (x - base_address s)) :: u32)"]
    by (simp add: unat_drop_bit_div idx off pair)
qed

lemma pair_index_less:
  assumes w: "whole_region s" and b: "wf_block s x k" and k: "k < 10"
  shows "(unat x - unat (base_address s)) div 2 ^ (k + 13) < pages_of s div 2 ^ (k + 1)"
proof -
  have "(2::nat) ^ (k + 13) dvd 2 ^ 22" using k by (intro le_imp_power_dvd) simp
  then have "2 ^ (k + 13) dvd unat (region_size s)" using w by (auto simp: whole_region_def intro: dvd_trans)
  then obtain q where q: "unat (region_size s) = 2 ^ (k + 13) * q" by (auto elim!: dvdE)
  have "pages_of s = 2 ^ (k + 1) * q" by (simp add: pages_of_def q power_add)
  moreover have "unat x - unat (base_address s) < 2 ^ (k + 13) * q"
  proof -
    have "0 < (2::nat) ^ (k + 12)" by simp
    then show ?thesis using b q unfolding wf_block_def by linarith
  qed
  ultimately show ?thesis by (simp add: less_mult_imp_div_less mult.commute)
qed

lemma pair_index_parent:
  assumes w: "whole_region s" and b: "wf_block s x k" and k: "k < 10"
  defines "p \<equiv> if x XOR chunk_bytes k < x then x XOR chunk_bytes k else x"
  shows "unat p = unat (base_address s) + 2 ^ (k + 13) * ((unat x - unat (base_address s)) div 2 ^ (k + 13))"
proof -
  note bp = buddy_parent [OF w b k, folded p_def]
  have dv: "(2::nat) ^ (k + 13) dvd 2 ^ 22" using k by (intro le_imp_power_dvd) simp
  have base: "2 ^ (k + 13) dvd unat (base_address s)"
    using w dv by (auto simp: whole_region_def wf_region_def intro: dvd_trans)
  have pd: "2 ^ (k + 13) dvd unat p" and lo: "unat (base_address s) \<le> unat p"
    using bp(1) by (auto simp: wf_block_def add.commute)
  obtain i where i: "unat p = unat (base_address s) + 2 ^ (k + 13) * i"
    using dvd_diff_nat [OF pd base] lo by (metis dvdE le_add_diff_inverse)
  have "(unat x - unat (base_address s)) div 2 ^ (k + 13) = i"
  proof -
    have "unat x - unat (base_address s) = 2 ^ (k + 13) * i \<or>
        unat x - unat (base_address s) = 2 ^ (k + 12) + i * 2 ^ (k + 13)"
      using bp(5) i by auto
    moreover have "((2::nat) ^ (k + 12) + i * 2 ^ (k + 13)) div 2 ^ (k + 13) = i" by simp
    ultimately show ?thesis by auto
  qed
  with i show ?thesis by simp
qed

text \<open>Two blocks have the same bit exactly when they have the same order and are buddies or equal.\<close>

lemma bit_pos_buddy:
  assumes "whole_region s" "offsets_ok s" "wf_block s x k" "k < 10"
  shows "bit_pos s (x XOR chunk_bytes k) k = bit_pos s x k"
proof -
  let ?y = "x XOR chunk_bytes k"
  have wy: "wf_block s ?y k" using buddy_parent [OF assms(1,3,4)] by simp
  have inv: "?y XOR chunk_bytes k = x" by (simp add: xor.assoc)
  have "(if ?y < x then ?y else x) = (if x < ?y then x else ?y)"
    using buddy_cases [OF assms(1,3,4)] by auto
  then have "unat (base_address s) + 2 ^ (k + 13) * ((unat x - unat (base_address s)) div 2 ^ (k + 13)) =
      unat (base_address s) + 2 ^ (k + 13) * ((unat ?y - unat (base_address s)) div 2 ^ (k + 13))"
    using pair_index_parent [OF assms(1,3,4)] pair_index_parent [OF assms(1) wy assms(4), unfolded inv] by argo
  then have "(unat x - unat (base_address s)) div 2 ^ (k + 13) = (unat ?y - unat (base_address s)) div 2 ^ (k + 13)"
    by simp
  then have "unat (bit_pos s ?y k) = unat (bit_pos s x k)"
    using unat_bit_pos [OF assms(2,3)] unat_bit_pos [OF assms(2) wy] assms(4) by simp
  then show ?thesis by (simp add: word_unat_eq_iff)
qed

lemma bit_pos_eq:
  assumes w: "whole_region s" and o: "offsets_ok s" and b: "wf_block s x k" "k < 10" "wf_block s y j" "j \<le> 10"
    and eq: "bit_pos s x k = bit_pos s y j"
  shows "j = k \<and> (y = x \<or> y = x XOR chunk_bytes k)"
proof -
  let ?n = "pages_of s" and ?D = "\<lambda>x k. (unat x - unat (base_address s)) div 2 ^ (k + 13)"
  have u: "offset_of ?n k + ?D x k = offset_of ?n j + ?D y j"
    using unat_bit_pos [OF o b(1)] unat_bit_pos [OF o b(3,4)] b(2) eq by simp
  have xk: "offset_of ?n k + ?D x k < offset_of ?n (Suc k)"
    using pair_index_less [OF w b(1,2)] by (simp add: offset_of_def)
  have yj: "offset_of ?n j + ?D y j < offset_of ?n (Suc j)" if "j < 10"
    using pair_index_less [OF w b(3) that] by (simp add: offset_of_def)
  have "j = k"
  proof (rule ccontr)
    assume "j \<noteq> k"
    then consider "Suc k \<le> j" | "Suc j \<le> k" by linarith
    then show False
    proof cases
      case 1
      then show False using offset_of_mono [OF 1, of ?n] u xk by linarith
    next
      case 2
      then show False using offset_of_mono [OF 2, of ?n] u yj b(2) by linarith
    qed
  qed
  moreover have "y = x \<or> y = x XOR chunk_bytes k" if "j = k"
  proof -
    have jk: "?D x k = ?D y k" using u that by simp
    have yk: "wf_block s y k" using b(3) that by simp
    let ?p = "if x XOR chunk_bytes k < x then x XOR chunk_bytes k else x"
    let ?q = "if y XOR chunk_bytes k < y then y XOR chunk_bytes k else y"
    have pq: "?p = ?q"
      using pair_index_parent [OF w b(1,2)] pair_index_parent [OF w yk b(2)] jk by (simp add: word_unat_eq_iff)
    have "unat y = unat ?p \<or> unat y = unat ?p + 2 ^ (k + 12)" using buddy_parent(5) [OF w yk b(2)] pq by simp
    moreover have "{unat x, unat (x XOR chunk_bytes k)} = {unat ?p, unat ?p + 2 ^ (k + 12)}"
      using buddy_parent(5,6) [OF w b(1,2)] buddy_cases [OF w b(1,2)] by (auto simp: word_less_nat_alt)
    ultimately show ?thesis by (auto simp: word_unat_eq_iff)
  qed
  ultimately show ?thesis by blast
qed

section \<open>The bits\<close>

definition pair_bit :: "buddy_metadata \<Rightarrow> addr \<Rightarrow> nat \<Rightarrow> bool" where
  "pair_bit s x k \<longleftrightarrow> bit (bitmap s (unat (bit_pos s x k div 8))) (unat (bit_pos s x k mod 8))"

lemma bit_pos_sel:
  "base_address s' = base_address s \<Longrightarrow> order_offsets s' = order_offsets s \<Longrightarrow> bit_pos s' = bit_pos s"
  by (simp add: bit_pos_def fun_eq_iff)

lemma unat_mod_8: "unat (p mod 8 :: u32) < 8"
  by (simp add: unat_mod)

lemma bit_power_2: "n < 8 \<Longrightarrow> bit (2 ^ n :: u8) i \<longleftrightarrow> i = n"
  by (auto simp: bit_exp_iff)

lemma flipped_bit:
  assumes "n < 8"
  shows "drop_bit n (b XOR 2 ^ n :: u8) AND 1 = (if bit b n then 0 else 1)"
proof -
  have "drop_bit n (b XOR 2 ^ n) AND 1 = of_bool (bit (b XOR 2 ^ n) n)"
    by (simp only: and_one_eq bit_iff_odd_drop_bit mod2_eq_if) simp
  also have "bit (b XOR 2 ^ n) n \<longleftrightarrow> \<not> bit b n" by (simp add: bit_xor_iff bit_power_2 [OF assms])
  finally show ?thesis by simp
qed

lemma push_bit_power: "push_bit n (1 :: 'a::len word) = 2 ^ n"
  by (simp add: push_bit_eq_mult)

lemma toggle_fst: "fst (toggle_bitmap s x k) = (if pair_bit s x k then 0 else 1)"
  unfolding toggle_bitmap_def Let_def pair_bit_def fst_conv push_bit_power
  by (rule flipped_bit [OF unat_mod_8])

lemma toggle_bits:
  "bitmap (snd (toggle_bitmap s x k)) = (bitmap s)(unat (bit_pos s x k div 8) :=
     bitmap s (unat (bit_pos s x k div 8)) XOR 2 ^ unat (bit_pos s x k mod 8))"
  by (simp add: toggle_bitmap_def Let_def push_bit_power)

lemma word_div_mod_8:
  fixes p q :: u32
  assumes "unat (q div 8) = unat (p div 8)" "unat (q mod 8) = unat (p mod 8)"
  shows "q = p"
proof -
  have "q div 8 = p div 8" "q mod 8 = p mod 8" using assms by (simp_all only: word_unat_eq_iff)
  then have "q div 8 * 8 + q mod 8 = p div 8 * 8 + p mod 8" by (simp only:)
  then show ?thesis by (simp only: div_mult_mod_eq)
qed

lemma toggle_pair_bit:
  "pair_bit (snd (toggle_bitmap s x k)) y j =
     (if bit_pos s y j = bit_pos s x k then \<not> pair_bit s x k else pair_bit s y j)"
proof -
  let ?p = "bit_pos s x k" and ?q = "bit_pos s y j"
  have pos: "bit_pos (snd (toggle_bitmap s x k)) = bit_pos s" by (rule bit_pos_sel) simp_all
  have eq: "?q = ?p" if "unat (?q div 8) = unat (?p div 8)" "unat (?q mod 8) = unat (?p mod 8)"
    using word_div_mod_8 that .
  show ?thesis
  proof (cases "?q = ?p")
    case True
    then show ?thesis
      by (simp add: pair_bit_def pos toggle_bits bit_xor_iff bit_power_2 [OF unat_mod_8])
  next
    case False
    then have "unat (?q mod 8) \<noteq> unat (?p mod 8)" if "unat (?q div 8) = unat (?p div 8)" using eq that by blast
    with False show ?thesis
      by (auto simp add: pair_bit_def pos toggle_bits bit_xor_iff bit_power_2 [OF unat_mod_8])
  qed
qed

lemma pair_bit_cong:
  assumes "base_address s' = base_address s" "order_offsets s' = order_offsets s" "bitmap s' = bitmap s"
  shows "pair_bit s' = pair_bit s"
  using bit_pos_sel [OF assms(1,2)] assms(3) by (simp add: pair_bit_def fun_eq_iff)

text \<open>
  \<open>bits_sound\<close>: wherever a bit is set, one block of the pair is on the free list of that order.
\<close>

definition bits_sound :: "buddy_metadata \<Rightarrow> (nat \<Rightarrow> addr list) \<Rightarrow> bool" where
  "bits_sound s fl \<longleftrightarrow>
     (\<forall>k<10. \<forall>x. wf_block s x k \<longrightarrow> pair_bit s x k \<longrightarrow>
        x \<in> set (fl k) \<or> x XOR chunk_bytes k \<in> set (fl k))"

lemma whole_region_cong:
  assumes "max_order s' = max_order s" "base_address s' = base_address s" "region_size s' = region_size s"
  shows "whole_region s' = whole_region s"
  using assms by (simp add: whole_region_def wf_cong [OF assms])

lemma offsets_ok_cong:
  assumes "region_size s' = region_size s" "order_offsets s' = order_offsets s"
  shows "offsets_ok s' = offsets_ok s"
  using assms by (simp add: offsets_ok_def pages_of_def)

text \<open>What the release of a block needs of the state it starts in.\<close>

definition free_pre :: "buddy_metadata \<Rightarrow> (nat \<Rightarrow> addr list) \<Rightarrow> addr \<Rightarrow> nat \<Rightarrow> bool" where
  "free_pre s fl x k \<longleftrightarrow>
     buddy_inv s fl \<and> whole_region s \<and> offsets_ok s \<and> bits_sound s fl \<and>
     wf_block s x k \<and> free_bytes fl \<inter> span x k = {}"

lemma free_pre_notin: "free_pre s fl x k \<Longrightarrow> k \<le> 10 \<Longrightarrow> x \<notin> set (fl k)"
  using in_free_bytes [of k x fl] span_nonempty(2) [of x k] unfolding free_pre_def by blast

text \<open>Stopping: the bit becomes set, and the block joins its list.\<close>

lemma stop_sound:
  assumes p: "free_pre s fl x k" and k: "k < 10" and nb: "\<not> pair_bit s x k"
  defines "s' \<equiv> snd (toggle_bitmap s x k)"
  shows "bits_sound s' (fl(k := x # fl k))"
  unfolding bits_sound_def
proof (intro allI impI)
  fix j y assume j: "j < 10" and y: "wf_block s' y j" and b: "pair_bit s' y j"
  have y': "wf_block s y j" using y by (simp add: s'_def wf_cong [of "snd (toggle_bitmap s x k)" s])
  show "y \<in> set ((fl(k := x # fl k)) j) \<or> y XOR chunk_bytes j \<in> set ((fl(k := x # fl k)) j)"
  proof (cases "bit_pos s y j = bit_pos s x k")
    case True
    then have "j = k \<and> (y = x \<or> y = x XOR chunk_bytes k)"
      using p y' j k bit_pos_eq [of s x k y j] by (simp add: free_pre_def)
    then show ?thesis by (auto simp: xor.assoc)
  next
    case False
    then have "pair_bit s y j" using b by (simp add: s'_def toggle_pair_bit)
    with p j y' show ?thesis by (auto simp: free_pre_def bits_sound_def)
  qed
qed

text \<open>Merging: the bit becomes clear, the buddy leaves its list, and the parent is next.\<close>

lemma merge_pre:
  assumes p: "free_pre s fl x k" and k: "k < 10" and b: "pair_bit s x k"
  defines "y \<equiv> x XOR chunk_bytes k"
  defines "s' \<equiv> free_list_unlink (snd (toggle_bitmap s x k)) k y"
    and "fl' \<equiv> fl(k := remove1 y (fl k))"
    and "q \<equiv> if y < x then y else x"
  shows "free_pre s' fl' q (Suc k)" "free_bytes fl' \<union> span q (Suc k) = free_bytes fl \<union> span x k"
proof -
  let ?t = "snd (toggle_bitmap s x k)"
  have w: "whole_region s" "offsets_ok s" "wf_block s x k" "buddy_inv s fl" "bits_sound s fl"
    and dj: "free_bytes fl \<inter> span x k = {}" using p by (auto simp: free_pre_def)
  have y: "y \<in> set (fl k)" using w k b free_pre_notin [OF p] by (auto simp: bits_sound_def y_def)
  note bp = buddy_parent [OF w(1,3) k, folded y_def, folded q_def]
  have u: "buddy_inv s' fl'" "free_bytes fl' = free_bytes fl - span y k"
    using unlink_inv [of ?t fl k y] w(4) y k by (auto simp: s'_def fl'_def)
  have sub: "span y k \<subseteq> free_bytes fl" using in_free_bytes [of k y fl] y k by simp
  have sel: "max_order s' = max_order s" "base_address s' = base_address s" "region_size s' = region_size s"
    "order_offsets s' = order_offsets s" "bitmap s' = bitmap ?t" by (simp_all add: s'_def)
  have pb: "pair_bit s' = pair_bit ?t" by (rule pair_bit_cong) (simp_all add: s'_def)
  have "bits_sound s' fl'" unfolding bits_sound_def
  proof (intro allI impI)
    fix j z assume j: "j < 10" and z: "wf_block s' z j" and bz: "pair_bit s' z j"
    have z': "wf_block s z j" using z by (simp add: wf_cong [OF sel(1-3)])
    have ne: "bit_pos s z j \<noteq> bit_pos s x k" and "pair_bit s z j"
      using bz b by (auto simp: pb toggle_pair_bit split: if_splits)
    with w(5) j z' have "z \<in> set (fl j) \<or> z XOR chunk_bytes j \<in> set (fl j)" by (auto simp: bits_sound_def)
    moreover have "z \<noteq> y \<and> z XOR chunk_bytes j \<noteq> y" if "j = k"
    proof (intro conjI notI)
      assume "z = y"
      then show False using ne that bit_pos_buddy [OF w(1-3) k] by (simp add: y_def)
    next
      assume "z XOR chunk_bytes j = y"
      then have "z = x" using that xor_cancel by (simp add: y_def)
      then show False using ne that by simp
    qed
    ultimately show "z \<in> set (fl' j) \<or> z XOR chunk_bytes j \<in> set (fl' j)" by (auto simp: fl'_def)
  qed
  then show "free_pre s' fl' q (Suc k)"
    using u w bp dj by (auto simp: free_pre_def wf_cong [OF sel(1-3)] whole_region_cong [OF sel(1-3)] offsets_ok_cong [OF sel(3,4)])
  show "free_bytes fl' \<union> span q (Suc k) = free_bytes fl \<union> span x k" using u(2) bp(3) sub by blast
qed

section \<open>Release\<close>

lemma coalesce_step:
  assumes "max_order s = 10" "k < 10"
  shows "buddy_coalesce s x k =
    (if pair_bit s x k
     then buddy_coalesce (free_list_unlink (snd (toggle_bitmap s x k)) k (x XOR chunk_bytes k))
            (if x XOR chunk_bytes k < x then x XOR chunk_bytes k else x) (Suc k)
     else (snd (toggle_bitmap s x k), x, k))"
proof -
  obtain b t where bt: "toggle_bitmap s x k = (b, t)" by fastforce
  then have "b = (if pair_bit s x k then 0 else 1)" using toggle_fst [of s x k] by simp
  then show ?thesis using assms bt by (subst buddy_coalesce.simps) (simp add: Let_def)
qed

lemma coalesce_inv:
  assumes "free_pre s fl x k" "k \<le> 10"
  shows "\<exists>s' y m fl'. buddy_coalesce s x k = (s', y, m) \<and> m \<le> 10 \<and> buddy_inv s' fl' \<and>
    wf_block s' y m \<and> free_bytes fl' \<inter> span y m = {} \<and>
    free_bytes fl' \<union> span y m = free_bytes fl \<union> span x k \<and> bits_sound s' (fl'(m := y # fl' m)) \<and>
    base_address s' = base_address s \<and> region_size s' = region_size s \<and> order_offsets s' = order_offsets s"
  using assms(2,1)
proof (induction k arbitrary: s fl x rule: inc_induct)
  case base
  then have m: "max_order s = 10" by (simp add: free_pre_def buddy_inv_def wf_region_def)
  then have "buddy_coalesce s x 10 = (s, x, 10)" by (subst buddy_coalesce.simps) simp
  moreover have "bits_sound s (fl(10 := x # fl 10))" using base by (simp add: free_pre_def bits_sound_def)
  ultimately show ?case using base unfolding free_pre_def by blast
next
  case (step k)
  then have m: "max_order s = 10" by (simp add: free_pre_def buddy_inv_def wf_region_def)
  show ?case
  proof (cases "pair_bit s x k")
    case True
    note mp = merge_pre [OF step.prems step.hyps(2) True]
    show ?thesis using step.IH [OF mp(1)] True unfolding coalesce_step [OF m step.hyps(2)] mp(2) by simp
  next
    case False
    have "buddy_coalesce s x k = (snd (toggle_bitmap s x k), x, k)"
      using False by (simp add: coalesce_step [OF m step.hyps(2)])
    moreover have "bits_sound (snd (toggle_bitmap s x k)) (fl(k := x # fl k))"
      by (rule stop_sound [OF step.prems step.hyps(2) False])
    ultimately show ?thesis using step.prems step.hyps
      by (auto simp: free_pre_def wf_cong [of "snd (toggle_bitmap s x k)" s] simp del: fun_upd_apply)
  qed
qed

text \<open>At the largest order the bit that is toggled belongs to no pair the release reads.\<close>

lemma toggle_max_pre:
  assumes p: "free_pre s fl x 10"
  shows "free_pre (snd (toggle_bitmap s x 10)) fl x 10"
proof -
  let ?t = "snd (toggle_bitmap s x 10)"
  have sel: "max_order ?t = max_order s" "base_address ?t = base_address s" "region_size ?t = region_size s"
    "order_offsets ?t = order_offsets s" by simp_all
  have "bits_sound ?t fl" unfolding bits_sound_def
  proof (intro allI impI)
    fix j z assume j: "j < 10" and z: "wf_block ?t z j" and b: "pair_bit ?t z j"
    have z': "wf_block s z j" using z by (simp add: wf_cong [OF sel(1-3)])
    have "bit_pos s z j \<noteq> bit_pos s x 10"
      using bit_pos_eq [OF _ _ z' j, of x 10] p j by (auto simp: free_pre_def)
    then have "pair_bit s z j" using b by (simp add: toggle_pair_bit)
    then show "z \<in> set (fl j) \<or> z XOR chunk_bytes j \<in> set (fl j)"
      using p j z' by (auto simp: free_pre_def bits_sound_def)
  qed
  then show ?thesis using p
    by (simp add: free_pre_def wf_cong [OF sel(1-3)] whole_region_cong [OF sel(1-3)] offsets_ok_cong [OF sel(3,4)])
qed

lemma kfree_inv:
  assumes p: "free_pre s fl x k" and sz: "size_order sz 0 = Some k" "sz \<noteq> 0" and k: "k \<le> 10"
  shows "\<exists>s' fl'. buddy_kfree s x sz = Some s' \<and> buddy_inv s' fl' \<and> bits_sound s' fl' \<and>
    free_bytes fl' = free_bytes fl \<union> span x k \<and>
    base_address s' = base_address s \<and> region_size s' = region_size s \<and> order_offsets s' = order_offsets s"
proof -
  let ?s = "if k = 10 then snd (toggle_bitmap s x k) else s"
  have m: "max_order s = 10" and rg: "wf_region s" and wb: "wf_block s x k"
    using p by (auto simp: free_pre_def buddy_inv_def wf_region_def)
  have "free_pre ?s fl x k" using p toggle_max_pre by auto
  from coalesce_inv [OF this k] obtain t y j fl' where
    c: "buddy_coalesce ?s x k = (t, y, j)" "j \<le> 10" "buddy_inv t fl'" "wf_block t y j"
      "free_bytes fl' \<inter> span y j = {}" "free_bytes fl' \<union> span y j = free_bytes fl \<union> span x k"
      "bits_sound t (fl'(j := y # fl' j))" "base_address t = base_address s" "region_size t = region_size s"
      "order_offsets t = order_offsets s" by (auto split: if_splits)
  let ?u = "free_list_push t j y"
  have "buddy_kfree s x sz = Some ?u"
    using sz m k c(1) wf_block_nonnull [OF rg wb] by (simp add: buddy_kfree_def)
  moreover have "bits_sound ?u (fl'(j := y # fl' j))"
    using c(7) by (simp add: bits_sound_def wf_cong [of ?u t] pair_bit_cong [of ?u t])
  ultimately show ?thesis
    using push_inv [OF c(3,2,4,5)] free_bytes_push [OF c(2), of fl' y] c(6,8-10) by (auto simp del: fun_upd_apply)
qed

end
