(* ===== verification/Buddy_Init.thy ===== *)
theory Buddy_Init
  imports Buddy_Free
begin

text \<open>
  \<open>__init_buddy\<close> establishes the invariant: whatever region it settles on, the blocks it counts
  and links are exactly that region, the bitmap is clear and the offsets are those the bitmap
  positions need.
\<close>

section \<open>The region\<close>

lemma unat_and_low: "unat (x AND (2 ^ n - 1) :: 'a::len word) = unat x mod 2 ^ n"
  using unsigned_take_bit_eq [of n x, where 'a = nat] take_bit_eq_mod [of n "unat x"]
  by (simp only: mask_eq_decr_exp [symmetric] take_bit_eq_mask [symmetric])

lemma align_region_base: "2 ^ 22 dvd unat (fst (align_region best))"
proof -
  let ?A = "2 ^ 22 :: nat"
  define b where "b = fst best"
  define low where "low = b AND (2 ^ 22 - 1)"
  define al where "al = (2 ^ 22 - low) AND (2 ^ 22 - 1)"
  have r: "fst (align_region best) = b + al"
    by (simp only: align_region_def Let_def b_def al_def low_def chunk_bytes_power fst_conv) simp
  have low: "unat low = unat b mod ?A" unfolding low_def by (rule unat_and_low)
  have "low \<le> 2 ^ 22" using low by (simp add: word_le_nat_alt)
  then have "unat (2 ^ 22 - low) = ?A - unat low" by (subst unat_diff_le) auto
  then have al: "unat al = (?A - unat b mod ?A) mod ?A" unfolding al_def unat_and_low low by simp
  have "unat (b + al) mod ?A = (unat b + unat al) mod ?A"
    unfolding unat_word_ariths by (rule mod_mod_cancel) (simp add: le_imp_power_dvd)
  also have "\<dots> = (unat b mod ?A + (?A - unat b mod ?A)) mod ?A" unfolding al by (simp only: mod_simps)
  also have "\<dots> = 0" by simp
  finally show ?thesis unfolding r by (simp add: dvd_eq_mod_eq_0)
qed

lemma and_not_page: "4096 dvd unat (x AND NOT (PAGE_SIZE - 1) :: u64)"
proof -
  have "take_bit 12 (x AND NOT (PAGE_SIZE - 1)) = 0"
    by (rule bit_word_eqI) (auto simp: PAGE_SIZE_def bit_simps mask_eq_decr_exp [of 12, simplified, symmetric])
  then have "take_bit 12 (unat (x AND NOT (PAGE_SIZE - 1))) = 0" by (metis unsigned_take_bit_eq unsigned_0)
  then show ?thesis by (simp add: take_bit_eq_mod dvd_eq_mod_eq_0)
qed

lemma align_region_size: "4096 dvd unat (snd (align_region best))"
  by (simp only: align_region_def Let_def snd_conv and_not_page)

section \<open>Counting\<close>

definition total :: "(nat \<Rightarrow> u32) \<Rightarrow> nat" where
  "total c = (\<Sum>k\<le>10. unat (c k) * 2 ^ (k + 12))"

lemma total_term: "k \<le> 10 \<Longrightarrow> unat (c k) * 2 ^ (k + 12) \<le> total c"
  unfolding total_def by (rule member_le_sum) auto

lemma total_incr:
  assumes "k \<le> 10" "total c < 2 ^ 43"
  shows "total (c(k := c k + 1)) = total c + 2 ^ (k + 12)"
proof -
  have "unat (c k) * 2 ^ 12 \<le> unat (c k) * 2 ^ (k + 12)" by (intro mult_le_mono2 power_increasing) auto
  then have "unat (c k) * 2 ^ 12 < 2 ^ 43" using total_term [OF assms(1), of c] assms(2) by linarith
  then have "unat (c k) + 1 < 2 ^ 32" by simp
  then have u: "unat (c k + 1) = unat (c k) + 1" by (subst unat_add_no_overflow) auto
  have "total f = unat (f k) * 2 ^ (k + 12) + (\<Sum>j\<in>{..10} - {k}. unat (f j) * 2 ^ (j + 12))" for f
    unfolding total_def using assms(1) by (intro sum.remove) auto
  from this [of c] this [of "c(k := c k + 1)"] show ?thesis by (simp add: u)
qed

lemma fit_order_page:
  assumes "4096 dvd unat a" "PAGE_SIZE \<le> r"
  shows "fit_order r a n \<noteq> None"
proof (induction n)
  case 0
  have "a AND (2 ^ 12 - 1) = 0"
    using unat_and_low [of a 12] assms(1) by (simp add: dvd_eq_mod_eq_0 unat_eq_0)
  then show ?case using assms(2) by (simp add: chunk_bytes_def PAGE_SIZE_def)
qed simp

lemma count_total:
  "4096 dvd unat a \<Longrightarrow> 4096 dvd unat r \<Longrightarrow> unat a + unat r < 2 ^ 64 \<Longrightarrow> total c + unat r < 2 ^ 43 \<Longrightarrow>
   total (count_blocks a r c) = total c + unat r"
proof (induction a r c rule: count_blocks.induct)
  case (1 a r c)
  show ?case
  proof (cases "PAGE_SIZE \<le> r")
    case False
    then have "unat r < 4096" by (simp add: word_le_nat_alt PAGE_SIZE_def)
    then have "unat r = 0" using 1(3) by (auto dest: dvd_imp_le)
    then show ?thesis using False by (subst count_blocks.simps) simp
  next
    case True
    obtain k where k: "fit_order r a 10 = Some k" using fit_order_page [OF 1(2) True] by blast
    then have k10: "k \<le> 10" and le: "chunk_bytes k \<le> r" using fit_order_Some by blast+
    then have cb: "unat (chunk_bytes k) = 2 ^ (k + 12)" and cr: "2 ^ (k + 12) \<le> unat r"
      by (simp_all add: unat_chunk_bytes word_le_nat_alt)
    have ua: "unat (a + chunk_bytes k) = unat a + 2 ^ (k + 12)"
      using 1(4) cb cr by (subst unat_add_no_overflow) auto
    have ur: "unat (r - chunk_bytes k) = unat r - 2 ^ (k + 12)" using unat_diff_le [OF le] cb by simp
    have d: "(4096::nat) dvd 2 ^ (k + 12)" using le_imp_power_dvd [of 12 "k + 12" "2::nat"] by simp
    have t: "total (c(k := c k + 1)) = total c + 2 ^ (k + 12)"
      using k10 1(5) by (intro total_incr) auto
    have "total (count_blocks (a + chunk_bytes k) (r - chunk_bytes k) (c(k := c k + 1))) =
        total (c(k := c k + 1)) + unat (r - chunk_bytes k)"
      using 1(2-5) cr d unfolding ua ur t
      by (intro 1(1) [OF True k, unfolded ua ur t]) (auto simp: dvd_diff_nat)
    then show ?thesis using True k cr unfolding t ur by (subst count_blocks.simps) simp
  qed
qed

lemma fit_order_greatest:
  "fit_order r a n = Some k \<Longrightarrow> k < j \<Longrightarrow> j \<le> n \<Longrightarrow> a AND (chunk_bytes j - 1) = 0 \<Longrightarrow> r < chunk_bytes j"
  by (induction n) (auto split: if_splits simp: not_le le_Suc_eq)

text \<open>From an aligned start, the greedy count takes at most one block below the largest order.\<close>

lemma count_once:
  "m \<le> 10 \<Longrightarrow> 2 ^ (m + 12) dvd unat a \<Longrightarrow> m = 10 \<or> unat r < 2 ^ (m + 12) \<Longrightarrow> unat a + unat r < 2 ^ 64 \<Longrightarrow>
   \<forall>j<m. c j = 0 \<Longrightarrow> \<forall>j<10. unat (c j) \<le> 1 \<Longrightarrow> j < 10 \<Longrightarrow> unat (count_blocks a r c j) \<le> 1"
proof (induction a r c arbitrary: m rule: count_blocks.induct)
  case (1 a r c)
  note prems = 1(2-8)
  show ?case
  proof (cases "PAGE_SIZE \<le> r \<and> fit_order r a 10 \<noteq> None")
    case False
    then show ?thesis using prems(6,7) by (subst count_blocks.simps) auto
  next
    case True
    then obtain k where k: "fit_order r a 10 = Some k" by blast
    then have k10: "k \<le> 10" and le: "chunk_bytes k \<le> r" using fit_order_Some by blast+
    then have cb: "unat (chunk_bytes k) = 2 ^ (k + 12)" and cr: "2 ^ (k + 12) \<le> unat r"
      by (simp_all add: unat_chunk_bytes word_le_nat_alt)
    have ua: "unat (a + chunk_bytes k) = unat a + 2 ^ (k + 12)" using prems(4) cb cr by (subst unat_add_no_overflow) auto
    have ur: "unat (r - chunk_bytes k) = unat r - 2 ^ (k + 12)" using unat_diff_le [OF le] cb by simp
    have km: "k < m \<or> k = 10 \<and> m = 10"
      using prems(1,3) k10 cr power_less_imp_less_exp [of "2::nat" "k + 12" "m + 12"] by fastforce
    have "unat (count_blocks (a + chunk_bytes k) (r - chunk_bytes k) (c(k := c k + 1)) j) \<le> 1"
    proof (rule 1(1) [of k k])
      show "2 ^ (k + 12) dvd unat (a + chunk_bytes k)"
        using prems(2) km le_imp_power_dvd [of "k + 12" "m + 12" "2::nat"] unfolding ua by (auto intro: dvd_trans)
      show "k = 10 \<or> unat (r - chunk_bytes k) < 2 ^ (k + 12)"
      proof (cases "k = 10")
        case False
        then have "2 ^ (Suc k + 12) dvd unat a"
          using prems(2) km le_imp_power_dvd [of "Suc k + 12" "m + 12" "2::nat"] by (auto intro: dvd_trans)
        then have "a AND (2 ^ (Suc k + 12) - 1) = 0" using unat_and_low [of a "Suc k + 12"] by (simp add: unat_eq_0 del: power_Suc add_Suc)
        then have "a AND (chunk_bytes (Suc k) - 1) = 0" by (simp only: chunk_bytes_power)
        then have "r < chunk_bytes (Suc k)" using fit_order_greatest [OF k, of "Suc k"] False k10 by simp
        then have "unat r < 2 ^ (Suc k + 12)" using False k10 by (simp add: word_less_nat_alt unat_chunk_bytes del: power_Suc add_Suc)
        then have "unat r - 2 ^ (k + 12) < 2 ^ (k + 12)" using cr by (simp add: less_diff_conv2)
        then show ?thesis unfolding ur by simp
      qed simp
      show "unat (a + chunk_bytes k) + unat (r - chunk_bytes k) < 2 ^ 64" unfolding ua ur using prems(4) cr by simp
      show "\<forall>j<k. (c(k := c k + 1)) j = 0" using prems(5) km by auto
      show "\<forall>j<10. unat ((c(k := c k + 1)) j) \<le> 1" using prems(5,6) km by auto
    qed (use True k k10 prems(7) in auto)
    then show ?thesis using True k by (subst count_blocks.simps) simp
  qed
qed

section \<open>Linking\<close>

definition blk :: "addr \<Rightarrow> nat \<Rightarrow> nat \<Rightarrow> addr" where
  "blk cur k i = cur + of_nat i * chunk_bytes k"

lemma unat_blk:
  assumes "unat cur + n * 2 ^ (k + 12) < 2 ^ 64" "i \<le> n" "k \<le> 10"
  shows "unat (blk cur k i) = unat cur + i * 2 ^ (k + 12)"
proof -
  have le: "i * 2 ^ (k + 12) \<le> n * 2 ^ (k + 12)" using assms(2) by simp
  then have i: "i * 2 ^ (k + 12) < 2 ^ 64" using assms(1) by linarith
  have "i \<le> i * 2 ^ (k + 12)" by simp
  then have "i < 2 ^ 64" using i by linarith
  then have "unat (of_nat i :: u64) = i" by (intro unat_of_nat_id) simp
  then have "unat (of_nat i * chunk_bytes k) = i * 2 ^ (k + 12)"
    using i assms(3) by (simp add: unat_word_ariths unat_chunk_bytes)
  moreover have "unat cur + i * 2 ^ (k + 12) < 2 ^ 64" using le assms(1) by linarith
  ultimately show ?thesis unfolding blk_def by (subst unat_add_no_overflow) simp_all
qed

lemma blk_Suc: "blk cur k i + chunk_bytes k = blk cur k (Suc i)"
  by (simp add: blk_def algebra_simps)

lemma blk_inj:
  assumes "unat cur + n * 2 ^ (k + 12) < 2 ^ 64" "k \<le> 10" "i \<le> n" "j \<le> n" "blk cur k i = blk cur k j"
  shows "i = j"
proof -
  have "unat cur + i * 2 ^ (k + 12) = unat cur + j * 2 ^ (k + 12)"
    using unat_blk [OF assms(1,3,2)] unat_blk [OF assms(1,4,2)] unfolding assms(5) by (rule trans [OF sym])
  then show ?thesis by simp
qed

lemma init_links_dseg:
  assumes b: "unat cur + n * 2 ^ (k + 12) < 2 ^ 64" "k \<le> 10" "cur \<noteq> NULL"
  shows "i \<le> n \<Longrightarrow>
    fst (init_links k n [i..<n] (blk cur k i) h) = blk cur k n \<and>
    (\<forall>a. a \<notin> blk cur k ` {i..<n} \<longrightarrow> snd (init_links k n [i..<n] (blk cur k i) h) a = h a) \<and>
    dseg (snd (init_links k n [i..<n] (blk cur k i) h)) (if i = 0 then NULL else blk cur k (i - 1))
      (if i = n then NULL else blk cur k i) (map (blk cur k) [i..<n]) NULL"
proof (induction i arbitrary: h rule: inc_induct)
  case (step i)
  define h1 where "h1 = h(blk cur k i :=
    \<lparr>chunk_next = if i = n - 1 then NULL else blk cur k (Suc i),
     chunk_prev = if i = 0 then NULL else blk cur k (i - 1)\<rparr>)"
  have pv: "blk cur k i - chunk_bytes k = blk cur k (i - 1)" if "i \<noteq> 0"
    using blk_Suc [of cur k "i - 1"] that by (simp add: algebra_simps)
  have upt: "[i..<n] = i # [Suc i..<n]" using step.hyps by (simp add: upt_conv_Cons)
  have e: "init_links k n [i..<n] (blk cur k i) h = init_links k n [Suc i..<n] (blk cur k (Suc i)) h1"
    unfolding upt using pv by (simp add: Let_def blk_Suc h1_def)
  have ne: "blk cur k i \<notin> blk cur k ` {Suc i..<n}"
  proof
    assume "blk cur k i \<in> blk cur k ` {Suc i..<n}"
    then obtain j where "Suc i \<le> j" "j < n" "blk cur k i = blk cur k j" by auto
    with blk_inj [OF b(1,2), of i j] step.hyps show False by simp
  qed
  have "unat (blk cur k i) \<noteq> 0" using unat_blk [OF b(1), of i] b(2,3) step.hyps by (simp add: unat_eq_0)
  then have nn: "blk cur k i \<noteq> NULL" by auto
  note ih = step.IH [of h1]
  have cell: "snd (init_links k n [Suc i..<n] (blk cur k (Suc i)) h1) (blk cur k i) = h1 (blk cur k i)"
    using ih ne by blast
  have nx: "chunk_next (h1 (blk cur k i)) = (if Suc i = n then NULL else blk cur k (Suc i))"
    using step.hyps by (auto simp: h1_def)
  have "dseg (snd (init_links k n [i..<n] (blk cur k i) h)) (if i = 0 then NULL else blk cur k (i - 1))
      (blk cur k i) (blk cur k i # map (blk cur k) [Suc i..<n]) NULL"
    using ih nn unfolding e by (simp add: cell nx) (simp add: h1_def)
  moreover have "snd (init_links k n [i..<n] (blk cur k i) h) a = h a" if "a \<notin> blk cur k ` {i..<n}" for a
  proof -
    have "a \<notin> blk cur k ` {Suc i..<n}" "a \<noteq> blk cur k i" using that step.hyps by auto
    moreover from this(1) have "snd (init_links k n [Suc i..<n] (blk cur k (Suc i)) h1) a = h1 a" using ih by blast
    ultimately show ?thesis unfolding e by (simp only: h1_def fun_upd_apply if_False)
  qed
  moreover have "fst (init_links k n [i..<n] (blk cur k i) h) = blk cur k n" unfolding e using ih by blast
  moreover have "map (blk cur k) [i..<n] = blk cur k i # map (blk cur k) [Suc i..<n]" unfolding upt by simp
  moreover have "i \<noteq> n" using step.hyps(2) by simp
  ultimately show ?case by (simp only: if_False) blast
qed auto

lemma dseg_cong: "(\<And>x. x \<in> set xs \<Longrightarrow> h' x = h x) \<Longrightarrow> dseg h' p a xs b = dseg h p a xs b"
  by (induction xs arbitrary: p a) auto

lemma blk_0: "blk cur k 0 = cur"
  by (simp add: blk_def)

lemma span_blk:
  assumes "unat cur + n * 2 ^ (k + 12) < 2 ^ 64" "k \<le> 10" "i < n"
  shows "span (blk cur k i) k = {unat cur + i * 2 ^ (k + 12) ..< unat cur + Suc i * 2 ^ (k + 12)}"
  using unat_blk [OF assms(1) _ assms(2), of i] assms(3) by (auto simp: span_def algebra_simps)

lemma consecutive_blocks: "0 < P \<Longrightarrow> (\<Union>i<n. {c + i * P ..< c + Suc i * P :: nat}) = {c ..< c + n * P}"
  by (induction n) (auto simp: lessThan_Suc)

lemma consecutive_disjoint: "i \<noteq> j \<Longrightarrow> {c + i * P ..< c + Suc i * P} \<inter> {c + j * P ..< c + Suc j * P :: nat} = {}"
proof -
  have "c + Suc i * P \<le> c + j * P" if "i < j" for i j using that mult_le_mono1 [of "Suc i" j P] by simp
  moreover assume "i \<noteq> j"
  ultimately show ?thesis by (cases "i < j") (fastforce simp: disjoint_iff, meson disjoint_iff atLeastLessThan_iff leD le_less_trans less_le_trans linorder_neqE_nat)
qed

lemma free_bytes_split:
  "k \<le> 10 \<Longrightarrow> free_bytes fl = (\<Union>x\<in>set (fl k). span x k) \<union> (\<Union>j\<in>{..10} - {k}. \<Union>x\<in>set (fl j). span x j)"
  by (auto simp: free_bytes_def)

text \<open>Adding one order: \<open>n\<close> blocks from \<open>cur\<close> on.\<close>

lemma link_inv:
  assumes i: "buddy_inv s fl" and k: "k \<le> 10" and e: "fl k = []" and c: "cur \<noteq> NULL" "2 ^ (k + 12) dvd unat cur"
    "unat (base_address s) \<le> unat cur" "unat cur + n * 2 ^ (k + 12) \<le> unat (base_address s) + unat (region_size s)"
    and n: "0 < n" and f: "free_bytes fl \<inter> {unat cur ..< unat cur + n * 2 ^ (k + 12)} = {}"
  defines "s' \<equiv> s\<lparr>chunks := snd (init_links k n [0..<n] cur (chunks s)), free_lists := (free_lists s)(k := cur)\<rparr>"
    and "bs \<equiv> map (blk cur k) [0..<n]"
  shows "buddy_inv s' (fl(k := bs)) \<and>
    free_bytes (fl(k := bs)) = free_bytes fl \<union> {unat cur ..< unat cur + n * 2 ^ (k + 12)}"
proof -
  let ?P = "2 ^ (k + 12) :: nat" and ?I = "{unat cur ..< unat cur + n * 2 ^ (k + 12)}"
  have rg: "wf_region s" and rep: "buddy_rep s fl" and db: "disjoint_blocks fl" using i by (auto simp: buddy_inv_def)
  have b: "unat cur + n * ?P < 2 ^ 64" using c(4) rg by (simp add: wf_region_def)
  note lk = init_links_dseg [OF b k c(1), of 0 "chunks s", unfolded blk_0]
  have sp: "span (blk cur k j) k = {unat cur + j * ?P ..< unat cur + Suc j * ?P}" if "j < n" for j
    using span_blk [OF b k that] .
  have U: "(\<Union>x\<in>set bs. span x k) = ?I"
    using consecutive_blocks [of ?P "unat cur" n] by (simp add: bs_def sp atLeast0LessThan)
  have in_I: "span x k \<subseteq> ?I" "unat x \<in> ?I" if "x \<in> set bs" for x using U that span_nonempty(2) [of x k] by blast+
  have apart: "span y j \<inter> ?I = {}" if "j \<le> 10" "y \<in> set (fl j)" for y j using free_bytes_disjointD [OF f that] .
  have notin: "x \<notin> set (fl j)" if "x \<in> set bs" "j \<le> 10" for x j
    using apart [OF that(2)] in_I(2) [OF that(1)] span_nonempty(2) [of x j] by blast
  have "buddy_rep s' (fl(k := bs))"
  proof (rule buddy_rep_update [OF rep k])
    show "dseg (chunks s') NULL (free_lists s' k) bs NULL" using lk n by (simp add: s'_def bs_def)
    show "distinct bs" using blk_inj [OF b k] by (auto simp: bs_def distinct_map inj_on_def)
    fix j assume j: "j \<noteq> k"
    then show "free_lists s' j = free_lists s j" by (simp add: s'_def)
    assume j10: "j \<le> 10"
    have "chunks s' x = chunks s x" if "x \<in> set (fl j)" for x
      using lk notin [OF _ j10, of x] that by (auto simp: s'_def bs_def)
    then show "dseg (chunks s') NULL (free_lists s j) (fl j) NULL = dseg (chunks s) NULL (free_lists s j) (fl j) NULL"
      by (rule dseg_cong)
    show "set bs \<inter> set (fl j) = {}" using notin j10 by blast
  qed
  moreover have "disjoint_blocks (fl(k := bs))"
  proof -
    have self: "span x k \<inter> span y k = {}" if xy: "x \<in> set bs" "y \<in> set bs" "x \<noteq> y" for x y
    proof -
      obtain i where i: "x = blk cur k i" "i < n" using xy(1) by (auto simp: bs_def)
      obtain j where j: "y = blk cur k j" "j < n" using xy(2) by (auto simp: bs_def)
      have "i \<noteq> j" using xy(3) i j by blast
      then show ?thesis unfolding i(1) j(1) sp [OF i(2)] sp [OF j(2)] by (rule consecutive_disjoint)
    qed
    have cross: "span x k \<inter> span y j = {} \<and> span y j \<inter> span x k = {}" if "x \<in> set bs" "j \<le> 10" "y \<in> set (fl j)" for x y j
      using apart [OF that(2,3)] in_I(1) [OF that(1)] by blast
    show ?thesis unfolding disjoint_blocks_def
    proof (intro allI impI ballI)
      fix j m x y
      assume "j \<le> 10" "m \<le> 10" "x \<in> set ((fl(k := bs)) j)" "y \<in> set ((fl(k := bs)) m)" "(x, j) \<noteq> (y, m)"
      then show "span x j \<inter> span y m = {}"
        using self cross db unfolding disjoint_blocks_def by (cases "j = k"; cases "m = k") auto
    qed
  qed
  moreover have "wf_block s x k" if x: "x \<in> set bs" for x
  proof -
    obtain j where j: "x = blk cur k j" "j < n" using x by (auto simp: bs_def)
    then have u: "unat x = unat cur + j * ?P" using unat_blk [OF b _ k, of j] by simp
    have "unat cur + j * ?P + ?P \<le> unat cur + n * ?P" using mult_le_mono1 [of "Suc j" n ?P] j(2) by simp
    then show ?thesis using u c by (simp add: wf_block_def)
  qed
  moreover have "free_bytes (fl(k := bs)) = free_bytes fl \<union> ?I"
    using U free_bytes_split [OF k, of fl] free_bytes_split [OF k, of "fl(k := bs)"] e by auto
  moreover have sel: "max_order s' = max_order s" "base_address s' = base_address s" "region_size s' = region_size s"
    by (simp_all add: s'_def)
  ultimately show ?thesis using i by (simp add: buddy_inv_def wf_cong [OF sel])
qed

text \<open>All orders below \<open>m\<close>, from the largest down.\<close>

definition pending :: "(nat \<Rightarrow> u32) \<Rightarrow> nat \<Rightarrow> nat" where
  "pending c m = (\<Sum>k<m. unat (c k) * 2 ^ (k + 12))"

lemma init_free_lists_inv:
  assumes "m \<le> 11" "buddy_inv s fl" "\<forall>k<m. fl k = []" "cur \<noteq> NULL" "\<forall>k<m. 2 ^ (k + 12) dvd unat cur"
    "unat (base_address s) \<le> unat cur" "free_bytes fl = {unat (base_address s) ..< unat cur}"
    "unat cur + pending c m = unat (base_address s) + unat (region_size s)"
  shows "\<exists>fl'. buddy_inv (init_free_lists c (rev [0..<m]) cur s) fl' \<and>
    free_bytes fl' = {unat (base_address s) ..< unat (base_address s) + unat (region_size s)} \<and>
    (\<forall>k\<in>{m..10}. fl' k = fl k) \<and> (\<forall>k<m. length (fl' k) = unat (c k))"
  using assms
proof (induction m arbitrary: s fl cur)
  case 0
  then show ?case by (auto simp: pending_def)
next
  case (Suc m)
  have m: "m \<le> 10" using Suc.prems(1) by simp
  let ?n = "unat (c m)" and ?P = "2 ^ (m + 12) :: nat"
  have pend: "pending c (Suc m) = pending c m + ?n * ?P" by (simp add: pending_def)
  show ?case
  proof (cases "c m = 0")
    case True
    then have e: "init_free_lists c (rev [0..<Suc m]) cur s = init_free_lists c (rev [0..<m]) cur s" by simp
    obtain fl' where "buddy_inv (init_free_lists c (rev [0..<m]) cur s) fl'"
      "free_bytes fl' = {unat (base_address s) ..< unat (base_address s) + unat (region_size s)}"
      "\<forall>k\<in>{m..10}. fl' k = fl k" "\<forall>k<m. length (fl' k) = unat (c k)"
      using Suc.IH [of s fl cur] Suc.prems m True pend by auto
    moreover have "fl' m = []" using calculation(3) m Suc.prems(3) by simp
    ultimately show ?thesis unfolding e using True by (intro exI [of _ fl']) (auto simp: less_Suc_eq)
  next
    case False
    define t where "t = s\<lparr>chunks := snd (init_links m ?n [0..<?n] cur (chunks s)), free_lists := (free_lists s)(m := cur)\<rparr>"
    define gl where "gl = fl(m := map (blk cur m) [0..<?n])"
    have n: "0 < ?n" using False by (simp add: unat_gt_0)
    have rg: "unat (base_address s) + unat (region_size s) < 2 ^ 64"
      using Suc.prems(2) by (simp add: buddy_inv_def wf_region_def)
    have fits: "unat cur + ?n * ?P \<le> unat (base_address s) + unat (region_size s)" using Suc.prems(8) pend by simp
    then have b: "unat cur + ?n * ?P < 2 ^ 64" using rg by simp
    have nxt: "fst (init_links m ?n [0..<?n] cur (chunks s)) = blk cur m ?n"
      using init_links_dseg [OF b m Suc.prems(4), of 0 "chunks s"] by (simp add: blk_0)
    have u: "unat (blk cur m ?n) = unat cur + ?n * ?P" using unat_blk [OF b _ m, of ?n] by simp
    have "fl m = []" "?P dvd unat cur" using Suc.prems(3,5) by simp_all
    then have li: "buddy_inv t gl" "free_bytes gl = free_bytes fl \<union> {unat cur ..< unat cur + ?n * ?P}"
      using link_inv [OF Suc.prems(2) m _ Suc.prems(4) _ Suc.prems(6) fits n] Suc.prems(7)
      unfolding t_def gl_def by auto
    have al: "2 ^ (k + 12) dvd unat cur + ?n * ?P" if "k < m" for k
    proof -
      have "(2::nat) ^ (k + 12) dvd ?P" using that by (intro le_imp_power_dvd) simp
      then show ?thesis using Suc.prems(5) that by (intro dvd_add) (auto intro: dvd_mult)
    qed
    have "unat (blk cur m ?n) \<noteq> 0" using u n by simp
    then have nn: "blk cur m ?n \<noteq> NULL" by auto
    have sel: "base_address t = base_address s" "region_size t = region_size s" by (simp_all add: t_def)
    have "\<exists>fl'. buddy_inv (init_free_lists c (rev [0..<m]) (blk cur m ?n) t) fl' \<and>
        free_bytes fl' = {unat (base_address t) ..< unat (base_address t) + unat (region_size t)} \<and>
        (\<forall>k\<in>{m..10}. fl' k = gl k) \<and> (\<forall>k<m. length (fl' k) = unat (c k))"
    proof (rule Suc.IH)
      show "\<forall>k<m. gl k = []" using Suc.prems(3) by (simp add: gl_def)
      show "free_bytes gl = {unat (base_address t) ..< unat (blk cur m ?n)}"
        unfolding li(2) Suc.prems(7) sel u using Suc.prems(6) by (simp add: ivl_disj_un_two(3))
    qed (use m li(1) nn al u Suc.prems(6,8) pend sel in auto)
    then obtain fl' where fl': "buddy_inv (init_free_lists c (rev [0..<m]) (blk cur m ?n) t) fl'"
        "free_bytes fl' = {unat (base_address s) ..< unat (base_address s) + unat (region_size s)}"
        "\<forall>k\<in>{m..10}. fl' k = gl k" "\<forall>k<m. length (fl' k) = unat (c k)" unfolding sel by blast
    have e: "init_free_lists c (rev [0..<Suc m]) cur s = init_free_lists c (rev [0..<m]) (blk cur m ?n) t"
      using False nxt by (simp add: Let_def t_def)
    show ?thesis unfolding e using fl' m by (intro exI [of _ fl']) (auto simp: gl_def less_Suc_eq)
  qed
qed

lemma init_free_lists_sel [simp]:
  "base_address (init_free_lists c ks cur s) = base_address s"
  "region_size (init_free_lists c ks cur s) = region_size s"
  "max_order (init_free_lists c ks cur s) = max_order s"
  "bitmap (init_free_lists c ks cur s) = bitmap s"
  "order_offsets (init_free_lists c ks cur s) = order_offsets s"
  by (induction ks arbitrary: cur s) (simp_all add: Let_def)

section \<open>Offsets\<close>

lemma init_offsets_append: "init_offsets n (xs @ ys) f = init_offsets n ys (init_offsets n xs f)"
  by (induction xs arbitrary: f) simp_all

lemma init_offsets_val:
  assumes "unat n < 2 ^ 31" "f 0 = 0"
  shows "j \<le> k \<Longrightarrow> unat (init_offsets n [1..<Suc k] f j) = offset_of (unat n) j"
proof (induction k arbitrary: j)
  case 0
  then show ?case using assms(2) by (simp add: offset_of_def)
next
  case (Suc k)
  let ?g = "init_offsets n [1..<Suc k] f"
  have g: "init_offsets n [1..<Suc (Suc k)] f = ?g(Suc k := ?g k + ucast (drop_bit (Suc k) n))"
    by (simp add: init_offsets_append)
  have gk: "unat (?g k) = offset_of (unat n) k" using Suc.IH by simp
  have "(2::nat) ^ 31 < 2 ^ 32" by simp
  then have d: "unat n div 2 ^ Suc k < 2 ^ 32"
    using le_less_trans [OF div_le_dividend [of "unat n" "2 ^ Suc k"] assms(1)] by (rule less_trans [rotated])
  have c: "unat (ucast (drop_bit (Suc k) n) :: u32) = unat n div 2 ^ Suc k"
    using d by (simp add: unsigned_ucast_eq unat_drop_bit_div take_bit_nat_eq_self del: power_Suc)
  have "offset_of (unat n) (Suc k) \<le> unat n" using offset_of_le [of "unat n" "Suc k"] by simp
  then have le: "offset_of (unat n) k + unat n div 2 ^ Suc k < 2 ^ 32"
    using assms(1) by (simp add: offset_of_def)
  have "unat (?g k + ucast (drop_bit (Suc k) n)) = offset_of (unat n) (Suc k)"
    using le gk c by (subst unat_add_no_overflow) (simp_all add: offset_of_def)
  then show ?case using Suc.IH [of j] Suc.prems unfolding g by (cases "j = Suc k") simp_all
qed

section \<open>The whole initialisation\<close>

lemma init_buddy_sel:
  defines "best \<equiv> \<lambda>ke es. align_region (clear_lower_bound ke (best_region es 0 0))"
  shows "base_address (init_buddy ke es s) = fst (best ke es)" "region_size (init_buddy ke es s) = snd (best ke es)"
    "max_order (init_buddy ke es s) = 10"
  by (simp_all add: init_buddy_def Let_def best_def del: upt_Suc)

lemma buddy_inv_cong:
  assumes "max_order s' = max_order s" "base_address s' = base_address s" "region_size s' = region_size s"
    "chunks s' = chunks s" "free_lists s' = free_lists s"
  shows "buddy_inv s' fl = buddy_inv s fl"
  using assms by (simp add: buddy_inv_def buddy_rep_def wf_cong [OF assms(1-3)])

lemma init_buddy_inv:
  fixes s0 :: buddy_metadata and ke es
  defines "s \<equiv> init_buddy ke es s0"
  assumes b: "base_address s \<noteq> NULL" "unat (base_address s) + unat (region_size s) < 2 ^ 64"
    "unat (region_size s) < 2 ^ 43"
  shows "\<exists>fl. buddy_inv s fl \<and> offsets_ok s \<and> tidy fl \<and>
    free_bytes fl = {unat (base_address s) ..< unat (base_address s) + unat (region_size s)}"
proof -
  define best where "best = align_region (clear_lower_bound ke (best_region es 0 0))"
  define c where "c = count_blocks (fst best) (snd best) (\<lambda>_. 0)"
  define s1 where "s1 = s0\<lparr>min_order := 0, max_order := 10,
    free_lists := (\<lambda>k. if k \<le> 10 then NULL else free_lists s0 k),
    base_address := fst best, region_size := snd best\<rparr>"
  define s2 where "s2 = init_free_lists c (rev [0..<11]) (fst best) s1"
  have sel: "base_address s = fst best" "region_size s = snd best" "max_order s = 10"
    using init_buddy_sel [of ke es s0] by (simp_all add: s_def best_def)
  have s: "chunks s = chunks s2" "free_lists s = free_lists s2"
    "order_offsets s = init_offsets (snd best div PAGE_SIZE) [1..<11] ((order_offsets s2)(0 := 0))"
    by (simp_all add: s_def init_buddy_def Let_def best_def [symmetric] c_def [symmetric] s1_def [symmetric] s2_def [symmetric] del: upt_Suc)
      (simp_all add: s2_def s1_def del: upt_Suc)
  have al: "2 ^ 22 dvd unat (fst best)" "4096 dvd unat (snd best)"
    unfolding best_def by (rule align_region_base, rule align_region_size)
  have al': "2 ^ (k + 12) dvd unat (fst best)" if "k < 11" for k
    using dvd_trans [OF le_imp_power_dvd [of "k + 12" 22 "2::nat"] al(1)] that by simp
  have z: "total (\<lambda>_. 0) = 0" by (simp add: total_def)
  have "total c = unat (snd best)" unfolding c_def
    using count_total [of "fst best" "snd best" "\<lambda>_. 0"] al al' [of 0] b sel z by simp
  moreover have "{..<11} = {..10::nat}" by auto
  ultimately have tot: "pending c 11 = unat (snd best)" by (simp only: pending_def total_def)
  have e: "free_bytes (\<lambda>_. []) = {}" by (simp add: free_bytes_def)
  have i1: "buddy_inv s1 (\<lambda>_. [])"
    using b sel al by (simp add: buddy_inv_def buddy_rep_def wf_region_def disjoint_blocks_def s1_def)
  obtain fl where fl: "buddy_inv s2 fl"
      "free_bytes fl = {unat (fst best) ..< unat (fst best) + unat (snd best)}" "\<forall>k<11. length (fl k) = unat (c k)"
    using init_free_lists_inv [of 11 s1 "\<lambda>_. []" "fst best" c] i1 b(1) sel al' tot e
    unfolding s2_def by (auto simp: s1_def)
  have "unat (c j) \<le> 1" if "j < 10" for j
    unfolding c_def using al(1) b(2) sel that by (intro count_once [of 10]) simp_all
  then have "tidy fl" using fl(3) by (simp add: tidy_def)
  moreover have "buddy_inv s fl"
    using fl(1) s sel by (subst buddy_inv_cong [of s s2]) (simp_all add: s2_def s1_def del: upt_Suc)
  moreover have "offsets_ok s"
  proof -
    have p: "unat (snd best div PAGE_SIZE) = pages_of s" by (simp add: pages_of_def sel unat_div PAGE_SIZE_def)
    have lt: "pages_of s < 2 ^ 31" using b(3) by (simp add: pages_of_def less_mult_imp_div_less)
    then show ?thesis
      using init_offsets_val [of "snd best div PAGE_SIZE" "(order_offsets s2)(0 := 0)" _ 10] p
      by (simp add: offsets_ok_def s(3) del: upt_Suc)
  qed
  ultimately show ?thesis using fl(2) sel by auto
qed

lemma init_bits_clear:
  fixes s0 :: buddy_metadata and ke es
  defines "s \<equiv> init_buddy ke es s0"
  assumes w: "whole_region s" and o: "offsets_ok s" and b: "wf_block s x k" and k: "k < 10"
  shows "\<not> pair_bit s x k"
proof -
  have "unat (bit_pos s x k) < offset_of (pages_of s) (Suc k)"
    using unat_bit_pos [OF o b] pair_index_less [OF w b k] k by (simp add: offset_of_def)
  then have lt: "unat (bit_pos s x k) < pages_of s" using offset_of_le [of "pages_of s" "Suc k"] by simp
  have "8 dvd pages_of s"
  proof -
    obtain q where "unat (region_size s) = 2 ^ 22 * q" using w by (auto simp: whole_region_def elim!: dvdE)
    then show ?thesis by (simp add: pages_of_def)
  qed
  then have "unat (bit_pos s x k) div 8 < pages_of s div 8" using lt by (auto elim!: dvdE intro: less_mult_imp_div_less)
  moreover have "pages_of s div 8 = unat (region_size s div PAGE_SIZE div 8)"
    by (simp add: pages_of_def unat_div PAGE_SIZE_def)
  ultimately have "bitmap s (unat (bit_pos s x k div 8)) = 0"
    by (simp add: s_def init_buddy_def Let_def unat_div del: upt_Suc)
  then show ?thesis by (simp add: pair_bit_def)
qed

end
