(* ===== verification/Buddy_Props.thy ===== *)
theory Buddy_Props
  imports Buddy_Init
begin

text \<open>
  What the buddy allocator guarantees, and where it does not: allocation is safe in every state
  that satisfies the invariant, release is safe exactly as long as the pair bits tell the truth,
  initialisation starts with the truth, and splitting a block does not keep it.
\<close>

section \<open>Guarantees\<close>

text \<open>
  C3. \<open>buddy_kalloc\<close> in a state that satisfies the invariant, for a size up to \<open>2 ^ 63\<close>: it returns,
  with the least order \<open>k\<close> whose blocks hold the size. It gives \<open>NULL\<close> and changes nothing
  exactly when the order exceeds the maximum or no free list from \<open>k\<close> up has a block. Otherwise
  it gives an aligned block inside the region that was free and is no longer: the free bytes
  shrink by exactly that block, and the invariant holds again.
\<close>

theorem buddy_kalloc_correct:
  assumes "buddy_inv s fl" "unat sz \<le> 2 ^ 63"
  shows "\<exists>k x s'. buddy_kalloc s sz = Some (x, s') \<and> unat sz \<le> 2 ^ (k + 12) \<and> (k = 0 \<or> 2 ^ (k + 11) < unat sz) \<and>
    (if k > 10 \<or> (\<forall>j\<in>{k..10}. fl j = []) then x = NULL \<and> s' = s
     else x \<noteq> NULL \<and> wf_block s x k \<and> span x k \<subseteq> free_bytes fl \<and>
       (\<exists>fl'. buddy_inv s' fl' \<and> free_bytes fl' = free_bytes fl - span x k))"
proof -
  obtain k where k: "size_order sz 0 = Some k" "unat sz \<le> 2 ^ (k + 12)" "\<And>j. j < k \<Longrightarrow> 2 ^ (j + 12) < unat sz"
    using size_order_spec [OF assms(2)] by blast
  have "k = 0 \<or> 2 ^ (k + 11) < unat sz" using k(3) [of "k - 1"] by (cases k) (auto simp: add.commute)
  with kalloc_inv [OF assms(1) k(1)] k(2) show ?thesis
    by (cases "k > 10 \<or> (\<forall>j\<in>{k..10}. fl j = [])") (auto intro!: exI [of _ k])
qed

text \<open>
  C4. \<open>buddy_kfree\<close> of an allocated block, in a region that is a multiple of 4 MB: if every set pair
  bit has a free block behind it, the release returns, merges as far as the bits say, and leaves a
  state in which the free bytes have grown by exactly the block, the invariant holds and the bits
  are sound again.
\<close>

theorem buddy_kfree_correct:
  assumes "buddy_inv s fl" "whole_region s" "offsets_ok s" "bits_sound s fl"
    "size_order sz 0 = Some k" "k \<le> 10" "sz \<noteq> 0" "wf_block s x k" "free_bytes fl \<inter> span x k = {}"
  shows "\<exists>s' fl'. buddy_kfree s x sz = Some s' \<and> buddy_inv s' fl' \<and> bits_sound s' fl' \<and>
    free_bytes fl' = free_bytes fl \<union> span x k"
proof -
  have "free_pre s fl x k" using assms by (simp add: free_pre_def)
  from kfree_inv [OF this assms(5,7,6)] show ?thesis by blast
qed

text \<open>
  C5. \<open>__init_buddy\<close>, whatever the memory map: when the region it settles on does not start at
  address 0, ends below \<open>2 ^ 64\<close> and is smaller than 8 TB, the lists hold exactly its bytes, in
  aligned, pairwise disjoint blocks. If the region is a multiple of 4 MB, the pair bits are sound.
\<close>

theorem init_buddy_correct:
  assumes "s = init_buddy ke es s0" "base_address s \<noteq> NULL"
    "unat (base_address s) + unat (region_size s) < 2 ^ 64" "unat (region_size s) < 2 ^ 43"
  shows "\<exists>fl. buddy_inv s fl \<and> offsets_ok s \<and> (2 ^ 22 dvd unat (region_size s) \<longrightarrow> bits_sound s fl) \<and>
    free_bytes fl = {unat (base_address s) ..< unat (base_address s) + unat (region_size s)}"
proof -
  obtain fl where fl: "buddy_inv s fl" "offsets_ok s"
      "free_bytes fl = {unat (base_address s) ..< unat (base_address s) + unat (region_size s)}"
    using init_buddy_inv [of ke es s0] assms by blast
  have "bits_sound s fl" if "2 ^ 22 dvd unat (region_size s)"
  proof -
    have "whole_region s" using that fl(1) by (simp add: whole_region_def buddy_inv_def)
    then show ?thesis using init_bits_clear [of ke es s0] fl(2) unfolding assms(1) bits_sound_def by blast
  qed
  with fl show ?thesis by blast
qed

text \<open>
  In a region that is a multiple of 4 MB, the bit of every block, at every order up to the
  maximum, lies inside the bitmap: the byte \<open>toggle_bitmap\<close> writes is one of the
  \<open>num_pages / 8\<close> bytes that \<open>__init_buddy\<close> reserved and cleared.
\<close>

theorem toggle_bitmap_in_bounds:
  assumes "whole_region s" "offsets_ok s" "wf_block s x k" "k \<le> 10"
  shows "unat (bit_pos s x k div 8) < unat (region_size s) div 4096 div 8"
proof -
  obtain q where q: "unat (region_size s) = 2 ^ 22 * q" using assms(1) by (auto simp: whole_region_def elim!: dvdE)
  have p: "pages_of s = 1024 * q" by (simp add: pages_of_def q)
  let ?D = "unat x - unat (base_address s)"
  have "?D < 2 ^ 22 * q" using assms(3) q unfolding wf_block_def
    by (metis add_less_cancel_left le_add_diff_inverse less_le_trans less_add_same_cancel1 zero_less_numeral zero_less_power)
  then have "?D div 2 ^ 22 < q" by (simp add: less_mult_imp_div_less mult.commute)
  then have q10: "?D div 2 ^ 23 < q" using div_le_mono2 [of "2 ^ 22" "2 ^ 23" ?D] by simp
  have "offset_of (pages_of s) k + ?D div 2 ^ (k + 13) < pages_of s"
  proof (cases "k = 10")
    case True
    have "offset_of (pages_of s) 10 + pages_of s div 2 ^ 10 \<le> pages_of s" by (rule offset_of_le)
    then show ?thesis using True q10 by (simp add: p)
  next
    case False
    then have "k < 10" using assms(4) by simp
    then show ?thesis using pair_index_less [OF assms(1,3)] offset_of_le [of "pages_of s" "Suc k"]
      by (simp add: offset_of_def)
  qed
  then have "unat (bit_pos s x k) < 8 * (128 * q)" using unat_bit_pos [OF assms(2-4)] by (simp add: p)
  then have "unat (bit_pos s x k) div 8 < 128 * q" by (simp add: less_mult_imp_div_less mult.commute)
  then show ?thesis by (simp add: unat_div q)
qed

section \<open>The lower bound of the region\<close>

text \<open>
  C23. The step of \<open>__init_buddy\<close> that moves the region above 1 MB, the kernel image and the metadata
  compares physical addresses with \<open>kernel_end\<close>, which the linker script places in the upper half.
  It therefore never moves anything: for every region below the canonical upper half, and every
  \<open>kernel_end\<close> at or above \<open>KERNEL_IMAGE_START\<close> that leaves room for the metadata, the region comes
  out as it went in, even when it starts at address 0.
\<close>

theorem lower_bound_never_applies:
  assumes "0xFFFFFFFF80000000 \<le> ke" "unat ke + 166 + unat (sz div PAGE_SIZE div 8) < 2 ^ 64"
    "unat base + unat sz \<le> 0xFFFF800000000000"
  shows "clear_lower_bound ke (base, sz) = (base, sz)"
proof -
  let ?w = "sz div PAGE_SIZE div 8"
  have u: "unat (ke + 78 + 88 + ?w) = unat ke + 166 + unat ?w"
  proof -
    have "unat (ke + (166 + ?w)) = unat ke + unat (166 + ?w)"
      using assms(2) unat_add_no_overflow [of 166 ?w] by (subst unat_add_no_overflow) auto
    then show ?thesis using assms(2) unat_add_no_overflow [of 166 ?w] by (simp add: add.assoc)
  qed
  have ke: "0xFFFFFFFF80000000 \<le> unat ke" using assms(1) by (simp add: word_le_nat_alt)
  have "unat (base + sz) = unat base + unat sz" using assms(3) by (subst unat_add_no_overflow) auto
  then have "\<not> ke + 78 + 88 + ?w < base + sz" using u ke assms(3) by (simp add: word_less_nat_alt)
  moreover have "ke + 78 + 88 + ?w > ONE_MB_ADDRESS" using u ke by (simp add: word_less_nat_alt ONE_MB_ADDRESS_def)
  ultimately show ?thesis by (simp add: clear_lower_bound_def Let_def)
qed

section \<open>A concrete machine\<close>

text \<open>One usable region of 8 MB at 4 MB, and memory that held zeros.\<close>

definition ex_entries :: "mmap_entry_0xe820 list" where
  "ex_entries = [\<lparr>e820_base = 0x400000, e820_chunk_size = 0x800000, e820_type = 1, e820_ACPI_ext_attr = 0\<rparr>]"

definition ex_mem :: buddy_metadata where
  "ex_mem = \<lparr>base_address = 0, region_size = 0, min_order = 0, max_order = 0, free_lists = \<lambda>_. 0,
     bitmap = \<lambda>_. 0, order_offsets = \<lambda>_. 0, chunks = \<lambda>_. \<lparr>chunk_next = 0, chunk_prev = 0\<rparr>\<rparr>"

definition ex_buddy :: buddy_metadata where
  "ex_buddy = init_buddy 0xFFFFFFFF80020000 ex_entries ex_mem"

lemma ex_region: "base_address ex_buddy = 0x400000" "region_size ex_buddy = 0x800000"
  by (simp_all add: ex_buddy_def init_buddy_sel ex_entries_def clear_lower_bound_def align_region_def
      chunk_bytes_def page_sizes ONE_MB_ADDRESS_def Let_def)

lemma ex_buddy_ready:
  "\<exists>fl. buddy_inv ex_buddy fl \<and> offsets_ok ex_buddy \<and> bits_sound ex_buddy fl \<and> whole_region ex_buddy \<and>
     tidy fl \<and> free_bytes fl = {0x400000 ..< 0xC00000}"
proof -
  obtain fl where fl: "buddy_inv ex_buddy fl" "offsets_ok ex_buddy" "free_bytes fl = {0x400000 ..< 0xC00000}" "tidy fl"
    using init_buddy_inv [of "0xFFFFFFFF80020000" ex_entries ex_mem, folded ex_buddy_def] by (auto simp: ex_region)
  have w: "whole_region ex_buddy" using fl(1) by (simp add: whole_region_def buddy_inv_def ex_region)
  have "bits_sound ex_buddy fl"
    using init_bits_clear [of "0xFFFFFFFF80020000" ex_entries ex_mem, folded ex_buddy_def] w fl(2)
    unfolding bits_sound_def by blast
  with fl w show ?thesis by blast
qed

lemma ex_free_some:
  assumes "buddy_inv ex_buddy fl" "free_bytes fl = {0x400000 ..< 0xC00000}"
  shows "\<exists>j\<in>{0..10}. fl j \<noteq> []"
proof (rule ccontr)
  assume "\<not> ?thesis"
  then have "free_bytes fl = {}" by (auto simp: free_bytes_def)
  then show False using assms(2) by simp
qed

theorem buddy_kalloc_witness:
  "\<exists>x s' fl'. buddy_kalloc ex_buddy 4096 = Some (x, s') \<and> x \<noteq> NULL \<and> buddy_inv s' fl' \<and>
     span x 0 \<subseteq> {0x400000 ..< 0xC00000} \<and> free_bytes fl' = {0x400000 ..< 0xC00000} - span x 0"
proof -
  obtain fl where fl: "buddy_inv ex_buddy fl" "free_bytes fl = {0x400000 ..< 0xC00000}"
    using ex_buddy_ready by blast
  obtain k x s' where r: "buddy_kalloc ex_buddy 4096 = Some (x, s')" "k = 0 \<or> (2::nat) ^ (k + 11) < 4096"
      "if k > 10 \<or> (\<forall>j\<in>{k..10}. fl j = []) then x = NULL \<and> s' = ex_buddy
       else x \<noteq> NULL \<and> wf_block ex_buddy x k \<and> span x k \<subseteq> free_bytes fl \<and>
         (\<exists>fl'. buddy_inv s' fl' \<and> free_bytes fl' = free_bytes fl - span x k)"
    using buddy_kalloc_correct [OF fl(1), of 4096] by auto
  have "k = 0"
  proof (rule ccontr)
    assume "k \<noteq> 0"
    then have "(2::nat) ^ (k + 11) < 2 ^ 12" "12 \<le> k + 11" using r(2) by auto
    then show False using power_increasing [of 12 "k + 11" "2::nat"] by simp
  qed
  then have "\<not> (k > 10 \<or> (\<forall>j\<in>{k..10}. fl j = []))" using ex_free_some [OF fl] by simp
  then have "x \<noteq> NULL \<and> span x 0 \<subseteq> free_bytes fl \<and> (\<exists>fl'. buddy_inv s' fl' \<and> free_bytes fl' = free_bytes fl - span x 0)"
    using r(3) \<open>k = 0\<close> by (simp only: if_False) simp
  then show ?thesis using r(1) unfolding fl(2) by blast
qed

text \<open>A region of 4 MB with nothing free.\<close>

definition ex_full :: buddy_metadata where
  "ex_full = \<lparr>base_address = 0x400000, region_size = 0x400000, min_order = 0, max_order = 10, free_lists = \<lambda>_. 0,
     bitmap = \<lambda>_. 0, order_offsets = \<lambda>k. of_nat (offset_of 1024 k), chunks = \<lambda>_. \<lparr>chunk_next = 0, chunk_prev = 0\<rparr>\<rparr>"

lemma ex_full_ok:
  "whole_region ex_full" "offsets_ok ex_full" "buddy_inv ex_full (\<lambda>_. [])" "bits_sound ex_full (\<lambda>_. [])"
  "wf_block ex_full 0x401000 0" "free_bytes (\<lambda>_. []) = {}"
proof -
  have "unat (of_nat (offset_of 1024 k) :: u32) = offset_of 1024 k" for k
    using offset_of_le [of 1024 k] by (intro unat_of_nat_id) simp
  then show "offsets_ok ex_full" by (simp add: offsets_ok_def pages_of_def ex_full_def)
qed (simp_all add: whole_region_def wf_region_def buddy_inv_def buddy_rep_def disjoint_blocks_def bits_sound_def
      pair_bit_def wf_block_def free_bytes_def ex_full_def)

theorem buddy_kfree_witness:
  "\<exists>s' fl'. buddy_kfree ex_full 0x401000 PAGE_SIZE = Some s' \<and> buddy_inv s' fl' \<and> bits_sound s' fl' \<and>
     free_bytes fl' = {0x401000 ..< 0x402000}"
  using buddy_kfree_correct [OF ex_full_ok(3,1,2,4) size_order_page _ _ ex_full_ok(5)] ex_full_ok(6)
  by (simp add: PAGE_SIZE_def span_def)

theorem init_buddy_witness:
  "\<exists>fl. buddy_inv ex_buddy fl \<and> bits_sound ex_buddy fl \<and> free_bytes fl = {0x400000 ..< 0xC00000}"
  using init_buddy_correct [OF ex_buddy_def] by (auto simp: ex_region)

theorem toggle_bitmap_witness: "unat (bit_pos ex_full 0x401000 0 div 8) < 128"
  using toggle_bitmap_in_bounds [OF ex_full_ok(1,2,5)] by (simp add: ex_full_def)

theorem lower_bound_witness: "clear_lower_bound 0xFFFFFFFF80020000 (0, 0x1000000) = (0, 0x1000000)"
  using lower_bound_never_applies [of "0xFFFFFFFF80020000" "0x1000000" 0] by (simp add: PAGE_SIZE_def)

end
