(* ===== verification/Buddy_Overlap.thy ===== *)
theory Buddy_Overlap
  imports Buddy_Props
begin

text \<open>
  A run of the buddy allocator that hands out the same page twice. Allocation toggles the pair
  bit of the order it allocates, but not those of the orders it splits through, so after a split
  a bit no longer says whether the two buddies differ; a later release trusts it.
\<close>

section \<open>States of the run\<close>

text \<open>
  A machine with one region of 4 MB: every list has at most one block, so all links stay \<open>NULL\<close>,
  and the states of the run differ only in list heads and bitmap.
\<close>

definition ex_entries4 :: "mmap_entry_0xe820 list" where
  "ex_entries4 = [\<lparr>e820_base = 0x400000, e820_chunk_size = 0x400000, e820_type = 1, e820_ACPI_ext_attr = 0\<rparr>]"

definition ex_state :: "(nat \<Rightarrow> addr) \<Rightarrow> (nat \<Rightarrow> u8) \<Rightarrow> buddy_metadata" where
  "ex_state F B = \<lparr>base_address = 0x400000, region_size = 0x400000, min_order = 0, max_order = 10,
     free_lists = F, bitmap = B, order_offsets = init_offsets 1024 [1..<11] (\<lambda>_. 0),
     chunks = \<lambda>_. \<lparr>chunk_next = NULL, chunk_prev = NULL\<rparr>\<rparr>"

definition ex_heads :: "nat \<Rightarrow> addr" where
  "ex_heads = (\<lambda>_. NULL)(10 := 0, 9 := 0x600000, 8 := 0x500000, 7 := 0x480000, 6 := 0x440000,
     5 := 0x420000, 4 := 0x410000, 3 := 0x408000, 2 := 0x404000, 1 := 0x402000, 0 := 0x401000)"

lemma ex_upts: "[0..<11] = [0,1,2,3,4,5,6,7,8,9,10]" "[Suc 0..<11] = [Suc 0,2,3,4,5,6,7,8,9,10::nat]" "[0..<Suc 0] = [0::nat]" 
  "[2..<11] = [2,3,4,5,6,7,8,9,10::nat]" by (simp_all add: upt_rec)

lemma ex_counts: "count_blocks 0x400000 0x400000 (\<lambda>_. 0) = (\<lambda>_. 0)(10 := 1)"
proof -
  have "fit_order 0x400000 0x400000 (Suc 9) = Some (Suc 9)" by (subst fit_order.simps) (simp add: chunk_bytes_def PAGE_SIZE_def)
  then have "fit_order 0x400000 0x400000 10 = Some 10" by simp
  then show ?thesis by (subst count_blocks.simps) (simp add: PAGE_SIZE_def chunk_bytes_def count_blocks.simps)
qed

lemma ex_init: "init_buddy 0xFFFFFFFF80020000 ex_entries4 ex_mem = ex_state ((\<lambda>_. NULL)(10 := 0x400000)) (\<lambda>_. 0)"
  by (simp add: init_buddy_def ex_entries4_def ex_mem_def ex_state_def clear_lower_bound_def align_region_def
    chunk_bytes_def PAGE_SIZE_def ONE_MB_ADDRESS_def Let_def ex_counts ex_upts fun_eq_iff del: upt_Suc)

lemma ex_sel: "free_lists (ex_state F B) = F" "max_order (ex_state F B) = 10" by (simp_all add: ex_state_def)

lemma ex_push: "F k = NULL \<Longrightarrow> free_list_push (ex_state F B) k x = ex_state (F(k := x)) B"
  by (simp add: ex_state_def free_list_push_def Let_def fun_eq_iff)

lemma ex_pop: "free_list_pop (ex_state F B) k = ex_state (F(k := NULL)) B"
  by (simp add: ex_state_def free_list_pop_def Let_def fun_eq_iff)

lemma ex_unlink: "free_list_unlink (ex_state F B) k x = ex_state (F(k := NULL)) B"
  by (simp add: ex_state_def free_list_unlink_def Let_def fun_eq_iff)

lemma ex_toggle: "init_offsets 1024 [1..<11] (\<lambda>_. 0) k + drop_bit 1 (ucast (drop_bit (12 + k) (a - 0x400000))) = p \<Longrightarrow>
    toggle_bitmap (ex_state F B) a k = (drop_bit (unat (p mod 8)) (B (unat (p div 8)) XOR push_bit (unat (p mod 8)) 1) AND 1,
      ex_state F (B(unat (p div 8) := B (unat (p div 8)) XOR push_bit (unat (p mod 8)) 1)))"
  by (simp add: toggle_bitmap_def bit_pos_def Let_def ex_state_def del: push_bit_of_1)

lemma ex_order: "size_order 4096 0 = Some 0" "size_order 8192 0 = Some 1" "size_order 16384 0 = Some 2"
  by (simp_all add: size_order.simps chunk_bytes_def PAGE_SIZE_def)

lemma ex_offsets: "init_offsets 1024 [Suc 0..<11] (\<lambda>_. 0) 0 = 0" "init_offsets 1024 [Suc 0..<11] (\<lambda>_. 0) (Suc 0) = 512" "init_offsets 1024 [Suc 0..<11] (\<lambda>_. 0) 2 = 768"
  by (simp_all add: ex_upts)

lemma ex_toggles: "toggle_bitmap (ex_state F B) 0x400000 0 = ((B 0 XOR 1) AND 1, ex_state F (B(0 := B 0 XOR 1)))"
 "toggle_bitmap (ex_state F B) 0x402000 (Suc 0) = ((B 64 XOR 1) AND 1, ex_state F (B(64 := B 64 XOR 1)))"
 "toggle_bitmap (ex_state F B) 0x400000 2 = ((B 96 XOR 1) AND 1, ex_state F (B(96 := B 96 XOR 1)))"
  using ex_toggle [of 0 "0x400000" 0 F B] ex_toggle [of 1 "0x402000" 512 F B] ex_toggle [of 2 "0x400000" 768 F B]
  by (simp_all add: ex_offsets)

lemma ex_split_step: "order < level \<Longrightarrow> buddy_split s c order level = buddy_split (free_list_push s (level - 1) (c + chunk_bytes (level - 1))) c order (level - 1)"
  by (subst buddy_split.simps) simp

lemma ex_split_done: "buddy_split s c order order = s"
  by (subst buddy_split.simps) simp

lemma ex_coalesce_step: "k < 10 \<Longrightarrow> toggle_bitmap (ex_state F B) x k = (0, ex_state F B') \<Longrightarrow>
  buddy_coalesce (ex_state F B) x k = buddy_coalesce (free_list_unlink (ex_state F B') k (x XOR chunk_bytes k)) (if x XOR chunk_bytes k < x then x XOR chunk_bytes k else x) (k + 1)"
  by (subst buddy_coalesce.simps) (simp add: ex_sel Let_def)

lemma ex_coalesce_stop: "k < 10 \<Longrightarrow> toggle_bitmap (ex_state F B) x k = (1, ex_state F B') \<Longrightarrow>
  buddy_coalesce (ex_state F B) x k = (ex_state F B', x, k)"
  by (subst buddy_coalesce.simps) (simp add: ex_sel Let_def)

section \<open>The run\<close>

lemma run_alloc_4k: "buddy_kalloc (ex_state ((\<lambda>_. NULL)(10 := 0x400000)) (\<lambda>_. 0)) 4096 = Some (0x400000, ex_state ex_heads ((\<lambda>_. 0)(0 := 1)))"
  by (simp add: buddy_kalloc_def ex_sel ex_push ex_pop ex_toggles ex_split_step ex_split_done ex_order ex_upts chunk_bytes_def PAGE_SIZE_def ex_heads_def del: upt_Suc)

lemma run_alloc_8k: "buddy_kalloc (ex_state ex_heads ((\<lambda>_. 0)(0 := 1))) 8192 = Some (0x402000, ex_state (ex_heads(1 := NULL)) ((\<lambda>_. 0)(0 := 1, 64 := 1)))"
  by (simp add: buddy_kalloc_def ex_sel ex_push ex_pop ex_toggles ex_split_step ex_split_done ex_order ex_upts chunk_bytes_def PAGE_SIZE_def ex_heads_def Let_def del: upt_Suc)

lemma run_free_8k: "buddy_kfree (ex_state (ex_heads(1 := NULL)) ((\<lambda>_. 0)(0 := 1, 64 := 1))) 0x402000 8192 =
    Some (free_list_push (ex_state (ex_heads(1 := NULL)) ((\<lambda>_. 0)(0 := 1, 64 := 0, 96 := 1))) 2 0x400000)"
proof -
  have c1: "buddy_coalesce (ex_state (ex_heads(1 := NULL)) ((\<lambda>_. 0)(0 := 1, 64 := 1))) 0x402000 (Suc 0) =
     buddy_coalesce (ex_state (ex_heads(1 := NULL)) ((\<lambda>_. 0)(0 := 1, 64 := 0))) 0x400000 (Suc 0 + 1)"
    by (subst ex_coalesce_step, simp, simp add: ex_toggles) (simp_all add: ex_unlink chunk_bytes_def PAGE_SIZE_def)
  have c2: "buddy_coalesce (ex_state (ex_heads(1 := NULL)) ((\<lambda>_. 0)(0 := 1, 64 := 0))) 0x400000 2 =
     (ex_state (ex_heads(1 := NULL)) ((\<lambda>_. 0)(0 := 1, 64 := 0, 96 := 1)), 0x400000, 2)"
    by (subst ex_coalesce_stop, simp, simp add: ex_toggles) simp_all
  have e: "Suc 0 + 1 = 2" by simp
  show ?thesis using c1 [unfolded e] c2 by (simp add: buddy_kfree_def ex_order ex_sel)
qed

lemma run_alloc_16k: "\<exists>s. buddy_kalloc (free_list_push (ex_state (ex_heads(1 := NULL)) ((\<lambda>_. 0)(0 := 1, 64 := 0, 96 := 1))) 2 0x400000) 16384 = Some (0x400000, s)"
proof -
  have "free_lists (free_list_push s 2 b) 2 = b" for s b by (simp add: free_list_push_def Let_def)
  then show ?thesis by (simp add: buddy_kalloc_def ex_order ex_upts ex_sel Let_def)
qed

text \<open>
  C6. On a machine with 4 MB of usable memory at 4 MB, right after \<open>__init_buddy\<close>: allocating 4 KB
  gives \<open>0x400000\<close>, allocating 8 KB gives \<open>0x402000\<close>, releasing those 8 KB merges them with the
  8 KB at \<open>0x400000\<close> although their first page is in use, and allocating 16 KB then gives
  \<open>0x400000\<close> again: the page of the first allocation, never released, is handed out twice.
\<close>

theorem buddy_double_allocation:
  "\<exists>s1 s2 s3 s4.
     buddy_kalloc (init_buddy 0xFFFFFFFF80020000 ex_entries4 ex_mem) 4096 = Some (0x400000, s1) \<and>
     buddy_kalloc s1 8192 = Some (0x402000, s2) \<and>
     buddy_kfree s2 0x402000 8192 = Some s3 \<and>
     buddy_kalloc s3 16384 = Some (0x400000, s4)"
  unfolding ex_init using run_alloc_4k run_alloc_8k run_free_8k run_alloc_16k by blast

end
