(* ===== verification/Bytes.thy ===== *)
theory Bytes
  imports Prelude
begin

text \<open>
  Memory as bytes: lists of bytes and little-endian integers written to and read from it. The string
  routines, the next pointers of free objects and the blocks of the processors are kept in it.
\<close>

type_synonym bytes = "addr \<Rightarrow> u8"

section \<open>Writing a list of bytes\<close>

fun poke :: "bytes \<Rightarrow> addr \<Rightarrow> u8 list \<Rightarrow> bytes" where
  "poke m a [] = m"
| "poke m a (x # xs) = poke (m(a := x)) (a + 1) xs"

definition peek :: "bytes \<Rightarrow> addr \<Rightarrow> nat \<Rightarrow> u8 list" where
  "peek m a n = map (\<lambda>k. m (a + of_nat k)) [0..<n]"

definition apart :: "addr \<Rightarrow> nat \<Rightarrow> addr \<Rightarrow> nat \<Rightarrow> bool" where
  "apart a n b l \<longleftrightarrow> (\<forall>i<n. \<forall>j<l. a + of_nat i \<noteq> b + of_nat j)"

lemma apart_step: "apart a (Suc n) b (Suc l) \<Longrightarrow> apart (a + 1) n (b + 1) l"
  unfolding apart_def
proof (intro allI impI)
  fix i j assume "\<forall>i<Suc n. \<forall>j<Suc l. a + of_nat i \<noteq> b + of_nat j" "i < n" "j < l"
  then have "a + of_nat (Suc i) \<noteq> b + of_nat (Suc j)" by blast
  then show "a + 1 + of_nat i \<noteq> b + 1 + of_nat j" by (simp add: add.assoc)
qed

lemma apart_nth: "apart a n b l \<Longrightarrow> i < n \<Longrightarrow> j < l \<Longrightarrow> a + of_nat i \<noteq> b + of_nat j"
  by (simp add: apart_def)

lemma apart_ranges:
  assumes "unat a + n \<le> unat b" "unat b + l \<le> 2 ^ 64"
  shows "apart a n b l"
  unfolding apart_def
proof (intro allI impI)
  fix i j assume "i < n" "j < l"
  then have "unat (of_nat i :: u64) = i" "unat (of_nat j :: u64) = j"
    using assms unat_lt_u64 [of b] by (simp_all add: unat_of_nat_id)
  then have "unat (a + of_nat i) = unat a + i" "unat (b + of_nat j) = unat b + j"
    using assms \<open>i < n\<close> \<open>j < l\<close> unat_lt_u64 [of b] by (simp_all add: unat_add_no_overflow)
  then have "unat (a + of_nat i) < unat (b + of_nat j)" using assms(1) \<open>i < n\<close> by linarith
  then show "a + of_nat i \<noteq> b + of_nat j" by auto
qed

lemma apart_sym: "apart a n b l \<Longrightarrow> apart b l a n"
  by (auto simp: apart_def dest: sym)

lemma apart_shift: "apart a n b l \<Longrightarrow> apart (a + c) n (b + c) l"
  by (auto simp: apart_def algebra_simps)

lemma apart_mono: "apart a n b l \<Longrightarrow> n' \<le> n \<Longrightarrow> l' \<le> l \<Longrightarrow> apart a n' b l'"
  by (auto simp: apart_def)

lemma poke_outside: "(\<And>k. k < length xs \<Longrightarrow> b \<noteq> a + of_nat k) \<Longrightarrow> poke m a xs b = m b"
proof (induction xs arbitrary: m a)
  case (Cons x xs)
  have "poke (m(a := x)) (a + 1) xs b = (m(a := x)) b"
    using Cons.prems [of "Suc _"] by (intro Cons.IH) (simp add: add.assoc)
  then show ?case using Cons.prems [of 0] by simp
qed simp

lemma poke_nth:
  assumes "k < length xs" "length xs \<le> 2 ^ 64"
  shows "poke m a xs (a + of_nat k) = xs ! k"
  using assms
proof (induction xs arbitrary: m a k)
  case (Cons x xs)
  show ?case
  proof (cases k)
    case 0
    have "a \<noteq> a + 1 + of_nat j" if "j < length xs" for j
    proof
      assume "a = a + 1 + of_nat j"
      then have "of_nat (Suc j) = (0 :: u64)" by (simp add: add.assoc)
      then have "unat (of_nat (Suc j) :: u64) = 0" by simp
      then show False using that Cons.prems(2) by (subst (asm) unat_of_nat_id) simp_all
    qed
    then show ?thesis by (simp add: 0 poke_outside)
  next
    case (Suc j)
    have "poke (m(a := x)) (a + 1) xs (a + 1 + of_nat j) = xs ! j" using Suc Cons.prems by (intro Cons.IH) simp_all
    then show ?thesis by (simp add: Suc add.assoc)
  qed
qed simp

lemma poke_append: "poke m a (xs @ ys) = poke (poke m a xs) (a + of_nat (length xs)) ys"
  by (induction xs arbitrary: m a) (simp_all add: add.assoc)

lemma length_peek [simp]: "length (peek m a n) = n"
  by (simp add: peek_def)

lemma peek_Suc: "peek m a (Suc n) = m a # peek m (a + 1) n"
  by (rule nth_equalityI) (auto simp: peek_def nth_Cons add.assoc simp del: upt_Suc split: nat.splits)

lemma peek_poke_same: "length xs \<le> 2 ^ 64 \<Longrightarrow> peek (poke m a xs) a (length xs) = xs"
  by (rule nth_equalityI) (simp_all add: peek_def poke_nth)

lemma peek_poke_apart: "apart a (length xs) b n \<Longrightarrow> peek (poke m a xs) b n = peek m b n"
  by (rule nth_equalityI) (auto simp: peek_def apart_nth [symmetric] intro!: poke_outside)

section \<open>Integer fields\<close>

text \<open>An integer field of \<open>n\<close> bytes, the lowest first.\<close>

definition le_bytes :: "nat \<Rightarrow> u64 \<Rightarrow> u8 list" where
  "le_bytes n v = map (\<lambda>i. ucast (drop_bit (8 * i) v)) [0..<n]"

definition le_word :: "u8 list \<Rightarrow> u64" where
  "le_word bs = foldr (\<lambda>b w. ucast b OR push_bit 8 w) bs 0"

definition set_field :: "bytes \<Rightarrow> addr \<Rightarrow> nat \<Rightarrow> u64 \<Rightarrow> bytes" where
  "set_field m a n v = poke m a (le_bytes n v)"

definition get_field :: "bytes \<Rightarrow> addr \<Rightarrow> nat \<Rightarrow> u64" where
  "get_field m a n = le_word (peek m a n)"

lemma le_bytes_Suc: "le_bytes (Suc n) v = ucast v # le_bytes n (drop_bit 8 v)"
  unfolding le_bytes_def by (subst upt_conv_Cons) (simp_all add: map_Suc_upt [symmetric] drop_bit_drop_bit add.commute del: upt_Suc)

lemma le_word_bytes: "le_word (le_bytes n v) = take_bit (8 * n) v"
proof (induction n arbitrary: v)
  case 0
  show ?case by (simp add: le_word_def le_bytes_def)
next
  case (Suc n)
  have "ucast (ucast v :: u8) OR push_bit 8 (take_bit (8 * n) (drop_bit 8 v)) = take_bit (8 * Suc n) v"
    by (rule bit_eqI) (auto simp: bit_or_iff bit_ucast_iff bit_push_bit_iff bit_take_bit_iff bit_drop_bit_eq)
  then show ?case using Suc [of "drop_bit 8 v"] by (simp add: le_bytes_Suc le_word_def)
qed

lemma length_le_bytes [simp]: "length (le_bytes n v) = n"
  by (simp add: le_bytes_def)

lemma get_set_field: "n \<le> 8 \<Longrightarrow> get_field (set_field m a n v) a n = take_bit (8 * n) v"
  using peek_poke_same [of "le_bytes n v" m a] by (simp add: get_field_def set_field_def le_word_bytes)

lemma get_field_poke: "apart a (length xs) b n \<Longrightarrow> get_field (poke m a xs) b n = get_field m b n"
  by (simp add: get_field_def peek_poke_apart)

lemma get_field_zero:
  assumes "unat o1 + n \<le> N" "N \<le> 2 ^ 64"
  shows "get_field (poke m a (replicate N 0)) (a + o1) n = 0"
proof -
  have "peek (poke m a (replicate N 0)) (a + o1) n = replicate n 0"
  proof (rule nth_equalityI)
    fix k assume "k < length (peek (poke m a (replicate N 0)) (a + o1) n)"
    then have k: "unat o1 + k < N" "k < n" using assms(1) by simp_all
    have "a + o1 + of_nat k = a + of_nat (unat o1 + k)" by (simp add: add.assoc)
    then show "peek (poke m a (replicate N 0)) (a + o1) n ! k = replicate n 0 ! k"
      using k assms(2) poke_nth [of "unat o1 + k" "replicate N 0" m a] by (simp add: peek_def add.assoc)
  qed simp
  moreover have "le_word (replicate n 0) = 0" by (induction n) (simp_all add: le_word_def)
  ultimately show ?thesis by (simp add: get_field_def)
qed

section \<open>Pointers\<close>

text \<open>A pointer occupies eight bytes: two stores less than eight bytes apart overlap.\<close>

definition load_ptr :: "bytes \<Rightarrow> addr \<Rightarrow> addr" where
  "load_ptr m a = get_field m a 8"

definition store_ptr :: "bytes \<Rightarrow> addr \<Rightarrow> addr \<Rightarrow> bytes" where
  "store_ptr m a v = set_field m a 8 v"

lemma load_store_same [simp]: "load_ptr (store_ptr m a v) a = v"
  by (simp add: load_ptr_def store_ptr_def get_set_field take_bit_length_eq [of v, simplified])

lemma load_store_apart: "apart a 8 b 8 \<Longrightarrow> load_ptr (store_ptr m a v) b = load_ptr m b"
  by (simp add: load_ptr_def store_ptr_def set_field_def get_field_poke)

lemma load_poke_apart: "apart a (length xs) b 8 \<Longrightarrow> load_ptr (poke m a xs) b = load_ptr m b"
  by (simp add: load_ptr_def get_field_poke)

lemma load_ptr_cong: "(\<And>k. k < 8 \<Longrightarrow> m' (a + of_nat k) = m (a + of_nat k)) \<Longrightarrow> load_ptr m' a = load_ptr m a"
proof -
  assume "\<And>k. k < 8 \<Longrightarrow> m' (a + of_nat k) = m (a + of_nat k)"
  then have "peek m' a 8 = peek m a 8" unfolding peek_def by (intro map_cong) simp_all
  then show ?thesis by (simp only: load_ptr_def get_field_def)
qed

lemma store_ptr_outside: "(\<And>k. k < 8 \<Longrightarrow> b \<noteq> a + of_nat k) \<Longrightarrow> store_ptr m a v b = m b"
  unfolding store_ptr_def set_field_def by (rule poke_outside) simp

lemma store_ptr_first: "store_ptr m a v a = ucast v"
  using poke_nth [of 0 "le_bytes 8 v" m a] by (simp add: store_ptr_def set_field_def le_bytes_def)

lemma bit_le_word: "bit (le_word bs) n \<longleftrightarrow> n < 64 \<and> n div 8 < length bs \<and> bit (bs ! (n div 8)) (n mod 8)"
proof (induction bs arbitrary: n)
  case (Cons b bs)
  show ?case
  proof (cases "n < 8")
    case True
    then show ?thesis by (auto simp: le_word_def bit_or_iff bit_ucast_iff bit_push_bit_iff)
  next
    case False
    then obtain m where n: "n = m + 8" using le_Suc_ex [of 8 n] by (auto simp: not_less add.commute)
    have d: "(m + 8) div 8 = Suc (m div 8)" "(m + 8) mod 8 = m mod 8" by simp_all
    have "bit b (m + 8) = False" using bit_imp_le_length [of b "m + 8"] by auto
    then show ?thesis using Cons [of m] bit_imp_le_length [of "le_word bs" m]
      by (auto simp: n d le_word_def bit_or_iff bit_ucast_iff bit_push_bit_iff)
  qed
qed (simp add: le_word_def)

text \<open>A pointer whose upper half has a byte other than zero lies above 4 GB.\<close>

lemma load_ptr_high:
  assumes "m (a + of_nat k) \<noteq> 0" "4 \<le> k" "k < 8"
  shows "2 ^ 32 \<le> unat (load_ptr m a)"
proof (rule ccontr)
  obtain i where i: "bit (m (a + of_nat k)) i" using assms(1) bit_eq_iff [of "m (a + of_nat k)" 0] by auto
  then have "i < 8" using bit_imp_le_length by fastforce
  then have b: "bit (load_ptr m a) (8 * k + i)"
    using i assms(3) by (simp add: load_ptr_def get_field_def bit_le_word peek_def)
  assume "\<not> 2 ^ 32 \<le> unat (load_ptr m a)"
  then have "take_bit 32 (unat (load_ptr m a)) = unat (load_ptr m a)" by (intro take_bit_nat_eq_self) simp
  then have "take_bit 32 (load_ptr m a) = load_ptr m a" by (simp add: word_unat_eq_iff unsigned_take_bit_eq)
  then have "bit (load_ptr m a) (8 * k + i) \<longrightarrow> 8 * k + i < 32" by (metis bit_take_bit_iff)
  then show False using b assms(2) by simp
qed

end
