(* ===== verification/Slab.thy ===== *)
theory Slab
  imports Buddy Bytes
begin

text \<open>
  The slab allocator and the allocation front end of \<^verbatim>\<open>src/mikroKernellib/phys_kmalloc.c\<close>,
  lines 327 to 724, with the structs of \<^verbatim>\<open>include/phys_kmalloc.h\<close>.

  Memory is kept in typed heaps, each keyed by the address the program stores: the scalar fields
  of caches, the list nodes (the three sentinels inside a cache and the node inside a descriptor,
  which the program reaches by \<open>container_of\<close>) and the descriptors at the start of slabs. The objects
  are bytes: a free object holds the address of the next one in its first eight. The spinlock is a flag: acquiring a lock that
  is held never returns, which is \<open>None\<close>, as is undefined behaviour.
\<close>

section \<open>State\<close>

record slab_list_node =
  sl_next :: addr
  sl_prev :: addr

record slab_descriptor =
  inuse_num :: u32
  desc_free_list :: addr
  desc_cache :: addr

record kmem_cache =
  object_size :: u64
  object_align :: u32
  slab_order :: u8
  objects_per_slab :: u32

record slab_state =
  caches :: "addr \<Rightarrow> kmem_cache"
  nodes_mem :: "addr \<Rightarrow> slab_list_node"
  descs :: "addr \<Rightarrow> slab_descriptor"
  links :: bytes
  slab_lock :: bool
  slab_caches :: addr
  buddy :: buddy_metadata

text \<open>Offsets of the members the program takes the address of.\<close>

definition sizeof_slab_descriptor :: u64 where
  "sizeof_slab_descriptor = 40"

definition free_slabs :: "addr \<Rightarrow> addr" where
  "free_slabs cache = cache + 24"

definition partial_slabs :: "addr \<Rightarrow> addr" where
  "partial_slabs cache = cache + 40"

definition full_slabs :: "addr \<Rightarrow> addr" where
  "full_slabs cache = cache + 56"

definition desc_node :: "addr \<Rightarrow> addr" where
  "desc_node d = d + 24"

definition desc_of_node :: "addr \<Rightarrow> addr" where
  "desc_of_node n = n - 24"

definition slab_cache_at :: "slab_state \<Rightarrow> u32 \<Rightarrow> addr" where
  "slab_cache_at s index = slab_caches s + 72 * ucast index"

definition spinlock_acquire :: "slab_state \<Rightarrow> slab_state option" where
  "spinlock_acquire s = (if slab_lock s then None else Some (s\<lparr>slab_lock := True\<rparr>))"

definition spinlock_release :: "slab_state \<Rightarrow> slab_state" where
  "spinlock_release s = s\<lparr>slab_lock := False\<rparr>"

section \<open>Parameters of a cache\<close>

definition first_object_offset :: "kmem_cache \<Rightarrow> u64" where
  "first_object_offset c =
     (sizeof_slab_descriptor + ucast (object_align c) - 1) AND ucast (NOT (object_align c - 1))"

definition calc_alignment :: "kmem_cache \<Rightarrow> u64" where
  "calc_alignment c = first_object_offset c - sizeof_slab_descriptor"

definition calc_objects_per_slab :: "kmem_cache \<Rightarrow> u64 option" where
  "calc_objects_per_slab c =
     (if object_size c = 0 then None
      else
        let alignment = calc_alignment c;
            total_bytes = scast (ucast (push_bit (unat (slab_order c)) PAGE_SIZE) :: u32) :: u64;
            rem = total_bytes - sizeof_slab_descriptor - alignment;
            n = rem div object_size c
        in Some (if n < 8 then - 1 else n))"

definition calc_object_align :: "u64 \<Rightarrow> u32" where
  "calc_object_align sz =
     (if sz = 0 then - 1
      else let largest_pow2 = sz AND (- sz) in if largest_pow2 < 16 then ucast largest_pow2 else 16)"

definition calc_slab_order :: "u64 \<Rightarrow> u32 option" where
  "calc_slab_order sz =
     (if sz = 0 then Some (- 1)
      else do {
        let min_size = sz * 8 + sizeof_slab_descriptor + 16;
        pages_needed_size \<leftarrow> align_up (ucast min_size) (ucast PAGE_SIZE);
        buddy_order (ucast pages_needed_size)
      })"

section \<open>Lists\<close>

definition upd_node :: "slab_state \<Rightarrow> addr \<Rightarrow> (slab_list_node \<Rightarrow> slab_list_node) \<Rightarrow> slab_state" where
  "upd_node s n f = s\<lparr>nodes_mem := (nodes_mem s)(n := f (nodes_mem s n))\<rparr>"

definition upd_desc :: "slab_state \<Rightarrow> addr \<Rightarrow> (slab_descriptor \<Rightarrow> slab_descriptor) \<Rightarrow> slab_state" where
  "upd_desc s d f = s\<lparr>descs := (descs s)(d := f (descs s d))\<rparr>"

definition upd_cache :: "slab_state \<Rightarrow> addr \<Rightarrow> (kmem_cache \<Rightarrow> kmem_cache) \<Rightarrow> slab_state" where
  "upd_cache s c f = s\<lparr>caches := (caches s)(c := f (caches s c))\<rparr>"

text \<open>The two link changes the source writes out at every move of a slab.\<close>

definition node_unlink :: "slab_state \<Rightarrow> addr \<Rightarrow> slab_state" where
  "node_unlink s n =
     (let s = upd_node s (sl_prev (nodes_mem s n)) (\<lambda>p. p\<lparr>sl_next := sl_next (nodes_mem s n)\<rparr>)
      in upd_node s (sl_next (nodes_mem s n)) (\<lambda>p. p\<lparr>sl_prev := sl_prev (nodes_mem s n)\<rparr>))"

definition node_insert :: "slab_state \<Rightarrow> addr \<Rightarrow> addr \<Rightarrow> slab_state" where
  "node_insert s head n =
     (let s = upd_node s n (\<lambda>p. p\<lparr>sl_next := sl_next (nodes_mem s head)\<rparr>);
          s = upd_node s n (\<lambda>p. p\<lparr>sl_prev := head\<rparr>);
          s = upd_node s (sl_next (nodes_mem s head)) (\<lambda>p. p\<lparr>sl_prev := n\<rparr>)
      in upd_node s head (\<lambda>p. p\<lparr>sl_next := n\<rparr>))"

definition empty_list :: "slab_state \<Rightarrow> addr \<Rightarrow> slab_state" where
  "empty_list s head =
     (let s = upd_node s head (\<lambda>p. p\<lparr>sl_next := head\<rparr>)
      in upd_node s head (\<lambda>p. p\<lparr>sl_prev := head\<rparr>))"

section \<open>Creating a cache\<close>

definition kmem_cache_create :: "slab_state \<Rightarrow> addr \<Rightarrow> u64 \<Rightarrow> (addr \<times> slab_state) option" where
  "kmem_cache_create s cache sz = do {
     let s = upd_cache s cache (\<lambda>c. c\<lparr>object_size := sz\<rparr>);
     let s = upd_cache s cache (\<lambda>c. c\<lparr>object_align := calc_object_align sz\<rparr>);
     if object_align (caches s cache) = - 1 then Some (NULL, s)
     else do {
       order \<leftarrow> calc_slab_order sz;
       if order = - 1 then Some (NULL, s)
       else do {
         let s = upd_cache s cache (\<lambda>c. c\<lparr>slab_order := ucast order\<rparr>);
         n \<leftarrow> calc_objects_per_slab (caches s cache);
         if n = - 1 then Some (NULL, s)
         else do {
           let s = upd_cache s cache (\<lambda>c. c\<lparr>objects_per_slab := ucast n\<rparr>);
           let s = empty_list s (free_slabs cache);
           let s = empty_list s (partial_slabs cache);
           let s = empty_list s (full_slabs cache);
           Some (cache, s)
         }
       }
     }
   }"

text \<open>
  \<open>kmem_cache_create_sl\<close> takes the lock first; its two early returns do not release it.
\<close>

definition kmem_cache_create_sl :: "slab_state \<Rightarrow> addr \<Rightarrow> u64 \<Rightarrow> (addr \<times> slab_state) option" where
  "kmem_cache_create_sl s cache sz = do {
     s \<leftarrow> spinlock_acquire s;
     let s = upd_cache s cache (\<lambda>c. c\<lparr>object_size := sz\<rparr>);
     let s = upd_cache s cache (\<lambda>c. c\<lparr>object_align := calc_object_align sz\<rparr>);
     if object_align (caches s cache) = - 1 then Some (NULL, s)
     else do {
       order \<leftarrow> calc_slab_order sz;
       let s = upd_cache s cache (\<lambda>c. c\<lparr>slab_order := ucast order\<rparr>);
       n \<leftarrow> calc_objects_per_slab (caches s cache);
       if n = - 1 then Some (NULL, s)
       else do {
         let s = upd_cache s cache (\<lambda>c. c\<lparr>objects_per_slab := ucast n\<rparr>);
         let s = empty_list s (free_slabs cache);
         let s = empty_list s (partial_slabs cache);
         let s = empty_list s (full_slabs cache);
         Some (cache, spinlock_release s)
       }
     }
   }"

definition MIN_SLAB_ALLOC_SIZE :: u64 where
  "MIN_SLAB_ALLOC_SIZE = 16"

definition MAX_SLAB_ALLOC_SIZE :: u64 where
  "MAX_SLAB_ALLOC_SIZE = 2048"

definition NUM_CACHES :: u32 where
  "NUM_CACHES = 8"

definition size_to_index :: "u64 \<Rightarrow> u32" where
  "size_to_index sz =
     (if sz = 0 then - 1
      else
        let clamped = (if sz < MIN_SLAB_ALLOC_SIZE then MIN_SLAB_ALLOC_SIZE else sz);
            nearest_pow2 = ucast (round_up_pow2 (ucast clamped)) :: u64
        in klog2 nearest_pow2 - klog2 MIN_SLAB_ALLOC_SIZE)"

text \<open>\<open>__init_slab\<close>: \<open>True\<close> is \<open>STATUS_OK\<close>.\<close>

primrec init_slab_loop :: "slab_state \<Rightarrow> nat list \<Rightarrow> (bool \<times> slab_state) option" where
  "init_slab_loop s [] = Some (True, s)"
| "init_slab_loop s (pow # pows) = do {
     (curr, s) \<leftarrow> kmem_cache_create s (slab_cache_at s (size_to_index (push_bit pow 1))) (push_bit pow 1);
     if curr = NULL then Some (False, s) else init_slab_loop s pows
   }"

definition init_slab :: "slab_state \<Rightarrow> (bool \<times> slab_state) option" where
  "init_slab s = init_slab_loop (s\<lparr>slab_lock := False\<rparr>) [4..<12]"

section \<open>Growing, allocating, releasing\<close>

text \<open>Threading the free list through the objects of a new slab.\<close>

primrec thread_objects :: "kmem_cache \<Rightarrow> addr \<Rightarrow> nat list \<Rightarrow> bytes \<Rightarrow> bytes" where
  "thread_objects c first [] h = h"
| "thread_objects c first (idx # idxs) h =
     (let object_addr = first + of_nat idx * object_size c
      in thread_objects c first idxs
           (store_ptr h object_addr (if idx < unat (objects_per_slab c) - 1 then object_addr + object_size c else NULL)))"

definition kmem_cache_grow :: "slab_state \<Rightarrow> addr \<Rightarrow> (bool \<times> slab_state) option" where
  "kmem_cache_grow s cache = do {
     (descriptor, b) \<leftarrow> buddy_kalloc (buddy s) (chunk_bytes (unat (slab_order (caches s cache))));
     let s = s\<lparr>buddy := b\<rparr>;
     if descriptor = NULL then Some (False, s)
     else do {
       let s = upd_desc s descriptor (\<lambda>d. d\<lparr>desc_cache := cache\<rparr>);
       let s = upd_desc s descriptor (\<lambda>d. d\<lparr>inuse_num := 0\<rparr>);
       let c = caches s cache;
       let first = descriptor + first_object_offset c;
       let s = s\<lparr>links := thread_objects c first [0..<unat (objects_per_slab c)] (links s)\<rparr>;
       let s = upd_desc s descriptor (\<lambda>d. d\<lparr>desc_free_list := first\<rparr>);
       Some (True, node_insert s (free_slabs cache) (desc_node descriptor))
     }
   }"

text \<open>
  The part of \<open>kmem_cache_kalloc\<close> after a descriptor has been chosen, up to the release of the
  lock.
\<close>

definition kmem_cache_take :: "slab_state \<Rightarrow> addr \<Rightarrow> addr \<Rightarrow> addr \<times> slab_state" where
  "kmem_cache_take s cache desc =
     (let ptr = desc_free_list (descs s desc) in
      if ptr = NULL then (NULL, s)
      else
        let s = upd_desc s desc (\<lambda>d. d\<lparr>desc_free_list := load_ptr (links s) ptr\<rparr>);
            s = upd_desc s desc (\<lambda>d. d\<lparr>inuse_num := inuse_num d + 1\<rparr>);
            s = (if inuse_num (descs s desc) = objects_per_slab (caches s cache)
                 then node_insert (node_unlink s (desc_node desc)) (full_slabs cache) (desc_node desc)
                 else if inuse_num (descs s desc) = 1
                 then node_insert (node_unlink s (desc_node desc)) (partial_slabs cache) (desc_node desc)
                 else s)
        in (ptr, s))"

definition kmem_cache_kalloc :: "slab_state \<Rightarrow> addr \<Rightarrow> (addr \<times> slab_state) option" where
  "kmem_cache_kalloc s cache = do {
     s \<leftarrow> spinlock_acquire s;
     if sl_next (nodes_mem s (partial_slabs cache)) \<noteq> partial_slabs cache then do {
       let (ptr, s) = kmem_cache_take s cache (desc_of_node (sl_next (nodes_mem s (partial_slabs cache))));
       Some (ptr, spinlock_release s)
     } else if sl_next (nodes_mem s (free_slabs cache)) \<noteq> free_slabs cache then do {
       let (ptr, s) = kmem_cache_take s cache (desc_of_node (sl_next (nodes_mem s (free_slabs cache))));
       Some (ptr, spinlock_release s)
     } else do {
       (ok, s) \<leftarrow> kmem_cache_grow (spinlock_release s) cache;
       s \<leftarrow> spinlock_acquire s;
       if \<not> ok then Some (NULL, spinlock_release s)
       else do {
         let (ptr, s) = kmem_cache_take s cache (desc_of_node (sl_next (nodes_mem s (free_slabs cache))));
         Some (ptr, spinlock_release s)
       }
     }
   }"

definition slab_base_of :: "kmem_cache \<Rightarrow> addr \<Rightarrow> addr" where
  "slab_base_of c object =
     (let slab_size = ucast (push_bit (unat (slab_order c)) PAGE_SIZE) :: u32
      in object AND NOT (ucast slab_size - 1))"

definition kmem_cache_put :: "slab_state \<Rightarrow> addr \<Rightarrow> addr \<Rightarrow> addr \<Rightarrow> slab_state" where
  "kmem_cache_put s cache desc object =
     (let s = upd_desc s desc (\<lambda>d. d\<lparr>inuse_num := inuse_num d - 1\<rparr>);
          s = (if inuse_num (descs s desc) = 0
               then node_insert (node_unlink s (desc_node desc)) (free_slabs cache) (desc_node desc)
               else if inuse_num (descs s desc) = objects_per_slab (caches s cache) - 1
               then node_insert (node_unlink s (desc_node desc)) (partial_slabs cache) (desc_node desc)
               else s);
          s = s\<lparr>links := store_ptr (links s) object (desc_free_list (descs s desc))\<rparr>
      in upd_desc s desc (\<lambda>d. d\<lparr>desc_free_list := object\<rparr>))"

definition kmem_cache_kfree :: "slab_state \<Rightarrow> addr \<Rightarrow> addr \<Rightarrow> slab_state option" where
  "kmem_cache_kfree s cache object = do {
     s \<leftarrow> spinlock_acquire s;
     let desc = slab_base_of (caches s cache) object;
     Some (spinlock_release (kmem_cache_put s cache desc object))
   }"

definition slab_kalloc :: "slab_state \<Rightarrow> u64 \<Rightarrow> (addr \<times> slab_state) option" where
  "slab_kalloc s sz =
     (if sz > MAX_SLAB_ALLOC_SIZE then Some (NULL, s)
      else if size_to_index sz \<ge> NUM_CACHES then Some (NULL, s)
      else kmem_cache_kalloc s (slab_cache_at s (size_to_index sz)))"

definition slab_kfree :: "slab_state \<Rightarrow> addr \<Rightarrow> u64 \<Rightarrow> slab_state option" where
  "slab_kfree s object sz =
     (if size_to_index sz \<ge> NUM_CACHES then Some s
      else kmem_cache_kfree s (slab_cache_at s (size_to_index sz)) object)"

section \<open>The front end\<close>

datatype alloc_flag = BUDDY_ALLOC | SLAB_ALLOC | CHOOSE_ALLOC

definition init_phys_kmalloc :: "u64 \<Rightarrow> mmap_entry_0xe820 list \<Rightarrow> slab_state \<Rightarrow> slab_state res" where
  "init_phys_kmalloc kernel_end entries s =
     (let s = s\<lparr>buddy := init_buddy kernel_end entries (buddy s)\<rparr> in
      bindE (of_option (init_slab s)) (\<lambda>(status, s).
        if \<not> status then Inl (Panic ''ALLOCATOR INITIALISATION FAILURE, CANNOT BOOT KERNEL'') else Inr s))"

definition lift_buddy_alloc :: "slab_state \<Rightarrow> u64 \<Rightarrow> (addr \<times> slab_state) option" where
  "lift_buddy_alloc s sz = do { (p, b) \<leftarrow> buddy_kalloc (buddy s) sz; Some (p, s\<lparr>buddy := b\<rparr>) }"

definition lift_buddy_free :: "slab_state \<Rightarrow> addr \<Rightarrow> u64 \<Rightarrow> slab_state option" where
  "lift_buddy_free s p sz = do { b \<leftarrow> buddy_kfree (buddy s) p sz; Some (s\<lparr>buddy := b\<rparr>) }"

fun phys_kmalloc :: "slab_state \<Rightarrow> u64 \<Rightarrow> alloc_flag \<Rightarrow> (addr \<times> slab_state) option" where
  "phys_kmalloc s sz BUDDY_ALLOC = lift_buddy_alloc s sz"
| "phys_kmalloc s sz SLAB_ALLOC = slab_kalloc s sz"
| "phys_kmalloc s sz CHOOSE_ALLOC =
     (if sz \<le> MAX_SLAB_ALLOC_SIZE then slab_kalloc s sz else lift_buddy_alloc s sz)"

fun phys_kfree :: "slab_state \<Rightarrow> addr \<Rightarrow> u64 \<Rightarrow> alloc_flag \<Rightarrow> slab_state option" where
  "phys_kfree s p sz BUDDY_ALLOC = lift_buddy_free s p sz"
| "phys_kfree s p sz SLAB_ALLOC = slab_kfree s p sz"
| "phys_kfree s p sz CHOOSE_ALLOC =
     (if sz \<le> MAX_SLAB_ALLOC_SIZE then slab_kfree s p sz else lift_buddy_free s p sz)"

definition free_phys_page :: "slab_state \<Rightarrow> addr \<Rightarrow> slab_state option" where
  "free_phys_page s page = (if page = NULL then Some s else lift_buddy_free s page PAGE_SIZE)"

end
