(* ===== verification/Directmap.thy ===== *)
theory Directmap
  imports Prelude
begin

text \<open>
  \<^verbatim>\<open>include/mmu.h\<close>: the layout of the kernel half of the address space, the bits of a page table
  entry, the indices a virtual address selects, and the translation \<open>directmap_p2v\<close> through which
  every stored pointer is dereferenced.

  The other theories key their heaps by the pointer the program stores. That is sound because the
  translation is injective on those pointers and gives a pointer that translates to itself, both
  before and after \<open>__init_mmu\<close> changes \<open>phys_map_offset\<close>.
\<close>

section \<open>Layout\<close>

definition PML4_KERNEL_HALF_BASE :: u64 where "PML4_KERNEL_HALF_BASE = 0xFFFF800000000000"
definition GUARD_HOLE_SIZE :: u64 where "GUARD_HOLE_SIZE = 0x200000"
definition DIRECT_MAP_START :: u64 where "DIRECT_MAP_START = 0xFFFF800000200000"
definition DIRECT_MAP_END :: u64 where "DIRECT_MAP_END = 0xFFFFBC0000200000"
definition DIRECT_MAP_SIZE :: u64 where "DIRECT_MAP_SIZE = 0x400000000000"
definition VIRT_KMALLOC_START :: u64 where "VIRT_KMALLOC_START = 0xFFFFBC0000400000"
definition VIRT_KMALLOC_END :: u64 where "VIRT_KMALLOC_END = 0xFFFFFC0000400000"
definition VIRT_KMALLOC_SIZE :: u64 where "VIRT_KMALLOC_SIZE = 0x40000000000"
definition KERNEL_STACKS_START :: u64 where "KERNEL_STACKS_START = 0xFFFFFC0000600000"
definition KERNEL_STACKS_END :: u64 where "KERNEL_STACKS_END = 0xFFFFFE0000600000"
definition KERNEL_STACKS_SIZE :: u64 where "KERNEL_STACKS_SIZE = 0x20000000000"
definition MODULE_REGION_START :: u64 where "MODULE_REGION_START = 0xFFFFFEFFFFE00000"
definition MODULE_REGION_END :: u64 where "MODULE_REGION_END = 0xFFFFFF7FFFE00000"
definition MODULE_REGION_SIZE :: u64 where "MODULE_REGION_SIZE = 0x80000000"
definition KERNEL_IMAGE_START :: u64 where "KERNEL_IMAGE_START = 0xFFFFFFFF80000000"

lemmas layout_defs [const_defs] =
  PML4_KERNEL_HALF_BASE_def GUARD_HOLE_SIZE_def DIRECT_MAP_START_def DIRECT_MAP_END_def DIRECT_MAP_SIZE_def
  VIRT_KMALLOC_START_def VIRT_KMALLOC_END_def VIRT_KMALLOC_SIZE_def KERNEL_STACKS_START_def KERNEL_STACKS_END_def
  KERNEL_STACKS_SIZE_def MODULE_REGION_START_def MODULE_REGION_END_def MODULE_REGION_SIZE_def KERNEL_IMAGE_START_def

section \<open>Page table entries\<close>

definition PTE_PRESENT :: u64 where "PTE_PRESENT = 0x1"
definition PTE_WRITABLE :: u64 where "PTE_WRITABLE = 0x2"
definition PTE_USER :: u64 where "PTE_USER = 0x4"
definition PTE_PWT :: u64 where "PTE_PWT = 0x8"
definition PTE_HUGE_PAGE :: u64 where "PTE_HUGE_PAGE = 0x80"
definition PTE_GLOBAL :: u64 where "PTE_GLOBAL = 0x100"
definition PTE_NX :: u64 where "PTE_NX = 0x8000000000000000"
definition PTE_ADDR_MASK :: u64 where "PTE_ADDR_MASK = 0x000FFFFFFFFFF000"

definition PTE_FLAGS_DIRECT_MAP :: u64 where
  "PTE_FLAGS_DIRECT_MAP = 0 OR PTE_PRESENT OR PTE_WRITABLE OR PTE_GLOBAL OR PTE_NX"

definition PTE_FLAGS_KERNEL_CODE :: u64 where
  "PTE_FLAGS_KERNEL_CODE = 0 OR PTE_PRESENT OR PTE_GLOBAL"

definition PTE_FLAGS_KERNEL_DATA :: u64 where
  "PTE_FLAGS_KERNEL_DATA = 0 OR PTE_PRESENT OR PTE_WRITABLE OR PTE_NX OR PTE_GLOBAL"

lemmas pte_defs [const_defs] =
  PTE_PRESENT_def PTE_WRITABLE_def PTE_USER_def PTE_PWT_def PTE_HUGE_PAGE_def PTE_GLOBAL_def PTE_NX_def
  PTE_ADDR_MASK_def PTE_FLAGS_DIRECT_MAP_def PTE_FLAGS_KERNEL_CODE_def PTE_FLAGS_KERNEL_DATA_def

definition GET_PA_FROM_PTE :: "u64 \<Rightarrow> u64" where
  "GET_PA_FROM_PTE pte = pte AND PTE_ADDR_MASK"

definition GET_FLAGS_FROM_PTE :: "u64 \<Rightarrow> u64" where
  "GET_FLAGS_FROM_PTE pte = pte AND NOT PTE_ADDR_MASK"

section \<open>Indices\<close>

definition VIRT_TO_PML4_IDX :: "u64 \<Rightarrow> u64" where "VIRT_TO_PML4_IDX virt = drop_bit 39 virt AND 0x1FF"
definition VIRT_TO_PDPT_IDX :: "u64 \<Rightarrow> u64" where "VIRT_TO_PDPT_IDX virt = drop_bit 30 virt AND 0x1FF"
definition VIRT_TO_PD_IDX :: "u64 \<Rightarrow> u64" where "VIRT_TO_PD_IDX virt = drop_bit 21 virt AND 0x1FF"
definition VIRT_TO_PT_IDX :: "u64 \<Rightarrow> u64" where "VIRT_TO_PT_IDX virt = drop_bit 12 virt AND 0x1FF"

lemmas idx_defs = VIRT_TO_PML4_IDX_def VIRT_TO_PDPT_IDX_def VIRT_TO_PD_IDX_def VIRT_TO_PT_IDX_def

lemma and_1ff: "x AND 0x1FF = take_bit 9 (x :: u64)"
  by (simp add: take_bit_eq_mask mask_eq_exp_minus_1)

lemma bit_idx:
  "bit (VIRT_TO_PML4_IDX v) n \<longleftrightarrow> n < 9 \<and> bit v (n + 39)"
  "bit (VIRT_TO_PDPT_IDX v) n \<longleftrightarrow> n < 9 \<and> bit v (n + 30)"
  "bit (VIRT_TO_PD_IDX v) n \<longleftrightarrow> n < 9 \<and> bit v (n + 21)"
  "bit (VIRT_TO_PT_IDX v) n \<longleftrightarrow> n < 9 \<and> bit v (n + 12)"
  by (auto simp: idx_defs and_1ff bit_simps add.commute)

lemma idx_less: "VIRT_TO_PML4_IDX v < 512" "VIRT_TO_PDPT_IDX v < 512" "VIRT_TO_PD_IDX v < 512" "VIRT_TO_PT_IDX v < 512"
  unfolding idx_defs and_1ff by (simp_all add: word_less_nat_alt take_bit_eq_mod unat_mod)

text \<open>The page number a walk sees: the 36 bits above the page offset.\<close>

definition vpn :: "u64 \<Rightarrow> u64" where
  "vpn v = take_bit 36 (drop_bit 12 v)"

definition hpn :: "u64 \<Rightarrow> u64" where
  "hpn v = take_bit 27 (drop_bit 21 v)"

lemma bit_vpn: "bit (vpn v) n \<longleftrightarrow> n < 36 \<and> bit v (n + 12)"
  by (auto simp: vpn_def bit_simps add.commute)

lemma bit_hpn: "bit (hpn v) n \<longleftrightarrow> n < 27 \<and> bit v (n + 21)"
  by (auto simp: hpn_def bit_simps add.commute)

lemma hpn_eq_iff:
  "hpn v = hpn w \<longleftrightarrow> VIRT_TO_PML4_IDX v = VIRT_TO_PML4_IDX w \<and> VIRT_TO_PDPT_IDX v = VIRT_TO_PDPT_IDX w \<and>
     VIRT_TO_PD_IDX v = VIRT_TO_PD_IDX w" (is "?l \<longleftrightarrow> ?r")
proof
  assume ?l
  then have b: "bit v (n + 21) = bit w (n + 21)" if "n < 27" for n using that bit_hpn by metis
  have "bit v (n + 39) = bit w (n + 39)" "bit v (n + 30) = bit w (n + 30)" "bit v (n + 21) = bit w (n + 21)" if "n < 9" for n
    using b [of "n + 18"] b [of "n + 9"] b [of n] that by (simp_all add: add.assoc)
  then show ?r by (auto intro!: bit_word_eqI simp: bit_idx)
next
  assume r: ?r
  have b: "bit v (n + 39) = bit w (n + 39)" "bit v (n + 30) = bit w (n + 30)" "bit v (n + 21) = bit w (n + 21)" if "n < 9" for n
    using r that bit_idx by metis+
  have "bit v (n + 21) = bit w (n + 21)" if "n < 27" for n
  proof -
    consider "n < 9" | "9 \<le> n" "n < 18" | "18 \<le> n"
      by (metis not_le)
    then show ?thesis
    proof cases
      case 1 then show ?thesis by (rule b(3))
    next
      case 2 then show ?thesis using b(2) [of "n - 9"] by (simp add: add.commute)
    next
      case 3 then show ?thesis using b(1) [of "n - 18"] that by (simp add: add.commute)
    qed
  qed
  then show ?l by (auto intro!: bit_word_eqI simp: bit_hpn)
qed

lemma vpn_eq_iff: "vpn v = vpn w \<longleftrightarrow> hpn v = hpn w \<and> VIRT_TO_PT_IDX v = VIRT_TO_PT_IDX w" (is "?l \<longleftrightarrow> ?r")
proof
  assume ?l
  then have b: "bit v (n + 12) = bit w (n + 12)" if "n < 36" for n using that bit_vpn by metis
  have "bit v (n + 21) = bit w (n + 21)" if "n < 27" for n
    using b [of "n + 9"] that by (simp add: add.assoc)
  moreover have "bit v (n + 12) = bit w (n + 12)" if "n < 9" for n using b [of n] that by simp
  ultimately show ?r by (auto intro!: bit_word_eqI simp: bit_hpn bit_idx)
next
  assume r: ?r
  have b: "bit v (n + 21) = bit w (n + 21)" if "n < 27" for n using r that bit_hpn by metis
  have c: "bit v (n + 12) = bit w (n + 12)" if "n < 9" for n using r that bit_idx by metis
  have "bit v (n + 12) = bit w (n + 12)" if "n < 36" for n
    using b [of "n - 9"] c [of n] that by (cases "n < 9") (simp_all add: add.commute)
  then show ?l by (auto intro!: bit_word_eqI simp: bit_vpn)
qed

section \<open>Translation of stored pointers\<close>

definition directmap_p2v :: "u64 \<Rightarrow> addr \<Rightarrow> addr" where
  "directmap_p2v phys_map_offset ptr =
     (if ptr < PML4_KERNEL_HALF_BASE then ptr + phys_map_offset else ptr)"

text \<open>
  C25. The dereference of a stored pointer, before the switch of address spaces (offset 0) and after
  it (offset \<open>DIRECT_MAP_START\<close>): a translated pointer translates to itself, kernel pointers are
  left alone, physical addresses below \<open>2 ^ 47\<close> less 2 MB go to distinct addresses at or above the
  start of the direct map, and one more does not: it wraps to address 0.
\<close>

theorem directmap_p2v_correct:
  assumes "off \<in> {0, DIRECT_MAP_START}" "unat p < 2 ^ 47 - 2 ^ 21" "unat q < 2 ^ 47 - 2 ^ 21" "PML4_KERNEL_HALF_BASE \<le> k"
  shows "directmap_p2v off (directmap_p2v off p) = directmap_p2v off p \<and> directmap_p2v off k = k \<and>
    (directmap_p2v off p = directmap_p2v off q \<longleftrightarrow> p = q) \<and>
    unat (directmap_p2v DIRECT_MAP_START p) = unat DIRECT_MAP_START + unat p \<and>
    directmap_p2v DIRECT_MAP_START (2 ^ 47 - 2 ^ 21) = 0"
proof (intro conjI)
  have low: "p < PML4_KERNEL_HALF_BASE" "q < PML4_KERNEL_HALF_BASE"
    using assms(2,3) by (simp_all add: word_less_nat_alt const_defs)
  have "unat (p + DIRECT_MAP_START) = unat p + unat DIRECT_MAP_START"
    using assms(2) by (intro unat_add_no_overflow) (simp add: const_defs)
  then show t: "unat (directmap_p2v DIRECT_MAP_START p) = unat DIRECT_MAP_START + unat p"
    using low by (simp add: directmap_p2v_def)
  have "\<not> directmap_p2v DIRECT_MAP_START p < PML4_KERNEL_HALF_BASE" using t by (simp add: word_less_nat_alt const_defs)
  then show "directmap_p2v off (directmap_p2v off p) = directmap_p2v off p"
    using assms(1) by (auto simp: directmap_p2v_def)
  show "directmap_p2v off k = k" using assms(4) by (simp add: directmap_p2v_def not_less [symmetric])
  show "directmap_p2v off p = directmap_p2v off q \<longleftrightarrow> p = q" using low by (simp add: directmap_p2v_def)
  show "directmap_p2v DIRECT_MAP_START (2 ^ 47 - 2 ^ 21) = 0" by (simp add: directmap_p2v_def const_defs)
qed

theorem directmap_p2v_witness:
  "directmap_p2v DIRECT_MAP_START (directmap_p2v DIRECT_MAP_START 0x400000) = directmap_p2v DIRECT_MAP_START 0x400000 \<and>
   unat (directmap_p2v DIRECT_MAP_START 0x400000) = unat DIRECT_MAP_START + 0x400000"
  using directmap_p2v_correct [of DIRECT_MAP_START "0x400000" "0x400000" KERNEL_IMAGE_START] by (simp add: KERNEL_IMAGE_START_def PML4_KERNEL_HALF_BASE_def)

text \<open>
  The regions of the kernel half come in the order of the header, each above the one before
  with at least a guard hole between them, and a walk separates them from the image. Three of the
  sizes the header gives do not agree with the bounds it gives.
\<close>

theorem kernel_layout:
  "PML4_KERNEL_HALF_BASE + GUARD_HOLE_SIZE \<le> DIRECT_MAP_START \<and> DIRECT_MAP_START < DIRECT_MAP_END \<and>
   DIRECT_MAP_END + GUARD_HOLE_SIZE \<le> VIRT_KMALLOC_START \<and> VIRT_KMALLOC_START < VIRT_KMALLOC_END \<and>
   VIRT_KMALLOC_END + GUARD_HOLE_SIZE \<le> KERNEL_STACKS_START \<and> KERNEL_STACKS_START < KERNEL_STACKS_END \<and>
   KERNEL_STACKS_END + GUARD_HOLE_SIZE \<le> MODULE_REGION_START \<and> MODULE_REGION_START < MODULE_REGION_END \<and>
   MODULE_REGION_END + GUARD_HOLE_SIZE \<le> KERNEL_IMAGE_START \<and>
   KERNEL_STACKS_END - KERNEL_STACKS_START = KERNEL_STACKS_SIZE \<and>
   DIRECT_MAP_END - DIRECT_MAP_START < DIRECT_MAP_SIZE \<and>
   VIRT_KMALLOC_END - VIRT_KMALLOC_START \<noteq> VIRT_KMALLOC_SIZE \<and>
   MODULE_REGION_END - MODULE_REGION_START \<noteq> MODULE_REGION_SIZE"
  by (simp add: const_defs)

section \<open>The rest of the header\<close>

text \<open>Macros the header defines for code that is still to come: the fifth level, kernel threads, modules, guard pages and user pages.\<close>

definition PML5_KERNEL_HALF_BASE :: u64 where "PML5_KERNEL_HALF_BASE = 0xFF00000000000000"
definition KERNEL_STACK_SLOT_SIZE :: u64 where "KERNEL_STACK_SLOT_SIZE = 0x8000"
definition KERNEL_STACK_SIZE :: u64 where "KERNEL_STACK_SIZE = 0x4000"
definition KERNEL_STACK_GUARD_SIZE :: u64 where "KERNEL_STACK_GUARD_SIZE = 0x1000"
definition KERNEL_PHYS_BASE :: u64 where "KERNEL_PHYS_BASE = 0x13000"
definition PHYS_KERNEL_START :: u64 where "PHYS_KERNEL_START = 0x13000"
definition PTE_CACHE_DISABLE :: u64 where "PTE_CACHE_DISABLE = 0x10"
definition PTE_ACCESSED :: u64 where "PTE_ACCESSED = 0x20"
definition PTE_DIRTY :: u64 where "PTE_DIRTY = 0x40"
definition PTE_GUARD_PAGE :: u64 where "PTE_GUARD_PAGE = 0x4000000000000000"

definition VIRT_TO_PML5_IDX :: "u64 \<Rightarrow> u64" where "VIRT_TO_PML5_IDX virt = drop_bit 48 virt AND 0x1FF"

definition PTE_FLAGS_KERNEL_MODULES :: u64 where "PTE_FLAGS_KERNEL_MODULES = 0 OR PTE_PRESENT OR PTE_GLOBAL"
definition PTE_FLAGS_GUARD :: u64 where "PTE_FLAGS_GUARD = 0 OR PTE_GUARD_PAGE"
definition PTE_FLAGS_USER_DATA :: u64 where "PTE_FLAGS_USER_DATA = 0 OR PTE_PRESENT OR PTE_WRITABLE OR PTE_USER OR PTE_NX"
definition PTE_FLAGS_USER_CODE :: u64 where "PTE_FLAGS_USER_CODE = 0 OR PTE_PRESENT OR PTE_USER"

definition KERNEL_VIRT_OFFSET :: u64 where "KERNEL_VIRT_OFFSET = KERNEL_IMAGE_START - KERNEL_PHYS_BASE"

definition KERNEL_BASED_PHYS_TO_VIRT :: "u64 \<Rightarrow> u64" where
  "KERNEL_BASED_PHYS_TO_VIRT p = p - KERNEL_PHYS_BASE + KERNEL_IMAGE_START"

definition PHYS_TO_VIRT :: "u64 \<Rightarrow> u64" where
  "PHYS_TO_VIRT p = p + KERNEL_VIRT_OFFSET"

lemma kernel_address_macros: "KERNEL_BASED_PHYS_TO_VIRT p = PHYS_TO_VIRT p" "PHYS_TO_VIRT PHYS_KERNEL_START = KERNEL_IMAGE_START"
  by (simp_all add: KERNEL_BASED_PHYS_TO_VIRT_def PHYS_TO_VIRT_def KERNEL_VIRT_OFFSET_def PHYS_KERNEL_START_def KERNEL_PHYS_BASE_def)

text \<open>Every set of flags keeps off the address bits, a guard entry is not present, and a stack with its guard fits its slot.\<close>

lemma entry_flags:
  "f \<in> {PTE_FLAGS_DIRECT_MAP, PTE_FLAGS_KERNEL_MODULES, PTE_FLAGS_GUARD, PTE_FLAGS_KERNEL_CODE, PTE_FLAGS_KERNEL_DATA,
     PTE_FLAGS_USER_DATA, PTE_FLAGS_USER_CODE} \<Longrightarrow>
   GET_PA_FROM_PTE f = 0 \<and> (f AND PTE_PRESENT = 0 \<longleftrightarrow> f = PTE_FLAGS_GUARD) \<and>
     (f AND PTE_WRITABLE \<noteq> 0 \<longrightarrow> f AND PTE_NX \<noteq> 0) \<and> (f AND PTE_USER \<noteq> 0 \<longrightarrow> f AND PTE_GLOBAL = 0)"
  by (auto simp: GET_PA_FROM_PTE_def PTE_FLAGS_KERNEL_MODULES_def PTE_FLAGS_GUARD_def PTE_FLAGS_USER_DATA_def PTE_FLAGS_USER_CODE_def
      PTE_GUARD_PAGE_def const_defs)

lemma stack_slot: "KERNEL_STACK_SIZE + KERNEL_STACK_GUARD_SIZE \<le> KERNEL_STACK_SLOT_SIZE"
  "KERNEL_STACKS_SIZE mod KERNEL_STACK_SLOT_SIZE = 0"
  by (simp_all add: KERNEL_STACK_SIZE_def KERNEL_STACK_GUARD_SIZE_def KERNEL_STACK_SLOT_SIZE_def KERNEL_STACKS_SIZE_def)

lemma pml5_idx: "VIRT_TO_PML5_IDX v < 512" "VIRT_TO_PML5_IDX PML4_KERNEL_HALF_BASE = 0x1FF" "VIRT_TO_PML5_IDX PML5_KERNEL_HALF_BASE = 0x100"
proof -
  show "VIRT_TO_PML5_IDX v < 512" unfolding VIRT_TO_PML5_IDX_def and_1ff by (simp add: word_less_nat_alt take_bit_eq_mod unat_mod)
qed (simp_all add: VIRT_TO_PML5_IDX_def PML4_KERNEL_HALF_BASE_def PML5_KERNEL_HALF_BASE_def drop_bit_eq_div)

end
