(* ===== verification/Mmu.thy ===== *)
theory Mmu
  imports Slab Directmap
begin

text \<open>
  \<^verbatim>\<open>src/mikroKernellib/mmu.c\<close>: mapping and unmapping pages in a four-level page table.

  The words of page tables are a heap keyed by physical address. Tables come from and go back to
  the buddy allocator through \<open>phys_kmalloc\<close> and \<open>phys_kfree\<close>; the links and bitmaps the allocator
  keeps are in its own heaps, and a table is cleared before use, so what a free page holds does not
  matter. \<open>invlpg\<close> is recorded. The result is a sum: a \<open>PANIC\<close> is an error value.
\<close>

section \<open>State\<close>

record mmu_state =
  tables :: "addr \<Rightarrow> u64"
  kmem :: slab_state
  flushed :: "addr list"

definition invlpg :: "mmu_state \<Rightarrow> addr \<Rightarrow> mmu_state" where
  "invlpg s a = s\<lparr>flushed := a # flushed s\<rparr>"

definition memset_pg :: "(addr \<Rightarrow> u64) \<Rightarrow> addr \<Rightarrow> (addr \<Rightarrow> u64)" where
  "memset_pg t p = (\<lambda>a. if a - p < PAGE_SIZE then 0 else t a)"

definition is_empty :: "(addr \<Rightarrow> u64) \<Rightarrow> addr \<Rightarrow> bool" where
  "is_empty t page_directory \<longleftrightarrow> list_all (\<lambda>i. t (page_directory + 8 * of_nat i) = 0) [0..<512]"

definition pte_at :: "mmu_state \<Rightarrow> addr \<Rightarrow> u64 \<Rightarrow> u64" where
  "pte_at s table idx = tables s (table + 8 * idx)"

definition set_pte :: "mmu_state \<Rightarrow> addr \<Rightarrow> u64 \<Rightarrow> u64 \<Rightarrow> mmu_state" where
  "set_pte s table idx pte = s\<lparr>tables := (tables s)(table + 8 * idx := pte)\<rparr>"

definition present :: "u64 \<Rightarrow> bool" where
  "present pte \<longleftrightarrow> pte AND PTE_PRESENT \<noteq> 0"

definition huge :: "u64 \<Rightarrow> bool" where
  "huge pte \<longleftrightarrow> pte AND PTE_HUGE_PAGE \<noteq> 0"

definition kfree_table :: "mmu_state \<Rightarrow> addr \<Rightarrow> mmu_state res" where
  "kfree_table s table =
     bindE (of_option (phys_kfree (kmem s) table PAGE_SIZE BUDDY_ALLOC)) (\<lambda>k. Inr (s\<lparr>kmem := k\<rparr>))"

text \<open>
  The block every mapping routine repeats at each level: make the table behind an entry if it is
  not present, then read its address.
\<close>

definition ensure_table :: "mmu_state \<Rightarrow> addr \<Rightarrow> u64 \<Rightarrow> string \<Rightarrow> (addr \<times> mmu_state) res" where
  "ensure_table s table idx msg =
     bindE
       (if present (pte_at s table idx) then Inr s
        else
          bindE (of_option (phys_kmalloc (kmem s) 4096 BUDDY_ALLOC)) (\<lambda>(new, k).
            if new = NULL then Inl (Panic msg)
            else
              let s = s\<lparr>kmem := k\<rparr>;
                  s = s\<lparr>tables := memset_pg (tables s) new\<rparr>
              in Inr (set_pte s table idx (new OR PTE_PRESENT OR PTE_WRITABLE))))
       (\<lambda>s. Inr (pte_at s table idx AND PTE_ADDR_MASK, s))"

section \<open>One page\<close>

definition map_huge_page :: "mmu_state \<Rightarrow> addr \<Rightarrow> u64 \<Rightarrow> u64 \<Rightarrow> u64 \<Rightarrow> mmu_state res" where
  "map_huge_page s pml4t paddr vaddr flags =
     (if \<not> huge flags then Inl (Panic ''INCORRECTLY MAPPED PAGE WITH MAP HUGE PAGE FUNCTION'')
      else
        bindE (ensure_table s pml4t (VIRT_TO_PML4_IDX vaddr) ''Failed to allocate 4KiB page for PDPT'') (\<lambda>(pdpt, s).
        bindE (ensure_table s pdpt (VIRT_TO_PDPT_IDX vaddr) ''Failed to allocate 4KiB page for PD'') (\<lambda>(pd, s).
        Inr (set_pte s pd (VIRT_TO_PD_IDX vaddr) (paddr OR flags)))))"

text \<open>The \<open>return\<close> after the test of \<open>map_page\<close> is not part of the branch.\<close>

definition map_page :: "mmu_state \<Rightarrow> addr \<Rightarrow> u64 \<Rightarrow> u64 \<Rightarrow> u64 \<Rightarrow> mmu_state res" where
  "map_page s pml4t paddr vaddr flags =
     (if huge flags then map_huge_page s pml4t paddr vaddr flags else Inr s)"

text \<open>The statements after that \<open>return\<close>, which are never reached.\<close>

definition map_page_unreached :: "mmu_state \<Rightarrow> addr \<Rightarrow> u64 \<Rightarrow> u64 \<Rightarrow> u64 \<Rightarrow> mmu_state res" where
  "map_page_unreached s pml4t paddr vaddr flags =
     (let aligned_addr = paddr AND NOT (PAGE_SIZE - 1);
          pte = aligned_addr OR flags
      in
        bindE (ensure_table s pml4t (VIRT_TO_PML4_IDX vaddr) ''Failed to allocate 4KiB page for PDPT'') (\<lambda>(pdpt, s).
        bindE (ensure_table s pdpt (VIRT_TO_PDPT_IDX vaddr) ''Failed to allocate 4KiB page for PD'') (\<lambda>(pd, s).
        bindE (ensure_table s pd (VIRT_TO_PD_IDX vaddr) ''Failed to allocate 4KiB page for PT'') (\<lambda>(pt, s).
        Inr (set_pte s pt (VIRT_TO_PT_IDX vaddr) pte)))))"

text \<open>The tables that an unmapping left empty go back, from the lowest level up.\<close>

definition release_pdpt :: "mmu_state \<Rightarrow> addr \<Rightarrow> u64 \<Rightarrow> addr \<Rightarrow> mmu_state res" where
  "release_pdpt s pml4t pml4t_idx pdpt =
     (if is_empty (tables s) pdpt then kfree_table (set_pte s pml4t pml4t_idx 0) pdpt else Inr s)"

definition release_pd :: "mmu_state \<Rightarrow> addr \<Rightarrow> u64 \<Rightarrow> addr \<Rightarrow> u64 \<Rightarrow> addr \<Rightarrow> mmu_state res" where
  "release_pd s pml4t pml4t_idx pdpt pdpt_idx pd =
     (if is_empty (tables s) pd
      then bindE (kfree_table (set_pte s pdpt pdpt_idx 0) pd) (\<lambda>s. release_pdpt s pml4t pml4t_idx pdpt)
      else Inr s)"

definition release_pt :: "mmu_state \<Rightarrow> addr \<Rightarrow> u64 \<Rightarrow> addr \<Rightarrow> u64 \<Rightarrow> addr \<Rightarrow> u64 \<Rightarrow> addr \<Rightarrow> mmu_state res" where
  "release_pt s pml4t pml4t_idx pdpt pdpt_idx pd pd_idx pt =
     (if is_empty (tables s) pt
      then bindE (kfree_table (set_pte s pd pd_idx 0) pt) (\<lambda>s. release_pd s pml4t pml4t_idx pdpt pdpt_idx pd)
      else Inr s)"

text \<open>
  One 4 KB page and one 2 MB page: the body \<open>unmap_page\<close> and \<open>unmap_huge_page\<close> share with the loops
  of \<open>unmap_pages\<close>, which differ in the messages of their two panics.
\<close>

definition unmap_4k :: "string \<Rightarrow> string \<Rightarrow> mmu_state \<Rightarrow> addr \<Rightarrow> u64 \<Rightarrow> u64 \<Rightarrow> mmu_state res" where
  "unmap_4k huge_msg wrong_msg s pml4t aligned_paddr vaddr =
     (let pml4t_idx = VIRT_TO_PML4_IDX vaddr; pdpt_idx = VIRT_TO_PDPT_IDX vaddr;
          pd_idx = VIRT_TO_PD_IDX vaddr; pt_idx = VIRT_TO_PT_IDX vaddr
      in
        if \<not> present (pte_at s pml4t pml4t_idx) then Inr s
        else let pdpt = pte_at s pml4t pml4t_idx AND PTE_ADDR_MASK in
        if \<not> present (pte_at s pdpt pdpt_idx) then Inr s
        else let pd = pte_at s pdpt pdpt_idx AND PTE_ADDR_MASK in
        if \<not> present (pte_at s pd pd_idx) then Inr s
        else if huge (pte_at s pd pd_idx) then Inl (Panic huge_msg)
        else let pt = pte_at s pd pd_idx AND PTE_ADDR_MASK in
        if \<not> present (pte_at s pt pt_idx) then Inr s
        else if pte_at s pt pt_idx AND PTE_ADDR_MASK \<noteq> aligned_paddr then Inl (Panic wrong_msg)
        else release_pt (invlpg (set_pte s pt pt_idx 0) vaddr) pml4t pml4t_idx pdpt pdpt_idx pd pd_idx pt)"

definition unmap_2m :: "string \<Rightarrow> string \<Rightarrow> mmu_state \<Rightarrow> addr \<Rightarrow> u64 \<Rightarrow> u64 \<Rightarrow> mmu_state res" where
  "unmap_2m regular_msg wrong_msg s pml4t aligned_paddr vaddr =
     (let pml4t_idx = VIRT_TO_PML4_IDX vaddr; pdpt_idx = VIRT_TO_PDPT_IDX vaddr; pd_idx = VIRT_TO_PD_IDX vaddr
      in
        if \<not> present (pte_at s pml4t pml4t_idx) then Inr s
        else let pdpt = pte_at s pml4t pml4t_idx AND PTE_ADDR_MASK in
        if \<not> present (pte_at s pdpt pdpt_idx) then Inr s
        else let pd = pte_at s pdpt pdpt_idx AND PTE_ADDR_MASK in
        if \<not> present (pte_at s pd pd_idx) then Inr s
        else if \<not> huge (pte_at s pd pd_idx) then Inl (Panic regular_msg)
        else if pte_at s pd pd_idx AND PTE_ADDR_MASK \<noteq> aligned_paddr then Inl (Panic wrong_msg)
        else release_pd (invlpg (set_pte s pd pd_idx 0) vaddr) pml4t pml4t_idx pdpt pdpt_idx pd)"

definition unmap_page :: "mmu_state \<Rightarrow> addr \<Rightarrow> u64 \<Rightarrow> u64 \<Rightarrow> mmu_state res" where
  "unmap_page s pml4t paddr vaddr =
     unmap_4k ''UNMAPPED HUGE PAGE WITH REGULAR UNMAP_PAGE FUNCTION'' ''TRIED TO UNMAP WRONG PAGE''
       s pml4t (paddr AND NOT (PAGE_SIZE - 1)) vaddr"

definition unmap_huge_page :: "mmu_state \<Rightarrow> addr \<Rightarrow> u64 \<Rightarrow> u64 \<Rightarrow> mmu_state res" where
  "unmap_huge_page s pml4t paddr vaddr =
     unmap_2m ''TRIED TO UNMAP A REGULAR PAGE WITH UNMAP_HUGE_PAGE FUNCTION'' ''TRIED TO UNMAP WRONG HUGE PAGE''
       s pml4t (paddr AND NOT (HUGE_PAGE_SIZE - 1)) vaddr"

section \<open>Ranges\<close>

text \<open>
  The mapping loops keep the tables of the page before and walk again only where an index changes;
  an index of all ones stands for none.
\<close>

record walk_cache =
  cur_pml4t_idx :: u64
  cur_pdpt_idx :: u64
  cur_pd_idx :: u64
  c_pdpt :: addr
  c_pd :: addr
  c_pt :: addr

definition no_cache :: walk_cache where
  "no_cache = \<lparr>cur_pml4t_idx = - 1, cur_pdpt_idx = - 1, cur_pd_idx = - 1, c_pdpt = NULL, c_pd = NULL, c_pt = NULL\<rparr>"

definition cached_pdpt :: "mmu_state \<Rightarrow> addr \<Rightarrow> walk_cache \<Rightarrow> u64 \<Rightarrow> (walk_cache \<times> mmu_state) res" where
  "cached_pdpt s pml4t c cur_vaddr =
     (if VIRT_TO_PML4_IDX cur_vaddr \<noteq> cur_pml4t_idx c then
        bindE (ensure_table s pml4t (VIRT_TO_PML4_IDX cur_vaddr) ''Failed to allocate 4KiB page for PDPT'') (\<lambda>(pdpt, s).
          Inr (c\<lparr>cur_pml4t_idx := VIRT_TO_PML4_IDX cur_vaddr, c_pdpt := pdpt, cur_pdpt_idx := - 1\<rparr>, s))
      else Inr (c, s))"

definition cached_pd :: "mmu_state \<Rightarrow> walk_cache \<Rightarrow> u64 \<Rightarrow> (walk_cache \<times> mmu_state) res" where
  "cached_pd s c cur_vaddr =
     (if VIRT_TO_PDPT_IDX cur_vaddr \<noteq> cur_pdpt_idx c then
        bindE (ensure_table s (c_pdpt c) (VIRT_TO_PDPT_IDX cur_vaddr) ''Failed to allocate 4KiB page for PD'') (\<lambda>(pd, s).
          Inr (c\<lparr>cur_pdpt_idx := VIRT_TO_PDPT_IDX cur_vaddr, c_pd := pd, cur_pd_idx := - 1\<rparr>, s))
      else Inr (c, s))"

definition cached_pt :: "mmu_state \<Rightarrow> walk_cache \<Rightarrow> u64 \<Rightarrow> (walk_cache \<times> mmu_state) res" where
  "cached_pt s c cur_vaddr =
     (if VIRT_TO_PD_IDX cur_vaddr \<noteq> cur_pd_idx c then
        bindE (ensure_table s (c_pd c) (VIRT_TO_PD_IDX cur_vaddr) ''Failed to allocate 4KiB page for PT'') (\<lambda>(pt, s).
          Inr (c\<lparr>cur_pd_idx := VIRT_TO_PD_IDX cur_vaddr, c_pt := pt\<rparr>, s))
      else Inr (c, s))"

primrec map_huge_loop :: "nat \<Rightarrow> mmu_state \<Rightarrow> addr \<Rightarrow> walk_cache \<Rightarrow> u64 \<Rightarrow> u64 \<Rightarrow> u64 \<Rightarrow> mmu_state res" where
  "map_huge_loop 0 s pml4t c cur_paddr cur_vaddr flags = Inr s"
| "map_huge_loop (Suc count) s pml4t c cur_paddr cur_vaddr flags =
     bindE (cached_pdpt s pml4t c cur_vaddr) (\<lambda>(c, s).
     bindE (cached_pd s c cur_vaddr) (\<lambda>(c, s).
     let s = set_pte s (c_pd c) (VIRT_TO_PD_IDX cur_vaddr) (cur_paddr OR flags)
     in map_huge_loop count s pml4t c (cur_paddr + HUGE_PAGE_SIZE) (cur_vaddr + HUGE_PAGE_SIZE) flags))"

primrec map_4k_loop :: "nat \<Rightarrow> mmu_state \<Rightarrow> addr \<Rightarrow> walk_cache \<Rightarrow> u64 \<Rightarrow> u64 \<Rightarrow> u64 \<Rightarrow> mmu_state res" where
  "map_4k_loop 0 s pml4t c cur_paddr cur_vaddr flags = Inr s"
| "map_4k_loop (Suc count) s pml4t c cur_paddr cur_vaddr flags =
     bindE (cached_pdpt s pml4t c cur_vaddr) (\<lambda>(c, s).
     bindE (cached_pd s c cur_vaddr) (\<lambda>(c, s).
     bindE (cached_pt s c cur_vaddr) (\<lambda>(c, s).
     let s = set_pte s (c_pt c) (VIRT_TO_PT_IDX cur_vaddr) (cur_paddr OR flags)
     in map_4k_loop count s pml4t c (cur_paddr + PAGE_SIZE) (cur_vaddr + PAGE_SIZE) flags)))"

definition map_pages :: "mmu_state \<Rightarrow> addr \<Rightarrow> u64 \<Rightarrow> u64 \<Rightarrow> u64 \<Rightarrow> u64 \<Rightarrow> mmu_state res" where
  "map_pages s pml4t paddr vaddr flags num_pages =
     (if num_pages = 0 then Inr s
      else if huge flags then map_huge_loop (unat num_pages) s pml4t no_cache paddr vaddr flags
      else map_4k_loop (unat num_pages) s pml4t no_cache (paddr AND NOT (PAGE_SIZE - 1)) vaddr flags)"

primrec unmap_huge_loop :: "nat list \<Rightarrow> mmu_state \<Rightarrow> addr \<Rightarrow> u64 \<Rightarrow> u64 \<Rightarrow> mmu_state res" where
  "unmap_huge_loop [] s pml4t paddr vaddr = Inr s"
| "unmap_huge_loop (i # is) s pml4t paddr vaddr =
     bindE (unmap_2m ''TRIED TO UNMAP A REGULAR PAGE WITH INCORRECT FLAGS ARGUMENT'' ''TRIED TO UNMAP WRONG HUGE PAGES''
              s pml4t (paddr + of_nat i * HUGE_PAGE_SIZE) (vaddr + of_nat i * HUGE_PAGE_SIZE))
       (\<lambda>s. unmap_huge_loop is s pml4t paddr vaddr)"

primrec unmap_4k_loop :: "nat list \<Rightarrow> mmu_state \<Rightarrow> addr \<Rightarrow> u64 \<Rightarrow> u64 \<Rightarrow> mmu_state res" where
  "unmap_4k_loop [] s pml4t paddr vaddr = Inr s"
| "unmap_4k_loop (i # is) s pml4t paddr vaddr =
     bindE (unmap_4k ''TRIED TO UNMAP HUGE PAGE WITH REGULAR PAGE FLAGS IN UNMAP_PAGES'' ''TRIED TO UNMAP WRONG PAGES''
              s pml4t (paddr + of_nat i * PAGE_SIZE) (vaddr + of_nat i * PAGE_SIZE))
       (\<lambda>s. unmap_4k_loop is s pml4t paddr vaddr)"

definition unmap_pages :: "mmu_state \<Rightarrow> addr \<Rightarrow> u64 \<Rightarrow> u64 \<Rightarrow> u64 \<Rightarrow> u64 \<Rightarrow> mmu_state res" where
  "unmap_pages s pml4t paddr vaddr flags num_pages =
     (if num_pages = 0 then Inr s
      else if huge flags
      then unmap_huge_loop [0..<unat num_pages] s pml4t (paddr AND NOT (HUGE_PAGE_SIZE - 1)) vaddr
      else unmap_4k_loop [0..<unat num_pages] s pml4t (paddr AND NOT (PAGE_SIZE - 1)) vaddr)"

end
