(* ===== verification/Vesa.thy ===== *)
theory Vesa
  imports Buddy
begin

text \<open>
  \<^verbatim>\<open>src/mikroKernellib/vesa_graphics_lib.c\<close>: text on the framebuffer.

  \<open>pixels\<close> is the memory behind the framebuffer pointer, one 32-bit word for each address a pixel has.
  The font is the file the build links in; it is a function from offsets to bytes, read with the PSF
  header the code expects. A C string is the list of its characters before the terminating zero.
\<close>

record boot_vbe_handoff =
  framebuffer_address :: u32
  pitch :: u16
  width_px :: u16
  height_px :: u16
  bpp :: u8

record vesa_state =
  pixels :: "addr \<Rightarrow> u32"
  s_fb_virt :: u64
  s_vbe_info :: boot_vbe_handoff

definition VESA_LAST_ROW :: int where
  "VESA_LAST_ROW = 83"

section \<open>The font\<close>

definition le32 :: "(nat \<Rightarrow> u8) \<Rightarrow> nat \<Rightarrow> u32" where
  "le32 font i =
     ucast (font i) OR push_bit 8 (ucast (font (i + 1))) OR push_bit 16 (ucast (font (i + 2))) OR push_bit 24 (ucast (font (i + 3)))"

definition is_psf2 :: "(nat \<Rightarrow> u8) \<Rightarrow> bool" where
  "is_psf2 font \<longleftrightarrow> font 0 = 0x72 \<and> font 1 = 0xB5"

definition psf_charheight :: "(nat \<Rightarrow> u8) \<Rightarrow> u32" where
  "psf_charheight font = (if is_psf2 font then le32 font 24 else ucast (font 3))"

definition psf_glyph :: "(nat \<Rightarrow> u8) \<Rightarrow> u8 \<Rightarrow> nat" where
  "psf_glyph font c =
     (if is_psf2 font then unat (le32 font 8) + unat (ucast c * le32 font 20 :: u32)
      else 4 + unat c * unat (font 3))"

section \<open>The framebuffer\<close>

definition init_vbe_handoff :: "boot_vbe_handoff \<Rightarrow> vesa_state \<Rightarrow> vesa_state" where
  "init_vbe_handoff handoff s = s\<lparr>s_vbe_info := handoff\<rparr>"

definition vesa_set_fb_virtual :: "u64 \<Rightarrow> vesa_state \<Rightarrow> vesa_state" where
  "vesa_set_fb_virtual virtual_fb_base s = s\<lparr>s_fb_virt := virtual_fb_base\<rparr>"

definition get_fb :: "vesa_state \<Rightarrow> addr" where
  "get_fb s = (if s_fb_virt s \<noteq> 0 then s_fb_virt s else ucast (framebuffer_address (s_vbe_info s)))"

definition put_pixel :: "addr \<Rightarrow> u32 \<Rightarrow> u32 \<Rightarrow> vesa_state \<Rightarrow> vesa_state" where
  "put_pixel fb i color s = s\<lparr>pixels := (pixels s)(fb + 4 * ucast i := color)\<rparr>"

definition pitch_in_pixels :: "vesa_state \<Rightarrow> u32" where
  "pitch_in_pixels s = ucast (pitch (s_vbe_info s) div 4)"

text \<open>The loop over rows from \<open>y0\<close> that the three clearing routines share.\<close>

definition fill_rows :: "nat \<Rightarrow> u32 \<Rightarrow> vesa_state \<Rightarrow> vesa_state" where
  "fill_rows y0 color s =
     (let vbe_md = s_vbe_info s; fb = get_fb s; p = pitch_in_pixels s
      in fold (\<lambda>y. fold (\<lambda>x. put_pixel fb (of_nat y * p + of_nat x) color) [0..<unat (width_px vbe_md)])
           [y0..<unat (height_px vbe_md)] s)"

definition vbe_blue_screen :: "vesa_state \<Rightarrow> vesa_state" where
  "vbe_blue_screen s = fill_rows 0 0x00ADD8E6 s"

definition vbe_black_screen :: "vesa_state \<Rightarrow> vesa_state" where
  "vbe_black_screen s = fill_rows 0 0x00000000 s"

definition vesa_clear_lower_half :: "(nat \<Rightarrow> u8) \<Rightarrow> vesa_state \<Rightarrow> vesa_state" where
  "vesa_clear_lower_half font s = fill_rows (unat (word_of_int (VESA_LAST_ROW div 2 + 1) * psf_charheight font)) 0x00000000 s"

section \<open>Text\<close>

definition glyph_color :: "(nat \<Rightarrow> u8) \<Rightarrow> nat \<Rightarrow> nat \<Rightarrow> nat \<Rightarrow> u32" where
  "glyph_color font glyph r c = (if font (glyph + r) AND drop_bit c 0x80 \<noteq> 0 then 0x00FFFFFF else 0x00000000)"

definition draw_glyph :: "(nat \<Rightarrow> u8) \<Rightarrow> addr \<Rightarrow> u32 \<Rightarrow> nat \<Rightarrow> u32 \<Rightarrow> u32 \<Rightarrow> vesa_state \<Rightarrow> vesa_state" where
  "draw_glyph font fb p glyph px_x px_y s =
     fold (\<lambda>r. fold (\<lambda>c. put_pixel fb ((px_y + of_nat r) * p + (px_x + of_nat c)) (glyph_color font glyph r c)) [0..<8])
       [0..<unat (psf_charheight font)] s"

primrec println_loop :: "(nat \<Rightarrow> u8) \<Rightarrow> addr \<Rightarrow> u32 \<Rightarrow> int \<Rightarrow> string \<Rightarrow> int \<Rightarrow> vesa_state \<Rightarrow> vesa_state" where
  "println_loop font fb p row [] cur_col s = s"
| "println_loop font fb p row (ch # nt_s) cur_col s =
     println_loop font fb p row nt_s (cur_col + 1)
       (draw_glyph font fb p (psf_glyph font (of_char ch)) (word_of_int cur_col * 8) (word_of_int row * psf_charheight font) s)"

definition vesa_nt_println :: "(nat \<Rightarrow> u8) \<Rightarrow> string \<Rightarrow> int \<Rightarrow> int \<Rightarrow> vesa_state \<Rightarrow> vesa_state" where
  "vesa_nt_println font nt_s row col s = println_loop font (get_fb s) (pitch_in_pixels s) row nt_s col s"

definition hex :: string where
  "hex = ''0123456789ABCDEF''"

definition uint64_to_hex :: "u64 \<Rightarrow> string" where
  "uint64_to_hex val = ''0x'' @ map (\<lambda>i. hex ! unat (drop_bit (60 - i * 4) val AND 0xF)) [0..<16]"

definition vesa_print_virt_addr :: "(nat \<Rightarrow> u8) \<Rightarrow> u64 \<Rightarrow> int \<Rightarrow> int \<Rightarrow> vesa_state \<Rightarrow> vesa_state" where
  "vesa_print_virt_addr font a row col s = vesa_nt_println font (uint64_to_hex a) row col s"

definition mmap_type_str :: "u32 \<Rightarrow> string" where
  "mmap_type_str t =
     (if t = 1 then ''Usable RAM  '' else if t = 2 then ''Reserved    '' else if t = 3 then ''ACPI Reclaim''
      else if t = 4 then ''ACPI NVS    '' else if t = 5 then ''Bad Memory  '' else ''Unknown     '')"

definition idx_chars :: "nat \<Rightarrow> string" where
  "idx_chars i = (let digit = (\<lambda>d. char_of (48 + d)) in takeWhile (\<lambda>c. c \<noteq> char_of (0::nat)) [digit (i div 10), digit (i mod 10)])"

primrec print_mmap_loop :: "(nat \<Rightarrow> u8) \<Rightarrow> int \<Rightarrow> nat \<Rightarrow> mmap_entry_0xe820 list \<Rightarrow> int \<Rightarrow> vesa_state \<Rightarrow> vesa_state" where
  "print_mmap_loop font col i [] row s = s"
| "print_mmap_loop font col i (e # es) row s =
     (let s = vesa_nt_println font (idx_chars i) row col s;
          s = vesa_nt_println font ''Base:'' row (col + 3) s;
          s = vesa_nt_println font (uint64_to_hex (e820_base e)) row (col + 8) s;
          s = vesa_nt_println font ''Size:'' row (col + 27) s;
          s = vesa_nt_println font (uint64_to_hex (e820_chunk_size e)) row (col + 32) s;
          s = vesa_nt_println font ''Type:'' row (col + 51) s;
          s = vesa_nt_println font (mmap_type_str (e820_type e)) row (col + 56) s
      in print_mmap_loop font col (i + 1) es (row + 1) s)"

definition vesa_print_mmap :: "(nat \<Rightarrow> u8) \<Rightarrow> mmap_entry_0xe820 list \<Rightarrow> int \<Rightarrow> int \<Rightarrow> vesa_state \<Rightarrow> vesa_state" where
  "vesa_print_mmap font mmap_bios_entries row col s = print_mmap_loop font col 0 mmap_bios_entries row s"

end
