(* ===== verification/Paging.thy ===== *)
theory Paging
  imports Mmu Vm Vesa
begin

text \<open>
  \<^verbatim>\<open>src/mikroKernellib/paging.c\<close>: the kernel's own mappings, each recorded as an area in the
  red-black tree, and the boot sequence that builds the first page table.

  The state puts together the page tables and allocators of \<open>Mmu\<close>, the areas and the tree of \<open>Vm\<close>,
  and the statics of the file. What the linker script, the firmware's memory map and the VBE
  handoff provide are arguments. \<open>load_pmlt_cr3\<close> is an assignment to \<open>cr3\<close>.
\<close>

record paging_state =
  mmu :: mmu_state
  vmas :: vma_heap
  kernel_rb :: rb_state
  kernel_pml4t :: addr
  kernel_page_lock :: bool
  vma_cache :: addr
  cr3 :: addr
  phys_map_offset :: u64
  fb_virtual :: addr

definition sizeof_vma :: u64 where
  "sizeof_vma = 56"

definition page_lock_acquire :: "paging_state \<Rightarrow> paging_state res" where
  "page_lock_acquire s = (if kernel_page_lock s then Inl Fault else Inr (s\<lparr>kernel_page_lock := True\<rparr>))"

definition page_lock_release :: "paging_state \<Rightarrow> paging_state" where
  "page_lock_release s = s\<lparr>kernel_page_lock := False\<rparr>"

definition vma_start_of_node :: "paging_state \<Rightarrow> addr \<Rightarrow> u64" where
  "vma_start_of_node s x = vma_start (vmas s (vma_of_node x))"

definition rb_insert_vma :: "paging_state \<Rightarrow> addr \<Rightarrow> paging_state res" where
  "rb_insert_vma s v =
     bindE (of_option (rb_insert (kernel_rb s) (vma_node v) (vma_cmp (vmas s)))) (\<lambda>(_, t). Inr (s\<lparr>kernel_rb := t\<rparr>))"

definition rb_remove_vma :: "paging_state \<Rightarrow> addr \<Rightarrow> paging_state res" where
  "rb_remove_vma s v =
     bindE (of_option (rb_delete (kernel_rb s) (vma_node v) (vma_cmp (vmas s)))) (\<lambda>(_, t). Inr (s\<lparr>kernel_rb := t\<rparr>))"

definition with_mmu :: "paging_state \<Rightarrow> mmu_state res \<Rightarrow> paging_state res" where
  "with_mmu s m = bindE m (\<lambda>m. Inr (s\<lparr>mmu := m\<rparr>))"

definition set_kmem :: "paging_state \<Rightarrow> slab_state \<Rightarrow> paging_state" where
  "set_kmem s k = s\<lparr>mmu := (mmu s)\<lparr>kmem := k\<rparr>\<rparr>"

section \<open>Mapping with an area\<close>

text \<open>The allocation of an area and the three assignments to it, which every mapping starts with.\<close>

definition new_vma :: "paging_state \<Rightarrow> u64 \<Rightarrow> u64 \<Rightarrow> u64 \<Rightarrow> string \<Rightarrow> (addr \<times> paging_state) res" where
  "new_vma s start fin pte msg =
     bindE (of_option (kmem_cache_kalloc (kmem (mmu s)) (vma_cache s))) (\<lambda>(v, k).
       if v = NULL then Inl (Panic msg)
       else
         let s = set_kmem s k;
             s = s\<lparr>vmas := (vmas s)(v := \<lparr>vma_start = start, vma_end = fin, vma_pte = pte\<rparr>)\<rparr>
         in Inr (v, s))"

definition kmap_page :: "paging_state \<Rightarrow> u64 \<Rightarrow> u64 \<Rightarrow> u64 \<Rightarrow> paging_state res" where
  "kmap_page s paddr vaddr flags =
     bindE (new_vma s vaddr (vaddr + PAGE_SIZE) (paddr OR flags) ''FAILED TO ALLOCATE VMA STRUCT IN KMAP_PAGE'') (\<lambda>(v, s).
     bindE (page_lock_acquire s) (\<lambda>s.
     bindE (rb_insert_vma s v) (\<lambda>s.
     bindE (with_mmu s (map_page (mmu s) (kernel_pml4t s) paddr vaddr flags)) (\<lambda>s.
     Inr (page_lock_release s)))))"

definition kmap_huge_page :: "paging_state \<Rightarrow> u64 \<Rightarrow> u64 \<Rightarrow> u64 \<Rightarrow> paging_state res" where
  "kmap_huge_page s paddr vaddr flags =
     bindE (new_vma s vaddr (vaddr + HUGE_PAGE_SIZE) (paddr OR flags) ''FAILED TO ALLOCATE HUGE VMA STRUCT IN KMAP_PAGE'') (\<lambda>(v, s).
     bindE (page_lock_acquire s) (\<lambda>s.
     bindE (rb_insert_vma s v) (\<lambda>s.
     bindE (with_mmu s (map_huge_page (mmu s) (kernel_pml4t s) paddr vaddr flags)) (\<lambda>s.
     Inr (page_lock_release s)))))"

definition kmap_pages :: "paging_state \<Rightarrow> u64 \<Rightarrow> u64 \<Rightarrow> u64 \<Rightarrow> u64 \<Rightarrow> paging_state res" where
  "kmap_pages s paddr vaddr flags num_pages =
     bindE
       (if huge flags then
          bindE (new_vma s vaddr (vaddr + num_pages * HUGE_PAGE_SIZE) (paddr OR flags)
                   ''FAILED TO ALLOCATE A VMA STRUCT IN KMAP_PAGES'') (\<lambda>(v, s).
          bindE (page_lock_acquire s) (\<lambda>s. rb_insert_vma s v))
        else
          bindE (new_vma s vaddr (vaddr + num_pages * PAGE_SIZE) (paddr OR flags)
                   ''FAILED TO ALLOCATE A VMA STRUCT IN KMAP_PAGES'') (\<lambda>(v, s).
          bindE (page_lock_acquire s) (\<lambda>s. rb_insert_vma s v)))
       (\<lambda>s. bindE (with_mmu s (map_pages (mmu s) (kernel_pml4t s) paddr vaddr flags num_pages)) (\<lambda>s.
       Inr (page_lock_release s)))"

text \<open>
  The unmapping routines look the area up before they take the lock, then drop the whole area and
  unmap what they were asked to.
\<close>

definition drop_vma :: "paging_state \<Rightarrow> u64 \<Rightarrow> (paging_state \<Rightarrow> mmu_state res) \<Rightarrow> paging_state res" where
  "drop_vma s vaddr unmap =
     bindE (of_option (rb_find_vma (vmas s) (kernel_rb s) vaddr)) (\<lambda>v.
       if v = NULL then Inr s
       else
         bindE (page_lock_acquire s) (\<lambda>s.
         bindE (rb_remove_vma s v) (\<lambda>s.
         bindE (of_option (kmem_cache_kfree (kmem (mmu s)) (vma_cache s) v)) (\<lambda>k.
         let s = set_kmem s k in
         bindE (with_mmu s (unmap s)) (\<lambda>s.
         Inr (page_lock_release s))))))"

definition kunmap_page :: "paging_state \<Rightarrow> u64 \<Rightarrow> u64 \<Rightarrow> paging_state res" where
  "kunmap_page s paddr vaddr = drop_vma s vaddr (\<lambda>s. unmap_page (mmu s) (kernel_pml4t s) paddr vaddr)"

definition kunmap_huge_page :: "paging_state \<Rightarrow> u64 \<Rightarrow> u64 \<Rightarrow> paging_state res" where
  "kunmap_huge_page s paddr vaddr = drop_vma s vaddr (\<lambda>s. unmap_huge_page (mmu s) (kernel_pml4t s) paddr vaddr)"

definition kunmap_pages :: "paging_state \<Rightarrow> u64 \<Rightarrow> u64 \<Rightarrow> u64 \<Rightarrow> u64 \<Rightarrow> paging_state res" where
  "kunmap_pages s paddr vaddr flags num_pages =
     drop_vma s vaddr (\<lambda>s. unmap_pages (mmu s) (kernel_pml4t s) paddr vaddr flags num_pages)"

section \<open>The first page table\<close>

definition framebuffer_pages :: "boot_vbe_handoff \<Rightarrow> u64 \<times> u64" where
  "framebuffer_pages vbe_info =
     (let fb_last = ucast (framebuffer_address vbe_info) +
            ucast (ucast (pitch vbe_info) * ucast (height_px vbe_info) :: u32) - 1;
          base_aligned = ucast (framebuffer_address vbe_info) AND NOT (PAGE_SIZE - 1);
          end_aligned = (fb_last + PAGE_SIZE) AND NOT (PAGE_SIZE - 1)
      in (base_aligned, (end_aligned - base_aligned) div PAGE_SIZE))"

definition map_framebuffer :: "boot_vbe_handoff \<Rightarrow> paging_state \<Rightarrow> paging_state res" where
  "map_framebuffer vbe_info s =
     (let (base_aligned, num_pages) = framebuffer_pages vbe_info
      in kmap_pages s base_aligned (DIRECT_MAP_START + base_aligned) (PTE_FLAGS_DIRECT_MAP OR PTE_PWT) num_pages)"

definition memset_pages :: "(addr \<Rightarrow> u64) \<Rightarrow> addr \<Rightarrow> nat list \<Rightarrow> (addr \<Rightarrow> u64)" where
  "memset_pages t p is = fold (\<lambda>i t. memset_pg t (p + of_nat i * PAGE_SIZE)) is t"

definition map_stacks :: "paging_state \<Rightarrow> (u64 \<times> paging_state) res" where
  "map_stacks s =
     bindE (of_option (phys_kmalloc (kmem (mmu s)) (4 * PAGE_SIZE) BUDDY_ALLOC)) (\<lambda>(phys_stack_addr, k).
       if phys_stack_addr = NULL then Inl (Panic ''Failed to allocate 16KiB page for stack'')
       else
         let s = set_kmem s k;
             s = s\<lparr>mmu := (mmu s)\<lparr>tables := memset_pages (tables (mmu s)) phys_stack_addr [0..<4]\<rparr>\<rparr>
         in bindE (kmap_pages s phys_stack_addr KERNEL_STACKS_START PTE_FLAGS_KERNEL_DATA 4) (\<lambda>s.
            Inr (KERNEL_STACKS_START + 4 * PAGE_SIZE - 8, s)))"

text \<open>
  How \<open>map_direct_mapping\<close> cuts one usable entry: 4 KB pages up to the first 2 MB boundary, 2 MB
  pages, 4 KB pages after the last one. Each piece is a physical base, the flags and a count.
\<close>

definition direct_pieces :: "mmap_entry_0xe820 \<Rightarrow> (u64 \<times> u64 \<times> u64) list" where
  "direct_pieces e =
     (let base_addr = e820_base e; last_addr = base_addr + e820_chunk_size e;
          base_addr_aligned = (base_addr + PAGE_SIZE - 1) AND NOT (PAGE_SIZE - 1);
          last_addr_aligned = last_addr AND NOT (PAGE_SIZE - 1)
      in
        if base_addr_aligned \<ge> last_addr_aligned then []
        else
          let huge_base = (base_addr_aligned + HUGE_PAGE_SIZE - 1) AND NOT (HUGE_PAGE_SIZE - 1);
              huge_end = last_addr_aligned AND NOT (HUGE_PAGE_SIZE - 1)
          in
            if huge_base \<ge> huge_end
            then [(base_addr_aligned, PTE_FLAGS_DIRECT_MAP, (last_addr_aligned - base_addr_aligned) div PAGE_SIZE)]
            else
              (if base_addr_aligned < huge_base
               then [(base_addr_aligned, PTE_FLAGS_DIRECT_MAP, (huge_base - base_addr_aligned) div PAGE_SIZE)] else []) @
              [(huge_base, PTE_FLAGS_DIRECT_MAP OR PTE_HUGE_PAGE, (huge_end - huge_base) div HUGE_PAGE_SIZE)] @
              (if (last_addr_aligned - huge_end) div PAGE_SIZE > 0
               then [(huge_end, PTE_FLAGS_DIRECT_MAP, (last_addr_aligned - huge_end) div PAGE_SIZE)] else []))"

primrec map_pieces :: "(u64 \<times> u64 \<times> u64) list \<Rightarrow> paging_state \<Rightarrow> paging_state res" where
  "map_pieces [] s = Inr s"
| "map_pieces (p # ps) s =
     (case p of (base, flags, n) \<Rightarrow>
        bindE (kmap_pages s base (DIRECT_MAP_START + base) flags n) (\<lambda>s. map_pieces ps s))"

primrec map_direct_mapping :: "mmap_entry_0xe820 list \<Rightarrow> paging_state \<Rightarrow> paging_state res" where
  "map_direct_mapping [] s = Inr s"
| "map_direct_mapping (e # es) s =
     (if e820_type e \<noteq> 1 then map_direct_mapping es s
      else bindE (map_pieces (direct_pieces e) s) (\<lambda>s. map_direct_mapping es s))"

definition map_boot_memory :: "paging_state \<Rightarrow> paging_state res" where
  "map_boot_memory s = kmap_pages s 0 0 (0 OR PTE_PRESENT OR PTE_WRITABLE OR PTE_HUGE_PAGE) 8"

definition unmap_boot_memory :: "paging_state \<Rightarrow> paging_state res" where
  "unmap_boot_memory s = kunmap_pages s 0 0 (0 OR PTE_PRESENT OR PTE_WRITABLE OR PTE_HUGE_PAGE) 8"

record kernel_image =
  kernel_start_addr :: u64
  kernel_end_addr :: u64
  text_end_addr :: u64
  rodata_start_addr :: u64
  rodata_end_addr :: u64
  data_start_addr :: u64

definition map_section :: "paging_state \<Rightarrow> u64 \<Rightarrow> u64 \<Rightarrow> u64 \<Rightarrow> paging_state res" where
  "map_section s start fin flags =
     kmap_pages s (start - KERNEL_IMAGE_START) start flags ((fin - start) div PAGE_SIZE)"

definition init_mmu :: "kernel_image \<Rightarrow> mmap_entry_0xe820 list \<Rightarrow> boot_vbe_handoff \<Rightarrow> paging_state \<Rightarrow> (u64 \<times> paging_state) res" where
  "init_mmu img entries vbe_info s =
     (let s = s\<lparr>kernel_page_lock := False\<rparr> in
      bindE (of_option (kmem_cache_create_sl (kmem (mmu s)) (vma_cache s) sizeof_vma)) (\<lambda>(_, k).
      let s = set_kmem s k in
      bindE (of_option (phys_kmalloc (kmem (mmu s)) PAGE_SIZE BUDDY_ALLOC)) (\<lambda>(root, k).
      let s = (set_kmem s k)\<lparr>kernel_pml4t := root\<rparr> in
      if root = NULL then Inl (Panic ''FAILED TO ALLOCATE PML4T ROOT FOR THE KERNEL'')
      else
        let s = s\<lparr>mmu := (mmu s)\<lparr>tables := memset_pg (tables (mmu s)) root\<rparr>\<rparr> in
        bindE (map_section s (kernel_start_addr img) (text_end_addr img) PTE_FLAGS_KERNEL_CODE) (\<lambda>s.
        bindE (map_section s (rodata_start_addr img) (rodata_end_addr img) (0 OR PTE_PRESENT OR PTE_NX OR PTE_GLOBAL)) (\<lambda>s.
        bindE (map_section s (data_start_addr img) (kernel_end_addr img) PTE_FLAGS_KERNEL_DATA) (\<lambda>s.
        let vaddr = data_start_addr img + (kernel_end_addr img - data_start_addr img) div PAGE_SIZE * PAGE_SIZE in
        bindE (kmap_pages s (vaddr - KERNEL_IMAGE_START) vaddr (PTE_PRESENT OR PTE_NX OR PTE_GLOBAL OR PTE_WRITABLE) 4) (\<lambda>s.
        bindE (map_stacks s) (\<lambda>(virt_rsp, s).
        bindE (map_direct_mapping entries s) (\<lambda>s.
        bindE (map_boot_memory s) (\<lambda>s.
        bindE (map_framebuffer vbe_info s) (\<lambda>s.
        Inr (virt_rsp,
          s\<lparr>cr3 := kernel_pml4t s, phys_map_offset := DIRECT_MAP_START,
            fb_virtual := DIRECT_MAP_START + ucast (framebuffer_address vbe_info)\<rparr>))))))))))))"

end
