(* ===== verification/Slab_Lists.thy ===== *)
theory Slab_Lists
  imports Slab
begin

text \<open>
  The circular lists of slabs and the free lists of objects, as sequences.
\<close>

section \<open>Circular lists with a sentinel\<close>

fun cseg :: "(addr \<Rightarrow> slab_list_node) \<Rightarrow> addr \<Rightarrow> addr \<Rightarrow> addr list \<Rightarrow> addr \<Rightarrow> bool" where
  "cseg h p a [] b \<longleftrightarrow> a = b"
| "cseg h p a (x # xs) b \<longleftrightarrow> a = x \<and> sl_prev (h x) = p \<and> cseg h x (sl_next (h x)) xs b"

definition clist :: "(addr \<Rightarrow> slab_list_node) \<Rightarrow> addr \<Rightarrow> addr list \<Rightarrow> bool" where
  "clist h sn xs \<longleftrightarrow>
     cseg h sn (sl_next (h sn)) xs sn \<and> sl_prev (h sn) = last (sn # xs) \<and> distinct (sn # xs)"

lemma cseg_append:
  "cseg h p a (xs @ ys) b \<longleftrightarrow> (\<exists>m. cseg h p a xs m \<and> cseg h (last (p # xs)) m ys b)"
  by (induction xs arbitrary: p a) auto

lemma cseg_cong: "(\<And>x. x \<in> set xs \<Longrightarrow> h' x = h x) \<Longrightarrow> cseg h' p a xs b = cseg h p a xs b"
  by (induction xs arbitrary: p a) auto

lemma clist_cong:
  assumes "\<And>x. x \<in> set (sn # xs) \<Longrightarrow> h' x = h x"
  shows "clist h' sn xs = clist h sn xs"
  using assms cseg_cong [of xs h' h] by (simp add: clist_def)

lemma cseg_upd [simp]: "n \<notin> set xs \<Longrightarrow> cseg (h(n := c)) p a xs b = cseg h p a xs b"
  by (rule cseg_cong) auto

lemma clist_head: "clist h sn xs \<Longrightarrow> sl_next (h sn) = (case xs of [] \<Rightarrow> sn | x # _ \<Rightarrow> x)"
  by (cases xs) (auto simp: clist_def)

lemma clist_empty_iff: "clist h sn xs \<Longrightarrow> sl_next (h sn) = sn \<longleftrightarrow> xs = []"
  by (cases xs) (auto simp: clist_def)

lemmas node_ops = node_insert_def node_unlink_def empty_list_def upd_node_def Let_def

lemma node_insert_clist:
  assumes "clist (nodes_mem s) sn xs" "n \<notin> set (sn # xs)"
  shows "clist (nodes_mem (node_insert s sn n)) sn (n # xs)"
proof (cases xs)
  case Nil
  with assms show ?thesis by (auto simp: clist_def node_ops)
next
  case (Cons x ys)
  with assms show ?thesis by (cases ys rule: rev_cases) (auto simp: clist_def node_ops cseg_append)
qed

lemma node_insert_frame:
  assumes "clist (nodes_mem s) sn xs" "a \<notin> set (sn # n # xs)"
  shows "nodes_mem (node_insert s sn n) a = nodes_mem s a"
  using assms by (cases xs) (auto simp: clist_def node_ops)

lemma node_unlink_clist:
  assumes "clist (nodes_mem s) sn xs" "n \<in> set xs"
  shows "clist (nodes_mem (node_unlink s n)) sn (remove1 n xs)"
proof -
  let ?h = "nodes_mem s"
  obtain ys zs where xs: "xs = ys @ n # zs" using assms(2) by (meson split_list)
  have d: "distinct (sn # ys @ n # zs)" using assms(1) by (simp add: clist_def xs)
  have r: "remove1 n xs = ys @ zs" using d by (simp add: xs remove1_append)
  obtain m where m: "cseg ?h sn (sl_next (?h sn)) ys m" "m = n" "sl_prev (?h n) = last (sn # ys)"
      "cseg ?h n (sl_next (?h n)) zs sn"
    and l: "sl_prev (?h sn) = last (n # zs)"
    using assms(1) by (auto simp: clist_def xs cseg_append)
  define p q where "p = last (sn # ys)" and "q = sl_next (?h n)"
  have q: "q = (case zs of [] \<Rightarrow> sn | z # _ \<Rightarrow> z)" using m(4) by (cases zs) (auto simp: q_def)
  have pn: "p \<noteq> n" using d by (auto simp: p_def split: if_splits)
  define h1 where "h1 = ?h(p := (?h p)\<lparr>sl_next := q\<rparr>)"
  have mem: "nodes_mem (node_unlink s n) = h1(q := (h1 q)\<lparr>sl_prev := p\<rparr>)"
  proof -
    have "sl_prev (?h n) = p" unfolding p_def by (rule m(3))
    then show ?thesis using pn by (simp add: node_ops h1_def q_def)
  qed
  have left: "cseg h1 sn (sl_next (h1 sn)) ys q"
  proof (cases ys rule: rev_cases)
    case Nil
    then show ?thesis by (simp add: h1_def p_def)
  next
    case (snoc us u)
    then have "p = u" "u \<noteq> sn" using d by (auto simp: p_def)
    with m(1) d snoc show ?thesis unfolding h1_def by (simp add: cseg_append)
  qed
  have right: "cseg h1 n q zs sn"
  proof -
    have "p \<notin> set zs" using d by (cases ys rule: rev_cases) (auto simp: p_def)
    then show ?thesis using m(4) by (simp add: h1_def q_def)
  qed
  show ?thesis
  proof (cases zs)
    case Nil
    then have "q = sn" using q by simp
    moreover have "cseg (h1(sn := c)) sn a ys b = cseg h1 sn a ys b" for c a b using d by simp
    ultimately show ?thesis using left d unfolding mem r Nil by (simp add: clist_def p_def)
  next
    case (Cons z zs')
    then have "q = z" "z \<notin> set ys" "z \<noteq> sn" using q d by auto
    moreover have "sl_prev (h1 sn) = last (z # zs')" using l Cons by (auto simp: h1_def)
    ultimately show ?thesis using left right d unfolding mem r Cons
      by (auto simp: clist_def cseg_append p_def)
  qed
qed

lemma node_unlink_frame:
  assumes "clist (nodes_mem s) sn xs" "n \<in> set xs" "a \<notin> set (sn # xs)"
  shows "nodes_mem (node_unlink s n) a = nodes_mem s a"
proof -
  obtain ys zs where xs: "xs = ys @ n # zs" using assms(2) by (meson split_list)
  have "sl_prev (nodes_mem s n) \<in> set (sn # xs)" "sl_next (nodes_mem s n) \<in> set (sn # xs)"
    using assms(1) by (cases ys rule: rev_cases; cases zs; auto simp: clist_def xs cseg_append)+
  then have "a \<noteq> sl_prev (nodes_mem s n)" "a \<noteq> sl_next (nodes_mem s n)" using assms(3) by auto
  moreover have "sl_next (nodes_mem (upd_node s (sl_prev (nodes_mem s n))
      (\<lambda>p. p\<lparr>sl_next := sl_next (nodes_mem s n)\<rparr>)) n) = sl_next (nodes_mem s n)"
    by (simp add: upd_node_def)
  ultimately show ?thesis by (simp add: node_unlink_def Let_def) (simp add: upd_node_def)
qed

lemma empty_list_clist: "clist (nodes_mem (empty_list s sn)) sn []"
  by (simp add: clist_def node_ops)

lemma empty_list_frame: "a \<noteq> sn \<Longrightarrow> nodes_mem (empty_list s sn) a = nodes_mem s a"
  by (simp add: node_ops)

lemma node_ops_sel [simp]:
  "caches (node_insert s sn n) = caches s" "caches (node_unlink s n) = caches s" "caches (empty_list s sn) = caches s"
  "descs (node_insert s sn n) = descs s" "descs (node_unlink s n) = descs s" "descs (empty_list s sn) = descs s"
  "links (node_insert s sn n) = links s" "links (node_unlink s n) = links s" "links (empty_list s sn) = links s"
  "buddy (node_insert s sn n) = buddy s" "buddy (node_unlink s n) = buddy s" "buddy (empty_list s sn) = buddy s"
  "slab_lock (node_insert s sn n) = slab_lock s" "slab_lock (node_unlink s n) = slab_lock s"
  "slab_lock (empty_list s sn) = slab_lock s"
  "slab_caches (node_insert s sn n) = slab_caches s" "slab_caches (node_unlink s n) = slab_caches s"
  "slab_caches (empty_list s sn) = slab_caches s"
  by (simp_all add: node_ops)

lemma upd_desc_sel [simp]:
  "caches (upd_desc s d f) = caches s" "nodes_mem (upd_desc s d f) = nodes_mem s"
  "links (upd_desc s d f) = links s" "buddy (upd_desc s d f) = buddy s" "slab_lock (upd_desc s d f) = slab_lock s"
  "slab_caches (upd_desc s d f) = slab_caches s" "descs (upd_desc s d f) = (descs s)(d := f (descs s d))"
  by (simp_all add: upd_desc_def)

lemma upd_cache_sel [simp]:
  "nodes_mem (upd_cache s c f) = nodes_mem s" "descs (upd_cache s c f) = descs s"
  "links (upd_cache s c f) = links s" "buddy (upd_cache s c f) = buddy s" "slab_lock (upd_cache s c f) = slab_lock s"
  "slab_caches (upd_cache s c f) = slab_caches s" "caches (upd_cache s c f) = (caches s)(c := f (caches s c))"
  by (simp_all add: upd_cache_def)

text \<open>Moving a node from one list to the front of another.\<close>

lemma move_node:
  assumes a: "clist (nodes_mem s) sn xs" "n \<in> set xs" and b: "clist (nodes_mem s) sn' ys"
    and d: "set (sn # xs) \<inter> set (sn' # ys) = {}"
  defines "t \<equiv> node_insert (node_unlink s n) sn' n"
  shows "clist (nodes_mem t) sn (remove1 n xs)" "clist (nodes_mem t) sn' (n # ys)"
    "\<And>x. x \<notin> set (sn # xs) \<Longrightarrow> x \<notin> set (sn' # ys) \<Longrightarrow> nodes_mem t x = nodes_mem s x"
proof -
  let ?u = "node_unlink s n"
  have dx: "distinct (sn # xs)" using a(1) by (simp add: clist_def)
  have u: "clist (nodes_mem ?u) sn (remove1 n xs)" by (rule node_unlink_clist [OF a])
  have "nodes_mem ?u x = nodes_mem s x" if "x \<in> set (sn' # ys)" for x
    using node_unlink_frame [OF a] d that by blast
  then have ub: "clist (nodes_mem ?u) sn' ys" using b clist_cong [of sn' ys "nodes_mem ?u" "nodes_mem s"] by blast
  have nn: "n \<notin> set (sn' # ys)" using d a(2) by auto
  show "clist (nodes_mem t) sn' (n # ys)" unfolding t_def by (rule node_insert_clist [OF ub nn])
  have "nodes_mem t x = nodes_mem ?u x" if "x \<in> set (sn # remove1 n xs)" for x
  proof -
    have "x \<in> set (sn # xs)" "x \<noteq> n" using that dx a(2) set_remove1_subset [of n xs] by auto
    then show ?thesis unfolding t_def using d by (intro node_insert_frame [OF ub]) auto
  qed
  then show "clist (nodes_mem t) sn (remove1 n xs)"
    using u clist_cong [of sn "remove1 n xs" "nodes_mem t" "nodes_mem ?u"] by blast
  fix x assume x: "x \<notin> set (sn # xs)" "x \<notin> set (sn' # ys)"
  then have "x \<noteq> n" using a(2) by auto
  then show "nodes_mem t x = nodes_mem s x"
    unfolding t_def using x node_insert_frame [OF ub, of x n] node_unlink_frame [OF a, of x] by simp
qed

section \<open>Free lists of objects\<close>

fun olist :: "(addr \<Rightarrow> addr) \<Rightarrow> addr \<Rightarrow> addr list \<Rightarrow> bool" where
  "olist h a [] \<longleftrightarrow> a = NULL"
| "olist h a (x # xs) \<longleftrightarrow> a = x \<and> x \<noteq> NULL \<and> olist h (h x) xs"

lemma olist_cong: "(\<And>x. x \<in> set xs \<Longrightarrow> h' x = h x) \<Longrightarrow> olist h' a xs = olist h a xs"
  by (induction xs arbitrary: a) auto

lemma olist_NULL: "olist h a xs \<Longrightarrow> a = NULL \<longleftrightarrow> xs = []"
  by (cases xs) auto

end
