(* ===== verification/Slab_Correct.thy ===== *)
theory Slab_Correct
  imports Slab_Lists Buddy_Correct
begin

text \<open>
  The contract of an object cache: behind the lists and descriptors stands a set of objects in
  use. The invariant ties every slab to a block the buddy allocator does not hold, its free list
  to the objects that are not in use, and its place on the three lists to its use count.
\<close>

section \<open>Three lists\<close>

definition lists3 :: "(addr \<Rightarrow> slab_list_node) \<Rightarrow> addr \<times> addr list \<Rightarrow> addr \<times> addr list \<Rightarrow> addr \<times> addr list \<Rightarrow> bool" where
  "lists3 h a b c \<longleftrightarrow>
     clist h (fst a) (snd a) \<and> clist h (fst b) (snd b) \<and> clist h (fst c) (snd c) \<and>
     insert (fst a) (set (snd a)) \<inter> insert (fst b) (set (snd b)) = {} \<and>
     insert (fst a) (set (snd a)) \<inter> insert (fst c) (set (snd c)) = {} \<and>
     insert (fst b) (set (snd b)) \<inter> insert (fst c) (set (snd c)) = {}"

lemma lists3_alt:
  "lists3 h a b c \<longleftrightarrow>
     clist h (fst a) (snd a) \<and> clist h (fst b) (snd b) \<and> clist h (fst c) (snd c) \<and>
     distinct (fst a # snd a @ fst b # snd b @ fst c # snd c)"
  unfolding lists3_def clist_def by auto

lemma lists3_perm:
  "lists3 h a b c \<longleftrightarrow> lists3 h b a c" "lists3 h a b c \<longleftrightarrow> lists3 h c b a"
  "lists3 h a b c \<longleftrightarrow> lists3 h b c a"
  unfolding lists3_def by (metis Int_commute)+

lemma move3:
  assumes l: "lists3 (nodes_mem s) (a, xs) (b, ys) (c, zs)" and n: "n \<in> set xs"
  shows "lists3 (nodes_mem (node_insert (node_unlink s n) b n)) (a, remove1 n xs) (b, n # ys) (c, zs)"
proof -
  let ?t = "node_insert (node_unlink s n) b n"
  have ca: "clist (nodes_mem s) a xs" and cb: "clist (nodes_mem s) b ys" and cc: "clist (nodes_mem s) c zs"
    and d: "distinct (a # xs @ b # ys @ c # zs)" using l by (auto simp: lists3_alt)
  have dj: "set (a # xs) \<inter> set (b # ys) = {}" using d by auto
  note m = move_node [OF ca n cb dj]
  have "nodes_mem ?t x = nodes_mem s x" if "x \<in> set (c # zs)" for x
    using that d by (intro m(3)) auto
  then have "clist (nodes_mem ?t) c zs" using cc clist_cong [of c zs "nodes_mem ?t" "nodes_mem s"] by blast
  moreover have "distinct (a # remove1 n xs @ b # (n # ys) @ c # zs)"
    using d n set_remove1_subset [of n xs] by auto
  ultimately show ?thesis using m(1,2) by (simp add: lists3_alt)
qed

lemma insert3:
  assumes l: "lists3 (nodes_mem s) (a, xs) (b, ys) (c, zs)" and n: "n \<notin> set (a # xs @ b # ys @ c # zs)"
  shows "lists3 (nodes_mem (node_insert s a n)) (a, n # xs) (b, ys) (c, zs)"
proof -
  let ?t = "node_insert s a n"
  have ca: "clist (nodes_mem s) a xs" and cb: "clist (nodes_mem s) b ys" and cc: "clist (nodes_mem s) c zs"
    and d: "distinct (a # xs @ b # ys @ c # zs)" using l by (auto simp: lists3_alt)
  have f: "nodes_mem ?t x = nodes_mem s x" if "x \<in> set (b # ys @ c # zs)" for x
    using that d n by (intro node_insert_frame [OF ca]) auto
  have "clist (nodes_mem ?t) a (n # xs)" using n by (intro node_insert_clist [OF ca]) auto
  moreover have "clist (nodes_mem ?t) b ys = clist (nodes_mem s) b ys" by (rule clist_cong, rule f) auto
  moreover have "clist (nodes_mem ?t) c zs = clist (nodes_mem s) c zs" by (rule clist_cong, rule f) auto
  ultimately show ?thesis using d n cb cc by (auto simp: lists3_alt)
qed

lemma desc_node_inj [simp]: "desc_node d = desc_node e \<longleftrightarrow> d = e"
  by (simp add: desc_node_def)

lemma desc_of_node_node [simp]: "desc_of_node (desc_node d) = d"
  by (simp add: desc_of_node_def desc_node_def)

lemma map_desc_remove1: "map desc_node (remove1 d xs) = remove1 (desc_node d) (map desc_node xs)"
  by (induction xs) auto

section \<open>Objects of a slab\<close>

text \<open>
  \<open>cache_fit\<close> is what \<open>kmem_cache_create\<close> gives every cache. A cache is in order only if a free object
  also has room for the pointer to the next one.
\<close>

definition cache_fit :: "kmem_cache \<Rightarrow> bool" where
  "cache_fit k \<longleftrightarrow>
     40 \<le> unat (first_object_offset k) \<and> 0 < unat (object_size k) \<and> 2 \<le> unat (objects_per_slab k) \<and>
     unat (slab_order k) \<le> 10 \<and>
     unat (first_object_offset k) + unat (objects_per_slab k) * unat (object_size k) \<le> 2 ^ (unat (slab_order k) + 12)"

definition cache_ok :: "kmem_cache \<Rightarrow> bool" where
  "cache_ok k \<longleftrightarrow> cache_fit k \<and> 8 \<le> unat (object_size k)"

lemma cache_okD [simp]: "cache_ok k \<Longrightarrow> cache_fit k"
  by (simp add: cache_ok_def)

definition slot :: "kmem_cache \<Rightarrow> addr \<Rightarrow> nat \<Rightarrow> addr" where
  "slot k d i = d + first_object_offset k + of_nat i * object_size k"

definition slots :: "kmem_cache \<Rightarrow> addr \<Rightarrow> addr set" where
  "slots k d = slot k d ` {..<unat (objects_per_slab k)}"

abbreviation slab_span :: "kmem_cache \<Rightarrow> addr \<Rightarrow> nat set" where
  "slab_span k d \<equiv> span d (unat (slab_order k))"

definition slab_block :: "kmem_cache \<Rightarrow> addr \<Rightarrow> bool" where
  "slab_block k d \<longleftrightarrow> d \<noteq> NULL \<and> 2 ^ (unat (slab_order k) + 12) dvd unat d \<and>
     unat d + 2 ^ (unat (slab_order k) + 12) < 2 ^ 64"

lemma slot_room:
  assumes "cache_fit k" "i < unat (objects_per_slab k)"
  shows "unat (first_object_offset k) + i * unat (object_size k) + unat (object_size k) \<le> 2 ^ (unat (slab_order k) + 12)"
proof -
  have "Suc i * unat (object_size k) \<le> unat (objects_per_slab k) * unat (object_size k)"
    using assms(2) by (intro mult_le_mono1) simp
  then show ?thesis using assms(1) by (simp add: cache_fit_def)
qed

lemma unat_slot:
  assumes "cache_fit k" "slab_block k d" "i < unat (objects_per_slab k)"
  shows "unat (slot k d i) = unat d + unat (first_object_offset k) + i * unat (object_size k)"
proof -
  note r = slot_room [OF assms(1,3)]
  have b: "unat d + 2 ^ (unat (slab_order k) + 12) < 2 ^ 64" using assms(2) by (simp add: slab_block_def)
  have "i < 2 ^ 64" using assms(3) unat_lt_u32 [of "objects_per_slab k"] by simp
  then have i: "unat (of_nat i :: u64) = i" by (intro unat_of_nat_id) simp
  have m: "unat (of_nat i * object_size k) = i * unat (object_size k)"
  proof -
    have "i * unat (object_size k) < 2 ^ 64" using r b by linarith
    then show ?thesis by (simp add: unat_word_ariths i)
  qed
  have "unat (d + first_object_offset k) = unat d + unat (first_object_offset k)"
    using r b by (intro unat_add_no_overflow) simp
  then show ?thesis unfolding slot_def using m r b by (subst unat_add_no_overflow) simp_all
qed

lemma slot_inj:
  assumes "cache_fit k" "slab_block k d" "i < unat (objects_per_slab k)" "j < unat (objects_per_slab k)"
    "slot k d i = slot k d j"
  shows "i = j"
proof -
  have "unat (slot k d i) = unat (slot k d j)" using assms(5) by simp
  then have "i * unat (object_size k) = j * unat (object_size k)"
    unfolding unat_slot [OF assms(1-3)] unat_slot [OF assms(1,2,4)] by simp
  then show ?thesis using assms(1) by (simp add: cache_fit_def)
qed

lemma slots_in_span:
  assumes "cache_fit k" "slab_block k d" "p \<in> slots k d"
  shows "unat p \<in> slab_span k d" "unat d + 40 \<le> unat p"
proof -
  obtain i where i: "p = slot k d i" "i < unat (objects_per_slab k)" using assms(3) by (auto simp: slots_def)
  have z: "0 < unat (object_size k)" "40 \<le> unat (first_object_offset k)" using assms(1) by (auto simp: cache_fit_def)
  show "unat p \<in> slab_span k d" "unat d + 40 \<le> unat p"
    using unat_slot [OF assms(1,2) i(2)] slot_room [OF assms(1) i(2)] z by (auto simp: i(1) span_def)
qed

text \<open>An object is inside its slab, and the eight bytes of two objects do not meet.\<close>

lemma slots_bytes:
  assumes "cache_fit k" "slab_block k d" "p \<in> slots k d" "j < unat (object_size k)"
  shows "unat (p + of_nat j) = unat p + j" "unat (p + of_nat j) \<in> slab_span k d"
proof -
  obtain i where i: "p = slot k d i" "i < unat (objects_per_slab k)" using assms(3) by (auto simp: slots_def)
  have u: "unat p = unat d + unat (first_object_offset k) + i * unat (object_size k)"
    unfolding i(1) by (rule unat_slot [OF assms(1,2) i(2)])
  have e: "unat p + j < unat d + 2 ^ (unat (slab_order k) + 12)" using u slot_room [OF assms(1) i(2)] assms(4) by linarith
  then have lt: "unat p + j < 2 ^ 64" using assms(2) by (simp add: slab_block_def)
  then have "unat (of_nat j :: u64) = j" by (intro unat_of_nat_id) simp
  then show a: "unat (p + of_nat j) = unat p + j" using lt by (subst unat_add_no_overflow) simp_all
  show "unat (p + of_nat j) \<in> slab_span k d" unfolding a using e u by (simp add: span_def)
qed

lemma slots_apart:
  assumes f: "cache_fit k" and "slab_block k d" "p \<in> slots k d" "q \<in> slots k d" "p \<noteq> q"
  shows "apart p (unat (object_size k)) q (unat (object_size k))"
proof -
  let ?z = "unat (object_size k)"
  obtain i j where i: "p = slot k d i" "i < unat (objects_per_slab k)" and j: "q = slot k d j" "j < unat (objects_per_slab k)"
    using assms(3,4) by (auto simp: slots_def)
  note u = unat_slot [OF f assms(2) i(2), folded i(1)] unat_slot [OF f assms(2) j(2), folded j(1)]
  have z: "0 < ?z" using f by (simp add: cache_fit_def)
  have lt: "unat p + ?z \<le> 2 ^ 64" "unat q + ?z \<le> 2 ^ 64"
    using slots_bytes(1) [OF f assms(2,3), of "?z - 1"] slots_bytes(1) [OF f assms(2,4), of "?z - 1"] z
      unat_lt_u64 [of "p + of_nat (?z - 1)"] unat_lt_u64 [of "q + of_nat (?z - 1)"] by simp_all
  have step: "Suc a * ?z \<le> b * ?z" if "a < b" for a b using that by (intro mult_le_mono1) simp
  consider "i < j" | "j < i" using assms(5) i(1) j(1) by (metis linorder_neqE_nat)
  then show ?thesis
  proof cases
    case 1
    then have "unat p + ?z \<le> unat q" using u step [OF 1] by simp
    then show ?thesis using lt(2) by (rule apart_ranges)
  next
    case 2
    then have "unat q + ?z \<le> unat p" using u step [OF 2] by simp
    then show ?thesis using lt(1) by (rule apart_sym [OF apart_ranges])
  qed
qed

lemma slots_nonnull: "cache_fit k \<Longrightarrow> slab_block k d \<Longrightarrow> p \<in> slots k d \<Longrightarrow> p \<noteq> NULL"
  using slots_in_span(2) [of k d p] by auto

lemma card_slots: "cache_fit k \<Longrightarrow> slab_block k d \<Longrightarrow> card (slots k d) = unat (objects_per_slab k)"
  unfolding slots_def by (subst card_image) (auto simp: inj_on_def dest: slot_inj)

text \<open>\<open>kmem_cache_kfree\<close> finds the descriptor by clearing the low bits of the object's address.\<close>

lemma unat_and_not_low:
  fixes x :: u64
  assumes "n < 64"
  shows "unat (x AND NOT (2 ^ n - 1)) = unat x div 2 ^ n * 2 ^ n"
proof -
  have "x AND NOT (2 ^ n - 1) = push_bit n (drop_bit n x)"
    by (rule bit_word_eqI) (auto simp: bit_simps mask_eq_decr_exp [symmetric])
  moreover have "unat (drop_bit n x) * 2 ^ n < 2 ^ 64"
    using le_less_trans [OF div_times_less_eq_dividend [of "unat x" "2 ^ n"] unat_lt_u64] by (simp add: unat_drop_bit_div)
  ultimately show ?thesis using assms by (simp add: push_bit_eq_mult unat_word_ariths unat_drop_bit_div)
qed

lemma slab_base:
  assumes "cache_fit k" "slab_block k d" "p \<in> slots k d"
  shows "slab_base_of k p = d"
proof -
  let ?o = "unat (slab_order k) + 12"
  have o: "?o \<le> 22" using assms(1) by (simp add: cache_fit_def)
  obtain q where q: "unat d = 2 ^ ?o * q" using assms(2) by (auto simp: slab_block_def elim!: dvdE)
  have "unat p \<in> {2 ^ ?o * q ..< 2 ^ ?o * q + 2 ^ ?o}" using slots_in_span(1) [OF assms] by (simp add: span_def q)
  then have "unat p div 2 ^ ?o = q" by (intro div_nat_eqI) (auto simp: algebra_simps)
  then have dv: "unat p div 2 ^ ?o * 2 ^ ?o = unat d" by (simp add: q)
  have "push_bit (unat (slab_order k)) PAGE_SIZE = 2 ^ ?o" by (simp add: PAGE_SIZE_def push_bit_eq_mult power_add)
  moreover have "(ucast (ucast ((2::u64) ^ ?o) :: u32) :: u64) = 2 ^ ?o"
  proof -
    have "unat ((2::u64) ^ ?o) = 2 ^ ?o" using o by simp
    moreover have "(2::nat) ^ ?o < 2 ^ 32" using o by (intro power_strict_increasing) auto
    ultimately have "unat (ucast (ucast ((2::u64) ^ ?o) :: u32) :: u64) = 2 ^ ?o"
      using o by (simp add: unsigned_ucast_eq unsigned_take_bit_eq take_bit_nat_eq_self)
    then show ?thesis using o by (simp add: word_unat_eq_iff)
  qed
  ultimately have "slab_base_of k p = p AND NOT (2 ^ ?o - 1)" by (simp only: slab_base_of_def Let_def)
  then have "unat (slab_base_of k p) = unat d" using unat_and_not_low [of ?o p] o dv by simp
  then show ?thesis by (simp add: word_unat_eq_iff)
qed

section \<open>The invariant of a cache\<close>

definition slab_at :: "slab_state \<Rightarrow> addr \<Rightarrow> (addr \<Rightarrow> addr list) \<Rightarrow> addr \<Rightarrow> bool" where
  "slab_at s c os d \<longleftrightarrow>
     slab_block (caches s c) d \<and> olist (load_ptr (links s)) (desc_free_list (descs s d)) (os d) \<and> distinct (os d) \<and>
     set (os d) \<subseteq> slots (caches s c) d \<and>
     unat (inuse_num (descs s d)) + length (os d) = unat (objects_per_slab (caches s c))"

definition slabs_ok :: "slab_state \<Rightarrow> addr \<Rightarrow> nat set \<Rightarrow> addr set \<Rightarrow> (addr \<Rightarrow> addr list) \<Rightarrow> bool" where
  "slabs_ok s c free ds os \<longleftrightarrow>
     (\<forall>d\<in>ds. slab_at s c os d \<and> free \<inter> slab_span (caches s c) d = {}) \<and>
     (\<forall>d\<in>ds. \<forall>e\<in>ds. d \<noteq> e \<longrightarrow> slab_span (caches s c) d \<inter> slab_span (caches s c) e = {})"

definition placed :: "slab_state \<Rightarrow> addr \<Rightarrow> addr list \<Rightarrow> addr list \<Rightarrow> addr list \<Rightarrow> bool" where
  "placed s c fr pa fu \<longleftrightarrow>
     (\<forall>d\<in>set fr. inuse_num (descs s d) = 0) \<and>
     (\<forall>d\<in>set pa. inuse_num (descs s d) \<noteq> 0 \<and> inuse_num (descs s d) \<noteq> objects_per_slab (caches s c)) \<and>
     (\<forall>d\<in>set fu. inuse_num (descs s d) = objects_per_slab (caches s c))"

definition slab_lists :: "slab_state \<Rightarrow> addr \<Rightarrow> addr list \<Rightarrow> addr list \<Rightarrow> addr list \<Rightarrow> bool" where
  "slab_lists s c fr pa fu \<longleftrightarrow>
     lists3 (nodes_mem s) (free_slabs c, map desc_node fr) (partial_slabs c, map desc_node pa) (full_slabs c, map desc_node fu)"

definition region_end :: "buddy_metadata \<Rightarrow> nat" where
  "region_end b = unat (base_address b) + unat (region_size b)"

definition slab_inv :: "slab_state \<Rightarrow> addr \<Rightarrow> (nat \<Rightarrow> addr list) \<Rightarrow> addr list \<Rightarrow> addr list \<Rightarrow> addr list \<Rightarrow> (addr \<Rightarrow> addr list) \<Rightarrow> bool" where
  "slab_inv s c fl fr pa fu os \<longleftrightarrow>
     cache_ok (caches s c) \<and> buddy_inv (buddy s) fl \<and> slab_lists s c fr pa fu \<and>
     slabs_ok s c (free_bytes fl) (set (fr @ pa @ fu)) os \<and> placed s c fr pa fu \<and>
     (\<forall>d\<in>set (fr @ pa @ fu). unat d + 2 ^ (unat (slab_order (caches s c)) + 12) \<le> region_end (buddy s)) \<and>
     (\<forall>h\<in>{free_slabs c, partial_slabs c, full_slabs c}. unat h \<notin> free_bytes fl)"

definition in_use :: "slab_state \<Rightarrow> addr \<Rightarrow> addr set \<Rightarrow> (addr \<Rightarrow> addr list) \<Rightarrow> addr set" where
  "in_use s c ds os = (\<Union>d\<in>ds. slots (caches s c) d - set (os d))"

text \<open>
  \<open>slab_rep s c U\<close>: the cache \<open>c\<close> is in order, and its objects in use are \<open>U\<close>. \<open>slab_rep_in\<close> also
  names the free lists of the buddy allocator, for the components that share it, and \<open>slab_rep_off\<close>
  a set of bytes that neither the slabs nor the list heads of the cache touch.
\<close>

definition slab_rep_in :: "slab_state \<Rightarrow> addr \<Rightarrow> (nat \<Rightarrow> addr list) \<Rightarrow> addr set \<Rightarrow> bool" where
  "slab_rep_in s c fl U \<longleftrightarrow>
     \<not> slab_lock s \<and> (\<exists>fr pa fu os. slab_inv s c fl fr pa fu os \<and> U = in_use s c (set (fr @ pa @ fu)) os)"

definition clear_of :: "slab_state \<Rightarrow> addr \<Rightarrow> nat set \<Rightarrow> addr set \<Rightarrow> bool" where
  "clear_of s c R ds \<longleftrightarrow>
     (\<forall>d\<in>ds. slab_span (caches s c) d \<inter> R = {}) \<and> (\<forall>h\<in>{free_slabs c, partial_slabs c, full_slabs c}. unat h \<notin> R)"

definition slab_rep_off :: "slab_state \<Rightarrow> addr \<Rightarrow> (nat \<Rightarrow> addr list) \<Rightarrow> nat set \<Rightarrow> addr set \<Rightarrow> bool" where
  "slab_rep_off s c fl R U \<longleftrightarrow>
     \<not> slab_lock s \<and> (\<exists>fr pa fu os. slab_inv s c fl fr pa fu os \<and> U = in_use s c (set (fr @ pa @ fu)) os \<and>
       clear_of s c R (set (fr @ pa @ fu)))"

definition slab_rep :: "slab_state \<Rightarrow> addr \<Rightarrow> addr set \<Rightarrow> bool" where
  "slab_rep s c U \<longleftrightarrow> (\<exists>fl. slab_rep_in s c fl U)"

lemma slab_inv_lock [simp]: "slab_inv (s\<lparr>slab_lock := b\<rparr>) c fl fr pa fu os = slab_inv s c fl fr pa fu os"
  by (simp add: slab_inv_def slab_lists_def slabs_ok_def slab_at_def placed_def)

lemma in_use_lock [simp]: "in_use (s\<lparr>slab_lock := b\<rparr>) c ds os = in_use s c ds os"
  by (simp add: in_use_def)

lemma slab_rep_in_off: "slab_rep_in s c fl U = slab_rep_off s c fl {} U"
  by (simp add: slab_rep_in_def slab_rep_off_def clear_of_def)

lemma slab_rep_offD: "slab_rep_off s c fl R U \<Longrightarrow> slab_rep_in s c fl U"
  by (auto simp: slab_rep_in_def slab_rep_off_def)

lemma slab_rep_release:
  assumes "slab_inv s c fl fr pa fu os" "in_use s c (set (fr @ pa @ fu)) os = U" "clear_of s c R (set (fr @ pa @ fu))"
  shows "slab_rep_off (spinlock_release s) c fl R U"
proof -
  have "slab_inv (spinlock_release s) c fl fr pa fu os \<and> U = in_use (spinlock_release s) c (set (fr @ pa @ fu)) os \<and>
      clear_of (spinlock_release s) c R (set (fr @ pa @ fu))"
    using assms by (simp add: spinlock_release_def clear_of_def)
  then have "\<exists>fr pa fu os. slab_inv (spinlock_release s) c fl fr pa fu os \<and>
      U = in_use (spinlock_release s) c (set (fr @ pa @ fu)) os \<and> clear_of (spinlock_release s) c R (set (fr @ pa @ fu))" by blast
  then show ?thesis by (simp add: slab_rep_off_def) (simp add: spinlock_release_def)
qed

lemma placed_apart:
  assumes "cache_ok (caches s c)" "placed s c fr pa fu"
  shows "set fr \<inter> set pa = {}" "set fr \<inter> set fu = {}" "set pa \<inter> set fu = {}"
  using assms by (auto simp: placed_def cache_ok_def cache_fit_def)

lemma slots_disjoint:
  assumes k: "cache_ok (caches s c)" and ok: "slabs_ok s c free ds os" and de: "d \<in> ds" "e \<in> ds" "d \<noteq> e"
  shows "slots (caches s c) d \<inter> slots (caches s c) e = {}"
proof -
  have "slab_block (caches s c) d" "slab_block (caches s c) e" using ok de by (auto simp: slabs_ok_def slab_at_def)
  moreover have "slab_span (caches s c) d \<inter> slab_span (caches s c) e = {}" using ok de by (auto simp: slabs_ok_def)
  ultimately show ?thesis using slots_in_span(1) [OF cache_okD [OF k]] by blast
qed

lemma objects_apart:
  assumes k: "cache_ok (caches s c)" and ok: "slabs_ok s c free ds os" and de: "d \<in> ds" "e \<in> ds"
    and pq: "p \<in> slots (caches s c) d" "q \<in> slots (caches s c) e" "p \<noteq> q"
  shows "apart p (unat (object_size (caches s c))) q (unat (object_size (caches s c)))"
proof (cases "d = e")
  case True
  have "slab_block (caches s c) d" using ok de by (auto simp: slabs_ok_def slab_at_def)
  then show ?thesis using slots_apart [OF cache_okD [OF k]] pq True by blast
next
  case False
  have b: "slab_block (caches s c) d" "slab_block (caches s c) e" using ok de by (auto simp: slabs_ok_def slab_at_def)
  have "slab_span (caches s c) d \<inter> slab_span (caches s c) e = {}" using ok de False by (auto simp: slabs_ok_def)
  then show ?thesis
    using slots_bytes(2) [OF cache_okD [OF k] b(1) pq(1)] slots_bytes(2) [OF cache_okD [OF k] b(2) pq(2)]
    unfolding apart_def by (metis disjoint_iff)
qed

text \<open>Memory that is the same in a slab has the same pointers in its objects.\<close>

lemma load_ptr_slab:
  assumes "cache_ok k" "slab_block k d" "p \<in> slots k d" "\<And>a. unat a \<in> slab_span k d \<Longrightarrow> m' a = m a"
  shows "load_ptr m' p = load_ptr m p"
proof (rule load_ptr_cong, rule assms(4))
  fix j :: nat assume "j < 8"
  then show "unat (p + of_nat j) \<in> slab_span k d"
    using assms(1) by (intro slots_bytes(2) [OF _ assms(2,3)]) (simp_all add: cache_ok_def)
qed

text \<open>Changing one descriptor and its free list leaves the other slabs alone.\<close>

lemma slabs_ok_change:
  assumes k: "cache_ok (caches s c)" and ok: "slabs_ok s c free ds os" and d: "d \<in> ds"
    and t: "caches t c = caches s c" "\<And>e. e \<noteq> d \<Longrightarrow> descs t e = descs s e"
      "\<And>a. unat a \<notin> slab_span (caches s c) d \<Longrightarrow> links t a = links s a"
    and at: "slab_at t c (os(d := xs)) d"
  shows "slabs_ok t c free ds (os(d := xs))"
proof -
  have "slab_at t c (os(d := xs)) e" if e: "e \<in> ds" "e \<noteq> d" for e
  proof -
    have se: "slab_at s c os e" using ok e by (simp add: slabs_ok_def)
    have "load_ptr (links t) p = load_ptr (links s) p" if "p \<in> set (os e)" for p
    proof (rule load_ptr_slab [OF k])
      show "slab_block (caches s c) e" "p \<in> slots (caches s c) e" using se that by (auto simp: slab_at_def)
      have "slab_span (caches s c) e \<inter> slab_span (caches s c) d = {}" using ok e d by (auto simp: slabs_ok_def)
      then show "links t a = links s a" if "unat a \<in> slab_span (caches s c) e" for a using that by (intro t(3)) blast
    qed
    then have "olist (load_ptr (links t)) a (os e) = olist (load_ptr (links s)) a (os e)" for a by (rule olist_cong)
    then show ?thesis using se e(2) t(1,2) by (simp add: slab_at_def)
  qed
  then show ?thesis using ok at t(1) unfolding slabs_ok_def by (metis fun_upd_apply)
qed

lemma in_use_change:
  assumes k: "cache_ok (caches s c)" and ok: "slabs_ok s c free ds os" and d: "d \<in> ds" and t: "caches t c = caches s c"
  shows "in_use t c ds (os(d := xs)) = (in_use s c ds os - slots (caches s c) d) \<union> (slots (caches s c) d - set xs)"
proof -
  have "slots (caches s c) e \<inter> slots (caches s c) d = {}" if "e \<in> ds" "e \<noteq> d" for e
    using slots_disjoint [OF k ok that(1) d that(2)] .
  then show ?thesis using d unfolding in_use_def t by (auto split: if_splits) blast+
qed

lemma in_use_slab:
  assumes k: "cache_ok (caches s c)" and ok: "slabs_ok s c free ds os" and d: "d \<in> ds" and p: "p \<in> slots (caches s c) d"
  shows "p \<in> in_use s c ds os \<longleftrightarrow> p \<notin> set (os d)"
  using slots_disjoint [OF k ok d] d p unfolding in_use_def by blast

section \<open>Taking an object\<close>

lemma take_slab:
  assumes k: "cache_ok (caches s c)" and ok: "slabs_ok s c free ds os" and d: "d \<in> ds"
    and room: "inuse_num (descs s d) \<noteq> objects_per_slab (caches s c)"
  obtains p xs where "os d = p # xs" "p \<noteq> NULL" "desc_free_list (descs s d) = p" "load_ptr (links s) p = (case xs of [] \<Rightarrow> NULL | x # _ \<Rightarrow> x)"
    "p \<in> slots (caches s c) d" "p \<notin> set xs" "unat (inuse_num (descs s d) + 1) = unat (inuse_num (descs s d)) + 1"
proof -
  have at: "slab_at s c os d" using ok d by (simp add: slabs_ok_def)
  have "unat (inuse_num (descs s d)) \<noteq> unat (objects_per_slab (caches s c))" using room by (simp add: word_unat_eq_iff)
  then have "os d \<noteq> []" using at by (auto simp: slab_at_def)
  then obtain p xs where px: "os d = p # xs" by (cases "os d") auto
  have "unat (inuse_num (descs s d)) + 1 \<le> unat (objects_per_slab (caches s c))" using at px by (simp add: slab_at_def)
  then have "unat (inuse_num (descs s d)) + unat (1 :: u32) < 2 ^ 32" using unat_lt_u32 [of "objects_per_slab (caches s c)"] by simp
  then have "unat (inuse_num (descs s d) + 1) = unat (inuse_num (descs s d)) + 1" by (subst unat_add_no_overflow) simp_all
  with at px show thesis by (intro that [OF px]) (auto simp: slab_at_def split: list.splits)
qed

text \<open>
  The descriptor part of \<open>kmem_cache_take\<close>, before the list moves, and what it does to the slab.
\<close>

definition taken :: "slab_state \<Rightarrow> addr \<Rightarrow> slab_state" where
  "taken s d = upd_desc (upd_desc s d (\<lambda>x. x\<lparr>desc_free_list := load_ptr (links s) (desc_free_list (descs s d))\<rparr>)) d
     (\<lambda>x. x\<lparr>inuse_num := inuse_num x + 1\<rparr>)"

lemma take_eq:
  assumes "desc_free_list (descs s d) \<noteq> NULL"
  shows "kmem_cache_take s c d = (desc_free_list (descs s d),
    if inuse_num (descs s d) + 1 = objects_per_slab (caches s c)
    then node_insert (node_unlink (taken s d) (desc_node d)) (full_slabs c) (desc_node d)
    else if inuse_num (descs s d) + 1 = 1
    then node_insert (node_unlink (taken s d) (desc_node d)) (partial_slabs c) (desc_node d)
    else taken s d)"
  using assms by (simp add: kmem_cache_take_def taken_def Let_def)

lemma taken_ok:
  assumes k: "cache_ok (caches s c)" and ok: "slabs_ok s c free ds os" and d: "d \<in> ds"
    and room: "inuse_num (descs s d) \<noteq> objects_per_slab (caches s c)"
  obtains p xs where "desc_free_list (descs s d) = p" "p \<noteq> NULL"
    "slabs_ok (taken s d) c free ds (os(d := xs))" "p \<notin> in_use s c ds os"
    "in_use (taken s d) c ds (os(d := xs)) = insert p (in_use s c ds os)"
proof -
  obtain p xs where px: "os d = p # xs" "p \<noteq> NULL" "desc_free_list (descs s d) = p"
      "load_ptr (links s) p = (case xs of [] \<Rightarrow> NULL | x # _ \<Rightarrow> x)" "p \<in> slots (caches s c) d" "p \<notin> set xs"
      "unat (inuse_num (descs s d) + 1) = unat (inuse_num (descs s d)) + 1"
    using take_slab [OF k ok d room] by blast
  have at: "slab_at s c os d" using ok d by (simp add: slabs_ok_def)
  have "slab_at (taken s d) c (os(d := xs)) d" using at px by (auto simp: slab_at_def taken_def)
  then have ok': "slabs_ok (taken s d) c free ds (os(d := xs))"
    by (intro slabs_ok_change [OF k ok d]) (auto simp: taken_def)
  have sub: "set xs \<subseteq> slots (caches s c) d" using at px by (auto simp: slab_at_def)
  have "slots (caches s c) d - set xs = insert p (slots (caches s c) d - set (os d))" using px by auto
  moreover have "in_use s c ds os - slots (caches s c) d \<union> (slots (caches s c) d - set (os d)) = in_use s c ds os"
    using in_use_change [OF k ok d, of s "os d"] by simp
  ultimately have "in_use (taken s d) c ds (os(d := xs)) = insert p (in_use s c ds os)"
    using in_use_change [OF k ok d, of "taken s d" xs] by (auto simp: taken_def)
  moreover have "p \<notin> in_use s c ds os" using in_use_slab [OF k ok d px(5)] px(1) by simp
  ultimately show thesis using that [OF px(3,2) ok'] by blast
qed

lemma slabs_ok_same:
  "\<lbrakk>caches t = caches s; descs t = descs s; links t = links s\<rbrakk> \<Longrightarrow> slabs_ok t c free ds os = slabs_ok s c free ds os"
  by (simp add: slabs_ok_def slab_at_def)

lemma in_use_same: "caches t = caches s \<Longrightarrow> in_use t c ds os = in_use s c ds os"
  by (simp add: in_use_def)

lemma slab_inv_distinct:
  assumes "slab_inv s c fl fr pa fu os"
  shows "distinct (fr @ pa @ fu)"
proof -
  have "distinct (map desc_node (fr @ pa @ fu))" using assms by (auto simp: slab_inv_def slab_lists_def lists3_alt)
  then show ?thesis using distinct_map by blast
qed

text \<open>A slab that changes lists: the sequences after the move, in the order the lists are kept.\<close>

lemma slab_move:
  assumes l: "slab_lists s c fr pa fu" and d: "d \<in> set xs"
  shows "xs = fr \<Longrightarrow> slab_lists (node_insert (node_unlink s (desc_node d)) (partial_slabs c) (desc_node d)) c (remove1 d fr) (d # pa) fu"
    "xs = pa \<Longrightarrow> slab_lists (node_insert (node_unlink s (desc_node d)) (full_slabs c) (desc_node d)) c fr (remove1 d pa) (d # fu)"
    "xs = pa \<Longrightarrow> slab_lists (node_insert (node_unlink s (desc_node d)) (free_slabs c) (desc_node d)) c (d # fr) (remove1 d pa) fu"
    "xs = fu \<Longrightarrow> slab_lists (node_insert (node_unlink s (desc_node d)) (partial_slabs c) (desc_node d)) c fr (d # pa) (remove1 d fu)"
proof -
  let ?f = "(free_slabs c, map desc_node fr)" and ?p = "(partial_slabs c, map desc_node pa)" and ?u = "(full_slabs c, map desc_node fu)"
  have l0: "lists3 (nodes_mem s) ?f ?p ?u" using l by (simp add: slab_lists_def)
  have n: "desc_node d \<in> set (map desc_node xs)" using d by simp
  { assume "xs = fr"
    then show "slab_lists (node_insert (node_unlink s (desc_node d)) (partial_slabs c) (desc_node d)) c (remove1 d fr) (d # pa) fu"
      using move3 [OF l0] n by (simp add: slab_lists_def map_desc_remove1) }
  { assume x: "xs = pa"
    have "lists3 (nodes_mem s) ?p ?u ?f" using l0 lists3_perm(3) by metis
    from move3 [OF this n [unfolded x]] show "slab_lists (node_insert (node_unlink s (desc_node d)) (full_slabs c) (desc_node d)) c fr (remove1 d pa) (d # fu)"
      unfolding slab_lists_def map_desc_remove1 by (subst lists3_perm(3)) simp
    have "lists3 (nodes_mem s) ?p ?f ?u" using l0 lists3_perm(1) by metis
    from move3 [OF this n [unfolded x]] show "slab_lists (node_insert (node_unlink s (desc_node d)) (free_slabs c) (desc_node d)) c (d # fr) (remove1 d pa) fu"
      unfolding slab_lists_def map_desc_remove1 by (subst lists3_perm(1)) simp }
  { assume x: "xs = fu"
    have "lists3 (nodes_mem s) ?u ?p ?f" using l0 lists3_perm(2) by metis
    from move3 [OF this n [unfolded x]] show "slab_lists (node_insert (node_unlink s (desc_node d)) (partial_slabs c) (desc_node d)) c fr (d # pa) (remove1 d fu)"
      unfolding slab_lists_def map_desc_remove1 by (subst lists3_perm(2)) simp }
qed

lemma slab_inv_relocate:
  assumes inv: "slab_inv s c fl fr pa fu os" and u: "slabs_ok u c (free_bytes fl) (set (fr @ pa @ fu)) os'"
    and t: "caches t = caches s" "caches u = caches s" "descs t = descs u" "links t = links u" "buddy t = buddy s"
    and l: "slab_lists t c fr' pa' fu'" and p: "placed t c fr' pa' fu'"
    and e: "set (fr' @ pa' @ fu') = set (fr @ pa @ fu)"
  shows "slab_inv t c fl fr' pa' fu' os'"
proof -
  have "slabs_ok t c (free_bytes fl) (set (fr' @ pa' @ fu')) os'"
    using u slabs_ok_same [of t u] t unfolding e by simp
  then show ?thesis using inv l p t e by (simp add: slab_inv_def)
qed

lemma taken_sel [simp]:
  "links (taken s d) = links s"
  "caches (taken s d) = caches s" "nodes_mem (taken s d) = nodes_mem s" "buddy (taken s d) = buddy s"
  "slab_lock (taken s d) = slab_lock s" "slab_caches (taken s d) = slab_caches s"
  "descs (taken s d) = (descs s)(d := (descs s d)\<lparr>desc_free_list := load_ptr (links s) (desc_free_list (descs s d)), inuse_num := inuse_num (descs s d) + 1\<rparr>)"
  by (simp_all add: taken_def)

lemma take_inv:
  assumes inv: "slab_inv s c fl fr pa fu os" and d: "d \<in> set (fr @ pa)"
  obtains p t fr' pa' fu' os' where "kmem_cache_take s c d = (p, t)" "p \<noteq> NULL" "p \<notin> in_use s c (set (fr @ pa @ fu)) os"
    "slab_inv t c fl fr' pa' fu' os'" "in_use t c (set (fr' @ pa' @ fu')) os' = insert p (in_use s c (set (fr @ pa @ fu)) os)"
    "caches t = caches s" "slab_lock t = slab_lock s" "buddy t = buddy s" "set (fr' @ pa' @ fu') = set (fr @ pa @ fu)" "links t = links s"
proof -
  let ?ds = "set (fr @ pa @ fu)"
  have k: "cache_ok (caches s c)" and ok: "slabs_ok s c (free_bytes fl) ?ds os" and pl: "placed s c fr pa fu"
    and l: "slab_lists s c fr pa fu" using inv by (auto simp: slab_inv_def)
  have n2: "objects_per_slab (caches s c) \<noteq> 0" "objects_per_slab (caches s c) \<noteq> 1" using k by (auto simp: cache_ok_def cache_fit_def)
  have room: "inuse_num (descs s d) \<noteq> objects_per_slab (caches s c)" using d pl n2 by (auto simp: placed_def)
  have dd: "d \<in> ?ds" using d by auto
  obtain p xs where p: "desc_free_list (descs s d) = p" "p \<noteq> NULL" "slabs_ok (taken s d) c (free_bytes fl) ?ds (os(d := xs))"
      "p \<notin> in_use s c ?ds os" "in_use (taken s d) c ?ds (os(d := xs)) = insert p (in_use s c ?ds os)"
    using taken_ok [OF k ok dd room] by blast
  have dist: "distinct (fr @ pa @ fu)" by (rule slab_inv_distinct [OF inv])
  have lt: "slab_lists (taken s d) c fr pa fu" using l by (simp add: slab_lists_def)
  note take = take_eq [of s d c, unfolded p(1), OF p(2)]
  note goal = that
  have fin: thesis if tk: "kmem_cache_take s c d = (p, t)" and sel: "caches t = caches s" "descs t = descs (taken s d)"
      "links t = links (taken s d)" "buddy t = buddy s" "slab_lock t = slab_lock s" and lp: "slab_lists t c fr' pa' fu'" "placed t c fr' pa' fu'"
      "set (fr' @ pa' @ fu') = ?ds" for t fr' pa' fu'
  proof (rule goal [OF tk p(2,4)])
    show "slab_inv t c fl fr' pa' fu' (os(d := xs))" by (rule slab_inv_relocate [OF inv p(3)]) (use sel lp in auto)
    show "in_use t c (set (fr' @ pa' @ fu')) (os(d := xs)) = insert p (in_use s c ?ds os)"
      using p(5) in_use_same [of t "taken s d"] sel(1) unfolding lp(3) by simp
  qed (use sel lp(3) in auto)
  show thesis
  proof (cases "d \<in> set fr")
    case True
    then have "inuse_num (descs s d) = 0" using pl by (simp add: placed_def)
    then have tk: "kmem_cache_take s c d = (p, node_insert (node_unlink (taken s d) (desc_node d)) (partial_slabs c) (desc_node d))"
      using take n2 by simp
    show thesis
      by (rule fin [OF tk _ _ _ _ _ slab_move(1) [OF lt True refl]])
         (use pl dist n2 True \<open>inuse_num (descs s d) = 0\<close> in \<open>auto simp: placed_def set_remove1_eq\<close>)
  next
    case False
    then have dp: "d \<in> set pa" and nz: "inuse_num (descs s d) \<noteq> 0" using d pl by (auto simp: placed_def)
    show thesis
    proof (cases "inuse_num (descs s d) + 1 = objects_per_slab (caches s c)")
      case full: True
      then have tk: "kmem_cache_take s c d = (p, node_insert (node_unlink (taken s d) (desc_node d)) (full_slabs c) (desc_node d))"
        using take by simp
      show thesis
        by (rule fin [OF tk _ _ _ _ _ slab_move(2) [OF lt dp refl]])
           (use pl dist dp full in \<open>auto simp: placed_def set_remove1_eq\<close>)
    next
      case part: False
      moreover have n1: "inuse_num (descs s d) + 1 \<noteq> 1" using nz by simp
      ultimately have tk: "kmem_cache_take s c d = (p, taken s d)" using take by simp
      have "inuse_num (descs s d) + 1 \<noteq> 0"
      proof
        assume "inuse_num (descs s d) + 1 = 0"
        moreover have "unat (inuse_num (descs s d) + 1) = unat (inuse_num (descs s d)) + 1"
          using take_slab [OF k ok dd room] by metis
        ultimately show False by simp
      qed
      then show thesis
        by (intro fin [OF tk _ _ _ _ _ lt]) (use pl dist part dp in \<open>auto simp: placed_def\<close>)
    qed
  qed
qed

section \<open>Putting an object back\<close>

lemma put_sel:
  "caches (kmem_cache_put s c d p) = caches s" "buddy (kmem_cache_put s c d p) = buddy s"
  "slab_lock (kmem_cache_put s c d p) = slab_lock s" "links (kmem_cache_put s c d p) = store_ptr (links s) p (desc_free_list (descs s d))"
  "descs (kmem_cache_put s c d p) = (descs s)(d := (descs s d)\<lparr>inuse_num := inuse_num (descs s d) - 1, desc_free_list := p\<rparr>)"
  by (simp_all add: kmem_cache_put_def Let_def)

lemma put_nodes:
  "nodes_mem (kmem_cache_put s c d p) =
    (let u = upd_desc s d (\<lambda>x. x\<lparr>inuse_num := inuse_num x - 1\<rparr>) in
     if inuse_num (descs s d) = 1 then nodes_mem (node_insert (node_unlink u (desc_node d)) (free_slabs c) (desc_node d))
     else if inuse_num (descs s d) = objects_per_slab (caches s c)
     then nodes_mem (node_insert (node_unlink u (desc_node d)) (partial_slabs c) (desc_node d))
     else nodes_mem s)"
  by (simp add: kmem_cache_put_def Let_def)

lemma put_ok:
  assumes k: "cache_ok (caches s c)" and ok: "slabs_ok s c free ds os" and d: "d \<in> ds"
    and p: "p \<in> slots (caches s c) d" "p \<in> in_use s c ds os"
  defines "t \<equiv> kmem_cache_put s c d p"
  shows "slabs_ok t c free ds (os(d := p # os d))" "in_use t c ds (os(d := p # os d)) = in_use s c ds os - {p}"
    "unat (inuse_num (descs s d) - 1) + 1 = unat (inuse_num (descs s d))"
    "unat (inuse_num (descs s d)) \<le> unat (objects_per_slab (caches s c))"
proof -
  have at: "slab_at s c os d" using ok d by (simp add: slabs_ok_def)
  then have b: "slab_block (caches s c) d" by (simp add: slab_at_def)
  have pn: "p \<notin> set (os d)" using in_use_slab [OF k ok d p(1)] p(2) by simp
  have "card (insert p (set (os d))) \<le> card (slots (caches s c) d)"
    using at p(1) by (intro card_mono) (auto simp: slab_at_def slots_def)
  then have len: "length (os d) < unat (objects_per_slab (caches s c))"
    using at pn by (simp add: card_slots [OF cache_okD [OF k] b] slab_at_def distinct_card)
  then have pos: "0 < unat (inuse_num (descs s d))" using at by (simp add: slab_at_def)
  then show un: "unat (inuse_num (descs s d) - 1) + 1 = unat (inuse_num (descs s d))" by (simp add: unat_minus_one unat_gt_0)
  show "unat (inuse_num (descs s d)) \<le> unat (objects_per_slab (caches s c))" using at by (simp add: slab_at_def)
  have "apart p 8 q 8" if "q \<in> set (os d)" for q
    using k slots_apart [OF cache_okD [OF k] b p(1), of q] that at pn by (auto simp: slab_at_def cache_ok_def intro: apart_mono)
  then have "olist (load_ptr (store_ptr (links s) p a)) b (os d) = olist (load_ptr (links s)) b (os d)" for a b
    by (intro olist_cong load_store_apart)
  then have "slab_at t c (os(d := p # os d)) d"
    using at p(1) pn un slots_nonnull [OF cache_okD [OF k] b p(1)] unfolding t_def by (simp add: slab_at_def put_sel)
  moreover have "links t a = links s a" if a: "unat a \<notin> slab_span (caches s c) d" for a
  proof -
    have "unat (p + of_nat j) \<in> slab_span (caches s c) d" if "j < 8" for j
      using k that by (intro slots_bytes(2) [OF _ b p(1)]) (simp_all add: cache_ok_def)
    then have "store_ptr (links s) p v a = links s a" for v using a by (intro store_ptr_outside) blast
    then show ?thesis by (simp add: t_def put_sel)
  qed
  ultimately show "slabs_ok t c free ds (os(d := p # os d))"
    unfolding t_def by (intro slabs_ok_change [OF k ok d]) (auto simp: put_sel)
  have "in_use s c ds os = in_use s c ds os - slots (caches s c) d \<union> (slots (caches s c) d - set (os d))"
    using in_use_change [OF k ok d, of s "os d"] by simp
  then show "in_use t c ds (os(d := p # os d)) = in_use s c ds os - {p}"
    using in_use_change [OF k ok d, of t "p # os d"] p(1) unfolding t_def by (auto simp: put_sel)
qed

lemma put_inv:
  assumes inv: "slab_inv s c fl fr pa fu os" and d: "d \<in> set (fr @ pa @ fu)"
    and p: "p \<in> slots (caches s c) d" "p \<in> in_use s c (set (fr @ pa @ fu)) os"
  obtains fr' pa' fu' os' where "slab_inv (kmem_cache_put s c d p) c fl fr' pa' fu' os'"
    "in_use (kmem_cache_put s c d p) c (set (fr' @ pa' @ fu')) os' = in_use s c (set (fr @ pa @ fu)) os - {p}"
    "set (fr' @ pa' @ fu') = set (fr @ pa @ fu)"
proof -
  let ?ds = "set (fr @ pa @ fu)" and ?t = "kmem_cache_put s c d p"
  let ?u = "upd_desc s d (\<lambda>x. x\<lparr>inuse_num := inuse_num x - 1\<rparr>)"
  have k: "cache_ok (caches s c)" and ok: "slabs_ok s c (free_bytes fl) ?ds os" and pl: "placed s c fr pa fu"
    and l: "slab_lists s c fr pa fu" using inv by (auto simp: slab_inv_def)
  note po = put_ok [OF k ok d p]
  have dist: "distinct (fr @ pa @ fu)" by (rule slab_inv_distinct [OF inv])
  have lu: "slab_lists ?u c fr pa fu" using l by (simp add: slab_lists_def)
  have n2: "objects_per_slab (caches s c) \<noteq> 1" using k by (auto simp: cache_ok_def cache_fit_def)
  have nz: "inuse_num (descs s d) \<noteq> 0" using po(3) by auto
  note goal = that
  have fin: thesis if lp: "slab_lists ?t c fr' pa' fu'" "placed ?t c fr' pa' fu'" "set (fr' @ pa' @ fu') = ?ds" for fr' pa' fu'
  proof (rule goal)
    show "slab_inv ?t c fl fr' pa' fu' (os(d := p # os d))"
      by (rule slab_inv_relocate [OF inv po(1)]) (use lp in \<open>auto simp: put_sel\<close>)
    show "in_use ?t c (set (fr' @ pa' @ fu')) (os(d := p # os d)) = in_use s c ?ds os - {p}" unfolding lp(3) by (rule po(2))
  qed (rule lp(3))
  show thesis
  proof (cases "d \<in> set fu")
    case True
    then have full: "inuse_num (descs s d) = objects_per_slab (caches s c)" using pl by (simp add: placed_def)
    have "slab_lists ?t c fr (d # pa) (remove1 d fu)"
      using slab_move(4) [OF lu True refl] full n2 by (simp add: slab_lists_def put_nodes)
    then show thesis
      by (rule fin) (use pl dist full True n2 in \<open>auto simp: placed_def put_sel set_remove1_eq\<close>)
  next
    case False
    then have dp: "d \<in> set pa" using d nz pl by (auto simp: placed_def)
    then have nf: "inuse_num (descs s d) \<noteq> objects_per_slab (caches s c)" using pl by (simp add: placed_def)
    show thesis
    proof (cases "inuse_num (descs s d) = 1")
      case True
      then have "slab_lists ?t c (d # fr) (remove1 d pa) fu"
        using slab_move(3) [OF lu dp refl] by (simp add: slab_lists_def put_nodes)
      then show thesis
        by (rule fin) (use pl dist True dp in \<open>auto simp: placed_def put_sel set_remove1_eq\<close>)
    next
      case False
      then have lt: "slab_lists ?t c fr pa fu" using nf l by (simp add: slab_lists_def put_nodes)
      have "inuse_num (descs s d) - 1 \<noteq> objects_per_slab (caches s c)" using po(3,4) by auto
      then show thesis
        by (intro fin [OF lt]) (use pl dist False dp in \<open>auto simp: placed_def put_sel\<close>)
    qed
  qed
qed

theorem kmem_cache_kfree_rep_off:
  assumes "slab_rep_off s c fl R U" "p \<in> U"
  shows "\<exists>t. kmem_cache_kfree s c p = Some t \<and> slab_rep_off t c fl R (U - {p}) \<and> buddy t = buddy s \<and> caches t = caches s"
proof -
  obtain fr pa fu os where inv: "slab_inv s c fl fr pa fu os" and U: "U = in_use s c (set (fr @ pa @ fu)) os"
    and lk: "\<not> slab_lock s" and R: "clear_of s c R (set (fr @ pa @ fu))" using assms(1) by (auto simp: slab_rep_off_def)
  define s1 where "s1 = s\<lparr>slab_lock := True\<rparr>"
  have inv1: "slab_inv s1 c fl fr pa fu os"
    using inv by (simp add: s1_def)
  have U1: "U = in_use s1 c (set (fr @ pa @ fu)) os" by (simp add: U s1_def)
  obtain d where d: "d \<in> set (fr @ pa @ fu)" "p \<in> slots (caches s1 c) d" using assms(2) U1 by (auto simp: in_use_def)
  have "slab_block (caches s1 c) d" "cache_ok (caches s1 c)"
    using inv1 d(1) by (auto simp: slab_inv_def slabs_ok_def slab_at_def)
  then have base: "slab_base_of (caches s1 c) p = d" using slab_base d(2) cache_okD by blast
  obtain fr' pa' fu' os' where r: "slab_inv (kmem_cache_put s1 c d p) c fl fr' pa' fu' os'"
      "in_use (kmem_cache_put s1 c d p) c (set (fr' @ pa' @ fu')) os' = U - {p}" "set (fr' @ pa' @ fu') = set (fr @ pa @ fu)"
    using put_inv [OF inv1 d] assms(2) unfolding U1 by metis
  let ?t = "spinlock_release (kmem_cache_put s1 c d p)"
  have "clear_of (kmem_cache_put s1 c d p) c R (set (fr' @ pa' @ fu'))" unfolding r(3) using R by (simp add: clear_of_def put_sel s1_def)
  then have "slab_rep_off ?t c fl R (U - {p})" by (rule slab_rep_release [OF r(1,2)])
  moreover have "buddy ?t = buddy s" "caches ?t = caches s" by (simp_all add: spinlock_release_def put_sel s1_def)
  moreover have "kmem_cache_kfree s c p = Some ?t"
    using lk base by (simp add: kmem_cache_kfree_def spinlock_acquire_def s1_def Let_def)
  ultimately show ?thesis by blast
qed

section \<open>Using an object\<close>

text \<open>A client may write to any byte of an object in use: the free lists are in other objects.\<close>

definition fill_object :: "addr \<Rightarrow> slab_state \<Rightarrow> addr \<Rightarrow> u8 list \<Rightarrow> slab_state" where
  "fill_object c s p bs = s\<lparr>links := poke (links s) p (take (unat (object_size (caches s c))) bs)\<rparr>"

lemma fill_object_inv:
  assumes inv: "slab_inv s c fl fr pa fu os" and p: "p \<in> in_use s c (set (fr @ pa @ fu)) os"
  shows "slab_inv (fill_object c s p bs) c fl fr pa fu os"
proof -
  let ?ds = "set (fr @ pa @ fu)" and ?t = "fill_object c s p bs"
  have k: "cache_ok (caches s c)" and ok: "slabs_ok s c (free_bytes fl) ?ds os" using inv by (auto simp: slab_inv_def)
  obtain d where d: "d \<in> ?ds" "p \<in> slots (caches s c) d" "p \<notin> set (os d)" using p by (auto simp: in_use_def)
  have "slab_at ?t c os e" if e: "e \<in> ?ds" for e
  proof -
    have at: "slab_at s c os e" using ok e by (simp add: slabs_ok_def)
    have "load_ptr (links ?t) q = load_ptr (links s) q" if q: "q \<in> set (os e)" for q
    proof -
      have qs: "q \<in> slots (caches s c) e" using at q by (auto simp: slab_at_def)
      then have "q \<notin> in_use s c ?ds os" using in_use_slab [OF k ok e] q by blast
      then have "p \<noteq> q" using p by blast
      from objects_apart [OF k ok d(1) e d(2) qs this] show ?thesis
        unfolding fill_object_def using k by (simp, intro load_poke_apart) (auto simp: cache_ok_def intro: apart_mono)
    qed
    then have "olist (load_ptr (links ?t)) a (os e) = olist (load_ptr (links s)) a (os e)" for a by (rule olist_cong)
    then show ?thesis using at by (simp add: slab_at_def fill_object_def)
  qed
  then have "slabs_ok ?t c (free_bytes fl) ?ds os" using ok by (simp add: slabs_ok_def fill_object_def)
  then show ?thesis using inv by (simp add: slab_inv_def slab_lists_def placed_def fill_object_def)
qed

lemma fill_object_rep_in:
  assumes "slab_rep_in s c fl U" "p \<in> U"
  shows "slab_rep_in (fill_object c s p bs) c fl U"
proof -
  obtain fr pa fu os where i: "slab_inv s c fl fr pa fu os" "U = in_use s c (set (fr @ pa @ fu)) os" "\<not> slab_lock s"
    using assms(1) by (auto simp: slab_rep_in_def)
  have "slab_inv (fill_object c s p bs) c fl fr pa fu os" using assms(2) unfolding i(2) by (rule fill_object_inv [OF i(1)])
  moreover have "in_use (fill_object c s p bs) c (set (fr @ pa @ fu)) os = U" by (simp add: i(2) in_use_def fill_object_def)
  moreover have "\<not> slab_lock (fill_object c s p bs)" using i(3) by (simp add: fill_object_def)
  ultimately show ?thesis unfolding slab_rep_in_def by blast
qed

lemma slab_rep_size: "slab_rep s c U \<Longrightarrow> 8 \<le> unat (object_size (caches s c))"
  by (auto simp: slab_rep_def slab_rep_in_def slab_inv_def cache_ok_def)

lemma kmem_cache_kfree_bytes:
  assumes "kmem_cache_kfree s c p = Some t" "links t a \<noteq> links s a"
  shows "\<exists>j<8. a = p + of_nat j"
proof (rule ccontr)
  assume "\<not> ?thesis"
  then have "store_ptr (links s) p v a = links s a" for v by (intro store_ptr_outside) blast
  then show False using assms by (auto simp: kmem_cache_kfree_def spinlock_acquire_def spinlock_release_def put_sel Let_def split: if_splits)
qed

lemma slab_rep_in_bytes:
  assumes "slab_rep_in s c fl U" "p \<in> U" "j < unat (object_size (caches s c))"
  shows "unat (p + of_nat j) \<notin> free_bytes fl"
proof -
  obtain fr pa fu os where i: "slab_inv s c fl fr pa fu os" "U = in_use s c (set (fr @ pa @ fu)) os"
    using assms(1) by (auto simp: slab_rep_in_def)
  then obtain d where d: "d \<in> set (fr @ pa @ fu)" "p \<in> slots (caches s c) d" using assms(2) by (auto simp: in_use_def)
  then have "slab_block (caches s c) d" "cache_fit (caches s c)" "free_bytes fl \<inter> slab_span (caches s c) d = {}"
    using i(1) by (auto simp: slab_inv_def slabs_ok_def slab_at_def)
  then show ?thesis using slots_bytes(2) [OF _ _ d(2) assms(3)] by blast
qed

lemma slab_rep_apart:
  assumes "slab_rep s c U" "p \<in> U" "q \<in> U" "p \<noteq> q"
  shows "apart p (unat (object_size (caches s c))) q (unat (object_size (caches s c)))"
proof -
  obtain fl fr pa fu os where i: "slab_inv s c fl fr pa fu os" "U = in_use s c (set (fr @ pa @ fu)) os"
    using assms(1) by (auto simp: slab_rep_def slab_rep_in_def)
  then show ?thesis using objects_apart [of s c "free_bytes fl" "set (fr @ pa @ fu)" os] assms(2-4) unfolding slab_inv_def in_use_def by blast
qed

lemma fill_object_rep:
  assumes "slab_rep s c U" "p \<in> U"
  shows "slab_rep (fill_object c s p bs) c U"
  using assms fill_object_rep_in unfolding slab_rep_def by blast

lemma kmem_cache_kfree_rep_in:
  assumes "slab_rep_in s c fl U" "p \<in> U"
  shows "\<exists>t. kmem_cache_kfree s c p = Some t \<and> slab_rep_in t c fl (U - {p}) \<and> buddy t = buddy s \<and> caches t = caches s"
  using assms unfolding slab_rep_in_off by (rule kmem_cache_kfree_rep_off)

lemma kmem_cache_kfree_rep:
  assumes "slab_rep s c U" "p \<in> U"
  shows "\<exists>t. kmem_cache_kfree s c p = Some t \<and> slab_rep t c (U - {p})"
  using assms kmem_cache_kfree_rep_in unfolding slab_rep_def by meson

end
