(* ===== verification/Slab_Alloc.thy ===== *)
theory Slab_Alloc
  imports Slab_Correct
begin

text \<open>
  Growing a cache by a slab from the buddy allocator, and \<open>kmem_cache_kalloc\<close> as a whole.
\<close>

section \<open>Threading the free list\<close>

text \<open>The stores touch the eight bytes from each object on; the last store to a byte counts.\<close>

lemma thread_objects_frame:
  "(\<And>i j. i \<in> set idxs \<Longrightarrow> j < 8 \<Longrightarrow> a \<noteq> first + of_nat i * object_size k + of_nat j) \<Longrightarrow>
   thread_objects k first idxs h a = h a"
proof (induction idxs arbitrary: h)
  case (Cons i idxs)
  have "store_ptr h (first + of_nat i * object_size k) v a = h a" for v by (rule store_ptr_outside) (use Cons.prems in simp)
  then show ?case using Cons by (simp add: Let_def)
qed simp

lemma thread_objects_apart:
  "(\<And>i. i \<in> set idxs \<Longrightarrow> apart (first + of_nat i * object_size k) 8 a 8) \<Longrightarrow>
   load_ptr (thread_objects k first idxs h) a = load_ptr h a"
  by (induction idxs arbitrary: h) (simp_all add: Let_def load_store_apart)

lemma thread_objects_at:
  assumes "\<And>i j. i \<in> set idxs \<Longrightarrow> j \<in> set idxs \<Longrightarrow> i \<noteq> j \<Longrightarrow> apart (first + of_nat i * object_size k) 8 (first + of_nat j * object_size k) 8"
    "distinct idxs" "i \<in> set idxs"
  shows "load_ptr (thread_objects k first idxs h) (first + of_nat i * object_size k) =
    (if i < unat (objects_per_slab k) - 1 then first + of_nat i * object_size k + object_size k else NULL)"
  using assms
proof (induction idxs arbitrary: h)
  case (Cons j js)
  show ?case
  proof (cases "i = j")
    case True
    have "apart (first + of_nat m * object_size k) 8 (first + of_nat i * object_size k) 8" if "m \<in> set js" for m
      using Cons.prems True that by auto
    then show ?thesis using True by (simp add: Let_def thread_objects_apart)
  next
    case False
    then show ?thesis using Cons.IH Cons.prems by (simp add: Let_def)
  qed
qed simp

lemma slot_Suc: "slot k d (Suc i) = slot k d i + object_size k"
  by (simp add: slot_def algebra_simps)

lemma olist_slots:
  assumes "\<And>i. i < n \<Longrightarrow> h (slot k d i) = (if i < n - 1 then slot k d (Suc i) else NULL)"
    and "\<And>i. i < n \<Longrightarrow> slot k d i \<noteq> NULL" "i < n"
  shows "olist h (slot k d i) (map (slot k d) [i..<n])"
  using assms(3)
proof (induction "n - i" arbitrary: i)
  case (Suc m)
  show ?case
  proof (cases "Suc i < n")
    case True
    then have "h (slot k d i) = slot k d (Suc i)" using assms(1) [of i] by auto
    moreover have "olist h (slot k d (Suc i)) (map (slot k d) [Suc i..<n])" using Suc True by auto
    ultimately show ?thesis using assms(2) Suc.prems by (simp add: upt_conv_Cons [of i])
  next
    case False
    then have "Suc i = n" using Suc.prems by simp
    then show ?thesis using assms(1) [of i] assms(2) [of i] by (auto simp: upt_conv_Cons [of i])
  qed
qed simp

lemma thread_olist:
  assumes k: "cache_ok k" and d: "slab_block k d"
  defines "first \<equiv> d + first_object_offset k" and "n \<equiv> unat (objects_per_slab k)"
  shows "olist (load_ptr (thread_objects k first [0..<n] h)) first (map (slot k d) [0..<n])"
proof -
  have sl: "first + of_nat i * object_size k = slot k d i" for i by (simp add: slot_def first_def)
  have f: "cache_fit k" "8 \<le> unat (object_size k)" using k by (simp_all add: cache_ok_def)
  have ap: "apart (slot k d i) 8 (slot k d j) 8" if "i \<in> set [0..<n]" "j \<in> set [0..<n]" "i \<noteq> j" for i j
  proof -
    have "slot k d i \<noteq> slot k d j" using slot_inj [OF f(1) d, of i j] that by (auto simp: n_def)
    then have "apart (slot k d i) (unat (object_size k)) (slot k d j) (unat (object_size k))"
      using that by (intro slots_apart [OF f(1) d]) (auto simp: slots_def n_def)
    then show ?thesis using f(2) by (auto intro: apart_mono)
  qed
  have n: "0 < n" using f(1) by (simp add: cache_fit_def n_def)
  have "load_ptr (thread_objects k first [0..<n] h) (slot k d i) = (if i < n - 1 then slot k d (Suc i) else NULL)" if "i < n" for i
    using thread_objects_at [of "[0..<n]" first k i h, unfolded sl, OF ap] that by (simp add: n_def slot_Suc)
  moreover have "slot k d i \<noteq> NULL" if "i < n" for i
    using slots_nonnull [OF f(1) d] that by (simp add: slots_def n_def)
  ultimately have "olist (load_ptr (thread_objects k first [0..<n] h)) (slot k d 0) (map (slot k d) [0..<n])"
    using n by (rule olist_slots) auto
  then show ?thesis by (simp add: slot_def first_def)
qed

section \<open>A fresh slab\<close>

lemma slabs_ok_new:
  assumes k: "cache_ok (caches s c)" and ok: "slabs_ok s c free ds os" and sub: "slab_span (caches s c) x \<subseteq> free"
    and t: "caches t c = caches s c" "\<And>e. e \<noteq> x \<Longrightarrow> descs t e = descs s e"
      "\<And>a. unat a \<notin> slab_span (caches s c) x \<Longrightarrow> links t a = links s a"
    and at: "slab_at t c (os(x := xs)) x"
  shows "slabs_ok t c (free - slab_span (caches s c) x) (insert x ds) (os(x := xs))" "x \<notin> ds"
proof -
  have new: "slab_span (caches s c) x \<inter> slab_span (caches s c) e = {}" if "e \<in> ds" for e
    using ok that sub by (auto simp: slabs_ok_def)
  then show x: "x \<notin> ds" using span_nonempty(1) by (metis Int_absorb)
  have b: "slab_block (caches s c) x" using at t(1) by (simp add: slab_at_def)
  have "slab_at t c (os(x := xs)) e" if e: "e \<in> ds" for e
  proof -
    have se: "slab_at s c os e" using ok e by (simp add: slabs_ok_def)
    then have be: "slab_block (caches s c) e" by (simp add: slab_at_def)
    have "load_ptr (links t) p = load_ptr (links s) p" if "p \<in> set (os e)" for p
    proof (rule load_ptr_slab [OF k be])
      show "p \<in> slots (caches s c) e" using se that by (auto simp: slab_at_def)
      show "links t a = links s a" if "unat a \<in> slab_span (caches s c) e" for a using that new [OF e] by (intro t(3)) blast
    qed
    then have "olist (load_ptr (links t)) a (os e) = olist (load_ptr (links s)) a (os e)" for a by (rule olist_cong)
    moreover have "e \<noteq> x" using e x by auto
    ultimately show ?thesis using se t(1,2) by (simp add: slab_at_def)
  qed
  moreover have "slab_span (caches s c) d \<inter> slab_span (caches s c) e = {}" if "d \<in> insert x ds" "e \<in> insert x ds" "d \<noteq> e" for d e
  proof (cases "d \<in> ds \<and> e \<in> ds")
    case True
    then show ?thesis using ok that(3) unfolding slabs_ok_def by blast
  next
    case False
    then show ?thesis using that new by (metis Int_commute insert_iff)
  qed
  moreover have "(free - slab_span (caches s c) x) \<inter> slab_span (caches s c) d = {}" if "d \<in> insert x ds" for d
    using that ok by (auto simp: slabs_ok_def)
  ultimately show "slabs_ok t c (free - slab_span (caches s c) x) (insert x ds) (os(x := xs))"
    using at unfolding slabs_ok_def t(1) by simp
qed

lemma in_use_new:
  assumes "x \<notin> ds" "set xs = slots (caches s c) x" "caches t = caches s"
  shows "in_use t c (insert x ds) (os(x := xs)) = in_use s c ds os"
proof -
  have "(\<Union>d\<in>ds. slots (caches s c) d - set ((os(x := xs)) d)) = (\<Union>d\<in>ds. slots (caches s c) d - set (os d))"
    using assms(1) by (intro SUP_cong) auto
  then show ?thesis using assms(2) by (simp add: in_use_def assms(3))
qed

lemma unat_desc_node: "slab_block k d \<Longrightarrow> unat (desc_node d) = unat d + 24"
proof -
  assume "slab_block k d"
  moreover have "(2::nat) ^ 12 \<le> 2 ^ (unat (slab_order k) + 12)" by (intro power_increasing) auto
  ultimately show ?thesis unfolding desc_node_def by (subst unat_add_no_overflow) (auto simp: slab_block_def)
qed

lemma desc_node_in_span: "slab_block k d \<Longrightarrow> unat (desc_node d) \<in> slab_span k d"
proof -
  assume "slab_block k d"
  moreover have "(2::nat) ^ 12 \<le> 2 ^ (unat (slab_order k) + 12)" by (intro power_increasing) auto
  ultimately show ?thesis by (auto simp: unat_desc_node span_def)
qed

lemma size_order_chunk:
  assumes "k \<le> 10"
  shows "size_order (chunk_bytes k) 0 = Some k"
proof -
  have e: "unat (chunk_bytes k) = 2 ^ (k + 12)"
  proof -
    have c: "chunk_bytes k = 2 ^ (k + 12)" by (simp add: chunk_bytes_def PAGE_SIZE_def push_bit_eq_mult power_add)
    show ?thesis unfolding c using assms by simp
  qed
  moreover have "(2::nat) ^ (k + 12) \<le> 2 ^ 63" using assms by (intro power_increasing) auto
  ultimately obtain j where j: "size_order (chunk_bytes k) 0 = Some j" "2 ^ (k + 12) \<le> (2::nat) ^ (j + 12)"
      "\<And>i. i < j \<Longrightarrow> (2::nat) ^ (i + 12) < 2 ^ (k + 12)"
    using size_order_spec [of "chunk_bytes k"] by (metis e)
  have "k \<le> j" using j(2) by simp
  moreover have "\<not> k < j" using j(3) [of k] by auto
  ultimately show ?thesis using j(1) by simp
qed

lemma finite_free_bytes [simp]: "finite (free_bytes fl)"
  by (simp add: free_bytes_def span_def)

text \<open>
  The free bytes after something has been taken from the buddy allocator, at most \<open>n\<close> bytes. Taking keeps
  the lists tidy.
\<close>

definition shrunk :: "(nat \<Rightarrow> addr list) \<Rightarrow> (nat \<Rightarrow> addr list) \<Rightarrow> nat \<Rightarrow> bool" where
  "shrunk fl fl' n \<longleftrightarrow> free_bytes fl' \<subseteq> free_bytes fl \<and> card (free_bytes fl) \<le> card (free_bytes fl') + n \<and>
     (tidy fl \<longrightarrow> tidy fl')"

lemma shrunk_refl [simp]: "shrunk fl fl n"
  by (simp add: shrunk_def)

lemma shrunk_trans: "shrunk fl fl' m \<Longrightarrow> shrunk fl' fl'' n \<Longrightarrow> shrunk fl fl'' (m + n)"
  by (auto simp: shrunk_def)

lemma shrunk_span:
  assumes "free_bytes fl' = free_bytes fl - span x k" "span x k \<subseteq> free_bytes fl" "tidy fl \<longrightarrow> tidy fl'"
  shows "shrunk fl fl' (2 ^ (k + 12))"
proof -
  have "card (free_bytes fl) = card (free_bytes fl') + card (span x k)"
    unfolding assms(1) using card_Diff_subset [OF finite_subset [OF assms(2)] assms(2)] card_mono [OF _ assms(2)] by simp
  then show ?thesis using assms(1,3) by (auto simp: shrunk_def span_def)
qed

text \<open>What growing does once the buddy allocator has given a block.\<close>

definition grown_slab :: "slab_state \<Rightarrow> addr \<Rightarrow> addr \<Rightarrow> buddy_metadata \<Rightarrow> slab_state" where
  "grown_slab s c x b =
     upd_desc (s\<lparr>buddy := b, links := thread_objects (caches s c) (x + first_object_offset (caches s c))
         [0..<unat (objects_per_slab (caches s c))] (links s)\<rparr>) x
       (\<lambda>d. d\<lparr>desc_cache := c, inuse_num := 0, desc_free_list := x + first_object_offset (caches s c)\<rparr>)"

lemma grow_eq:
  "buddy_kalloc (buddy s) (chunk_bytes (unat (slab_order (caches s c)))) = Some (x, b) \<Longrightarrow> x \<noteq> NULL \<Longrightarrow>
   kmem_cache_grow s c = Some (True, node_insert (grown_slab s c x b) (free_slabs c) (desc_node x))"
  by (simp add: kmem_cache_grow_def grown_slab_def upd_desc_def Let_def)

lemma grow_inv:
  assumes inv: "slab_inv s c fl fr pa fu os"
  shows "(\<exists>t. kmem_cache_grow s c = Some (False, t) \<and> t = s \<and>
      buddy_kalloc (buddy s) (chunk_bytes (unat (slab_order (caches s c)))) = Some (NULL, buddy s)) \<or>
    (\<exists>t x fl' os'. kmem_cache_grow s c = Some (True, t) \<and> slab_inv t c fl' (x # fr) pa fu os' \<and>
      in_use t c (set ((x # fr) @ pa @ fu)) os' = in_use s c (set (fr @ pa @ fu)) os \<and>
      slab_lock t = slab_lock s \<and> caches t = caches s \<and> shrunk fl fl' (2 ^ (unat (slab_order (caches s c)) + 12)) \<and>
      base_address (buddy t) = base_address (buddy s) \<and> region_size (buddy t) = region_size (buddy s) \<and>
      slab_span (caches s c) x \<subseteq> free_bytes fl \<and> (\<forall>a. unat a \<notin> free_bytes fl \<longrightarrow> links t a = links s a) \<and>
      buddy_kalloc (buddy s) (chunk_bytes (unat (slab_order (caches s c)))) \<noteq> Some (NULL, buddy s))"
proof -
  let ?k = "caches s c" and ?ds = "set (fr @ pa @ fu)"
  define o1 where "o1 = unat (slab_order ?k)"
  define n where "n = unat (objects_per_slab ?k)"
  have k: "cache_ok ?k" and ok: "slabs_ok s c (free_bytes fl) ?ds os" and pl: "placed s c fr pa fu"
    and l: "slab_lists s c fr pa fu" and bi: "buddy_inv (buddy s) fl"
    and sen: "\<forall>h\<in>{free_slabs c, partial_slabs c, full_slabs c}. unat h \<notin> free_bytes fl"
    and rg: "\<forall>d\<in>?ds. unat d + 2 ^ (unat (slab_order ?k) + 12) \<le> region_end (buddy s)" using inv by (auto simp: slab_inv_def)
  have fit: "cache_fit ?k" by (rule cache_okD [OF k])
  then have o10: "o1 \<le> 10" by (simp add: cache_fit_def o1_def)
  note ka = kalloc_inv [OF bi size_order_chunk [OF o10]]
  show ?thesis
  proof (cases "\<forall>j\<in>{o1..10}. fl j = []")
    case True
    then have "buddy_kalloc (buddy s) (chunk_bytes o1) = Some (NULL, buddy s)" using ka by simp
    then show ?thesis by (simp add: kmem_cache_grow_def o1_def)
  next
    case False
    then obtain x b fl' where x: "buddy_kalloc (buddy s) (chunk_bytes o1) = Some (x, b)" "x \<noteq> NULL" "wf_block (buddy s) x o1"
        "buddy_inv b fl'" "span x o1 \<subseteq> free_bytes fl" "free_bytes fl' = free_bytes fl - span x o1"
        "base_address b = base_address (buddy s)" "region_size b = region_size (buddy s)" "tidy fl \<longrightarrow> tidy fl'"
      using ka o10 by (simp add: False not_less del: atLeastAtMost_iff) blast
    have sb: "slab_block ?k x"
      using x(2,3) bi by (auto simp: slab_block_def wf_block_def buddy_inv_def wf_region_def o1_def)
    define first where "first = x + first_object_offset ?k"
    define u where "u = grown_slab s c x b"
    define t where "t = node_insert u (free_slabs c) (desc_node x)"
    define xs where "xs = map (slot ?k x) [0..<n]"
    have g: "kmem_cache_grow s c = Some (True, t)"
      using x(1,2) unfolding o1_def t_def u_def by (rule grow_eq)
    have sel: "caches t = caches s" "slab_lock t = slab_lock s" "buddy t = b" "links t = thread_objects ?k first [0..<n] (links s)"
      "descs t = (descs s)(x := (descs s x)\<lparr>desc_cache := c, inuse_num := 0, desc_free_list := first\<rparr>)"
      by (simp_all add: t_def u_def grown_slab_def first_def n_def)
    have xs: "set xs = slots ?k x" by (auto simp: xs_def slots_def n_def)
    have "inj_on (slot ?k x) (set [0..<n])" using slot_inj [OF fit sb] by (auto simp: inj_on_def n_def)
    then have dxs: "distinct xs" by (simp add: xs_def distinct_map)
    have at: "slab_at t c (os(x := xs)) x"
      using sb dxs xs thread_olist [OF k sb, of "links s"] unfolding slab_at_def sel
      by (simp add: xs_def n_def first_def)
    have fr: "links t a = links s a" if a: "unat a \<notin> slab_span ?k x" for a
      unfolding sel
    proof (rule thread_objects_frame)
      fix i j :: nat assume "i \<in> set [0..<n]" "j < 8"
      then have "unat (slot ?k x i + of_nat j) \<in> slab_span ?k x"
        using k by (intro slots_bytes(2) [OF fit sb]) (auto simp: slots_def n_def cache_ok_def)
      then show "a \<noteq> first + of_nat i * object_size ?k + of_nat j" using a by (auto simp: slot_def first_def)
    qed
    have sub: "slab_span ?k x \<subseteq> free_bytes fl" using x(5) by (simp add: o1_def)
    have new: "slabs_ok t c (free_bytes fl - slab_span ?k x) (insert x ?ds) (os(x := xs))" "x \<notin> ?ds"
      using slabs_ok_new [OF k ok sub _ _ fr at] by (simp_all add: sel)
    have "unat (desc_node x) \<in> free_bytes fl" using desc_node_in_span [OF sb] sub by blast
    then have "desc_node x \<notin> {free_slabs c, partial_slabs c, full_slabs c}" using sen by auto
    then have "lists3 (nodes_mem t) (free_slabs c, desc_node x # map desc_node fr) (partial_slabs c, map desc_node pa) (full_slabs c, map desc_node fu)"
      using l new(2) unfolding t_def by (intro insert3) (auto simp: slab_lists_def u_def grown_slab_def)
    then have "slab_lists t c (x # fr) pa fu" by (simp add: slab_lists_def)
    moreover have "placed t c (x # fr) pa fu" using pl new(2) by (auto simp: placed_def sel)
    ultimately have "slab_inv t c fl' (x # fr) pa fu (os(x := xs))"
      using k new(1) x(3,4,6,7,8) sen rg by (auto simp: slab_inv_def sel o1_def region_end_def wf_block_def)
    moreover have "in_use t c (set ((x # fr) @ pa @ fu)) (os(x := xs)) = in_use s c ?ds os"
      using in_use_new [OF new(2) xs sel(1)] by simp
    moreover have "shrunk fl fl' (2 ^ (unat (slab_order ?k) + 12))" using shrunk_span [OF x(6,5,9)] by (simp add: o1_def)
    moreover have "buddy_kalloc (buddy s) (chunk_bytes (unat (slab_order ?k))) \<noteq> Some (NULL, buddy s)" using x(1,2) by (simp add: o1_def)
    moreover have "\<forall>a. unat a \<notin> free_bytes fl \<longrightarrow> links t a = links s a" using fr sub by blast
    ultimately show ?thesis using g sel x(7,8) sub by (metis)
  qed
qed

section \<open>Allocation\<close>

lemma slab_lists_heads:
  assumes "slab_lists s c fr pa fu"
  shows "sl_next (nodes_mem s (partial_slabs c)) = (case pa of [] \<Rightarrow> partial_slabs c | d # _ \<Rightarrow> desc_node d)"
    "sl_next (nodes_mem s (free_slabs c)) = (case fr of [] \<Rightarrow> free_slabs c | d # _ \<Rightarrow> desc_node d)"
    "partial_slabs c \<notin> desc_node ` set pa" "free_slabs c \<notin> desc_node ` set fr"
  using assms clist_head unfolding slab_lists_def lists3_alt by (fastforce split: list.splits)+

definition cache_exhausted :: "slab_state \<Rightarrow> addr \<Rightarrow> bool" where
  "cache_exhausted s c \<longleftrightarrow>
     sl_next (nodes_mem s (partial_slabs c)) = partial_slabs c \<and> sl_next (nodes_mem s (free_slabs c)) = free_slabs c \<and>
     buddy_kalloc (buddy s) (chunk_bytes (unat (slab_order (caches s c)))) = Some (NULL, buddy s)"

theorem kmem_cache_kalloc_rep_off:
  assumes "slab_rep_off s c fl R U" "R \<inter> free_bytes fl = {}"
  shows "\<exists>p t fl'. kmem_cache_kalloc s c = Some (p, t) \<and> shrunk fl fl' (2 ^ (unat (slab_order (caches s c)) + 12)) \<and> caches t = caches s \<and>
    base_address (buddy t) = base_address (buddy s) \<and> region_size (buddy t) = region_size (buddy s) \<and>
    (\<forall>a. unat a \<notin> free_bytes fl \<longrightarrow> links t a = links s a) \<and>
    (if p = NULL then t = s \<and> fl' = fl \<and> cache_exhausted s c else \<not> cache_exhausted s c \<and> p \<notin> U \<and> slab_rep_off t c fl' R (insert p U))"
proof -
  obtain fr pa fu os where inv0: "slab_inv s c fl fr pa fu os" and U0: "U = in_use s c (set (fr @ pa @ fu)) os"
    and lk: "\<not> slab_lock s" and R: "clear_of s c R (set (fr @ pa @ fu))" using assms(1) by (auto simp: slab_rep_off_def)
  define s1 where "s1 = s\<lparr>slab_lock := True\<rparr>"
  have inv: "slab_inv s1 c fl fr pa fu os" and U: "U = in_use s1 c (set (fr @ pa @ fu)) os"
    using inv0 U0 by (simp_all add: s1_def)
  have acq: "spinlock_acquire s = Some s1" using lk by (simp add: spinlock_acquire_def s1_def)
  have heads: "sl_next (nodes_mem s1 (partial_slabs c)) = (case pa of [] \<Rightarrow> partial_slabs c | d # _ \<Rightarrow> desc_node d)"
    "sl_next (nodes_mem s1 (free_slabs c)) = (case fr of [] \<Rightarrow> free_slabs c | d # _ \<Rightarrow> desc_node d)"
    "partial_slabs c \<notin> desc_node ` set pa" "free_slabs c \<notin> desc_node ` set fr"
    using slab_lists_heads [of s1 c fr pa fu] inv by (simp_all add: slab_inv_def)
  have R1: "clear_of s1 c R (set (fr @ pa @ fu))" using R by (simp add: clear_of_def s1_def)
  have tk: "\<exists>p t. kmem_cache_take s2 c d = (p, t) \<and> p \<noteq> NULL \<and> p \<notin> U \<and> slab_rep_off (spinlock_release t) c fl2 R (insert p U) \<and>
      buddy (spinlock_release t) = buddy s2 \<and> caches (spinlock_release t) = caches s2 \<and> links (spinlock_release t) = links s2"
    if i2: "slab_inv s2 c fl2 fr2 pa2 fu2 os2" "in_use s2 c (set (fr2 @ pa2 @ fu2)) os2 = U" "clear_of s2 c R (set (fr2 @ pa2 @ fu2))" "d \<in> set (fr2 @ pa2)"
    for s2 fl2 fr2 pa2 fu2 os2 d
  proof -
    obtain p t fr' pa' fu' os' where "kmem_cache_take s2 c d = (p, t)" "p \<noteq> NULL" "p \<notin> U" "buddy t = buddy s2" "caches t = caches s2" "links t = links s2"
        "slab_inv t c fl2 fr' pa' fu' os'" "in_use t c (set (fr' @ pa' @ fu')) os' = insert p U"
        "set (fr' @ pa' @ fu') = set (fr2 @ pa2 @ fu2)"
      using take_inv [OF i2(1,4)] unfolding i2(2) by metis
    moreover from this have "clear_of t c R (set (fr' @ pa' @ fu'))" using i2(3) by (simp add: clear_of_def)
    ultimately show ?thesis using slab_rep_release by (auto simp: spinlock_release_def)
  qed
  consider (pa) d ds where "pa = d # ds" | (fr) d ds where "pa = []" "fr = d # ds" | (none) "pa = []" "fr = []"
    by (cases pa; cases fr) auto
  then show ?thesis
  proof cases
    case pa
    then have "\<not> cache_exhausted s c" using heads by (auto simp: cache_exhausted_def s1_def)
    moreover have "kmem_cache_kalloc s c = (let (p, t) = kmem_cache_take s1 c d in Some (p, spinlock_release t))"
      using pa heads acq by (auto simp: kmem_cache_kalloc_def)
    moreover obtain p u where "kmem_cache_take s1 c d = (p, u)" "p \<noteq> NULL" "p \<notin> U"
        "slab_rep_off (spinlock_release u) c fl R (insert p U)" "buddy (spinlock_release u) = buddy s1" "caches (spinlock_release u) = caches s1"
        "links (spinlock_release u) = links s1"
      using tk [OF inv U [symmetric] R1, of d] pa by auto
    ultimately show ?thesis by (intro exI [of _ p] exI [of _ "spinlock_release u"] exI [of _ fl]) (simp add: s1_def)
  next
    case fr
    then have "\<not> cache_exhausted s c" using heads by (auto simp: cache_exhausted_def s1_def)
    moreover have "kmem_cache_kalloc s c = (let (p, t) = kmem_cache_take s1 c d in Some (p, spinlock_release t))"
      using fr heads acq by (auto simp: kmem_cache_kalloc_def)
    moreover obtain p u where "kmem_cache_take s1 c d = (p, u)" "p \<noteq> NULL" "p \<notin> U"
        "slab_rep_off (spinlock_release u) c fl R (insert p U)" "buddy (spinlock_release u) = buddy s1" "caches (spinlock_release u) = caches s1"
        "links (spinlock_release u) = links s1"
      using tk [OF inv U [symmetric] R1, of d] fr by auto
    ultimately show ?thesis by (intro exI [of _ p] exI [of _ "spinlock_release u"] exI [of _ fl]) (simp add: s1_def)
  next
    case none
    have rel: "spinlock_release s1 = s" using lk by (simp add: spinlock_release_def s1_def)
    have eq: "kmem_cache_kalloc s c = do {
        (ok, s) \<leftarrow> kmem_cache_grow s c;
        s \<leftarrow> spinlock_acquire s;
        if \<not> ok then Some (NULL, spinlock_release s)
        else let (p, t) = kmem_cache_take s c (desc_of_node (sl_next (nodes_mem s (free_slabs c)))) in Some (p, spinlock_release t) }"
      using heads acq rel none by (simp add: kmem_cache_kalloc_def)
    from grow_inv [OF inv0] show ?thesis
    proof (elim disjE exE conjE)
      fix t assume g: "kmem_cache_grow s c = Some (False, t)" "t = s"
        "buddy_kalloc (buddy s) (chunk_bytes (unat (slab_order (caches s c)))) = Some (NULL, buddy s)"
      then have "kmem_cache_kalloc s c = Some (NULL, s)" using eq acq rel by simp
      moreover have "cache_exhausted s c" using g(3) heads none by (simp add: cache_exhausted_def s1_def)
      ultimately show ?thesis by auto
    next
      fix t x fl' os' assume g: "kmem_cache_grow s c = Some (True, t)" "slab_inv t c fl' (x # fr) pa fu os'"
        "in_use t c (set ((x # fr) @ pa @ fu)) os' = in_use s c (set (fr @ pa @ fu)) os" "slab_lock t = slab_lock s"
        "caches t = caches s" "shrunk fl fl' (2 ^ (unat (slab_order (caches s c)) + 12))" "base_address (buddy t) = base_address (buddy s)" "region_size (buddy t) = region_size (buddy s)"
        "slab_span (caches s c) x \<subseteq> free_bytes fl" "\<forall>a. unat a \<notin> free_bytes fl \<longrightarrow> links t a = links s a"
        "buddy_kalloc (buddy s) (chunk_bytes (unat (slab_order (caches s c)))) \<noteq> Some (NULL, buddy s)"
      let ?t = "t\<lparr>slab_lock := True\<rparr>"
      have i2: "slab_inv ?t c fl' (x # fr) pa fu os'" "in_use ?t c (set ((x # fr) @ pa @ fu)) os' = U" using g U0 by auto
      have R2: "clear_of ?t c R (set ((x # fr) @ pa @ fu))" using R g(5,9) assms(2) by (auto simp: clear_of_def)
      have "sl_next (nodes_mem ?t (free_slabs c)) = desc_node x" using slab_lists_heads(2) [of ?t c "x # fr"] i2(1) by (auto simp: slab_inv_def)
      then have "kmem_cache_kalloc s c = (let (p, t) = kmem_cache_take ?t c x in Some (p, spinlock_release t))"
        using eq g(1,4) lk by (simp add: spinlock_acquire_def)
      moreover obtain p u where "kmem_cache_take ?t c x = (p, u)" "p \<noteq> NULL" "p \<notin> U"
          "slab_rep_off (spinlock_release u) c fl' R (insert p U)" "buddy (spinlock_release u) = buddy t"
          "caches (spinlock_release u) = caches t" "links (spinlock_release u) = links t"
        using tk [OF i2 R2, of x] by auto
      moreover have "\<not> cache_exhausted s c" using g(11) by (simp add: cache_exhausted_def)
      ultimately show ?thesis using g(5-8,10)
        by (intro exI [of _ p] exI [of _ "spinlock_release u"] exI [of _ fl']) simp
    qed
  qed
qed

lemma kmem_cache_kalloc_rep_in:
  assumes "slab_rep_in s c fl U"
  shows "\<exists>p t fl'. kmem_cache_kalloc s c = Some (p, t) \<and> shrunk fl fl' (2 ^ (unat (slab_order (caches s c)) + 12)) \<and> caches t = caches s \<and>
    base_address (buddy t) = base_address (buddy s) \<and> region_size (buddy t) = region_size (buddy s) \<and>
    (\<forall>a. unat a \<notin> free_bytes fl \<longrightarrow> links t a = links s a) \<and>
    (if p = NULL then t = s \<and> fl' = fl \<and> cache_exhausted s c else \<not> cache_exhausted s c \<and> p \<notin> U \<and> slab_rep_in t c fl' (insert p U))"
  using assms unfolding slab_rep_in_off by (rule kmem_cache_kalloc_rep_off) simp

lemma kmem_cache_kalloc_rep:
  assumes "slab_rep s c U"
  shows "\<exists>p t. kmem_cache_kalloc s c = Some (p, t) \<and>
    (if p = NULL then t = s \<and> cache_exhausted s c else \<not> cache_exhausted s c \<and> p \<notin> U \<and> slab_rep t c (insert p U))"
proof -
  obtain fl where "slab_rep_in s c fl U" using assms by (auto simp: slab_rep_def)
  from kmem_cache_kalloc_rep_in [OF this] show ?thesis by (auto simp: slab_rep_def split: if_splits)
qed

end
