(* ===== verification/Mmu_Walk.thy ===== *)
theory Mmu_Walk
  imports Mmu Buddy_Correct Slab_Alloc "HOL-Library.Sublist"
begin

text \<open>
  A page table as a tree: the table a path of indices leads to, the invariant that makes it a tree,
  and what one changed entry, one cleared page and one new table do to it.
\<close>

section \<open>Paths\<close>

fun tbl :: "(addr \<Rightarrow> u64) \<Rightarrow> addr \<Rightarrow> u64 list \<Rightarrow> addr option" where
  "tbl t a [] = Some a"
| "tbl t a (i # is) =
     (let e = t (a + 8 * i) in if present e \<and> \<not> huge e then tbl t (e AND PTE_ADDR_MASK) is else None)"

lemma tbl_append: "tbl t a (p @ q) = (case tbl t a p of None \<Rightarrow> None | Some b \<Rightarrow> tbl t b q)"
  by (induction p arbitrary: a) (auto simp: Let_def)

lemma tbl_snoc:
  "tbl t a (p @ [i]) = (case tbl t a p of None \<Rightarrow> None
     | Some b \<Rightarrow> if present (t (b + 8 * i)) \<and> \<not> huge (t (b + 8 * i)) then Some (t (b + 8 * i) AND PTE_ADDR_MASK) else None)"
  by (simp add: tbl_append Let_def split: option.splits)

declare tbl.simps(2) [simp del]

definition path :: "u64 list \<Rightarrow> bool" where
  "path p \<longleftrightarrow> length p \<le> 3 \<and> (\<forall>i\<in>set p. i < 512)"

lemma path_snoc [simp]: "path (p @ [i]) \<longleftrightarrow> length p < 3 \<and> path p \<and> i < 512"
  by (auto simp: path_def)

lemma path_Nil [simp]: "path []"
  by (simp add: path_def)

definition page_ok :: "addr \<Rightarrow> bool" where
  "page_ok a \<longleftrightarrow> 4096 dvd unat a \<and> unat a + 4096 \<le> 2 ^ 52"

definition tree_ok :: "(addr \<Rightarrow> u64) \<Rightarrow> addr \<Rightarrow> bool" where
  "tree_ok t r \<longleftrightarrow>
     (\<forall>p a. path p \<longrightarrow> tbl t r p = Some a \<longrightarrow> page_ok a) \<and>
     (\<forall>p q a. path p \<longrightarrow> path q \<longrightarrow> tbl t r p = Some a \<longrightarrow> tbl t r q = Some a \<longrightarrow> p = q) \<and>
     (\<forall>p a i. path p \<longrightarrow> length p < 2 \<longrightarrow> tbl t r p = Some a \<longrightarrow> i < 512 \<longrightarrow> present (t (a + 8 * i)) \<longrightarrow> \<not> huge (t (a + 8 * i)))"

lemma tree_okD:
  assumes "tree_ok t r" "path p" "tbl t r p = Some a"
  shows "page_ok a" "\<And>q. path q \<Longrightarrow> tbl t r q = Some a \<Longrightarrow> p = q"
    "\<And>i. length p < 2 \<Longrightarrow> i < 512 \<Longrightarrow> present (t (a + 8 * i)) \<Longrightarrow> \<not> huge (t (a + 8 * i))"
  using assms unfolding tree_ok_def by blast+

lemma unat_slot_addr:
  assumes "page_ok a" "i < 512"
  shows "unat (a + 8 * i) = unat a + 8 * unat i"
proof -
  have i: "unat i < 512" using assms(2) by (simp add: word_less_nat_alt)
  then have m: "unat (8 * i) = 8 * unat i" by (simp add: unat_word_ariths)
  have "unat a + unat (8 * i) < 2 ^ 64" using assms(1) i m by (simp add: page_ok_def)
  then show ?thesis using m by (simp add: unat_add_no_overflow)
qed

lemma slot_addr_eq:
  assumes "page_ok a" "page_ok b" "i < 512" "j < 512"
  shows "a + 8 * i = b + 8 * j \<longleftrightarrow> a = b \<and> i = j"
proof
  assume e: "a + 8 * i = b + 8 * j"
  obtain x y where xy: "unat a = 4096 * x" "unat b = 4096 * y" using assms(1,2) by (auto simp: page_ok_def elim!: dvdE)
  have ij: "unat i < 512" "unat j < 512" using assms(3,4) by (simp_all add: word_less_nat_alt)
  have "unat a + 8 * unat i = unat b + 8 * unat j"
    using e unat_slot_addr [OF assms(1,3)] unat_slot_addr [OF assms(2,4)] by simp
  then have e512: "512 * x + unat i = 512 * y + unat j" using xy by simp
  have "(512 * x + unat i) div 512 = x" "(512 * y + unat j) div 512 = y" using ij by simp_all
  then have "x = y" using e512 by metis
  moreover from this have "unat i = unat j" using e512 by simp
  ultimately have "x = y" "unat i = unat j" by simp_all
  then show "a = b \<and> i = j" using xy by (simp add: word_unat_eq_iff)
qed simp

text \<open>A path looks only at the words of the tables on it.\<close>

lemma tbl_cong:
  assumes "\<And>p a i. path p \<Longrightarrow> length p < 3 \<Longrightarrow> tbl t r p = Some a \<Longrightarrow> i < 512 \<Longrightarrow> t' (a + 8 * i) = t (a + 8 * i)"
  shows "path q \<Longrightarrow> tbl t' r q = tbl t r q"
proof (induction q rule: rev_induct)
  case (snoc j q)
  then have q: "path q" "length q < 3" "j < 512" by auto
  have e: "tbl t' r q = tbl t r q" using snoc q by simp
  show ?case
  proof (cases "tbl t r q")
    case None
    then show ?thesis using e by (simp add: tbl_snoc)
  next
    case (Some b)
    then have "t' (b + 8 * j) = t (b + 8 * j)" using assms q by blast
    then show ?thesis using e Some by (simp add: tbl_snoc)
  qed
qed simp

text \<open>A changed entry changes only the paths through it.\<close>

lemma tbl_upd:
  assumes t: "tree_ok t r" and p: "path p" "tbl t r p = Some a" "i < 512"
  shows "path q \<Longrightarrow> \<not> prefix (p @ [i]) q \<Longrightarrow> tbl (t(a + 8 * i := e)) r q = tbl t r q"
proof (induction q rule: rev_induct)
  case (snoc j q)
  then have q: "path q" "j < 512" "\<not> prefix (p @ [i]) q" "q @ [j] \<noteq> p @ [i]" by auto
  define t' where "t' = t(a + 8 * i := e)"
  have eq: "tbl t' r q = tbl t r q" unfolding t'_def by (rule snoc.IH [OF q(1,3)])
  have "tbl t' r (q @ [j]) = tbl t r (q @ [j])"
  proof (cases "tbl t r q")
    case None
    then show ?thesis using eq by (simp add: tbl_snoc)
  next
    case (Some b)
    have "b + 8 * j \<noteq> a + 8 * i"
    proof
      assume "b + 8 * j = a + 8 * i"
      then have "b = a \<and> j = i"
        using slot_addr_eq [of b a j i] tree_okD(1) [OF t q(1) Some] tree_okD(1) [OF t p(1,2)] q(2) p(3) by blast
      then show False using tree_okD(2) [OF t q(1) Some, of p] p q(4) by auto
    qed
    then have "t' (b + 8 * j) = t (b + 8 * j)" by (simp add: t'_def)
    then show ?thesis using eq Some by (simp add: tbl_snoc)
  qed
  then show ?case by (simp only: t'_def)
qed simp

lemma tbl_below:
  assumes "tbl t r p = Some a" "\<not> (present (t (a + 8 * i)) \<and> \<not> huge (t (a + 8 * i)))" "prefix (p @ [i]) q"
  shows "tbl t r q = None"
proof -
  obtain u where u: "q = (p @ [i]) @ u" using assms(3) by (auto simp: prefix_def)
  have "tbl t r (p @ [i]) = None" using assms(1,2) by (auto simp: tbl_snoc)
  then show ?thesis unfolding u tbl_append [of t r "p @ [i]" u] by simp
qed

section \<open>Mappings\<close>

definition leaf4k :: "(addr \<Rightarrow> u64) \<Rightarrow> addr \<Rightarrow> u64 \<Rightarrow> u64 option" where
  "leaf4k t r v =
     (case tbl t r [VIRT_TO_PML4_IDX v, VIRT_TO_PDPT_IDX v, VIRT_TO_PD_IDX v] of None \<Rightarrow> None
      | Some pt \<Rightarrow> let e = t (pt + 8 * VIRT_TO_PT_IDX v) in if present e then Some e else None)"

definition leaf2m :: "(addr \<Rightarrow> u64) \<Rightarrow> addr \<Rightarrow> u64 \<Rightarrow> u64 option" where
  "leaf2m t r v =
     (case tbl t r [VIRT_TO_PML4_IDX v, VIRT_TO_PDPT_IDX v] of None \<Rightarrow> None
      | Some pd \<Rightarrow> let e = t (pd + 8 * VIRT_TO_PD_IDX v) in if present e \<and> huge e then Some e else None)"

text \<open>What the processor makes of a virtual address under the tables rooted at \<open>r\<close>.\<close>

definition translate :: "(addr \<Rightarrow> u64) \<Rightarrow> addr \<Rightarrow> u64 \<Rightarrow> u64 option" where
  "translate t r v =
     (case leaf2m t r v of
        Some e \<Rightarrow> Some ((e AND 0x000FFFFFFFE00000) OR take_bit 21 v)
      | None \<Rightarrow> (case leaf4k t r v of
          Some e \<Rightarrow> Some ((e AND PTE_ADDR_MASK) OR take_bit 12 v)
        | None \<Rightarrow> None))"

lemma path_of_virt [simp]:
  "path [VIRT_TO_PML4_IDX v]" "path [VIRT_TO_PML4_IDX v, VIRT_TO_PDPT_IDX v]"
  "path [VIRT_TO_PML4_IDX v, VIRT_TO_PDPT_IDX v, VIRT_TO_PD_IDX v]"
  by (simp_all add: path_def idx_less)

definition grown :: "(addr \<Rightarrow> u64) \<Rightarrow> addr \<Rightarrow> (addr \<Rightarrow> u64) \<Rightarrow> bool" where
  "grown t r t' \<longleftrightarrow>
     (\<forall>q a. path q \<longrightarrow> tbl t r q = Some a \<longrightarrow> tbl t' r q = Some a) \<and>
     (\<forall>v. leaf4k t' r v = leaf4k t r v \<and> leaf2m t' r v = leaf2m t r v)"

lemma grown_refl [simp]: "grown t r t"
  by (simp add: grown_def)

lemma grown_trans: "grown t r t' \<Longrightarrow> grown t' r t'' \<Longrightarrow> grown t r t''"
  by (simp add: grown_def)

lemma grownD: "grown t r t' \<Longrightarrow> path q \<Longrightarrow> tbl t r q = Some a \<Longrightarrow> tbl t' r q = Some a"
  by (simp add: grown_def)

section \<open>A new table\<close>

lemma memset_pg_outside:
  assumes "page_ok a" "page_ok x" "a \<noteq> x" "i < 512"
  shows "memset_pg t x (a + 8 * i) = t (a + 8 * i)"
proof -
  obtain u w where uw: "unat a = 4096 * u" "unat x = 4096 * w" using assms(1,2) by (auto simp: page_ok_def elim!: dvdE)
  have ne: "u \<noteq> w" using assms(3) uw by (auto simp: word_unat_eq_iff)
  have i: "unat i < 512" using assms(4) by (simp add: word_less_nat_alt)
  have s: "unat (a + 8 * i) = 4096 * u + 8 * unat i" using unat_slot_addr [OF assms(1,4)] uw by simp
  have "\<not> a + 8 * i - x < PAGE_SIZE"
  proof (cases "w < u")
    case True
    then have "x \<le> a + 8 * i" using s uw by (simp add: word_le_nat_alt)
    then have "unat (a + 8 * i - x) = 4096 * u + 8 * unat i - 4096 * w" using s uw by (simp add: unat_diff_le)
    then show ?thesis using True by (simp add: word_less_nat_alt PAGE_SIZE_def)
  next
    case False
    then have lt: "4096 * u + 8 * unat i < 4096 * w" using ne i by linarith
    have "unat (a + 8 * i - x) = 2 ^ 64 + (4096 * u + 8 * unat i) - 4096 * w"
      using lt s uw by (simp add: unat_sub_if')
    moreover have "4096 * w + 4096 \<le> 2 ^ 52" using assms(2) uw by (simp add: page_ok_def)
    ultimately show ?thesis by (simp add: word_less_nat_alt PAGE_SIZE_def)
  qed
  then show ?thesis by (simp add: memset_pg_def)
qed

lemma memset_pg_inside: "page_ok x \<Longrightarrow> i < 512 \<Longrightarrow> memset_pg t x (x + 8 * i) = 0"
  by (simp add: memset_pg_def PAGE_SIZE_def word_less_nat_alt unat_word_ariths)

lemma present_bit: "present e \<longleftrightarrow> bit e 0"
  by (simp add: present_def PTE_PRESENT_def and_exp_eq_0_iff_not_bit [of e 0, simplified])

lemma huge_bit: "huge e \<longleftrightarrow> bit e 7"
  using and_exp_eq_0_iff_not_bit [of e 7] by (simp add: huge_def PTE_HUGE_PAGE_def)

lemma bit_addr_mask: "bit PTE_ADDR_MASK n \<longleftrightarrow> 12 \<le> n \<and> n < 52"
proof -
  have e: "PTE_ADDR_MASK = push_bit 12 (mask 40)" by (simp add: PTE_ADDR_MASK_def mask_eq_exp_minus_1 push_bit_eq_mult)
  show ?thesis unfolding e by (auto simp: bit_simps)
qed

lemma new_entry:
  assumes "page_ok x"
  shows "(x OR PTE_PRESENT OR PTE_WRITABLE) AND PTE_ADDR_MASK = x" "present (x OR PTE_PRESENT OR PTE_WRITABLE)"
    "\<not> huge (x OR PTE_PRESENT OR PTE_WRITABLE)"
proof -
  have low: "\<not> bit x n" if "n < 12" for n
  proof -
    have "take_bit 12 x = 0" using assms by (simp add: page_ok_def word_unat_eq_iff take_bit_eq_mod unat_mod dvd_eq_mod_eq_0)
    then show ?thesis using that by (metis bit_take_bit_iff bit_0_eq bot_apply bot_bool_def)
  qed
  have high: "\<not> bit x n" if "52 \<le> n" for n
  proof
    assume "bit x n"
    then have "bit (unat x) n" by (simp add: bit_unsigned_iff)
    then have "2 ^ n \<le> unat x" by (metis bit_nat_iff bit_iff_odd div_less even_zero not_le)
    moreover have "(2::nat) ^ 52 \<le> 2 ^ n" using that by (intro power_increasing) auto
    ultimately show False using assms by (simp add: page_ok_def)
  qed
  have f: "bit (x OR PTE_PRESENT OR PTE_WRITABLE) n \<longleftrightarrow> bit x n \<or> n = 0 \<or> n = 1" for n
  proof -
    have "PTE_PRESENT OR PTE_WRITABLE = mask 2" by (simp add: PTE_PRESENT_def PTE_WRITABLE_def mask_eq_exp_minus_1)
    then have "bit (PTE_PRESENT OR PTE_WRITABLE) n \<longleftrightarrow> n < 2" by (auto simp: bit_simps)
    then show ?thesis by (auto simp: bit_or_iff)
  qed
  show "(x OR PTE_PRESENT OR PTE_WRITABLE) AND PTE_ADDR_MASK = x"
  proof (rule bit_word_eqI)
    fix n
    have "bit x n \<Longrightarrow> 12 \<le> n" "bit x n \<Longrightarrow> n < 52" using low [of n] high [of n] by (auto simp: not_le [symmetric])
    then show "bit ((x OR PTE_PRESENT OR PTE_WRITABLE) AND PTE_ADDR_MASK) n = bit x n"
      by (auto simp: bit_and_iff f bit_addr_mask)
  qed
  show "present (x OR PTE_PRESENT OR PTE_WRITABLE)" by (simp add: present_bit f)
  show "\<not> huge (x OR PTE_PRESENT OR PTE_WRITABLE)" using low by (simp add: huge_bit f)
qed


text \<open>
  A cleared page behind an entry that was not present: one more path, no change in what is mapped.
\<close>

lemma new_table:
  assumes t: "tree_ok t r" and p: "path p" "length p < 3" "tbl t r p = Some a" "i < 512"
    and np: "\<not> present (t (a + 8 * i))" and x: "page_ok x" "\<forall>q. path q \<longrightarrow> tbl t r q \<noteq> Some x"
  defines "t' \<equiv> (memset_pg t x)(a + 8 * i := x OR PTE_PRESENT OR PTE_WRITABLE)"
  shows "tbl t' r (p @ [i]) = Some x" "\<And>q. path q \<Longrightarrow> q \<noteq> p @ [i] \<Longrightarrow> tbl t' r q = tbl t r q"
    "\<And>j. j < 512 \<Longrightarrow> t' (x + 8 * j) = 0"
    "\<And>q c j. path q \<Longrightarrow> tbl t r q = Some c \<Longrightarrow> j < 512 \<Longrightarrow> (q, j) \<noteq> (p, i) \<Longrightarrow> t' (c + 8 * j) = t (c + 8 * j)"
    "tbl t r (p @ [i]) = None"
proof -
  let ?m = "memset_pg t x"
  have out: "?m (c + 8 * j) = t (c + 8 * j)" if "path q" "tbl t r q = Some c" "j < 512" for q c j
    using that x tree_okD(1) [OF t that(1,2)] by (intro memset_pg_outside) auto
  have mt: "tbl ?m r q = tbl t r q" if "path q" for q using out that by (intro tbl_cong) auto
  have tm: "tree_ok ?m r"
    unfolding tree_ok_def using t mt out unfolding tree_ok_def by (simp add: Ball_def)
  have pm: "tbl ?m r p = Some a" using mt p by simp
  note pa = tree_okD(1) [OF t p(1,3)]
  have ax: "a \<noteq> x" using x(2) p by auto
  show z: "t' (x + 8 * j) = 0" if "j < 512" for j
    using slot_addr_eq [OF x(1) pa that p(4)] ax memset_pg_inside [OF x(1) that] by (simp add: t'_def)
  show n0: "tbl t r (p @ [i]) = None" using p(3) np by (simp add: tbl_snoc)
  have up: "tbl t' r q = tbl ?m r q" if "path q" "\<not> prefix (p @ [i]) q" for q
    unfolding t'_def by (rule tbl_upd [OF tm p(1) pm p(4) that])
  have "tbl t' r p = Some a" using up [OF p(1)] pm by auto
  then show px: "tbl t' r (p @ [i]) = Some x" using new_entry [OF x(1)] by (simp add: tbl_snoc t'_def)
  show "tbl t' r q = tbl t r q" if q: "path q" "q \<noteq> p @ [i]" for q
  proof (cases "prefix (p @ [i]) q")
    case False
    then show ?thesis using up mt q by simp
  next
    case True
    then obtain w where w: "q = (p @ [i]) @ w" by (auto simp: prefix_def)
    then obtain j u where "w = j # u" using q(2) by (cases w) auto
    with w have u: "q = ((p @ [i]) @ [j]) @ u" by simp
    then have j: "j < 512" using q(1) by (auto simp: path_def)
    have "tbl t' r ((p @ [i]) @ [j]) = None" using px z [OF j] by (simp only: tbl_snoc) (simp add: present_bit)
    then have "tbl t' r q = None" unfolding u by (subst tbl_append) simp
    moreover have "tbl t r q = None" using True p(3) np by (intro tbl_below) auto
    ultimately show ?thesis by simp
  qed
  show "t' (c + 8 * j) = t (c + 8 * j)" if "path q" "tbl t r q = Some c" "j < 512" "(q, j) \<noteq> (p, i)" for q c j
  proof -
    have "c + 8 * j \<noteq> a + 8 * i"
    proof
      assume "c + 8 * j = a + 8 * i"
      then have "c = a \<and> j = i" using slot_addr_eq [OF tree_okD(1) [OF t that(1,2)] pa that(3) p(4)] by simp
      then show False using tree_okD(2) [OF t that(1,2) p(1)] p(3) that(4) by auto
    qed
    then show ?thesis using out that by (simp add: t'_def)
  qed
qed

lemma new_table_tree:
  assumes t: "tree_ok t r" and p: "path p" "length p < 3" "tbl t r p = Some a" "i < 512"
    and np: "\<not> present (t (a + 8 * i))" and x: "page_ok x" "\<forall>q. path q \<longrightarrow> tbl t r q \<noteq> Some x"
  defines "t' \<equiv> (memset_pg t x)(a + 8 * i := x OR PTE_PRESENT OR PTE_WRITABLE)"
  shows "tree_ok t' r" "grown t r t'"
proof -
  note n = new_table [OF t p np x, folded t'_def]
  have e: "t' (a + 8 * i) = x OR PTE_PRESENT OR PTE_WRITABLE" by (simp add: t'_def)
  have old: "tbl t' r q = Some c \<longleftrightarrow> (if q = p @ [i] then c = x else tbl t r q = Some c)" if "path q" for q c
    using n(1,2) that by auto
  have zero: "\<not> present (t' (x + 8 * j))" if "j < 512" for j using n(3) [OF that] by (simp add: present_bit)
  show "tree_ok t' r" unfolding tree_ok_def
  proof (intro conjI allI impI)
    fix q c assume q: "path q" "tbl t' r q = Some c"
    then show "page_ok c" using x(1) tree_okD(1) [OF t q(1)] by (auto simp: old split: if_splits)
  next
    fix q q' c assume q: "path q" "path q'" "tbl t' r q = Some c" "tbl t' r q' = Some c"
    then show "q = q'" using x(2) tree_okD(2) [OF t q(1) _ q(2)] by (auto simp: old split: if_splits)
  next
    fix q c j assume q: "path q" "length q < 2" "tbl t' r q = Some c" "j < (512::u64)" "present (t' (c + 8 * j))"
    show "\<not> huge (t' (c + 8 * j))"
    proof (cases "q = p @ [i]")
      case True
      then have "c = x" using q old by metis
      then show ?thesis using q(4,5) zero by blast
    next
      case False
      then have c: "tbl t r q = Some c" using q old by simp
      show ?thesis
      proof (cases "(q, j) = (p, i)")
        case True
        then show ?thesis using c p(3) e new_entry(3) [OF x(1)] by simp
      next
        case False
        then show ?thesis using n(4) [OF q(1) c q(4)] q tree_okD(3) [OF t q(1) c] by simp
      qed
    qed
  qed
  have l4: "leaf4k t' r v = leaf4k t r v" for v
  proof -
    let ?q = "[VIRT_TO_PML4_IDX v, VIRT_TO_PDPT_IDX v, VIRT_TO_PD_IDX v]"
    have "length p < length ?q" using p(2) by simp
    then have ne: "?q \<noteq> p" by auto
    show ?thesis
    proof (cases "?q = p @ [i]")
      case True
      show ?thesis unfolding leaf4k_def True using n(1,5) zero [OF idx_less(4)] by simp
    next
      case False
      then have "tbl t' r ?q = tbl t r ?q" using n(2) by simp
      then show ?thesis using n(4) [of ?q] ne by (simp add: leaf4k_def idx_less split: option.split)
    qed
  qed
  have l2: "leaf2m t' r v = leaf2m t r v" for v
  proof -
    let ?q = "[VIRT_TO_PML4_IDX v, VIRT_TO_PDPT_IDX v]"
    show ?thesis
    proof (cases "?q = p @ [i]")
      case True
      show ?thesis unfolding leaf2m_def True using n(1,5) zero [OF idx_less(3)] by simp
    next
      case False
      then have q: "tbl t' r ?q = tbl t r ?q" using n(2) by simp
      show ?thesis
      proof (cases "(?q, VIRT_TO_PD_IDX v) = (p, i)")
        case True
        then show ?thesis using q p(3) np e new_entry(3) [OF x(1)] by (auto simp: leaf2m_def Let_def)
      next
        case False
        then show ?thesis using q n(4) [of ?q _ "VIRT_TO_PD_IDX v"] by (simp add: leaf2m_def idx_less split: option.split)
      qed
    qed
  qed
  show "grown t r t'" using l4 l2 n(5) by (auto simp: grown_def old)
qed

section \<open>The state of the mapper\<close>

definition mmu_inv :: "mmu_state \<Rightarrow> addr \<Rightarrow> (nat \<Rightarrow> addr list) \<Rightarrow> bool" where
  "mmu_inv s r fl \<longleftrightarrow>
     tree_ok (tables s) r \<and> buddy_inv (buddy (kmem s)) fl \<and>
     (\<forall>p a. path p \<longrightarrow> tbl (tables s) r p = Some a \<longrightarrow>
        free_bytes fl \<inter> span a 0 = {} \<and> (p \<noteq> [] \<longrightarrow> wf_block (buddy (kmem s)) a 0)) \<and>
     unat (base_address (buddy (kmem s))) + unat (region_size (buddy (kmem s))) \<le> 2 ^ 52"

text \<open>
  The bytes of the tables, and those with the free memory: neither mapping nor unmapping takes a
  byte from anywhere else.
\<close>

definition table_bytes :: "(addr \<Rightarrow> u64) \<Rightarrow> addr \<Rightarrow> nat set" where
  "table_bytes t r = {x. \<exists>p a. path p \<and> tbl t r p = Some a \<and> x \<in> span a 0}"

definition held :: "mmu_state \<Rightarrow> addr \<Rightarrow> (nat \<Rightarrow> addr list) \<Rightarrow> nat set" where
  "held s r fl = table_bytes (tables s) r \<union> free_bytes fl"

lemma table_bytes_mono:
  "(\<And>q a. path q \<Longrightarrow> tbl t' r q = Some a \<Longrightarrow> \<exists>p. path p \<and> tbl t r p = Some a) \<Longrightarrow> table_bytes t' r \<subseteq> table_bytes t r"
  unfolding table_bytes_def by blast

lemma mmu_inv_apart: "mmu_inv s r fl \<Longrightarrow> table_bytes (tables s) r \<inter> free_bytes fl = {}"
  by (fastforce simp: mmu_inv_def table_bytes_def)

text \<open>
  What mapping and unmapping leave alone: all of the allocators but the buddy part, and that within
  its region. Mapping also leaves the record of flushes alone, and takes a bounded amount of memory.
\<close>

definition within :: "addr \<Rightarrow> mmu_state \<Rightarrow> (nat \<Rightarrow> addr list) \<Rightarrow> mmu_state \<Rightarrow> (nat \<Rightarrow> addr list) \<Rightarrow> bool" where
  "within r s fl s' fl' \<longleftrightarrow> held s' r fl' \<subseteq> held s r fl \<and> (\<exists>b. kmem s' = (kmem s)\<lparr>buddy := b\<rparr>) \<and>
     base_address (buddy (kmem s')) = base_address (buddy (kmem s)) \<and> region_size (buddy (kmem s')) = region_size (buddy (kmem s))"

definition beside :: "addr \<Rightarrow> mmu_state \<Rightarrow> (nat \<Rightarrow> addr list) \<Rightarrow> mmu_state \<Rightarrow> (nat \<Rightarrow> addr list) \<Rightarrow> nat \<Rightarrow> bool" where
  "beside r s fl s' fl' n \<longleftrightarrow> within r s fl s' fl' \<and> flushed s' = flushed s \<and> shrunk fl fl' n"

lemma within_refl [simp]: "within r s fl s fl"
  by (simp add: within_def) (metis slab_state.surjective slab_state.update_convs(7))

lemma within_trans: "within r s fl s' fl' \<Longrightarrow> within r s' fl' s'' fl'' \<Longrightarrow> within r s fl s'' fl''"
  by (auto simp: within_def)

lemma within_set_pte:
  assumes "within r s fl s' fl'" "\<And>q b. path q \<Longrightarrow> tbl (tables (set_pte s' a i e)) r q = Some b \<Longrightarrow> tbl (tables s') r q = Some b"
  shows "within r s fl (set_pte s' a i e) fl'"
proof -
  have "table_bytes (tables (set_pte s' a i e)) r \<subseteq> table_bytes (tables s') r" using assms(2) by (intro table_bytes_mono) blast
  then show ?thesis using assms(1) by (auto simp: within_def held_def set_pte_def)
qed

lemma within_invlpg [simp]: "within r s fl (invlpg s' v) fl' = within r s fl s' fl'"
  by (simp add: within_def held_def invlpg_def)

lemma beside_refl [simp]: "beside r s fl s fl n"
  by (simp add: beside_def)

lemma beside_trans: "beside r s fl s' fl' m \<Longrightarrow> beside r s' fl' s'' fl'' n \<Longrightarrow> beside r s fl s'' fl'' (m + n)"
  by (auto simp: beside_def intro: shrunk_trans within_trans)

lemma beside_set_pte:
  assumes "beside r s fl s' fl' n" "\<And>q b. path q \<Longrightarrow> tbl (tables (set_pte s' a i e)) r q = Some b \<Longrightarrow> tbl (tables s') r q = Some b"
  shows "beside r s fl (set_pte s' a i e) fl' n"
  using assms within_set_pte [of r s fl s' fl' a i e] by (auto simp: beside_def set_pte_def)

lemma page_order: "size_order 4096 0 = Some 0"
  using size_order_chunk [of 0] by (simp add: chunk_bytes_def PAGE_SIZE_def)

lemma page_kmalloc:
  assumes "buddy_inv (buddy k) fl"
  shows "if free_bytes fl = {} then phys_kmalloc k 4096 BUDDY_ALLOC = Some (NULL, k)
    else \<exists>x b fl'. phys_kmalloc k 4096 BUDDY_ALLOC = Some (x, k\<lparr>buddy := b\<rparr>) \<and> x \<noteq> NULL \<and> wf_block (buddy k) x 0 \<and>
      buddy_inv b fl' \<and> span x 0 \<subseteq> free_bytes fl \<and> free_bytes fl' = free_bytes fl - span x 0 \<and>
      base_address b = base_address (buddy k) \<and> region_size b = region_size (buddy k) \<and> (tidy fl \<longrightarrow> tidy fl')"
proof -
  have "free_bytes fl = {} \<longleftrightarrow> (\<forall>j\<in>{0..10}. fl j = [])" by (auto simp: free_bytes_def span_def)
  then have "if free_bytes fl = {} then buddy_kalloc (buddy k) 4096 = Some (NULL, buddy k)
    else \<exists>x b fl'. buddy_kalloc (buddy k) 4096 = Some (x, b) \<and> x \<noteq> NULL \<and> wf_block (buddy k) x 0 \<and>
      buddy_inv b fl' \<and> span x 0 \<subseteq> free_bytes fl \<and> free_bytes fl' = free_bytes fl - span x 0 \<and>
      base_address b = base_address (buddy k) \<and> region_size b = region_size (buddy k) \<and> (tidy fl \<longrightarrow> tidy fl')"
    using kalloc_inv [OF assms page_order] by simp
  then show ?thesis by (cases "free_bytes fl = {}") (force simp: lift_buddy_alloc_def)+
qed

lemma ensure_table_spec:
  assumes inv: "mmu_inv s r fl" and p: "path p" "length p < 3" "tbl (tables s) r p = Some a" "i < 512"
    and nh: "length p = 2 \<Longrightarrow> \<not> (present (pte_at s a i) \<and> huge (pte_at s a i))"
  shows "if free_bytes fl = {} \<and> \<not> present (pte_at s a i) then ensure_table s a i msg = Inl (Panic msg)
    else \<exists>b s' fl'. ensure_table s a i msg = Inr (b, s') \<and> mmu_inv s' r fl' \<and> grown (tables s) r (tables s') \<and>
      tbl (tables s') r (p @ [i]) = Some b \<and> beside r s fl s' fl' 4096"
proof -
  have t: "tree_ok (tables s) r" and bi: "buddy_inv (buddy (kmem s)) fl"
    and ap: "\<And>p a. path p \<Longrightarrow> tbl (tables s) r p = Some a \<Longrightarrow> free_bytes fl \<inter> span a 0 = {}"
    and wf: "\<And>p a. path p \<Longrightarrow> tbl (tables s) r p = Some a \<Longrightarrow> p \<noteq> [] \<Longrightarrow> wf_block (buddy (kmem s)) a 0"
    and top: "unat (base_address (buddy (kmem s))) + unat (region_size (buddy (kmem s))) \<le> 2 ^ 52"
    using inv by (auto simp: mmu_inv_def)
  show ?thesis
  proof (cases "present (pte_at s a i)")
    case True
    then have "\<not> huge (pte_at s a i)" using nh tree_okD(3) [OF t p(1,3)] p(2,4) by (cases "length p = 2") (auto simp: pte_at_def)
    then have "tbl (tables s) r (p @ [i]) = Some (pte_at s a i AND PTE_ADDR_MASK)"
      using True p(3) by (simp add: tbl_snoc pte_at_def)
    then show ?thesis using True inv by (auto simp: ensure_table_def)
  next
    case np: False
    show ?thesis
    proof (cases "free_bytes fl = {}")
      case True
      then show ?thesis using np page_kmalloc [OF bi] by (simp add: ensure_table_def)
    next
      case False
      then obtain x b fl' where x: "phys_kmalloc (kmem s) 4096 BUDDY_ALLOC = Some (x, (kmem s)\<lparr>buddy := b\<rparr>)" "x \<noteq> NULL"
          "wf_block (buddy (kmem s)) x 0" "buddy_inv b fl'" "span x 0 \<subseteq> free_bytes fl" "free_bytes fl' = free_bytes fl - span x 0"
          "base_address b = base_address (buddy (kmem s))" "region_size b = region_size (buddy (kmem s))" "tidy fl \<longrightarrow> tidy fl'"
        using page_kmalloc [OF bi] by auto
      have px: "page_ok x" using x(3) top by (simp add: page_ok_def wf_block_def)
      have fresh: "\<forall>q. path q \<longrightarrow> tbl (tables s) r q \<noteq> Some x"
        using ap x(5) span_nonempty(2) [of x 0] by blast
      let ?t = "(memset_pg (tables s) x)(a + 8 * i := x OR PTE_PRESENT OR PTE_WRITABLE)"
      define s' where "s' = s\<lparr>tables := ?t, kmem := (kmem s)\<lparr>buddy := b\<rparr>\<rparr>"
      have np': "\<not> present (tables s (a + 8 * i))" using np by (simp add: pte_at_def)
      note n = new_table [OF t p np' px fresh] and nt = new_table_tree [OF t p np' px fresh]
      have ens: "ensure_table s a i msg = Inr (x, s')"
        using np x(1,2) new_entry(1) [OF px] by (simp add: ensure_table_def s'_def set_pte_def pte_at_def Let_def)
      have "free_bytes fl' \<inter> span c 0 = {}" if "path q" "tbl ?t r q = Some c" for q c
        using that n(1) n(2) [of q] ap [of q c] x(6) by (cases "q = p @ [i]") auto
      moreover have "wf_block b c 0" if "path q" "tbl ?t r q = Some c" "q \<noteq> []" for q c
      proof -
        have "wf_block (buddy (kmem s)) c 0"
          using that n(1) n(2) [of q] wf [of q c] x(3) by (cases "q = p @ [i]") auto
        then show ?thesis using x(7,8) by (simp add: wf_block_def)
      qed
      ultimately have "mmu_inv s' r fl'" using nt(1) x(4,7,8) top by (simp add: mmu_inv_def s'_def)
      moreover have "table_bytes ?t r \<subseteq> table_bytes (tables s) r \<union> span x 0" unfolding table_bytes_def
      proof clarsimp
        fix y q c assume q: "path q" "tbl ?t r q = Some c" "y \<in> span c 0" "y \<notin> span x 0"
        then have "q \<noteq> p @ [i]" using n(1) by auto
        then show "\<exists>p. path p \<and> (\<exists>a. tbl (tables s) r p = Some a \<and> y \<in> span a 0)" using q n(2) [of q] by auto
      qed
      then have "held s' r fl' \<subseteq> held s r fl" using x(5,6) by (auto simp: held_def s'_def)
      then have "beside r s fl s' fl' 4096" using shrunk_span [OF x(6,5,9)] x(7,8) by (auto simp: beside_def within_def s'_def)
      ultimately show ?thesis using np False ens nt(2) n(1) by (auto simp: s'_def)
    qed
  qed
qed
end
