(* ===== verification/Mmu_Map.thy ===== *)
theory Mmu_Map
  imports Mmu_Walk
begin

text \<open>
  What the mapping routines do to the translation: an entry written at the end of a walk, the walk
  cache of the loops, and the loops.
\<close>

section \<open>Writing an entry\<close>

lemma other_slot:
  assumes "tree_ok t r" "path p" "tbl t r p = Some a" "i < 512" "path q" "tbl t r q = Some c" "j < 512" "(q, j) \<noteq> (p, i)"
  shows "c + 8 * j \<noteq> a + 8 * i"
  using slot_addr_eq [OF tree_okD(1) [OF assms(1,5,6)] tree_okD(1) [OF assms(1-3)] assms(7,4)]
    tree_okD(2) [OF assms(1,5,6,2)] assms(3,8) by auto

lemma prefix_path: "path q \<Longrightarrow> length p = 3 \<Longrightarrow> \<not> prefix (p @ [i]) q"
  by (auto simp: path_def dest: prefix_length_le)

lemma write_4k:
  fixes e :: u64
  assumes t: "tree_ok t r" and pt: "tbl t r [VIRT_TO_PML4_IDX v, VIRT_TO_PDPT_IDX v, VIRT_TO_PD_IDX v] = Some pt"
  defines "t' \<equiv> t(pt + 8 * VIRT_TO_PT_IDX v := e)"
  shows "path q \<Longrightarrow> tbl t' r q = tbl t r q" "tree_ok t' r" "leaf2m t' r w = leaf2m t r w"
    "leaf4k t' r w = (if vpn w = vpn v then if present e then Some e else None else leaf4k t r w)"
proof -
  let ?p = "[VIRT_TO_PML4_IDX v, VIRT_TO_PDPT_IDX v, VIRT_TO_PD_IDX v]"
  have pp: "path ?p" "VIRT_TO_PT_IDX v < 512" by (simp_all add: idx_less)
  have same: "tbl t' r q = tbl t r q" if "path q" for q
    unfolding t'_def using that prefix_path [of q ?p] by (intro tbl_upd [OF t pp(1) pt pp(2)]) auto
  then show "path q \<Longrightarrow> tbl t' r q = tbl t r q" .
  have entry: "t' (c + 8 * j) = t (c + 8 * j)" if "path q" "tbl t r q = Some c" "j < 512" "(q, j) \<noteq> (?p, VIRT_TO_PT_IDX v)" for q c j
    using other_slot [OF t pp(1) pt pp(2) that] by (simp add: t'_def)
  show "tree_ok t' r" unfolding tree_ok_def
  proof (intro conjI allI impI)
    fix q c j assume q: "path q" "length q < 2" "tbl t' r q = Some c" "j < (512::u64)" "present (t' (c + 8 * j))"
    then have c: "tbl t r q = Some c" using same by simp
    have "q \<noteq> ?p" using q(2) by auto
    then have "t' (c + 8 * j) = t (c + 8 * j)" using entry [OF q(1) c q(4)] by simp
    then show "\<not> huge (t' (c + 8 * j))" using tree_okD(3) [OF t q(1) c q(2,4)] q(5) by simp
  qed (use same tree_okD(1,2) [OF t] in auto)
  show "leaf2m t' r w = leaf2m t r w"
    using same entry [of "[VIRT_TO_PML4_IDX w, VIRT_TO_PDPT_IDX w]"] by (simp add: leaf2m_def idx_less split: option.split)
  show "leaf4k t' r w = (if vpn w = vpn v then if present e then Some e else None else leaf4k t r w)"
  proof (cases "vpn w = vpn v")
    case True
    then have i: "VIRT_TO_PML4_IDX w = VIRT_TO_PML4_IDX v" "VIRT_TO_PDPT_IDX w = VIRT_TO_PDPT_IDX v"
        "VIRT_TO_PD_IDX w = VIRT_TO_PD_IDX v" "VIRT_TO_PT_IDX w = VIRT_TO_PT_IDX v"
      by (simp_all add: vpn_eq_iff hpn_eq_iff)
    show ?thesis using True same [OF pp(1)] pt by (simp add: leaf4k_def i) (simp add: t'_def)
  next
    case False
    then have "([VIRT_TO_PML4_IDX w, VIRT_TO_PDPT_IDX w, VIRT_TO_PD_IDX w], VIRT_TO_PT_IDX w) \<noteq> (?p, VIRT_TO_PT_IDX v)"
      by (auto simp: vpn_eq_iff hpn_eq_iff)
    then show ?thesis
      using False same entry [OF path_of_virt(3) _ idx_less(4)] by (auto simp: leaf4k_def split: option.split)
  qed
qed

lemma write_2m:
  assumes t: "tree_ok t r" and pd: "tbl t r [VIRT_TO_PML4_IDX v, VIRT_TO_PDPT_IDX v] = Some pd" and e: "present e" "huge e"
  defines "t' \<equiv> t(pd + 8 * VIRT_TO_PD_IDX v := e)"
  shows "path q \<Longrightarrow> length q \<le> 2 \<Longrightarrow> tbl t' r q = tbl t r q" "path q \<Longrightarrow> tbl t' r q = Some c \<Longrightarrow> tbl t r q = Some c"
    "tree_ok t' r" "leaf2m t' r w = (if hpn w = hpn v then Some e else leaf2m t r w)"
    "leaf4k t' r w = (if hpn w = hpn v then None else leaf4k t r w)"
proof -
  let ?p = "[VIRT_TO_PML4_IDX v, VIRT_TO_PDPT_IDX v]"
  have pp: "path ?p" "VIRT_TO_PD_IDX v < 512" by (simp_all add: idx_less)
  have up: "tbl t' r q = tbl t r q" if "path q" "\<not> prefix (?p @ [VIRT_TO_PD_IDX v]) q" for q
    unfolding t'_def by (rule tbl_upd [OF t pp(1) pd pp(2) that])
  have short: "tbl t' r q = tbl t r q" if "path q" "length q \<le> 2" for q
    using that by (intro up) (auto dest: prefix_length_le)
  then show "path q \<Longrightarrow> length q \<le> 2 \<Longrightarrow> tbl t' r q = tbl t r q" .
  have pd': "tbl t' r ?p = Some pd" "t' (pd + 8 * VIRT_TO_PD_IDX v) = e" using short [OF pp(1)] pd by (simp_all add: t'_def)
  have cut: "tbl t' r q = None" if "prefix (?p @ [VIRT_TO_PD_IDX v]) q" for q
    using pd' e that by (intro tbl_below [OF pd'(1)]) auto
  have some: "tbl t r q = Some c" if "path q" "tbl t' r q = Some c" for q c
    using up [OF that(1)] cut [of q] that(2) by (cases "prefix (?p @ [VIRT_TO_PD_IDX v]) q") auto
  then show "path q \<Longrightarrow> tbl t' r q = Some c \<Longrightarrow> tbl t r q = Some c" .
  have entry: "t' (c + 8 * j) = t (c + 8 * j)" if "path q" "tbl t r q = Some c" "j < 512" "(q, j) \<noteq> (?p, VIRT_TO_PD_IDX v)" for q c j
    using other_slot [OF t pp(1) pd pp(2) that] by (simp add: t'_def)
  show "tree_ok t' r" unfolding tree_ok_def
  proof (intro conjI allI impI)
    fix q c j assume q: "path q" "length q < 2" "tbl t' r q = Some c" "j < (512::u64)" "present (t' (c + 8 * j))"
    then have c: "tbl t r q = Some c" using some by simp
    have "q \<noteq> ?p" using q(2) by auto
    then have "t' (c + 8 * j) = t (c + 8 * j)" using entry [OF q(1) c q(4)] by simp
    then show "\<not> huge (t' (c + 8 * j))" using tree_okD(3) [OF t q(1) c q(2,4)] q(5) by simp
  next
    fix q q' c assume q: "path q" "path q'" "tbl t' r q = Some c" "tbl t' r q' = Some c"
    then show "q = q'" using some tree_okD(2) [OF t q(1) _ q(2)] by blast
  qed (use some tree_okD(1) [OF t] in blast)
  show "leaf2m t' r w = (if hpn w = hpn v then Some e else leaf2m t r w)"
  proof (cases "hpn w = hpn v")
    case True
    then have i: "VIRT_TO_PML4_IDX w = VIRT_TO_PML4_IDX v" "VIRT_TO_PDPT_IDX w = VIRT_TO_PDPT_IDX v"
        "VIRT_TO_PD_IDX w = VIRT_TO_PD_IDX v" by (simp_all add: hpn_eq_iff)
    show ?thesis using True pd' e by (simp add: leaf2m_def i)
  next
    case False
    then have "([VIRT_TO_PML4_IDX w, VIRT_TO_PDPT_IDX w], VIRT_TO_PD_IDX w) \<noteq> (?p, VIRT_TO_PD_IDX v)"
      by (auto simp: hpn_eq_iff)
    then show ?thesis
      using False short entry [OF path_of_virt(2) _ idx_less(3)] by (auto simp: leaf2m_def split: option.split)
  qed
  show "leaf4k t' r w = (if hpn w = hpn v then None else leaf4k t r w)"
  proof (cases "hpn w = hpn v")
    case True
    then have i: "[VIRT_TO_PML4_IDX w, VIRT_TO_PDPT_IDX w, VIRT_TO_PD_IDX w] = ?p @ [VIRT_TO_PD_IDX v]" by (simp add: hpn_eq_iff)
    show ?thesis using True cut [of "?p @ [VIRT_TO_PD_IDX v]"] unfolding leaf4k_def i by simp
  next
    case False
    let ?q = "[VIRT_TO_PML4_IDX w, VIRT_TO_PDPT_IDX w, VIRT_TO_PD_IDX w]"
    have "\<not> prefix (?p @ [VIRT_TO_PD_IDX v]) ?q" using False by (auto simp: hpn_eq_iff)
    then have "tbl t' r ?q = tbl t r ?q" using up by simp
    moreover have "(?q, VIRT_TO_PT_IDX w) \<noteq> (?p, VIRT_TO_PD_IDX v)" by simp
    ultimately show ?thesis
      using False entry [OF path_of_virt(3) _ idx_less(4)] by (auto simp: leaf4k_def split: option.split)
  qed
qed

section \<open>The walk cache\<close>

definition cache_inv :: "(addr \<Rightarrow> u64) \<Rightarrow> addr \<Rightarrow> walk_cache \<Rightarrow> bool" where
  "cache_inv t r c \<longleftrightarrow>
     (cur_pml4t_idx c \<noteq> - 1 \<longrightarrow> cur_pml4t_idx c < 512 \<and> tbl t r [cur_pml4t_idx c] = Some (c_pdpt c)) \<and>
     (cur_pdpt_idx c \<noteq> - 1 \<longrightarrow> cur_pml4t_idx c \<noteq> - 1 \<and> cur_pdpt_idx c < 512 \<and>
        tbl t r [cur_pml4t_idx c, cur_pdpt_idx c] = Some (c_pd c)) \<and>
     (cur_pdpt_idx c \<noteq> - 1 \<longrightarrow> cur_pd_idx c \<noteq> - 1 \<longrightarrow> cur_pd_idx c < 512 \<and>
        tbl t r [cur_pml4t_idx c, cur_pdpt_idx c, cur_pd_idx c] = Some (c_pt c))"

lemma no_cache_inv [simp]: "cache_inv t r no_cache"
  by (simp add: cache_inv_def no_cache_def)

lemma idx_not_minus_one [simp]: "i < 512 \<Longrightarrow> i \<noteq> (- 1 :: u64)"
  by (auto simp: word_less_nat_alt unsigned_minus_1_eq_mask mask_eq_exp_minus_1)

lemma path_cons [simp]:
  "path [i] \<longleftrightarrow> i < 512" "path [i, j] \<longleftrightarrow> i < 512 \<and> j < 512" "path [i, j, k] \<longleftrightarrow> i < 512 \<and> j < 512 \<and> k < 512"
  by (auto simp: path_def)

lemma cache_inv_grown:
  assumes "cache_inv t r c" "grown t r t'"
  shows "cache_inv t' r c"
  unfolding cache_inv_def using assms(1) grownD [OF assms(2), of "[cur_pml4t_idx c]"]
    grownD [OF assms(2), of "[cur_pml4t_idx c, cur_pdpt_idx c]"]
    grownD [OF assms(2), of "[cur_pml4t_idx c, cur_pdpt_idx c, cur_pd_idx c]"]
  by (simp add: cache_inv_def)

text \<open>What each of the three cached steps gives.\<close>

definition stepped :: "mmu_state \<Rightarrow> addr \<Rightarrow> (nat \<Rightarrow> addr list) \<Rightarrow> (walk_cache \<Rightarrow> (addr \<Rightarrow> u64) \<Rightarrow> bool) \<Rightarrow>
    (walk_cache \<times> mmu_state) res \<Rightarrow> bool" where
  "stepped s r fl Q res \<longleftrightarrow>
     (\<exists>c' s' fl'. res = Inr (c', s') \<and> mmu_inv s' r fl' \<and> cache_inv (tables s') r c' \<and> grown (tables s) r (tables s') \<and>
        beside r s fl s' fl' 4096 \<and> Q c' (tables s')) \<or>
     (free_bytes fl = {} \<and> (\<exists>m. res = Inl (Panic m)))"

lemma stepped_stay:
  "mmu_inv s r fl \<Longrightarrow> cache_inv (tables s) r c \<Longrightarrow> Q c (tables s) \<Longrightarrow> stepped s r fl Q (Inr (c, s))"
  by (auto simp: stepped_def)

lemma stepped_ensure:
  assumes inv: "mmu_inv s r fl" and p: "path p" "length p < 3" "tbl (tables s) r p = Some a" "i < 512"
    and nh: "length p = 2 \<Longrightarrow> \<not> (present (pte_at s a i) \<and> huge (pte_at s a i))"
    and c: "\<And>b t'. grown (tables s) r t' \<Longrightarrow> tbl t' r (p @ [i]) = Some b \<Longrightarrow> cache_inv t' r (f b) \<and> Q (f b) t'"
  shows "stepped s r fl Q (bindE (ensure_table s a i msg) (\<lambda>(b, s). Inr (f b, s)))"
  using ensure_table_spec [OF inv p nh, of msg] c unfolding stepped_def by (auto split: if_splits)

lemma cached_pdpt_spec:
  assumes inv: "mmu_inv s r fl" and c: "cache_inv (tables s) r c"
  shows "stepped s r fl (\<lambda>c t. cur_pml4t_idx c = VIRT_TO_PML4_IDX v) (cached_pdpt s r c v)"
proof (cases "VIRT_TO_PML4_IDX v = cur_pml4t_idx c")
  case True
  then show ?thesis using inv c by (auto simp: cached_pdpt_def intro: stepped_stay)
next
  case False
  have "stepped s r fl (\<lambda>c t. cur_pml4t_idx c = VIRT_TO_PML4_IDX v)
    (bindE (ensure_table s r (VIRT_TO_PML4_IDX v) ''Failed to allocate 4KiB page for PDPT'') (\<lambda>(pdpt, s).
       Inr (c\<lparr>cur_pml4t_idx := VIRT_TO_PML4_IDX v, c_pdpt := pdpt, cur_pdpt_idx := - 1\<rparr>, s)))"
    by (rule stepped_ensure [OF inv, of "[]"]) (auto simp: idx_less cache_inv_def)
  then show ?thesis using False by (simp add: cached_pdpt_def)
qed

lemma cached_pd_spec:
  assumes inv: "mmu_inv s r fl" and c: "cache_inv (tables s) r c" "cur_pml4t_idx c = VIRT_TO_PML4_IDX v"
  shows "stepped s r fl (\<lambda>c t. cur_pml4t_idx c = VIRT_TO_PML4_IDX v \<and> cur_pdpt_idx c = VIRT_TO_PDPT_IDX v) (cached_pd s c v)"
proof (cases "VIRT_TO_PDPT_IDX v = cur_pdpt_idx c")
  case True
  then show ?thesis using inv c by (auto simp: cached_pd_def intro: stepped_stay)
next
  case False
  have pdpt: "tbl (tables s) r [VIRT_TO_PML4_IDX v] = Some (c_pdpt c)"
    using c idx_not_minus_one [OF idx_less(1) [of v]] by (auto simp: cache_inv_def)
  have "stepped s r fl (\<lambda>c t. cur_pml4t_idx c = VIRT_TO_PML4_IDX v \<and> cur_pdpt_idx c = VIRT_TO_PDPT_IDX v)
    (bindE (ensure_table s (c_pdpt c) (VIRT_TO_PDPT_IDX v) ''Failed to allocate 4KiB page for PD'') (\<lambda>(pd, s).
       Inr (c\<lparr>cur_pdpt_idx := VIRT_TO_PDPT_IDX v, c_pd := pd, cur_pd_idx := - 1\<rparr>, s)))"
    using grownD [OF _ _ pdpt] c(2)
    by (intro stepped_ensure [OF inv _ _ pdpt]) (auto simp: idx_less cache_inv_def)
  then show ?thesis using False by (simp add: cached_pd_def)
qed

lemma cached_tables:
  assumes "cache_inv t r c" "cur_pml4t_idx c = VIRT_TO_PML4_IDX v" "cur_pdpt_idx c = VIRT_TO_PDPT_IDX v"
  shows "tbl t r [VIRT_TO_PML4_IDX v, VIRT_TO_PDPT_IDX v] = Some (c_pd c)"
    "cur_pd_idx c = VIRT_TO_PD_IDX v \<Longrightarrow> tbl t r [VIRT_TO_PML4_IDX v, VIRT_TO_PDPT_IDX v, VIRT_TO_PD_IDX v] = Some (c_pt c)"
  using assms idx_not_minus_one [OF idx_less(2) [of v]] idx_not_minus_one [OF idx_less(3) [of v]]
  unfolding cache_inv_def by (metis, metis)

lemma cached_pt_spec:
  assumes inv: "mmu_inv s r fl" and c: "cache_inv (tables s) r c" "cur_pml4t_idx c = VIRT_TO_PML4_IDX v" "cur_pdpt_idx c = VIRT_TO_PDPT_IDX v"
    and nh: "leaf2m (tables s) r v = None"
  shows "stepped s r fl (\<lambda>c t. tbl t r [VIRT_TO_PML4_IDX v, VIRT_TO_PDPT_IDX v, VIRT_TO_PD_IDX v] = Some (c_pt c)) (cached_pt s c v)"
proof (cases "VIRT_TO_PD_IDX v = cur_pd_idx c")
  case True
  then show ?thesis using inv c cached_tables(2) [OF c] by (auto simp: cached_pt_def intro: stepped_stay)
next
  case False
  note pd = cached_tables(1) [OF c]
  have h: "\<not> (present (pte_at s (c_pd c) (VIRT_TO_PD_IDX v)) \<and> huge (pte_at s (c_pd c) (VIRT_TO_PD_IDX v)))"
    using nh pd by (auto simp: leaf2m_def pte_at_def Let_def split: if_splits)
  have "stepped s r fl (\<lambda>c t. tbl t r [VIRT_TO_PML4_IDX v, VIRT_TO_PDPT_IDX v, VIRT_TO_PD_IDX v] = Some (c_pt c))
    (bindE (ensure_table s (c_pd c) (VIRT_TO_PD_IDX v) ''Failed to allocate 4KiB page for PT'') (\<lambda>(pt, s).
       Inr (c\<lparr>cur_pd_idx := VIRT_TO_PD_IDX v, c_pt := pt\<rparr>, s)))"
    using cache_inv_grown [OF c(1)] c(2,3) h
    by (intro stepped_ensure [OF inv _ _ pd]) (auto simp: idx_less cache_inv_def)
  then show ?thesis using False by (simp add: cached_pt_def)
qed

section \<open>The loops\<close>

text \<open>The mapping as a function of pages, after a range has been entered page by page.\<close>

primrec entered4k :: "nat \<Rightarrow> u64 \<Rightarrow> u64 \<Rightarrow> u64 \<Rightarrow> (u64 \<Rightarrow> u64 option) \<Rightarrow> (u64 \<Rightarrow> u64 option)" where
  "entered4k 0 pa va flags f = f"
| "entered4k (Suc n) pa va flags f =
     entered4k n (pa + PAGE_SIZE) (va + PAGE_SIZE) flags (\<lambda>w. if vpn w = vpn va then Some (pa OR flags) else f w)"

primrec entered2m :: "nat \<Rightarrow> u64 \<Rightarrow> u64 \<Rightarrow> u64 \<Rightarrow> (u64 \<Rightarrow> u64 option) \<Rightarrow> (u64 \<Rightarrow> u64 option)" where
  "entered2m 0 pa va flags f = f"
| "entered2m (Suc n) pa va flags f =
     entered2m n (pa + HUGE_PAGE_SIZE) (va + HUGE_PAGE_SIZE) flags (\<lambda>w. if hpn w = hpn va then Some (pa OR flags) else f w)"

primrec covered4k :: "nat \<Rightarrow> u64 \<Rightarrow> (u64 \<Rightarrow> u64 option) \<Rightarrow> (u64 \<Rightarrow> u64 option)" where
  "covered4k 0 va f = f"
| "covered4k (Suc n) va f = covered4k n (va + HUGE_PAGE_SIZE) (\<lambda>w. if hpn w = hpn va then None else f w)"

lemma mmu_inv_tables:
  assumes "mmu_inv s r fl" "tree_ok t r" "\<And>q c. path q \<Longrightarrow> tbl t r q = Some c \<Longrightarrow> tbl (tables s) r q = Some c"
  shows "mmu_inv (s\<lparr>tables := t\<rparr>) r fl"
  using assms by (auto simp: mmu_inv_def)

lemma present_or: "present flags \<Longrightarrow> present (a OR flags)"
  by (simp add: present_bit bit_or_iff)

lemma huge_or: "huge flags \<Longrightarrow> huge (a OR flags)"
  by (simp add: huge_bit bit_or_iff)

lemma map_4k_loop_spec:
  assumes "mmu_inv s r fl" "cache_inv (tables s) r c" "present flags"
    "\<And>k. k < n \<Longrightarrow> leaf2m (tables s) r (va + of_nat k * PAGE_SIZE) = None"
  shows "(\<exists>s' fl'. map_4k_loop n s r c pa va flags = Inr s' \<and> mmu_inv s' r fl' \<and>
      leaf4k (tables s') r = entered4k n pa va flags (leaf4k (tables s) r) \<and> leaf2m (tables s') r = leaf2m (tables s) r \<and>
      beside r s fl s' fl' (n * 12288)) \<or>
    (card (free_bytes fl) < n * 12288 \<and> (\<exists>m. map_4k_loop n s r c pa va flags = Inl (Panic m)))"
  using assms
proof (induction n arbitrary: s fl c pa va)
  case 0
  then show ?case by auto
next
  case (Suc n)
  have nh: "leaf2m (tables s) r va = None" using Suc.prems(4) [of 0] by simp
  from cached_pdpt_spec [OF Suc.prems(1,2), of va] show ?case unfolding stepped_def
  proof (elim disjE exE conjE)
    fix c1 s1 fl1 assume 1: "cached_pdpt s r c va = Inr (c1, s1)" "mmu_inv s1 r fl1" "cache_inv (tables s1) r c1"
      "grown (tables s) r (tables s1)" "beside r s fl s1 fl1 4096"
      "cur_pml4t_idx c1 = VIRT_TO_PML4_IDX va"
    from cached_pd_spec [OF 1(2,3,6)] show ?thesis unfolding stepped_def
    proof (elim disjE exE conjE)
      fix c2 s2 fl2 assume 2: "cached_pd s1 c1 va = Inr (c2, s2)" "mmu_inv s2 r fl2" "cache_inv (tables s2) r c2"
        "grown (tables s1) r (tables s2)" "beside r s1 fl1 s2 fl2 4096"
        "cur_pml4t_idx c2 = VIRT_TO_PML4_IDX va" "cur_pdpt_idx c2 = VIRT_TO_PDPT_IDX va"
      have g2: "grown (tables s) r (tables s2)" using grown_trans [OF 1(4) 2(4)] .
      then have nh2: "leaf2m (tables s2) r va = None" using nh by (simp add: grown_def)
      from cached_pt_spec [OF 2(2,3,6,7) nh2] show ?thesis unfolding stepped_def
      proof (elim disjE exE conjE)
        fix c3 s3 fl3 assume 3: "cached_pt s2 c2 va = Inr (c3, s3)" "mmu_inv s3 r fl3" "cache_inv (tables s3) r c3"
          "grown (tables s2) r (tables s3)" "beside r s2 fl2 s3 fl3 4096"
          "tbl (tables s3) r [VIRT_TO_PML4_IDX va, VIRT_TO_PDPT_IDX va, VIRT_TO_PD_IDX va] = Some (c_pt c3)"
        have g3: "grown (tables s) r (tables s3)" using grown_trans [OF g2 3(4)] .
        define s4 where "s4 = set_pte s3 (c_pt c3) (VIRT_TO_PT_IDX va) (pa OR flags)"
        have t3: "tree_ok (tables s3) r" using 3(2) by (simp add: mmu_inv_def)
        have t4: "tables s4 = (tables s3)(c_pt c3 + 8 * VIRT_TO_PT_IDX va := pa OR flags)" by (simp add: s4_def set_pte_def)
        note w = write_4k [OF t3 3(6), where e = "pa OR flags", folded t4]
        have i4: "mmu_inv s4 r fl3" using mmu_inv_tables [OF 3(2) w(2)] w(1) by (simp add: s4_def set_pte_def)
        have c4: "cache_inv (tables s4) r c3" using 3(3) w(1) by (simp add: cache_inv_def)
        have l2: "leaf2m (tables s4) r = leaf2m (tables s) r" using w(3) g3 by (auto simp: grown_def)
        have l4: "leaf4k (tables s4) r = (\<lambda>x. if vpn x = vpn va then Some (pa OR flags) else leaf4k (tables s) r x)"
          using w(4) g3 present_or [OF Suc.prems(3)] by (auto simp: grown_def)
        have pre: "leaf2m (tables s4) r (va + PAGE_SIZE + of_nat k * PAGE_SIZE) = None" if "k < n" for k
          using Suc.prems(4) [of "Suc k"] that unfolding l2 by (simp add: algebra_simps)
        have eq: "map_4k_loop (Suc n) s r c pa va flags = map_4k_loop n s4 r c3 (pa + PAGE_SIZE) (va + PAGE_SIZE) flags"
          using 1(1) 2(1) 3(1) by (simp add: s4_def)
        have bs: "beside r s fl s4 fl3 12288" unfolding s4_def
          by (rule beside_set_pte) (use beside_trans [OF beside_trans [OF 1(5) 2(5)] 3(5)] w(1) in \<open>simp_all add: s4_def [symmetric]\<close>)
        then have cd: "card (free_bytes fl) \<le> card (free_bytes fl3) + 12288" by (simp add: beside_def shrunk_def)
        note ih = Suc.IH [OF i4 c4 Suc.prems(3), of "va + PAGE_SIZE" "pa + PAGE_SIZE", OF pre, simplified]
        from ih [unfolded l2 l4] show ?thesis
        proof (elim disjE exE conjE)
          fix s' fl' assume "map_4k_loop n s4 r c3 (pa + PAGE_SIZE) (va + PAGE_SIZE) flags = Inr s'" "mmu_inv s' r fl'"
            "leaf4k (tables s') r = entered4k n (pa + PAGE_SIZE) (va + PAGE_SIZE) flags
              (\<lambda>x. if vpn x = vpn va then Some (pa OR flags) else leaf4k (tables s) r x)"
            "leaf2m (tables s') r = leaf2m (tables s) r" "beside r s4 fl3 s' fl' (n * 12288)"
          then show ?thesis using beside_trans [OF bs] unfolding eq by (intro disjI1 exI [of _ s'] exI [of _ fl']) simp
        qed (use cd eq in auto)
      next
        fix m assume "free_bytes fl2 = {}" "cached_pt s2 c2 va = Inl (Panic m)"
        then show ?thesis using 1(1,5) 2(1,5) by (auto simp: beside_def shrunk_def)
      qed
    next
      fix m assume "free_bytes fl1 = {}" "cached_pd s1 c1 va = Inl (Panic m)"
      then show ?thesis using 1(1,5) by (auto simp: beside_def shrunk_def)
    qed
  next
    fix m assume "free_bytes fl = {}" "cached_pdpt s r c va = Inl (Panic m)"
    then show ?thesis by auto
  qed
qed

lemma map_huge_loop_spec:
  assumes "mmu_inv s r fl" "cache_inv (tables s) r c" "present flags" "huge flags" "cur_pd_idx c = - 1"
  shows "(\<exists>s' fl'. map_huge_loop n s r c pa va flags = Inr s' \<and> mmu_inv s' r fl' \<and>
      leaf2m (tables s') r = entered2m n pa va flags (leaf2m (tables s) r) \<and>
      leaf4k (tables s') r = covered4k n va (leaf4k (tables s) r) \<and> beside r s fl s' fl' (n * 8192)) \<or>
    (card (free_bytes fl) < n * 8192 \<and> (\<exists>m. map_huge_loop n s r c pa va flags = Inl (Panic m)))"
  using assms
proof (induction n arbitrary: s fl c pa va)
  case 0
  then show ?case by auto
next
  case (Suc n)
  from cached_pdpt_spec [OF Suc.prems(1,2), of va] show ?case unfolding stepped_def
  proof (elim disjE exE conjE)
    fix c1 s1 fl1 assume 1: "cached_pdpt s r c va = Inr (c1, s1)" "mmu_inv s1 r fl1" "cache_inv (tables s1) r c1"
      "grown (tables s) r (tables s1)" "beside r s fl s1 fl1 4096"
      "cur_pml4t_idx c1 = VIRT_TO_PML4_IDX va"
    have p1: "cur_pd_idx c1 = - 1" using 1(1) Suc.prems(5) by (auto simp: cached_pdpt_def bindE_eq_Inr split: if_splits)
    from cached_pd_spec [OF 1(2,3,6)] show ?thesis unfolding stepped_def
    proof (elim disjE exE conjE)
      fix c2 s2 fl2 assume 2: "cached_pd s1 c1 va = Inr (c2, s2)" "mmu_inv s2 r fl2" "cache_inv (tables s2) r c2"
        "grown (tables s1) r (tables s2)" "beside r s1 fl1 s2 fl2 4096"
        "cur_pml4t_idx c2 = VIRT_TO_PML4_IDX va" "cur_pdpt_idx c2 = VIRT_TO_PDPT_IDX va"
      have p2: "cur_pd_idx c2 = - 1" using 2(1) p1 by (auto simp: cached_pd_def bindE_eq_Inr split: if_splits)
      have g2: "grown (tables s) r (tables s2)" using grown_trans [OF 1(4) 2(4)] .
      note pd = cached_tables(1) [OF 2(3,6,7)]
      define s4 where "s4 = set_pte s2 (c_pd c2) (VIRT_TO_PD_IDX va) (pa OR flags)"
      have t2: "tree_ok (tables s2) r" using 2(2) by (simp add: mmu_inv_def)
      have t4: "tables s4 = (tables s2)(c_pd c2 + 8 * VIRT_TO_PD_IDX va := pa OR flags)" by (simp add: s4_def set_pte_def)
      note w = write_2m [OF t2 pd present_or [OF Suc.prems(3), of pa] huge_or [OF Suc.prems(4), of pa], folded t4]
      have i4: "mmu_inv s4 r fl2" using mmu_inv_tables [OF 2(2) w(3) w(2)] by (simp add: s4_def set_pte_def)
      have c4: "cache_inv (tables s4) r c2" using 2(3) w(1) p2 by (simp add: cache_inv_def)
      have l2: "leaf2m (tables s4) r = (\<lambda>x. if hpn x = hpn va then Some (pa OR flags) else leaf2m (tables s) r x)"
        using w(4) g2 by (auto simp: grown_def)
      have l4: "leaf4k (tables s4) r = (\<lambda>x. if hpn x = hpn va then None else leaf4k (tables s) r x)"
        using w(5) g2 by (auto simp: grown_def)
      have eq: "map_huge_loop (Suc n) s r c pa va flags = map_huge_loop n s4 r c2 (pa + HUGE_PAGE_SIZE) (va + HUGE_PAGE_SIZE) flags"
        using 1(1) 2(1) by (simp add: s4_def)
      have bs: "beside r s fl s4 fl2 8192" unfolding s4_def
        by (rule beside_set_pte) (use beside_trans [OF 1(5) 2(5)] w(2) in \<open>simp_all add: s4_def [symmetric]\<close>)
      then have cd: "card (free_bytes fl) \<le> card (free_bytes fl2) + 8192" by (simp add: beside_def shrunk_def)
      from Suc.IH [OF i4 c4 Suc.prems(3,4) p2, of "pa + HUGE_PAGE_SIZE" "va + HUGE_PAGE_SIZE"] show ?thesis
        unfolding l2 l4
      proof (elim disjE exE conjE)
        fix s' fl' assume "map_huge_loop n s4 r c2 (pa + HUGE_PAGE_SIZE) (va + HUGE_PAGE_SIZE) flags = Inr s'" "mmu_inv s' r fl'"
          "leaf2m (tables s') r = entered2m n (pa + HUGE_PAGE_SIZE) (va + HUGE_PAGE_SIZE) flags
            (\<lambda>x. if hpn x = hpn va then Some (pa OR flags) else leaf2m (tables s) r x)"
          "leaf4k (tables s') r = covered4k n (va + HUGE_PAGE_SIZE) (\<lambda>x. if hpn x = hpn va then None else leaf4k (tables s) r x)"
          "beside r s4 fl2 s' fl' (n * 8192)"
        then show ?thesis using beside_trans [OF bs] unfolding eq by (intro disjI1 exI [of _ s'] exI [of _ fl']) simp
      qed (use cd eq in auto)
    next
      fix m assume "free_bytes fl1 = {}" "cached_pd s1 c1 va = Inl (Panic m)"
      then show ?thesis using 1(1,5) by (auto simp: beside_def shrunk_def)
    qed
  next
    fix m assume "free_bytes fl = {}" "cached_pdpt s r c va = Inl (Panic m)"
    then show ?thesis by auto
  qed
qed

end
