(* ===== verification/Mmu_Unmap.thy ===== *)
theory Mmu_Unmap
  imports Mmu_Map Buddy_Free
begin

text \<open>
  Unmapping: clearing an entry, giving back the tables that it leaves empty, and the branches of
  \<open>unmap_page\<close> and \<open>unmap_huge_page\<close>.
\<close>

section \<open>Taking an empty table out\<close>

lemma is_empty_iff: "is_empty t b \<longleftrightarrow> (\<forall>j<512. t (b + 8 * j) = 0)"
proof
  assume e: "is_empty t b"
  show "\<forall>j<512. t (b + 8 * j) = 0"
  proof (intro allI impI)
    fix j :: u64 assume "j < 512"
    then have "unat j \<in> set [0..<512]" by (simp add: word_less_nat_alt)
    then have "t (b + 8 * of_nat (unat j)) = 0" using e unfolding is_empty_def list_all_iff by blast
    then show "t (b + 8 * j) = 0" by simp
  qed
next
  assume z: "\<forall>j<512. t (b + 8 * j) = 0"
  have "t (b + 8 * of_nat i) = 0" if "i < 512" for i
  proof -
    have "unat (of_nat i :: u64) = i" using that by (intro unat_of_nat_id) simp
    then have "(of_nat i :: u64) < 512" using that by (simp add: word_less_nat_alt)
    then show ?thesis using z by blast
  qed
  then show "is_empty t b" by (simp add: is_empty_def list_all_iff)
qed

lemma not_present_0 [simp]: "\<not> present 0"
  by (simp add: present_bit)

lemma drop_table:
  assumes t: "tree_ok t r" and p: "path p" "length p < 3" "tbl t r p = Some a" "i < 512" "tbl t r (p @ [i]) = Some b"
    and z: "is_empty t b"
  defines "t' \<equiv> t(a + 8 * i := 0)"
  shows "tbl t' r (p @ [i]) = None" "\<And>q. path q \<Longrightarrow> q \<noteq> p @ [i] \<Longrightarrow> tbl t' r q = tbl t r q" "tree_ok t' r"
    "\<And>w. leaf4k t' r w = leaf4k t r w" "\<And>w. leaf2m t' r w = leaf2m t r w"
proof -
  have up: "tbl t' r q = tbl t r q" if "path q" "\<not> prefix (p @ [i]) q" for q
    unfolding t'_def by (rule tbl_upd [OF t p(1,3,4) that])
  have pa: "tbl t' r p = Some a" using up [OF p(1)] p(3) by auto
  have e: "t' (a + 8 * i) = 0" by (simp add: t'_def)
  then show gone: "tbl t' r (p @ [i]) = None" using pa by (simp add: tbl_snoc)
  have under: "tbl t r q = None" "tbl t' r q = None" if q: "path q" "prefix (p @ [i]) q" "q \<noteq> p @ [i]" for q
  proof -
    obtain w where w: "q = (p @ [i]) @ w" using q(2) by (auto simp: prefix_def)
    then obtain j u where u: "w = j # u" using q(3) by (cases w) auto
    have "j < 512" using q(1) w u by (auto simp: path_def)
    then have "tbl t r ((p @ [i]) @ [j]) = None" using z p(5) by (simp only: tbl_snoc is_empty_iff) simp
    then show "tbl t r q = None" using w u tbl_append [of t r "(p @ [i]) @ [j]" u] by simp
    show "tbl t' r q = None" using e by (intro tbl_below [OF pa _ q(2)]) simp
  qed
  show same: "tbl t' r q = tbl t r q" if "path q" "q \<noteq> p @ [i]" for q
    using up under that by (cases "prefix (p @ [i]) q") auto
  have some: "tbl t r q = Some c" if "path q" "tbl t' r q = Some c" for q c using same [OF that(1)] gone that(2) by force
  have entry: "t' (c + 8 * j) = t (c + 8 * j)" if "path q" "tbl t r q = Some c" "j < 512" "(q, j) \<noteq> (p, i)" for q c j
    using other_slot [OF t p(1,3,4) that] by (simp add: t'_def)
  show "tree_ok t' r" unfolding tree_ok_def
  proof (intro conjI allI impI)
    fix q c j assume q: "path q" "length q < 2" "tbl t' r q = Some c" "j < (512::u64)" "present (t' (c + 8 * j))"
    note c = some [OF q(1,3)]
    show "\<not> huge (t' (c + 8 * j))"
    proof (cases "(q, j) = (p, i)")
      case True
      then show ?thesis using q(5) c p(3) e by simp
    next
      case False
      then show ?thesis using entry [OF q(1) c q(4)] tree_okD(3) [OF t q(1) c q(2,4)] q(5) by simp
    qed
  next
    fix q q' c assume q: "path q" "path q'" "tbl t' r q = Some c" "tbl t' r q' = Some c"
    then show "q = q'" using some tree_okD(2) [OF t q(1) _ q(2)] by blast
  qed (use some tree_okD(1) [OF t] in blast)
  show "leaf4k t' r w = leaf4k t r w" for w
  proof -
    let ?q = "[VIRT_TO_PML4_IDX w, VIRT_TO_PDPT_IDX w, VIRT_TO_PD_IDX w]"
    have ne: "?q \<noteq> p" using p(2) by auto
    show ?thesis
    proof (cases "?q = p @ [i]")
      case True
      show ?thesis unfolding leaf4k_def True using gone p(5) z idx_less(4) [of w] by (simp add: is_empty_iff)
    next
      case False
      then show ?thesis using same [of ?q] entry [of ?q] ne by (simp add: leaf4k_def idx_less split: option.split)
    qed
  qed
  show "leaf2m t' r w = leaf2m t r w" for w
  proof -
    let ?q = "[VIRT_TO_PML4_IDX w, VIRT_TO_PDPT_IDX w]"
    show ?thesis
    proof (cases "?q = p @ [i]")
      case True
      show ?thesis unfolding leaf2m_def True using gone p(5) z idx_less(3) [of w] by (simp add: is_empty_iff)
    next
      case False
      then have q: "tbl t' r ?q = tbl t r ?q" by (intro same) (simp_all add: idx_less)
      show ?thesis
      proof (cases "(?q, VIRT_TO_PD_IDX w) = (p, i)")
        case True
        have "\<not> (present (t (a + 8 * i)) \<and> huge (t (a + 8 * i)))" using p(3,5) by (auto simp: tbl_snoc split: if_splits)
        then show ?thesis using q p(3) e True by (auto simp: leaf2m_def Let_def)
      next
        case False
        then show ?thesis using q entry [of ?q _ "VIRT_TO_PD_IDX w"] by (simp add: leaf2m_def idx_less split: option.split)
      qed
    qed
  qed
qed

section \<open>Giving tables back\<close>

definition freeable :: "slab_state \<Rightarrow> (nat \<Rightarrow> addr list) \<Rightarrow> bool" where
  "freeable k fl \<longleftrightarrow> whole_region (buddy k) \<and> offsets_ok (buddy k) \<and> bits_sound (buddy k) fl"

lemma page_span_apart:
  assumes "page_ok a" "page_ok b" "a \<noteq> b"
  shows "span a 0 \<inter> span b 0 = {}"
proof -
  obtain x y where "unat a = 4096 * x" "unat b = 4096 * y" using assms(1,2) by (auto simp: page_ok_def elim!: dvdE)
  moreover from this have "x \<noteq> y" using assms(3) by (auto simp: word_unat_eq_iff)
  ultimately show ?thesis by (auto simp: span_def)
qed

text \<open>
  What a release leaves of the tables on a path: each that remains has an entry in use, no table off the
  path has changed, and every byte that was of a table or free still is one or the other. With the
  invariant, the tables that are gone are therefore free memory.
\<close>

definition reclaimed :: "addr \<Rightarrow> mmu_state \<Rightarrow> (nat \<Rightarrow> addr list) \<Rightarrow> mmu_state \<Rightarrow> (nat \<Rightarrow> addr list) \<Rightarrow> u64 list \<Rightarrow> bool" where
  "reclaimed r s fl s' fl' p \<longleftrightarrow>
     held s' r fl' = held s r fl \<and>
     (\<forall>q a. q \<noteq> [] \<longrightarrow> prefix q p \<longrightarrow> tbl (tables s') r q = Some a \<longrightarrow> \<not> is_empty (tables s') a) \<and>
     (\<forall>q. path q \<longrightarrow> \<not> prefix q p \<longrightarrow> tbl (tables s') r q = tbl (tables s) r q)"

lemma reclaimed_drop:
  assumes "reclaimed r s1 fl1 s' fl' p" "held s1 r fl1 = held s r fl" "tbl (tables s1) r (p @ [i]) = None" "path (p @ [i])"
    "\<forall>q. path q \<longrightarrow> q \<noteq> p @ [i] \<longrightarrow> tbl (tables s1) r q = tbl (tables s) r q"
  shows "reclaimed r s fl s' fl' (p @ [i])"
proof -
  have same: "tbl (tables s') r q = tbl (tables s1) r q" if "path q" "\<not> prefix q p" for q
    using assms(1) that by (simp add: reclaimed_def)
  have gone: "tbl (tables s') r (p @ [i]) = None" using same [OF assms(4)] assms(3) prefix_length_le by fastforce
  have "\<not> is_empty (tables s') a" if "q \<noteq> []" "prefix q (p @ [i])" "tbl (tables s') r q = Some a" for q a
    using assms(1) that gone unfolding reclaimed_def prefix_snoc by fastforce
  moreover have "tbl (tables s') r q = tbl (tables s) r q" if q: "path q" "\<not> prefix q (p @ [i])" for q
  proof -
    have "q \<noteq> p @ [i]" "\<not> prefix q p" using q(2) by auto
    then show ?thesis using same [OF q(1)] assms(5) q(1) by simp
  qed
  ultimately show ?thesis using assms(1,2) by (simp add: reclaimed_def)
qed

lemma table_in_use: "tbl t r (p @ [i]) = Some b \<Longrightarrow> tbl t r p = Some a \<Longrightarrow> i < 512 \<Longrightarrow> \<not> is_empty t a"
  by (auto simp: tbl_snoc is_empty_iff split: if_splits)

lemma reclaimed_keep:
  assumes "tbl (tables s) r p = Some b" "\<not> is_empty (tables s) b" "path p"
  shows "reclaimed r s fl s fl p"
proof -
  have "\<not> is_empty (tables s) a" if q: "prefix q p" "tbl (tables s) r q = Some a" for q a
  proof (cases "q = p")
    case True
    then show ?thesis using assms(1,2) q(2) by simp
  next
    case False
    then obtain i w where w: "p = (q @ [i]) @ w" using q(1) by (metis append.assoc append_Cons append_Nil neq_Nil_conv prefix_def append_Nil2)
    then have "tbl (tables s) r (q @ [i]) \<noteq> None" using assms(1) tbl_append [of "tables s" r "q @ [i]" w] by (auto split: option.splits)
    moreover have "i < 512" using assms(3) w by (simp add: path_def)
    ultimately show ?thesis using table_in_use q(2) by blast
  qed
  then show ?thesis by (simp add: reclaimed_def)
qed

text \<open>Writing an entry that leads to no table.\<close>

lemma reclaimed_write:
  assumes "reclaimed r s1 fl s' fl' p" "\<And>q. path q \<Longrightarrow> tbl (tables s1) r q = tbl (tables s) r q"
  shows "reclaimed r s fl s' fl' p"
proof -
  have "table_bytes (tables s1) r = table_bytes (tables s) r" using assms(2) unfolding table_bytes_def by (metis (no_types, lifting))
  then show ?thesis using assms by (simp add: reclaimed_def held_def)
qed

lemma drop_table_inv:
  assumes inv: "mmu_inv s r fl" and f: "freeable (kmem s) fl"
    and p: "path p" "length p < 3" "tbl (tables s) r p = Some a" "i < 512" "tbl (tables s) r (p @ [i]) = Some b"
    and z: "is_empty (tables s) b"
  shows "\<exists>s' fl'. kfree_table (set_pte s a i 0) b = Inr s' \<and> mmu_inv s' r fl' \<and> freeable (kmem s') fl' \<and> within r s fl s' fl' \<and>
    leaf4k (tables s') r = leaf4k (tables s) r \<and> leaf2m (tables s') r = leaf2m (tables s) r \<and> flushed s' = flushed s \<and>
    (\<forall>q. path q \<longrightarrow> q \<noteq> p @ [i] \<longrightarrow> tbl (tables s') r q = tbl (tables s) r q) \<and>
    tbl (tables s') r (p @ [i]) = None \<and> held s' r fl' = held s r fl"
proof -
  have t: "tree_ok (tables s) r" and bi: "buddy_inv (buddy (kmem s)) fl"
    and ap: "\<And>p a. path p \<Longrightarrow> tbl (tables s) r p = Some a \<Longrightarrow> free_bytes fl \<inter> span a 0 = {}"
    and wf: "\<And>p a. path p \<Longrightarrow> tbl (tables s) r p = Some a \<Longrightarrow> p \<noteq> [] \<Longrightarrow> wf_block (buddy (kmem s)) a 0"
    and top: "unat (base_address (buddy (kmem s))) + unat (region_size (buddy (kmem s))) \<le> 2 ^ 52"
    using inv by (auto simp: mmu_inv_def)
  note d = drop_table [OF t p z]
  have pi: "path (p @ [i])" using p by simp
  have "free_pre (buddy (kmem s)) fl b 0"
    using bi f ap [OF pi p(5)] wf [OF pi p(5)] by (simp add: free_pre_def freeable_def)
  then obtain b' fl' where k: "buddy_kfree (buddy (kmem s)) b 4096 = Some b'" "buddy_inv b' fl'" "bits_sound b' fl'"
      "free_bytes fl' = free_bytes fl \<union> span b 0" "base_address b' = base_address (buddy (kmem s))"
      "region_size b' = region_size (buddy (kmem s))" "order_offsets b' = order_offsets (buddy (kmem s))"
    using kfree_inv [OF _ page_order, of "buddy (kmem s)" fl b] by auto
  define s' where "s' = s\<lparr>tables := (tables s)(a + 8 * i := 0), kmem := (kmem s)\<lparr>buddy := b'\<rparr>\<rparr>"
  have kt: "kfree_table (set_pte s a i 0) b = Inr s'"
    using k(1) by (simp add: kfree_table_def set_pte_def lift_buddy_free_def s'_def PAGE_SIZE_def)
  have tab: "tables s' = (tables s)(a + 8 * i := 0)" by (simp add: s'_def)
  have "free_bytes fl' \<inter> span c 0 = {} \<and> (q \<noteq> [] \<longrightarrow> wf_block b' c 0)" if q: "path q" "tbl (tables s') r q = Some c" for q c
  proof -
    have "q \<noteq> p @ [i]" using d(1) q(2) by (auto simp: tab)
    then have c: "tbl (tables s) r q = Some c" using d(2) [OF q(1)] q(2) by (simp add: tab)
    have "c \<noteq> b" using tree_okD(2) [OF t q(1) c pi] p(5) \<open>q \<noteq> p @ [i]\<close> by auto
    then have "span c 0 \<inter> span b 0 = {}" using page_span_apart tree_okD(1) [OF t q(1) c] tree_okD(1) [OF t pi p(5)] by blast
    then show ?thesis using ap [OF q(1) c] wf [OF q(1) c] k(4-6) by (auto simp: wf_block_def)
  qed
  then have "mmu_inv s' r fl'" using d(3) k(2,5,6) top by (simp add: mmu_inv_def s'_def)
  moreover have "whole_region b'" "offsets_ok b'"
    using f k(2,5-7) by (auto simp: freeable_def whole_region_def buddy_inv_def offsets_ok_def pages_of_def)
  moreover have "leaf4k (tables s') r = leaf4k (tables s) r" "leaf2m (tables s') r = leaf2m (tables s) r"
    using d(4,5) by (auto simp: tab)
  moreover have "freeable (kmem s') fl'" "flushed s' = flushed s" using \<open>whole_region b'\<close> \<open>offsets_ok b'\<close> k(3) by (simp_all add: freeable_def s'_def)
  moreover have "within r s fl s' fl'"
  proof -
    have "table_bytes (tables s') r \<subseteq> table_bytes (tables s) r"
      unfolding tab by (rule table_bytes_mono) (metis d(1,2) option.distinct(1))
    moreover have "span b 0 \<subseteq> table_bytes (tables s) r" unfolding table_bytes_def using pi p(5) by blast
    ultimately show ?thesis using k(4-6) by (auto simp: within_def held_def s'_def)
  qed
  moreover have "held s' r fl' = held s r fl"
  proof
    show "held s' r fl' \<subseteq> held s r fl" using \<open>within r s fl s' fl'\<close> by (simp add: within_def)
    have "table_bytes (tables s) r \<subseteq> table_bytes (tables s') r \<union> span b 0"
    proof
      fix y assume "y \<in> table_bytes (tables s) r"
      then obtain q c where q: "path q" "tbl (tables s) r q = Some c" "y \<in> span c 0" by (auto simp: table_bytes_def)
      then show "y \<in> table_bytes (tables s') r \<union> span b 0"
        using d(2) [OF q(1), folded tab] p(5) by (cases "q = p @ [i]") (auto simp: table_bytes_def)
    qed
    then show "held s r fl \<subseteq> held s' r fl'" using k(4) by (auto simp: held_def)
  qed
  ultimately show ?thesis using kt d(1,2) [folded tab] by blast
qed


lemma release_pdpt_spec:
  assumes inv: "mmu_inv s r fl" "freeable (kmem s) fl" and i: "i < 512" "tbl (tables s) r [i] = Some pdpt"
  shows "\<exists>s' fl'. release_pdpt s r i pdpt = Inr s' \<and> mmu_inv s' r fl' \<and> freeable (kmem s') fl' \<and> within r s fl s' fl' \<and>
    leaf4k (tables s') r = leaf4k (tables s) r \<and> leaf2m (tables s') r = leaf2m (tables s) r \<and> flushed s' = flushed s \<and>
    reclaimed r s fl s' fl' [i]"
proof (cases "is_empty (tables s) pdpt")
  case True
  then obtain s1 fl1 where 1: "kfree_table (set_pte s r i 0) pdpt = Inr s1" "mmu_inv s1 r fl1" "freeable (kmem s1) fl1" "within r s fl s1 fl1"
      "leaf4k (tables s1) r = leaf4k (tables s) r" "leaf2m (tables s1) r = leaf2m (tables s) r" "flushed s1 = flushed s"
      "\<forall>q. path q \<longrightarrow> q \<noteq> [] @ [i] \<longrightarrow> tbl (tables s1) r q = tbl (tables s) r q" "tbl (tables s1) r ([] @ [i]) = None" "held s1 r fl1 = held s r fl"
    using drop_table_inv [OF inv, of "[]" r i pdpt] i by auto
  have "reclaimed r s1 fl1 s1 fl1 []" by (simp add: reclaimed_def)
  from reclaimed_drop [OF this 1(10,9) _ 1(8)] show ?thesis using True 1(1-7) i(1) by (auto simp: release_pdpt_def)
next
  case False
  then show ?thesis using inv i reclaimed_keep [of s r "[i]" pdpt fl] by (auto simp: release_pdpt_def)
qed

lemma release_pd_spec:
  assumes inv: "mmu_inv s r fl" "freeable (kmem s) fl" and i: "i < 512" "j < 512"
    and t: "tbl (tables s) r [i] = Some pdpt" "tbl (tables s) r [i, j] = Some pd"
  shows "\<exists>s' fl'. release_pd s r i pdpt j pd = Inr s' \<and> mmu_inv s' r fl' \<and> freeable (kmem s') fl' \<and> within r s fl s' fl' \<and>
    leaf4k (tables s') r = leaf4k (tables s) r \<and> leaf2m (tables s') r = leaf2m (tables s) r \<and> flushed s' = flushed s \<and>
    reclaimed r s fl s' fl' [i, j]"
proof (cases "is_empty (tables s) pd")
  case True
  then obtain s1 fl1 where 1: "kfree_table (set_pte s pdpt j 0) pd = Inr s1" "mmu_inv s1 r fl1" "freeable (kmem s1) fl1" "within r s fl s1 fl1"
      "leaf4k (tables s1) r = leaf4k (tables s) r" "leaf2m (tables s1) r = leaf2m (tables s) r" "flushed s1 = flushed s"
      "\<forall>q. path q \<longrightarrow> q \<noteq> [i] @ [j] \<longrightarrow> tbl (tables s1) r q = tbl (tables s) r q" "tbl (tables s1) r ([i] @ [j]) = None" "held s1 r fl1 = held s r fl"
    using drop_table_inv [OF inv, of "[i]" pdpt j pd] i t by auto
  have "tbl (tables s1) r [i] = Some pdpt" using 1(8) i t by simp
  from release_pdpt_spec [OF 1(2,3) i(1) this] obtain s' fl' where 2: "release_pdpt s1 r i pdpt = Inr s'" "mmu_inv s' r fl'" "freeable (kmem s') fl'"
      "within r s1 fl1 s' fl'" "leaf4k (tables s') r = leaf4k (tables s1) r" "leaf2m (tables s') r = leaf2m (tables s1) r"
      "flushed s' = flushed s1" "reclaimed r s1 fl1 s' fl' [i]" by blast
  have "reclaimed r s fl s' fl' [i, j]" using reclaimed_drop [OF 2(8) 1(10,9) _ 1(8)] i by simp
  then show ?thesis using True 1(1,5-7) 2(1-7) within_trans [OF 1(4) 2(4)] by (auto simp: release_pd_def)
next
  case False
  then show ?thesis using inv i t reclaimed_keep [of s r "[i, j]" pd fl] by (auto simp: release_pd_def)
qed

lemma release_pt_spec:
  assumes inv: "mmu_inv s r fl" "freeable (kmem s) fl" and i: "i < 512" "j < 512" "k < 512"
    and t: "tbl (tables s) r [i] = Some pdpt" "tbl (tables s) r [i, j] = Some pd" "tbl (tables s) r [i, j, k] = Some pt"
  shows "\<exists>s' fl'. release_pt s r i pdpt j pd k pt = Inr s' \<and> mmu_inv s' r fl' \<and> freeable (kmem s') fl' \<and> within r s fl s' fl' \<and>
    leaf4k (tables s') r = leaf4k (tables s) r \<and> leaf2m (tables s') r = leaf2m (tables s) r \<and> flushed s' = flushed s \<and>
    reclaimed r s fl s' fl' [i, j, k]"
proof (cases "is_empty (tables s) pt")
  case True
  then obtain s1 fl1 where 1: "kfree_table (set_pte s pd k 0) pt = Inr s1" "mmu_inv s1 r fl1" "freeable (kmem s1) fl1" "within r s fl s1 fl1"
      "leaf4k (tables s1) r = leaf4k (tables s) r" "leaf2m (tables s1) r = leaf2m (tables s) r" "flushed s1 = flushed s"
      "\<forall>q. path q \<longrightarrow> q \<noteq> [i, j] @ [k] \<longrightarrow> tbl (tables s1) r q = tbl (tables s) r q" "tbl (tables s1) r ([i, j] @ [k]) = None" "held s1 r fl1 = held s r fl"
    using drop_table_inv [OF inv, of "[i, j]" pd k pt] i t by auto
  have "tbl (tables s1) r [i] = Some pdpt" "tbl (tables s1) r [i, j] = Some pd" using 1(8) i t by simp_all
  from release_pd_spec [OF 1(2,3) i(1,2) this] obtain s' fl' where 2: "release_pd s1 r i pdpt j pd = Inr s'" "mmu_inv s' r fl'" "freeable (kmem s') fl'"
      "within r s1 fl1 s' fl'" "leaf4k (tables s') r = leaf4k (tables s1) r" "leaf2m (tables s') r = leaf2m (tables s1) r"
      "flushed s' = flushed s1" "reclaimed r s1 fl1 s' fl' [i, j]" by blast
  have "reclaimed r s fl s' fl' [i, j, k]" using reclaimed_drop [OF 2(8) 1(10,9) _ 1(8)] i by simp
  then show ?thesis using True 1(1,5-7) 2(1-7) within_trans [OF 1(4) 2(4)] by (auto simp: release_pt_def)
next
  case False
  then show ?thesis using inv i t reclaimed_keep [of s r "[i, j, k]" pt fl] by (auto simp: release_pt_def)
qed

section \<open>One page\<close>

text \<open>Reading a walk off the tables, as the unmapping routines do.\<close>

lemma walk_tables:
  assumes "tree_ok t r" and v: "i = VIRT_TO_PML4_IDX v" "j = VIRT_TO_PDPT_IDX v" "k = VIRT_TO_PD_IDX v"
  shows "tbl t r [i] = (if present (t (r + 8 * i)) then Some (t (r + 8 * i) AND PTE_ADDR_MASK) else None)"
    "tbl t r [i] = Some a \<Longrightarrow> tbl t r [i, j] = (if present (t (a + 8 * j)) then Some (t (a + 8 * j) AND PTE_ADDR_MASK) else None)"
    "tbl t r [i, j] = Some b \<Longrightarrow>
       tbl t r [i, j, k] = (if present (t (b + 8 * k)) \<and> \<not> huge (t (b + 8 * k)) then Some (t (b + 8 * k) AND PTE_ADDR_MASK) else None)"
    "tbl t r [i] = None \<Longrightarrow> tbl t r [i, j] = None" "tbl t r [i, j] = None \<Longrightarrow> tbl t r [i, j, k] = None"
  using tree_okD(3) [OF assms(1), of "[]" r i] tree_okD(3) [OF assms(1), of "[i]" a j] idx_less [of v]
    tbl_snoc [of t r "[]" i] tbl_snoc [of t r "[i]" j] tbl_snoc [of t r "[i, j]" k] by (auto simp: v)

lemma unmap_4k_spec:
  assumes inv: "mmu_inv s r fl" "freeable (kmem s) fl"
  shows "if leaf2m (tables s) r v \<noteq> None then unmap_4k hm wm s r pa v = Inl (Panic hm)
    else case leaf4k (tables s) r v of
      None \<Rightarrow> unmap_4k hm wm s r pa v = Inr s
    | Some e \<Rightarrow> if e AND PTE_ADDR_MASK \<noteq> pa then unmap_4k hm wm s r pa v = Inl (Panic wm)
        else \<exists>s' fl'. unmap_4k hm wm s r pa v = Inr s' \<and> mmu_inv s' r fl' \<and> freeable (kmem s') fl' \<and> within r s fl s' fl' \<and>
          leaf4k (tables s') r = (\<lambda>w. if vpn w = vpn v then None else leaf4k (tables s) r w) \<and>
          leaf2m (tables s') r = leaf2m (tables s) r \<and> flushed s' = v # flushed s \<and>
          reclaimed r s fl s' fl' [VIRT_TO_PML4_IDX v, VIRT_TO_PDPT_IDX v, VIRT_TO_PD_IDX v]"
proof -
  define i j k l where idx: "i = VIRT_TO_PML4_IDX v" "j = VIRT_TO_PDPT_IDX v" "k = VIRT_TO_PD_IDX v" "l = VIRT_TO_PT_IDX v"
  define t where "t = tables s"
  have T: "tree_ok t r" using inv by (simp add: mmu_inv_def t_def)
  note W = walk_tables [OF T idx(1-3)]
  note U = unmap_4k_def [of hm wm s r pa v, folded idx, unfolded Let_def pte_at_def, folded t_def]
  note L = leaf2m_def [of t r v, folded idx] leaf4k_def [of t r v, folded idx]
  show ?thesis
  proof (cases "tbl t r [i, j, k]")
    case None
    then show ?thesis using W U L unfolding t_def [symmetric] by (auto split: if_splits option.splits simp: Let_def)
  next
    case (Some pt)
    then obtain pdpt pd where p: "tbl t r [i] = Some pdpt" "tbl t r [i, j] = Some pd" using W(4,5) by (metis option.exhaust option.distinct(1))
    define s1 where "s1 = invlpg (set_pte s pt l 0) v"
    have e: "unmap_4k hm wm s r pa v =
        (if \<not> present (t (pt + 8 * l)) then Inr s
         else if t (pt + 8 * l) AND PTE_ADDR_MASK \<noteq> pa then Inl (Panic wm)
         else release_pt s1 r i pdpt j pd k pt)"
      unfolding U s1_def using W(1-3) p Some by (auto split: if_splits)
    have l2: "leaf2m t r v = None" unfolding L(1) using p(2) W(3) [OF p(2)] Some by (auto simp: Let_def split: if_splits)
    have l4: "leaf4k t r v = (if present (t (pt + 8 * l)) then Some (t (pt + 8 * l)) else None)"
      unfolding L(2) using Some by (simp add: Let_def)
    show ?thesis
    proof (cases "present (t (pt + 8 * l)) \<and> t (pt + 8 * l) AND PTE_ADDR_MASK = pa")
      case False
      then show ?thesis using e l2 l4 unfolding t_def [symmetric] by auto
    next
      case True
      have t1: "tables s1 = t(pt + 8 * l := 0)" by (simp add: s1_def invlpg_def set_pte_def t_def)
      note w = write_4k [OF T, where v = v and pt = pt and e = 0, folded idx, OF Some, folded t1]
      have i1: "mmu_inv s1 r fl" using mmu_inv_tables [OF inv(1) w(2)] w(1)
        by (simp add: s1_def invlpg_def set_pte_def t_def mmu_inv_def)
      have w1: "within r s fl s1 fl" unfolding s1_def
        by (simp, rule within_set_pte) (use w(1) in \<open>simp_all add: t_def t1 s1_def [symmetric] set_pte_def\<close>)
      have f1: "freeable (kmem s1) fl" using inv(2) by (simp add: s1_def invlpg_def set_pte_def)
      have lt: "i < 512" "j < 512" "k < 512" by (simp_all add: idx idx_less)
      have p1: "tbl (tables s1) r [i] = Some pdpt" "tbl (tables s1) r [i, j] = Some pd" "tbl (tables s1) r [i, j, k] = Some pt"
        using w(1) p Some lt by simp_all
      from release_pt_spec [OF i1 f1 lt p1] obtain s' fl' where r: "release_pt s1 r i pdpt j pd k pt = Inr s'" "mmu_inv s' r fl'"
          "freeable (kmem s') fl'" "leaf4k (tables s') r = leaf4k (tables s1) r" "leaf2m (tables s') r = leaf2m (tables s1) r"
          "flushed s' = flushed s1" "within r s1 fl s' fl'" "reclaimed r s1 fl s' fl' [i, j, k]" by blast
      have rc: "reclaimed r s fl s' fl' [i, j, k]" by (rule reclaimed_write [OF r(8)]) (simp add: w(1) t_def)
      have "leaf4k (tables s') r = (\<lambda>x. if vpn x = vpn v then None else leaf4k t r x)" using r(4) w(4) by auto
      moreover have "leaf2m (tables s') r = leaf2m t r" using r(5) w(3) by auto
      moreover have "flushed s' = v # flushed s" using r(6) by (simp add: s1_def invlpg_def set_pte_def)
      ultimately show ?thesis using e l2 l4 True r(1-3) within_trans [OF w1 r(7)] rc unfolding t_def [symmetric] idx [symmetric] by auto
    qed
  qed
qed

lemma write_2m_clear:
  assumes t: "tree_ok t r" and pd: "tbl t r [VIRT_TO_PML4_IDX v, VIRT_TO_PDPT_IDX v] = Some pd"
    and h: "huge (t (pd + 8 * VIRT_TO_PD_IDX v))"
  defines "t' \<equiv> t(pd + 8 * VIRT_TO_PD_IDX v := 0)"
  shows "\<And>q. path q \<Longrightarrow> tbl t' r q = tbl t r q" "tree_ok t' r"
    "\<And>w. leaf2m t' r w = (if hpn w = hpn v then None else leaf2m t r w)" "\<And>w. leaf4k t' r w = leaf4k t r w"
proof -
  let ?p = "[VIRT_TO_PML4_IDX v, VIRT_TO_PDPT_IDX v]" and ?k = "VIRT_TO_PD_IDX v"
  have pp: "path ?p" "?k < 512" by (simp_all add: idx_less)
  have up: "tbl t' r q = tbl t r q" if "path q" "\<not> prefix (?p @ [?k]) q" for q
    unfolding t'_def by (rule tbl_upd [OF t pp(1) pd pp(2) that])
  have pd': "tbl t' r ?p = Some pd" "t' (pd + 8 * ?k) = 0" using up [OF pp(1)] pd by (auto simp: t'_def)
  show same: "tbl t' r q = tbl t r q" if "path q" for q
    using up [OF that] tbl_below [OF pd, of ?k q] tbl_below [OF pd'(1), of ?k q] h pd'(2)
    by (cases "prefix (?p @ [?k]) q") simp_all
  have entry: "t' (c + 8 * j) = t (c + 8 * j)" if "path q" "tbl t r q = Some c" "j < 512" "(q, j) \<noteq> (?p, ?k)" for q c j
    using other_slot [OF t pp(1) pd pp(2) that] by (simp add: t'_def)
  show "tree_ok t' r" unfolding tree_ok_def
  proof (intro conjI allI impI)
    fix q c j assume q: "path q" "length q < 2" "tbl t' r q = Some c" "j < (512::u64)" "present (t' (c + 8 * j))"
    then have c: "tbl t r q = Some c" using same by simp
    have "q \<noteq> ?p" using q(2) by auto
    then have "t' (c + 8 * j) = t (c + 8 * j)" using entry [OF q(1) c q(4)] by simp
    then show "\<not> huge (t' (c + 8 * j))" using tree_okD(3) [OF t q(1) c q(2,4)] q(5) by simp
  qed (use same tree_okD(1,2) [OF t] in auto)
  show "leaf2m t' r w = (if hpn w = hpn v then None else leaf2m t r w)" for w
  proof (cases "hpn w = hpn v")
    case True
    then have i: "VIRT_TO_PML4_IDX w = VIRT_TO_PML4_IDX v" "VIRT_TO_PDPT_IDX w = VIRT_TO_PDPT_IDX v"
        "VIRT_TO_PD_IDX w = ?k" by (simp_all add: hpn_eq_iff)
    show ?thesis using True pd' by (simp add: leaf2m_def i)
  next
    case False
    then have "([VIRT_TO_PML4_IDX w, VIRT_TO_PDPT_IDX w], VIRT_TO_PD_IDX w) \<noteq> (?p, ?k)" by (auto simp: hpn_eq_iff)
    then show ?thesis
      using False same [OF path_of_virt(2) [of w]] entry [OF path_of_virt(2) [of w] _ idx_less(3) [of w]]
      by (auto simp: leaf2m_def split: option.split)
  qed
  show "leaf4k t' r w = leaf4k t r w" for w
    using same entry [of "[VIRT_TO_PML4_IDX w, VIRT_TO_PDPT_IDX w, VIRT_TO_PD_IDX w]"]
    by (simp add: leaf4k_def idx_less split: option.split)
qed

lemma unmap_2m_spec:
  assumes inv: "mmu_inv s r fl" "freeable (kmem s) fl"
  shows "case leaf2m (tables s) r v of
      None \<Rightarrow> (if tbl (tables s) r [VIRT_TO_PML4_IDX v, VIRT_TO_PDPT_IDX v, VIRT_TO_PD_IDX v] \<noteq> None
               then unmap_2m rm wm s r pa v = Inl (Panic rm) else unmap_2m rm wm s r pa v = Inr s)
    | Some e \<Rightarrow> if e AND PTE_ADDR_MASK \<noteq> pa then unmap_2m rm wm s r pa v = Inl (Panic wm)
        else \<exists>s' fl'. unmap_2m rm wm s r pa v = Inr s' \<and> mmu_inv s' r fl' \<and> freeable (kmem s') fl' \<and> within r s fl s' fl' \<and>
          leaf2m (tables s') r = (\<lambda>w. if hpn w = hpn v then None else leaf2m (tables s) r w) \<and>
          leaf4k (tables s') r = leaf4k (tables s) r \<and> flushed s' = v # flushed s \<and>
          reclaimed r s fl s' fl' [VIRT_TO_PML4_IDX v, VIRT_TO_PDPT_IDX v]"
proof -
  define i j k where idx: "i = VIRT_TO_PML4_IDX v" "j = VIRT_TO_PDPT_IDX v" "k = VIRT_TO_PD_IDX v"
  define t where "t = tables s"
  have T: "tree_ok t r" using inv by (simp add: mmu_inv_def t_def)
  note W = walk_tables [OF T idx(1-3)]
  note U = unmap_2m_def [of rm wm s r pa v, folded idx, unfolded Let_def pte_at_def, folded t_def]
  note L = leaf2m_def [of t r v, folded idx]
  show ?thesis
  proof (cases "tbl t r [i, j]")
    case None
    then show ?thesis using W U L unfolding t_def [symmetric] idx [symmetric] by (auto split: if_splits option.splits simp: Let_def)
  next
    case (Some pd)
    then obtain pdpt where p: "tbl t r [i] = Some pdpt" using W(4) by (cases "tbl t r [i]") auto
    define s1 where "s1 = invlpg (set_pte s pd k 0) v"
    have e: "unmap_2m rm wm s r pa v =
        (if \<not> present (t (pd + 8 * k)) then Inr s
         else if \<not> huge (t (pd + 8 * k)) then Inl (Panic rm)
         else if t (pd + 8 * k) AND PTE_ADDR_MASK \<noteq> pa then Inl (Panic wm)
         else release_pd s1 r i pdpt j pd)"
      unfolding U s1_def using W(1,2) p Some by (auto split: if_splits)
    have l2: "leaf2m t r v = (if present (t (pd + 8 * k)) \<and> huge (t (pd + 8 * k)) then Some (t (pd + 8 * k)) else None)"
      unfolding L using Some by (simp add: Let_def)
    show ?thesis
    proof (cases "present (t (pd + 8 * k)) \<and> huge (t (pd + 8 * k)) \<and> t (pd + 8 * k) AND PTE_ADDR_MASK = pa")
      case False
      then show ?thesis using e l2 W(3) [OF Some] unfolding t_def [symmetric] idx [symmetric] by auto
    next
      case True
      have t1: "tables s1 = t(pd + 8 * k := 0)" by (simp add: s1_def invlpg_def set_pte_def t_def)
      note w = write_2m_clear [OF T, of v pd, folded idx, OF Some, folded t1]
      have h: "huge (t (pd + 8 * k))" using True by simp
      have i1: "mmu_inv s1 r fl" using mmu_inv_tables [OF inv(1) w(2) [OF h]] w(1) [OF h]
        by (simp add: s1_def invlpg_def set_pte_def t_def mmu_inv_def)
      have w1: "within r s fl s1 fl" unfolding s1_def
        by (simp, rule within_set_pte) (use w(1) [OF h] in \<open>simp_all add: t_def t1 s1_def [symmetric] set_pte_def\<close>)
      have f1: "freeable (kmem s1) fl" using inv(2) by (simp add: s1_def invlpg_def set_pte_def)
      have lt: "i < 512" "j < 512" by (simp_all add: idx idx_less)
      have p1: "tbl (tables s1) r [i] = Some pdpt" "tbl (tables s1) r [i, j] = Some pd"
        using w(1) [OF h] p Some lt by simp_all
      from release_pd_spec [OF i1 f1 lt p1] obtain s' fl' where r: "release_pd s1 r i pdpt j pd = Inr s'" "mmu_inv s' r fl'"
          "freeable (kmem s') fl'" "leaf4k (tables s') r = leaf4k (tables s1) r" "leaf2m (tables s') r = leaf2m (tables s1) r"
          "flushed s' = flushed s1" "within r s1 fl s' fl'" "reclaimed r s1 fl s' fl' [i, j]" by blast
      have rc: "reclaimed r s fl s' fl' [i, j]" by (rule reclaimed_write [OF r(8)]) (simp add: w(1) [OF h] t_def)
      have "leaf2m (tables s') r = (\<lambda>x. if hpn x = hpn v then None else leaf2m t r x)" using r(5) w(3) [OF h] by auto
      moreover have "leaf4k (tables s') r = leaf4k t r" using r(4) w(4) [OF h] by auto
      moreover have "flushed s' = v # flushed s" using r(6) by (simp add: s1_def invlpg_def set_pte_def)
      ultimately show ?thesis using e l2 True r(1-3) within_trans [OF w1 r(7)] rc unfolding t_def [symmetric] idx [symmetric] by auto
    qed
  qed
qed
end
