(* ===== verification/Mmu_Props.thy ===== *)
theory Mmu_Props
  imports Mmu_Unmap Buddy_Props
begin

text \<open>
  The properties of the mapping routines, over the translation the processor makes of the tables.
\<close>

section \<open>Ranges of pages\<close>

lemma add_mod_inj:
  fixes a j k n :: nat
  assumes "(a + j) mod n = (a + k) mod n" "j < n" "k < n"
  shows "j = k"
  using assms
proof (induction j k rule: linorder_wlog)
  case (le j k)
  then have "n dvd (a + k) - (a + j)" by (metis mod_eq_dvd_iff_nat add_le_cancel_left)
  then have "n dvd k - j" by simp
  then show ?case using le by (auto dest: dvd_imp_le)
qed auto

lemma page_step:
  assumes "s + b \<le> 64"
  shows "unat (va + of_nat k * 2 ^ s :: u64) div 2 ^ s mod 2 ^ b = (unat va div 2 ^ s + k) mod 2 ^ b"
proof -
  have "va + of_nat k * 2 ^ s = of_nat (unat va + k * 2 ^ s)" by simp
  then have "unat (va + of_nat k * 2 ^ s) = (unat va + k * 2 ^ s) mod 2 ^ 64"
    by (simp only: unsigned_of_nat take_bit_eq_mod) simp
  moreover have "(x mod 2 ^ 64) div 2 ^ s mod 2 ^ b = x div 2 ^ s mod 2 ^ b" for x :: nat
  proof -
    have "take_bit b (drop_bit s (take_bit 64 x)) = take_bit b (drop_bit s x)"
      using assms by (simp add: take_bit_drop_bit min_def)
    then show ?thesis by (simp only: take_bit_eq_mod drop_bit_eq_div)
  qed
  ultimately show ?thesis by (simp add: add.commute)
qed

lemma page_size_powers: "PAGE_SIZE = 2 ^ 12" "HUGE_PAGE_SIZE = 2 ^ 21"
  by (simp_all add: PAGE_SIZE_def HUGE_PAGE_SIZE_def)

lemma unat_vpn: "unat (vpn v) = unat v div 2 ^ 12 mod 2 ^ 36"
  by (simp add: vpn_def take_bit_eq_mod unat_mod unat_drop_bit_div)

lemma unat_hpn: "unat (hpn v) = unat v div 2 ^ 21 mod 2 ^ 27"
  by (simp add: hpn_def take_bit_eq_mod unat_mod unat_drop_bit_div)

lemma vpn_distinct:
  assumes "vpn (va + of_nat j * PAGE_SIZE) = vpn (va + of_nat k * PAGE_SIZE)" "j < 2 ^ 36" "k < 2 ^ 36"
  shows "j = k"
proof (rule add_mod_inj [OF _ assms(2,3)])
  show "(unat va div 2 ^ 12 + j) mod 2 ^ 36 = (unat va div 2 ^ 12 + k) mod 2 ^ 36"
    using arg_cong [OF assms(1), of unat] unfolding page_size_powers unat_vpn by (subst (asm) (1 2) page_step) simp_all
qed

lemma hpn_distinct:
  assumes "hpn (va + of_nat j * HUGE_PAGE_SIZE) = hpn (va + of_nat k * HUGE_PAGE_SIZE)" "j < 2 ^ 27" "k < 2 ^ 27"
  shows "j = k"
proof (rule add_mod_inj [OF _ assms(2,3)])
  show "(unat va div 2 ^ 21 + j) mod 2 ^ 27 = (unat va div 2 ^ 21 + k) mod 2 ^ 27"
    using arg_cong [OF assms(1), of unat] unfolding page_size_powers unat_hpn by (subst (asm) (1 2) page_step) simp_all
qed

lemma entered4k_other: "(\<And>k. k < n \<Longrightarrow> vpn w \<noteq> vpn (va + of_nat k * PAGE_SIZE)) \<Longrightarrow> entered4k n pa va flags f w = f w"
proof (induction n arbitrary: pa va f)
  case (Suc n)
  have "vpn w \<noteq> vpn (va + PAGE_SIZE + of_nat k * PAGE_SIZE)" if "k < n" for k
    using Suc.prems [of "Suc k"] that by (simp add: algebra_simps)
  moreover have "vpn w \<noteq> vpn va" using Suc.prems [of 0] by simp
  ultimately show ?case using Suc.IH by simp
qed simp

lemma entered4k_at:
  assumes "n \<le> 2 ^ 36" "k < n" "vpn w = vpn (va + of_nat k * PAGE_SIZE)"
  shows "entered4k n pa va flags f w = Some ((pa + of_nat k * PAGE_SIZE) OR flags)"
  using assms
proof (induction n arbitrary: k pa va f)
  case (Suc n)
  show ?case
  proof (cases k)
    case 0
    have "vpn w \<noteq> vpn (va + PAGE_SIZE + of_nat j * PAGE_SIZE)" if "j < n" for j
    proof
      assume "vpn w = vpn (va + PAGE_SIZE + of_nat j * PAGE_SIZE)"
      then have "vpn (va + of_nat 0 * PAGE_SIZE) = vpn (va + of_nat (Suc j) * PAGE_SIZE)"
        using Suc.prems(3) 0 by (simp add: algebra_simps)
      then show False using vpn_distinct [of va 0 "Suc j"] that Suc.prems(1) by simp
    qed
    then show ?thesis using 0 Suc.prems(3) by (simp add: entered4k_other)
  next
    case (Suc j)
    then have "vpn w = vpn (va + PAGE_SIZE + of_nat j * PAGE_SIZE)" using Suc.prems(3) by (simp add: algebra_simps)
    then show ?thesis using Suc.IH [of j "va + PAGE_SIZE" "pa + PAGE_SIZE"] Suc.prems(1,2) Suc by (simp add: algebra_simps)
  qed
qed simp

lemma entered2m_other: "(\<And>k. k < n \<Longrightarrow> hpn w \<noteq> hpn (va + of_nat k * HUGE_PAGE_SIZE)) \<Longrightarrow> entered2m n pa va flags f w = f w"
proof (induction n arbitrary: pa va f)
  case (Suc n)
  have "hpn w \<noteq> hpn (va + HUGE_PAGE_SIZE + of_nat k * HUGE_PAGE_SIZE)" if "k < n" for k
    using Suc.prems [of "Suc k"] that by (simp add: algebra_simps)
  moreover have "hpn w \<noteq> hpn va" using Suc.prems [of 0] by simp
  ultimately show ?case using Suc.IH by simp
qed simp

lemma covered4k_other: "(\<And>k. k < n \<Longrightarrow> hpn w \<noteq> hpn (va + of_nat k * HUGE_PAGE_SIZE)) \<Longrightarrow> covered4k n va f w = f w"
proof (induction n arbitrary: va f)
  case (Suc n)
  have "hpn w \<noteq> hpn (va + HUGE_PAGE_SIZE + of_nat k * HUGE_PAGE_SIZE)" if "k < n" for k
    using Suc.prems [of "Suc k"] that by (simp add: algebra_simps)
  moreover have "hpn w \<noteq> hpn va" using Suc.prems [of 0] by simp
  ultimately show ?case using Suc.IH by simp
qed simp

lemma entered2m_at:
  assumes "n \<le> 2 ^ 27" "k < n" "hpn w = hpn (va + of_nat k * HUGE_PAGE_SIZE)"
  shows "entered2m n pa va flags f w = Some ((pa + of_nat k * HUGE_PAGE_SIZE) OR flags)"
  using assms
proof (induction n arbitrary: k pa va f)
  case (Suc n)
  show ?case
  proof (cases k)
    case 0
    have "hpn w \<noteq> hpn (va + HUGE_PAGE_SIZE + of_nat j * HUGE_PAGE_SIZE)" if "j < n" for j
    proof
      assume "hpn w = hpn (va + HUGE_PAGE_SIZE + of_nat j * HUGE_PAGE_SIZE)"
      then have "hpn (va + of_nat 0 * HUGE_PAGE_SIZE) = hpn (va + of_nat (Suc j) * HUGE_PAGE_SIZE)"
        using Suc.prems(3) 0 by (simp add: algebra_simps)
      then show False using hpn_distinct [of va 0 "Suc j"] that Suc.prems(1) by simp
    qed
    then show ?thesis using 0 Suc.prems(3) by (simp add: entered2m_other)
  next
    case (Suc j)
    then have "hpn w = hpn (va + HUGE_PAGE_SIZE + of_nat j * HUGE_PAGE_SIZE)" using Suc.prems(3) by (simp add: algebra_simps)
    then show ?thesis using Suc.IH [of j "va + HUGE_PAGE_SIZE" "pa + HUGE_PAGE_SIZE"] Suc.prems(1,2) Suc by (simp add: algebra_simps)
  qed
qed simp

section \<open>Reading entries\<close>

lemma leaf2m_cong: "hpn v = hpn w \<Longrightarrow> leaf2m t r v = leaf2m t r w"
  by (auto simp: leaf2m_def hpn_eq_iff split: option.split)

lemma leaf4k_cong: "vpn v = vpn w \<Longrightarrow> leaf4k t r v = leaf4k t r w"
  by (auto simp: leaf4k_def vpn_eq_iff hpn_eq_iff split: option.split)

lemma page_aligned:
  assumes "4096 dvd unat (pa :: u64)"
  shows "pa AND NOT (PAGE_SIZE - 1) = pa"
proof -
  have "unat (pa AND NOT (2 ^ 12 - 1)) = unat pa div 2 ^ 12 * 2 ^ 12" by (rule unat_and_not_low) simp
  then show ?thesis using assms by (simp add: page_size_powers word_unat_eq_iff)
qed

lemma translate_cong:
  "leaf2m t' r w = leaf2m t r w \<Longrightarrow> leaf4k t' r w = leaf4k t r w \<Longrightarrow> translate t' r w = translate t r w"
  by (simp only: translate_def)

lemma and_field:
  fixes a :: u64
  assumes "2 ^ s dvd unat a" "unat a < 2 ^ n"
  shows "a AND push_bit s (mask (n - s)) = a"
proof (rule bit_word_eqI)
  fix m assume "m < LENGTH(64)"
  have low: "\<not> bit a m" if "m < s"
  proof -
    have "take_bit s (unat a) = 0" using assms(1) by (simp add: take_bit_eq_mod dvd_eq_mod_eq_0)
    then have "\<not> bit (unat a) m" using that by (metis bit_take_bit_iff bit_0_eq bot_apply bot_bool_def)
    then show ?thesis by (simp add: bit_unsigned_iff)
  qed
  have high: "m < n" if "bit a m"
  proof (rule ccontr)
    assume "\<not> m < n"
    then have "(2::nat) ^ n \<le> 2 ^ m" by (intro power_increasing) auto
    then have "\<not> bit (unat a) m" using assms(2) by (metis bit_nat_iff bit_iff_odd div_less even_zero le_less_trans less_le_trans)
    then show False using that by (simp add: bit_unsigned_iff)
  qed
  show "bit (a AND push_bit s (mask (n - s))) m = bit a m"
  proof (cases "bit a m")
    case True
    then have "s \<le> m" "m < n" using low high by (simp_all add: not_less [symmetric]) blast
    then show ?thesis using True \<open>m < LENGTH(64)\<close> by (auto simp: bit_simps diff_less_mono)
  qed (simp add: bit_simps)
qed

lemma addr_masks: "PTE_ADDR_MASK = push_bit 12 (mask (52 - 12))" "(0x000FFFFFFFE00000 :: u64) = push_bit 21 (mask (52 - 21))"
  by (simp_all add: PTE_ADDR_MASK_def mask_eq_exp_minus_1 push_bit_eq_mult)

lemma entry_frame:
  assumes "flags AND PTE_ADDR_MASK = 0"
  shows "4096 dvd unat a \<Longrightarrow> unat a < 2 ^ 52 \<Longrightarrow> (a OR flags) AND PTE_ADDR_MASK = a"
    "2 ^ 21 dvd unat a \<Longrightarrow> unat a < 2 ^ 52 \<Longrightarrow> (a OR flags) AND 0x000FFFFFFFE00000 = a"
proof -
  assume a: "4096 dvd unat a" "unat a < 2 ^ 52"
  then have "a AND PTE_ADDR_MASK = a" unfolding addr_masks by (intro and_field) simp_all
  then show "(a OR flags) AND PTE_ADDR_MASK = a" using assms by (simp add: bit.conj_disj_distrib2)
next
  assume a: "2 ^ 21 dvd unat a" "unat a < 2 ^ 52"
  have "a AND 0x000FFFFFFFE00000 = a" unfolding addr_masks(2) using a by (intro and_field) simp_all
  moreover have "flags AND 0x000FFFFFFFE00000 = (flags AND PTE_ADDR_MASK) AND 0x000FFFFFFFE00000"
    by (simp add: PTE_ADDR_MASK_def and.assoc)
  ultimately show "(a OR flags) AND 0x000FFFFFFFE00000 = a" using assms by (simp add: bit.conj_disj_distrib2)
qed

lemma unat_frame:
  assumes "unat (pa :: u64) + n * 2 ^ s \<le> 2 ^ 52" "k < n"
  shows "unat (pa + of_nat k * 2 ^ s) = unat pa + k * 2 ^ s" "unat pa + k * 2 ^ s < 2 ^ 52"
proof -
  have "Suc k * 2 ^ s \<le> n * 2 ^ s" using assms(2) by (intro mult_le_mono1) simp
  then show lt: "unat pa + k * 2 ^ s < 2 ^ 52" using assms(1) zero_less_power [of "2::nat" s] unfolding mult_Suc by linarith
  have "pa + of_nat k * 2 ^ s = of_nat (unat pa + k * 2 ^ s)" by simp
  then show "unat (pa + of_nat k * 2 ^ s) = unat pa + k * 2 ^ s"
    using lt by (simp only: unat_of_nat_id) (rule unat_of_nat_id, simp)
qed

section \<open>Ranges mapped\<close>

lemma map_pages_4k_spec:
  assumes "mmu_inv s r fl" "present flags" "\<not> huge flags" "flags AND PTE_ADDR_MASK = 0"
    "unat n \<le> 2 ^ 36" "4096 dvd unat pa" "unat pa + unat n * 4096 \<le> 2 ^ 52"
    "\<forall>k<unat n. leaf2m (tables s) r (va + of_nat k * PAGE_SIZE) = None"
  shows "(\<exists>s' fl'. map_pages s r pa va flags n = Inr s' \<and> mmu_inv s' r fl' \<and> beside r s fl s' fl' (unat n * 12288) \<and>
      leaf2m (tables s') r = leaf2m (tables s) r \<and>
      (\<forall>k<unat n. \<forall>w. vpn w = vpn (va + of_nat k * PAGE_SIZE) \<longrightarrow>
         translate (tables s') r w = Some ((pa + of_nat k * PAGE_SIZE) OR take_bit 12 w)) \<and>
      (\<forall>w. (\<forall>k<unat n. vpn w \<noteq> vpn (va + of_nat k * PAGE_SIZE)) \<longrightarrow> translate (tables s') r w = translate (tables s) r w)) \<or>
    card (free_bytes fl) < unat n * 12288 \<and> (\<exists>m. map_pages s r pa va flags n = Inl (Panic m))"
proof -
  have al: "pa AND NOT (PAGE_SIZE - 1) = pa" by (rule page_aligned [OF assms(6)])
  have eq: "map_pages s r pa va flags n = map_4k_loop (unat n) s r no_cache pa va flags"
    using assms(3) al by (cases "n = 0") (simp_all add: map_pages_def)
  from map_4k_loop_spec [OF assms(1) no_cache_inv assms(2), of "unat n" va pa] assms(8)
  consider s' fl' where "map_pages s r pa va flags n = Inr s'" "mmu_inv s' r fl'"
      "leaf4k (tables s') r = entered4k (unat n) pa va flags (leaf4k (tables s) r)" "leaf2m (tables s') r = leaf2m (tables s) r"
      "beside r s fl s' fl' (unat n * 12288)"
    | "card (free_bytes fl) < unat n * 12288 \<and> (\<exists>m. map_pages s r pa va flags n = Inl (Panic m))"
    unfolding eq by blast
  then show ?thesis
  proof cases
    case 1
    have "translate (tables s') r w = Some ((pa + of_nat k * PAGE_SIZE) OR take_bit 12 w)"
      if k: "k < unat n" "vpn w = vpn (va + of_nat k * PAGE_SIZE)" for k w
    proof -
      have h: "leaf2m (tables s) r w = None"
      proof -
        have "hpn w = hpn (va + of_nat k * PAGE_SIZE)" using k(2) vpn_eq_iff by blast
        then have "leaf2m (tables s) r w = leaf2m (tables s) r (va + of_nat k * PAGE_SIZE)" by (rule leaf2m_cong)
        then show ?thesis using assms(8) k(1) by simp
      qed
      have f: "unat (pa + of_nat k * 2 ^ 12) = unat pa + k * 2 ^ 12" "unat pa + k * 2 ^ 12 < 2 ^ 52"
        using unat_frame [of pa "unat n" 12 k] assms(7) k(1) by simp_all
      have "((pa + of_nat k * PAGE_SIZE) OR flags) AND PTE_ADDR_MASK = pa + of_nat k * PAGE_SIZE"
        unfolding page_size_powers using assms(6) f by (intro entry_frame(1) [OF assms(4)]) simp_all
      then show ?thesis using 1(3,4) h entered4k_at [OF assms(5) k] by (simp add: translate_def)
    qed
    moreover have "translate (tables s') r w = translate (tables s) r w"
      if "\<forall>k<unat n. vpn w \<noteq> vpn (va + of_nat k * PAGE_SIZE)" for w
      using that 1(3,4) by (intro translate_cong) (simp_all add: entered4k_other)
    ultimately show ?thesis using 1(1,2,4,5) by blast
  qed blast
qed

lemma map_pages_2m_spec:
  assumes "mmu_inv s r fl" "present flags" "huge flags" "flags AND PTE_ADDR_MASK = 0"
    "unat n \<le> 2 ^ 27" "2 ^ 21 dvd unat pa" "unat pa + unat n * 2 ^ 21 \<le> 2 ^ 52"
  shows "(\<exists>s' fl'. map_pages s r pa va flags n = Inr s' \<and> mmu_inv s' r fl' \<and> beside r s fl s' fl' (unat n * 8192) \<and>
      (\<forall>w. (\<forall>k<unat n. hpn w \<noteq> hpn (va + of_nat k * HUGE_PAGE_SIZE)) \<longrightarrow> leaf2m (tables s') r w = leaf2m (tables s) r w) \<and>
      (\<forall>k<unat n. \<forall>w. hpn w = hpn (va + of_nat k * HUGE_PAGE_SIZE) \<longrightarrow>
         translate (tables s') r w = Some ((pa + of_nat k * HUGE_PAGE_SIZE) OR take_bit 21 w)) \<and>
      (\<forall>w. (\<forall>k<unat n. hpn w \<noteq> hpn (va + of_nat k * HUGE_PAGE_SIZE)) \<longrightarrow>
         translate (tables s') r w = translate (tables s) r w)) \<or>
    card (free_bytes fl) < unat n * 8192 \<and> (\<exists>m. map_pages s r pa va flags n = Inl (Panic m))"
proof -
  have eq: "map_pages s r pa va flags n = map_huge_loop (unat n) s r no_cache pa va flags"
    using assms(3) by (cases "n = 0") (simp_all add: map_pages_def)
  have nc: "cur_pd_idx no_cache = - 1" by (simp add: no_cache_def)
  from map_huge_loop_spec [OF assms(1) no_cache_inv assms(2,3) nc, of "unat n" pa va]
  consider s' fl' where "map_pages s r pa va flags n = Inr s'" "mmu_inv s' r fl'"
      "leaf2m (tables s') r = entered2m (unat n) pa va flags (leaf2m (tables s) r)"
      "leaf4k (tables s') r = covered4k (unat n) va (leaf4k (tables s) r)" "beside r s fl s' fl' (unat n * 8192)"
    | "card (free_bytes fl) < unat n * 8192 \<and> (\<exists>m. map_pages s r pa va flags n = Inl (Panic m))"
    unfolding eq by blast
  then show ?thesis
  proof cases
    case 1
    have "translate (tables s') r w = Some ((pa + of_nat k * HUGE_PAGE_SIZE) OR take_bit 21 w)"
      if k: "k < unat n" "hpn w = hpn (va + of_nat k * HUGE_PAGE_SIZE)" for k w
    proof -
      have f: "unat (pa + of_nat k * 2 ^ 21) = unat pa + k * 2 ^ 21" "unat pa + k * 2 ^ 21 < 2 ^ 52"
        using unat_frame [of pa "unat n" 21 k] assms(7) k(1) by simp_all
      have "((pa + of_nat k * HUGE_PAGE_SIZE) OR flags) AND 0x000FFFFFFFE00000 = pa + of_nat k * HUGE_PAGE_SIZE"
        unfolding page_size_powers using assms(6) f by (intro entry_frame(2) [OF assms(4)]) (simp_all only: dvd_add dvd_triv_right)
      then show ?thesis using 1(3) entered2m_at [OF assms(5) k] by (simp add: translate_def)
    qed
    moreover have "translate (tables s') r w = translate (tables s) r w"
      if "\<forall>k<unat n. hpn w \<noteq> hpn (va + of_nat k * HUGE_PAGE_SIZE)" for w
      using that 1(3,4) by (intro translate_cong) (simp_all add: entered2m_other covered4k_other)
    moreover have "leaf2m (tables s') r w = leaf2m (tables s) r w"
      if "\<forall>k<unat n. hpn w \<noteq> hpn (va + of_nat k * HUGE_PAGE_SIZE)" for w
      using that 1(3) by (simp add: entered2m_other)
    ultimately show ?thesis using 1(1,2,5) by blast
  qed blast
qed

section \<open>Properties\<close>

text \<open>
  C7. \<open>map_pages\<close> of 4 KB pages, over a range of up to \<open>2 ^ 36\<close> pages in which no 2 MB page is mapped,
  to frames below \<open>2 ^ 52\<close>: afterwards every address of the range translates to the frame of its page
  with the same offset, every other address translates as before, and the tables are still a tree
  of pages the allocator does not hold. It panics only when less memory is free than three tables
  for each page take.
\<close>

theorem map_pages_correct:
  assumes "mmu_inv s r fl" "present flags" "\<not> huge flags" "flags AND PTE_ADDR_MASK = 0"
    "unat n \<le> 2 ^ 36" "4096 dvd unat pa" "unat pa + unat n * 4096 \<le> 2 ^ 52"
    "\<forall>k<unat n. leaf2m (tables s) r (va + of_nat k * PAGE_SIZE) = None"
  shows "(\<exists>s' fl'. map_pages s r pa va flags n = Inr s' \<and> mmu_inv s' r fl' \<and>
      (\<forall>k<unat n. \<forall>w. vpn w = vpn (va + of_nat k * PAGE_SIZE) \<longrightarrow>
         translate (tables s') r w = Some ((pa + of_nat k * PAGE_SIZE) OR take_bit 12 w)) \<and>
      (\<forall>w. (\<forall>k<unat n. vpn w \<noteq> vpn (va + of_nat k * PAGE_SIZE)) \<longrightarrow> translate (tables s') r w = translate (tables s) r w)) \<or>
    card (free_bytes fl) < unat n * 12288 \<and> (\<exists>m. map_pages s r pa va flags n = Inl (Panic m))"
  using map_pages_4k_spec [OF assms] by blast

text \<open>
  \<open>map_pages\<close> of 2 MB pages, over up to \<open>2 ^ 27\<close> of them, to frames aligned to 2 MB below
  \<open>2 ^ 52\<close>: every address of the range translates to its frame, whatever was mapped there, every
  other address translates as before.
\<close>

theorem map_pages_huge_correct:
  assumes "mmu_inv s r fl" "present flags" "huge flags" "flags AND PTE_ADDR_MASK = 0"
    "unat n \<le> 2 ^ 27" "2 ^ 21 dvd unat pa" "unat pa + unat n * 2 ^ 21 \<le> 2 ^ 52"
  shows "(\<exists>s' fl'. map_pages s r pa va flags n = Inr s' \<and> mmu_inv s' r fl' \<and>
      (\<forall>k<unat n. \<forall>w. hpn w = hpn (va + of_nat k * HUGE_PAGE_SIZE) \<longrightarrow>
         translate (tables s') r w = Some ((pa + of_nat k * HUGE_PAGE_SIZE) OR take_bit 21 w)) \<and>
      (\<forall>w. (\<forall>k<unat n. hpn w \<noteq> hpn (va + of_nat k * HUGE_PAGE_SIZE)) \<longrightarrow>
         translate (tables s') r w = translate (tables s) r w)) \<or>
    card (free_bytes fl) < unat n * 8192 \<and> (\<exists>m. map_pages s r pa va flags n = Inl (Panic m))"
  using map_pages_2m_spec [OF assms] by blast

text \<open>
  C24. One page at a time and the cached loops agree: \<open>map_huge_page\<close> is \<open>map_pages\<close> of one 2 MB page.
  For a 4 KB page \<open>map_page\<close> returns before it has done anything; the statements behind its
  \<open>return\<close> are \<open>map_pages\<close> of one page.
\<close>

theorem map_one_page:
  "(if huge flags then map_huge_page s r pa va flags = map_pages s r pa va flags 1 \<and> map_page s r pa va flags = map_pages s r pa va flags 1
    else map_page s r pa va flags = Inr s \<and> map_page_unreached s r pa va flags = map_pages s r pa va flags 1)"
proof -
  have ne: "VIRT_TO_PML4_IDX va \<noteq> - 1" "VIRT_TO_PDPT_IDX va \<noteq> - 1" "VIRT_TO_PD_IDX va \<noteq> - 1"
    using idx_less by simp_all
  have assoc: "bindE (bindE m f) g = bindE m (\<lambda>x. bindE (f x) g)" for m :: "'a res" and f :: "'a \<Rightarrow> 'b res" and g :: "'b \<Rightarrow> 'c res"
    by (cases m) simp_all
  show ?thesis
    using ne by (simp add: map_pages_def map_huge_page_def map_page_def map_page_unreached_def cached_pdpt_def cached_pd_def
        cached_pt_def no_cache_def assoc case_prod_unfold Let_def)
qed

lemma unmap_4k_loop_spec:
  assumes "mmu_inv s r fl" "freeable (kmem s) fl"
    "\<forall>i\<in>set is. leaf2m (tables s) r (va + of_nat i * PAGE_SIZE) = None \<and>
       (\<forall>e. leaf4k (tables s) r (va + of_nat i * PAGE_SIZE) = Some e \<longrightarrow> e AND PTE_ADDR_MASK = pa + of_nat i * PAGE_SIZE)"
  shows "\<exists>s' fl'. unmap_4k_loop is s r pa va = Inr s' \<and> mmu_inv s' r fl' \<and> freeable (kmem s') fl' \<and> within r s fl s' fl' \<and>
    leaf4k (tables s') r = (\<lambda>w. if \<exists>i\<in>set is. vpn w = vpn (va + of_nat i * PAGE_SIZE) then None else leaf4k (tables s) r w) \<and>
    leaf2m (tables s') r = leaf2m (tables s) r"
  using assms
proof (induction "is" arbitrary: s fl)
  case (Cons i "is")
  let ?v = "va + of_nat i * PAGE_SIZE" and ?p = "pa + of_nat i * PAGE_SIZE"
  let ?a = "''TRIED TO UNMAP HUGE PAGE WITH REGULAR PAGE FLAGS IN UNMAP_PAGES''" and ?b = "''TRIED TO UNMAP WRONG PAGES''"
  let ?u = "unmap_4k ?a ?b s r ?p ?v"
  have "\<exists>s1 fl1. ?u = Inr s1 \<and> mmu_inv s1 r fl1 \<and> freeable (kmem s1) fl1 \<and> within r s fl s1 fl1 \<and>
      leaf4k (tables s1) r = (\<lambda>w. if vpn w = vpn ?v then None else leaf4k (tables s) r w) \<and> leaf2m (tables s1) r = leaf2m (tables s) r"
  proof (cases "leaf4k (tables s) r ?v")
    case None
    have "leaf4k (tables s) r = (\<lambda>w. if vpn w = vpn ?v then None else leaf4k (tables s) r w)"
    proof
      fix w show "leaf4k (tables s) r w = (if vpn w = vpn ?v then None else leaf4k (tables s) r w)"
        using leaf4k_cong [of w ?v "tables s" r] None by simp
    qed
    moreover have "?u = Inr s" using unmap_4k_spec [OF Cons.prems(1,2), of ?v ?a ?b ?p] Cons.prems(3) None by simp
    ultimately show ?thesis using Cons.prems(1,2) within_refl by blast
  next
    case (Some e)
    then show ?thesis using unmap_4k_spec [OF Cons.prems(1,2), of ?v ?a ?b ?p] Cons.prems(3) by auto
  qed
  then obtain s1 fl1 where 1: "?u = Inr s1" "mmu_inv s1 r fl1" "freeable (kmem s1) fl1"
      "leaf4k (tables s1) r = (\<lambda>w. if vpn w = vpn ?v then None else leaf4k (tables s) r w)" "leaf2m (tables s1) r = leaf2m (tables s) r"
      "within r s fl s1 fl1"
    by blast
  have "\<forall>i\<in>set is. leaf2m (tables s1) r (va + of_nat i * PAGE_SIZE) = None \<and>
       (\<forall>e. leaf4k (tables s1) r (va + of_nat i * PAGE_SIZE) = Some e \<longrightarrow> e AND PTE_ADDR_MASK = pa + of_nat i * PAGE_SIZE)"
    using Cons.prems(3) unfolding 1(4,5) by auto
  from Cons.IH [OF 1(2,3) this] obtain s' fl' where 2: "unmap_4k_loop is s1 r pa va = Inr s'" "mmu_inv s' r fl'" "freeable (kmem s') fl'"
      "within r s1 fl1 s' fl'"
      "leaf4k (tables s') r = (\<lambda>w. if \<exists>i\<in>set is. vpn w = vpn (va + of_nat i * PAGE_SIZE) then None else leaf4k (tables s1) r w)"
      "leaf2m (tables s') r = leaf2m (tables s1) r" by blast
  have "leaf4k (tables s') r = (\<lambda>w. if \<exists>i\<in>set (i # is). vpn w = vpn (va + of_nat i * PAGE_SIZE) then None else leaf4k (tables s) r w)"
    unfolding 2(5) 1(4) by (auto simp: fun_eq_iff)
  moreover have "unmap_4k_loop (i # is) s r pa va = Inr s'" using 1(1) 2(1) by simp
  moreover have "leaf2m (tables s') r = leaf2m (tables s) r" using 1(5) 2(6) by simp
  ultimately show ?case using 2(2,3) within_trans [OF 1(6) 2(4)] by blast
qed auto

lemma unmap_huge_loop_spec:
  assumes "mmu_inv s r fl" "freeable (kmem s) fl" "distinct is" "\<forall>i\<in>set is. i < 2 ^ 27"
    "\<forall>i\<in>set is. \<exists>e. leaf2m (tables s) r (va + of_nat i * HUGE_PAGE_SIZE) = Some e \<and> e AND PTE_ADDR_MASK = pa + of_nat i * HUGE_PAGE_SIZE"
  shows "\<exists>s' fl'. unmap_huge_loop is s r pa va = Inr s' \<and> mmu_inv s' r fl' \<and> freeable (kmem s') fl' \<and> within r s fl s' fl' \<and>
    leaf2m (tables s') r = (\<lambda>w. if \<exists>i\<in>set is. hpn w = hpn (va + of_nat i * HUGE_PAGE_SIZE) then None else leaf2m (tables s) r w) \<and>
    leaf4k (tables s') r = leaf4k (tables s) r"
  using assms
proof (induction "is" arbitrary: s fl)
  case (Cons i "is")
  let ?v = "va + of_nat i * HUGE_PAGE_SIZE" and ?p = "pa + of_nat i * HUGE_PAGE_SIZE"
  let ?a = "''TRIED TO UNMAP A REGULAR PAGE WITH INCORRECT FLAGS ARGUMENT''" and ?b = "''TRIED TO UNMAP WRONG HUGE PAGES''"
  let ?u = "unmap_2m ?a ?b s r ?p ?v"
  obtain e where "leaf2m (tables s) r ?v = Some e" "e AND PTE_ADDR_MASK = ?p" using Cons.prems(5) by auto
  then obtain s1 fl1 where 1: "?u = Inr s1" "mmu_inv s1 r fl1" "freeable (kmem s1) fl1"
      "leaf2m (tables s1) r = (\<lambda>w. if hpn w = hpn ?v then None else leaf2m (tables s) r w)" "leaf4k (tables s1) r = leaf4k (tables s) r"
      "within r s fl s1 fl1"
    using unmap_2m_spec [OF Cons.prems(1,2), of ?v ?a ?b ?p] by auto
  have "\<forall>j\<in>set is. \<exists>e. leaf2m (tables s1) r (va + of_nat j * HUGE_PAGE_SIZE) = Some e \<and> e AND PTE_ADDR_MASK = pa + of_nat j * HUGE_PAGE_SIZE"
  proof
    fix j assume j: "j \<in> set is"
    then have "j \<noteq> i" using Cons.prems(3) by auto
    then have "hpn (va + of_nat j * HUGE_PAGE_SIZE) \<noteq> hpn ?v" using hpn_distinct [of va j i] Cons.prems(4) j by auto
    then show "\<exists>e. leaf2m (tables s1) r (va + of_nat j * HUGE_PAGE_SIZE) = Some e \<and> e AND PTE_ADDR_MASK = pa + of_nat j * HUGE_PAGE_SIZE"
      using Cons.prems(5) j unfolding 1(4) by simp
  qed
  then obtain s' fl' where 2: "unmap_huge_loop is s1 r pa va = Inr s'" "mmu_inv s' r fl'" "freeable (kmem s') fl'"
      "leaf2m (tables s') r = (\<lambda>w. if \<exists>i\<in>set is. hpn w = hpn (va + of_nat i * HUGE_PAGE_SIZE) then None else leaf2m (tables s1) r w)"
      "leaf4k (tables s') r = leaf4k (tables s1) r" "within r s1 fl1 s' fl'"
    using Cons.IH [OF 1(2,3)] Cons.prems(3,4) by auto
  have "leaf2m (tables s') r = (\<lambda>w. if \<exists>i\<in>set (i # is). hpn w = hpn (va + of_nat i * HUGE_PAGE_SIZE) then None else leaf2m (tables s) r w)"
    unfolding 2(4) 1(4) by (auto simp: fun_eq_iff)
  moreover have "unmap_huge_loop (i # is) s r pa va = Inr s'" using 1(1) 2(1) by simp
  moreover have "leaf4k (tables s') r = leaf4k (tables s) r" using 1(5) 2(5) by simp
  ultimately show ?case using 2(2,3) within_trans [OF 1(6) 2(6)] by blast
qed auto

text \<open>
  C8. \<open>unmap_page\<close> on every branch: a 2 MB page is a panic, a page that is not mapped is left alone,
  a page mapped to another frame is a panic, and otherwise the page, and only it, no longer
  translates, its address is flushed, and the tables it leaves empty go back to the allocator: every
  table on the way to the page that is still there has an entry in use, no other table changes, and
  no byte of a table that is gone is lost to the free memory.
\<close>

theorem unmap_page_correct:
  assumes "mmu_inv s r fl" "freeable (kmem s) fl"
  shows "if leaf2m (tables s) r v \<noteq> None
    then unmap_page s r pa v = Inl (Panic ''UNMAPPED HUGE PAGE WITH REGULAR UNMAP_PAGE FUNCTION'')
    else case leaf4k (tables s) r v of
      None \<Rightarrow> unmap_page s r pa v = Inr s
    | Some e \<Rightarrow> if e AND PTE_ADDR_MASK \<noteq> pa AND NOT (PAGE_SIZE - 1)
        then unmap_page s r pa v = Inl (Panic ''TRIED TO UNMAP WRONG PAGE'')
        else \<exists>s' fl'. unmap_page s r pa v = Inr s' \<and> mmu_inv s' r fl' \<and> freeable (kmem s') fl' \<and> flushed s' = v # flushed s \<and>
          (\<forall>w. translate (tables s') r w = (if vpn w = vpn v then None else translate (tables s) r w)) \<and>
          (\<forall>q a. q \<noteq> [] \<and> prefix q [VIRT_TO_PML4_IDX v, VIRT_TO_PDPT_IDX v, VIRT_TO_PD_IDX v] \<and> tbl (tables s') r q = Some a \<longrightarrow>
             \<not> is_empty (tables s') a) \<and>
          (\<forall>q. path q \<and> \<not> prefix q [VIRT_TO_PML4_IDX v, VIRT_TO_PDPT_IDX v, VIRT_TO_PD_IDX v] \<longrightarrow>
             tbl (tables s') r q = tbl (tables s) r q) \<and>
          table_bytes (tables s') r \<union> free_bytes fl' = table_bytes (tables s) r \<union> free_bytes fl"
proof -
  note u = unmap_4k_spec [OF assms, of v "''UNMAPPED HUGE PAGE WITH REGULAR UNMAP_PAGE FUNCTION''" "''TRIED TO UNMAP WRONG PAGE''"
      "pa AND NOT (PAGE_SIZE - 1)", folded unmap_page_def]
  have tr: "translate (tables s') r w = (if vpn w = vpn v then None else translate (tables s) r w)"
    if "leaf2m (tables s) r v = None" "leaf4k (tables s') r = (\<lambda>w. if vpn w = vpn v then None else leaf4k (tables s) r w)"
      "leaf2m (tables s') r = leaf2m (tables s) r" for s' w
  proof (cases "vpn w = vpn v")
    case True
    then have "leaf2m (tables s') r w = None" using that(1,3) leaf2m_cong [of w v "tables s" r] vpn_eq_iff [of w v] by simp
    then show ?thesis using True that(2) by (simp add: translate_def)
  next
    case False
    then show ?thesis using that(2,3) by simp (rule translate_cong, simp_all)
  qed
  show ?thesis
  proof (cases "\<exists>e. leaf2m (tables s) r v = None \<and> leaf4k (tables s) r v = Some e \<and> e AND PTE_ADDR_MASK = pa AND NOT (PAGE_SIZE - 1)")
    case False
    then show ?thesis using u by (auto split: if_splits option.splits)
  next
    case True
    then obtain s' fl' where 1: "unmap_page s r pa v = Inr s'" "mmu_inv s' r fl'" "freeable (kmem s') fl'" "flushed s' = v # flushed s"
        "leaf4k (tables s') r = (\<lambda>w. if vpn w = vpn v then None else leaf4k (tables s) r w)" "leaf2m (tables s') r = leaf2m (tables s) r"
        "reclaimed r s fl s' fl' [VIRT_TO_PML4_IDX v, VIRT_TO_PDPT_IDX v, VIRT_TO_PD_IDX v]"
      using u by auto
    note rc = 1(7) [unfolded reclaimed_def held_def]
    have "\<forall>w. translate (tables s') r w = (if vpn w = vpn v then None else translate (tables s) r w)"
      using tr [OF _ 1(5,6)] True by blast
    then show ?thesis using True 1(1-4) rc by (auto intro!: exI [of _ fl'])
  qed
qed

lemma unmap_pages_4k_spec:
  assumes "mmu_inv s r fl" "freeable (kmem s) fl" "\<not> huge flags" "4096 dvd unat pa"
    "\<forall>k<unat n. leaf2m (tables s) r (va + of_nat k * PAGE_SIZE) = None \<and>
       (\<forall>e. leaf4k (tables s) r (va + of_nat k * PAGE_SIZE) = Some e \<longrightarrow> e AND PTE_ADDR_MASK = pa + of_nat k * PAGE_SIZE)"
  shows "\<exists>s' fl'. unmap_pages s r pa va flags n = Inr s' \<and> mmu_inv s' r fl' \<and> freeable (kmem s') fl' \<and> within r s fl s' fl' \<and>
    (\<forall>w. translate (tables s') r w =
       (if \<exists>k<unat n. vpn w = vpn (va + of_nat k * PAGE_SIZE) then None else translate (tables s) r w))"
proof -
  have al: "pa AND NOT (PAGE_SIZE - 1) = pa" by (rule page_aligned [OF assms(4)])
  have eq: "unmap_pages s r pa va flags n = unmap_4k_loop [0..<unat n] s r pa va"
    using assms(3) al by (cases "n = 0") (simp_all add: unmap_pages_def)
  obtain s' fl' where 1: "unmap_pages s r pa va flags n = Inr s'" "mmu_inv s' r fl'" "freeable (kmem s') fl'"
      "leaf4k (tables s') r = (\<lambda>w. if \<exists>i\<in>set [0..<unat n]. vpn w = vpn (va + of_nat i * PAGE_SIZE) then None else leaf4k (tables s) r w)"
      "leaf2m (tables s') r = leaf2m (tables s) r" "within r s fl s' fl'"
    using unmap_4k_loop_spec [OF assms(1,2), of "[0..<unat n]" va pa] assms(5) unfolding eq by auto
  have "translate (tables s') r w = (if \<exists>k<unat n. vpn w = vpn (va + of_nat k * PAGE_SIZE) then None else translate (tables s) r w)" for w
  proof (cases "\<exists>k<unat n. vpn w = vpn (va + of_nat k * PAGE_SIZE)")
    case True
    then obtain k where k: "k < unat n" "vpn w = vpn (va + of_nat k * PAGE_SIZE)" by blast
    then have "leaf2m (tables s) r w = None" using assms(5) leaf2m_cong vpn_eq_iff by metis
    moreover have "leaf4k (tables s') r w = None" using True unfolding 1(4) by auto
    ultimately show ?thesis using True by (simp add: translate_def 1(5))
  next
    case False
    then have "translate (tables s') r w = translate (tables s) r w" using 1(4,5) by (intro translate_cong) auto
    then show ?thesis using False by (simp only: if_False)
  qed
  then show ?thesis using 1(1-3,6) by blast
qed

text \<open>
  \<open>unmap_pages\<close> of 4 KB pages, over a range in which every page that is mapped is mapped to its
  own frame and none by a 2 MB page: it returns, and exactly the pages of the range no longer
  translate.
\<close>

theorem unmap_pages_correct:
  assumes "mmu_inv s r fl" "freeable (kmem s) fl" "\<not> huge flags" "4096 dvd unat pa"
    "\<forall>k<unat n. leaf2m (tables s) r (va + of_nat k * PAGE_SIZE) = None \<and>
       (\<forall>e. leaf4k (tables s) r (va + of_nat k * PAGE_SIZE) = Some e \<longrightarrow> e AND PTE_ADDR_MASK = pa + of_nat k * PAGE_SIZE)"
  shows "\<exists>s' fl'. unmap_pages s r pa va flags n = Inr s' \<and> mmu_inv s' r fl' \<and> freeable (kmem s') fl' \<and>
    (\<forall>w. translate (tables s') r w =
       (if \<exists>k<unat n. vpn w = vpn (va + of_nat k * PAGE_SIZE) then None else translate (tables s) r w))"
  using unmap_pages_4k_spec [OF assms] by blast

text \<open>
  \<open>unmap_pages\<close> of 2 MB pages, over a range of them that are all mapped to their own frames: it
  returns, and exactly the addresses of the range lose their 2 MB mapping.
\<close>

theorem unmap_pages_huge_correct:
  assumes "mmu_inv s r fl" "freeable (kmem s) fl" "huge flags" "2 ^ 21 dvd unat pa" "unat n \<le> 2 ^ 27"
    "\<forall>k<unat n. \<exists>e. leaf2m (tables s) r (va + of_nat k * HUGE_PAGE_SIZE) = Some e \<and> e AND PTE_ADDR_MASK = pa + of_nat k * HUGE_PAGE_SIZE"
  shows "\<exists>s' fl'. unmap_pages s r pa va flags n = Inr s' \<and> mmu_inv s' r fl' \<and> freeable (kmem s') fl' \<and> within r s fl s' fl' \<and>
    leaf2m (tables s') r = (\<lambda>w. if \<exists>k<unat n. hpn w = hpn (va + of_nat k * HUGE_PAGE_SIZE) then None else leaf2m (tables s) r w) \<and>
    leaf4k (tables s') r = leaf4k (tables s) r"
proof -
  have "unat (pa AND NOT (2 ^ 21 - 1)) = unat pa div 2 ^ 21 * 2 ^ 21" by (rule unat_and_not_low) simp
  then have al: "pa AND NOT (HUGE_PAGE_SIZE - 1) = pa" using assms(4) by (simp add: page_size_powers word_unat_eq_iff)
  have "unmap_pages s r pa va flags n = unmap_huge_loop [0..<unat n] s r pa va"
    using assms(3) al by (cases "n = 0") (simp_all add: unmap_pages_def)
  moreover have "\<exists>s' fl'. unmap_huge_loop [0..<unat n] s r pa va = Inr s' \<and> mmu_inv s' r fl' \<and> freeable (kmem s') fl' \<and> within r s fl s' fl' \<and>
    leaf2m (tables s') r = (\<lambda>w. if \<exists>i\<in>set [0..<unat n]. hpn w = hpn (va + of_nat i * HUGE_PAGE_SIZE) then None else leaf2m (tables s) r w) \<and>
    leaf4k (tables s') r = leaf4k (tables s) r"
    using assms(5,6) by (intro unmap_huge_loop_spec [OF assms(1,2)]) auto
  ultimately show ?thesis by (simp add: Bex_def)
qed

section \<open>Witnesses\<close>

text \<open>An empty page table at \<open>0x1000\<close> beside the allocator of \<open>Buddy_Props\<close>.\<close>

definition ex_kmem :: "buddy_metadata \<Rightarrow> slab_state" where
  "ex_kmem b = \<lparr>caches = \<lambda>_. \<lparr>object_size = 0, object_align = 0, slab_order = 0, objects_per_slab = 0\<rparr>,
     nodes_mem = \<lambda>_. \<lparr>sl_next = 0, sl_prev = 0\<rparr>, descs = \<lambda>_. \<lparr>inuse_num = 0, desc_free_list = 0, desc_cache = 0\<rparr>,
     links = \<lambda>_. 0, slab_lock = False, slab_caches = 0, buddy = b\<rparr>"

definition ex_mmu :: mmu_state where
  "ex_mmu = \<lparr>tables = \<lambda>_. 0, kmem = ex_kmem ex_buddy, flushed = []\<rparr>"

lemma tbl_zero: "tbl (\<lambda>_. 0) r p = (if p = [] then Some r else None)"
  by (cases p) (simp_all add: tbl.simps(2))

lemma tree_ok_zero: "page_ok r \<Longrightarrow> tree_ok (\<lambda>_. 0) r"
  by (simp add: tree_ok_def tbl_zero split: if_splits)

lemma ex_mmu_inv: "\<exists>fl. mmu_inv ex_mmu 0x1000 fl \<and> card (free_bytes fl) = 0x800000"
proof -
  obtain fl where fl: "buddy_inv ex_buddy fl" "free_bytes fl = {0x400000 ..< 0xC00000}" using ex_buddy_ready by blast
  have "tree_ok (tables ex_mmu) 0x1000" by (simp add: ex_mmu_def tree_ok_zero page_ok_def)
  moreover have "free_bytes fl \<inter> span 0x1000 0 = {}" by (simp add: fl(2) span_def)
  ultimately have "mmu_inv ex_mmu 0x1000 fl"
    using fl(1) by (simp add: mmu_inv_def ex_mmu_def ex_kmem_def tbl_zero ex_region)
  then show ?thesis using fl(2) by auto
qed

theorem map_pages_witness:
  "\<exists>s'. map_pages ex_mmu 0x1000 0x7000 0xFFFF800000200000 0x3 2 = Inr s' \<and>
     translate (tables s') 0x1000 0xFFFF800000201234 = Some 0x8234"
proof -
  obtain fl where fl: "mmu_inv ex_mmu 0x1000 fl" "card (free_bytes fl) = 0x800000" using ex_mmu_inv by blast
  have "leaf2m (tables ex_mmu) 0x1000 w = None" for w by (simp add: leaf2m_def ex_mmu_def tbl_zero)
  then obtain s' where s': "map_pages ex_mmu 0x1000 0x7000 0xFFFF800000200000 0x3 2 = Inr s'"
      "\<forall>k<unat (2::u64). \<forall>w. vpn w = vpn (0xFFFF800000200000 + of_nat k * PAGE_SIZE) \<longrightarrow>
         translate (tables s') 0x1000 w = Some ((0x7000 + of_nat k * PAGE_SIZE) OR take_bit 12 w)"
    using map_pages_correct [OF fl(1), of "0x3" 2 "0x7000" "0xFFFF800000200000"] fl(2)
    by (auto simp: present_def huge_def const_defs)
  have "vpn 0xFFFF800000201234 = vpn (0xFFFF800000200000 + of_nat 1 * PAGE_SIZE)" by (simp add: vpn_def PAGE_SIZE_def)
  then have "translate (tables s') 0x1000 0xFFFF800000201234 = Some ((0x7000 + of_nat 1 * PAGE_SIZE) OR take_bit 12 0xFFFF800000201234)"
    by (intro s'(2) [rule_format]) simp_all
  then show ?thesis using s'(1) by (simp add: PAGE_SIZE_def take_bit_eq_mod)
qed

theorem map_pages_huge_witness:
  "\<exists>s'. map_pages ex_mmu 0x1000 0 0 0x83 8 = Inr s' \<and> translate (tables s') 0x1000 0xABCDEF = Some 0xABCDEF"
proof -
  obtain fl where fl: "mmu_inv ex_mmu 0x1000 fl" "card (free_bytes fl) = 0x800000" using ex_mmu_inv by blast
  obtain s' where s': "map_pages ex_mmu 0x1000 0 0 0x83 8 = Inr s'"
      "\<forall>k<unat (8::u64). \<forall>w. hpn w = hpn (0 + of_nat k * HUGE_PAGE_SIZE) \<longrightarrow>
         translate (tables s') 0x1000 w = Some ((0 + of_nat k * HUGE_PAGE_SIZE) OR take_bit 21 w)"
    using map_pages_huge_correct [OF fl(1), of "0x83" 8 0 0] fl(2)
    by (auto simp: present_def huge_def const_defs)
  have "hpn 0xABCDEF = hpn (0 + of_nat 5 * HUGE_PAGE_SIZE)" by (simp add: hpn_def HUGE_PAGE_SIZE_def)
  then have "translate (tables s') 0x1000 0xABCDEF = Some ((0 + of_nat 5 * HUGE_PAGE_SIZE) OR take_bit 21 0xABCDEF)"
    by (intro s'(2) [rule_format]) simp_all
  then show ?thesis using s'(1) by (simp add: HUGE_PAGE_SIZE_def take_bit_eq_mod)
qed

text \<open>A table with one 4 KB page, and one with one 2 MB page, in a region with nothing free.\<close>

definition ex_table :: "(addr \<Rightarrow> u64) \<Rightarrow> addr \<Rightarrow> addr \<Rightarrow> (addr \<Rightarrow> u64)" where
  "ex_table t a x = (memset_pg t x)(a + 8 * 0 := x OR PTE_PRESENT OR PTE_WRITABLE)"

definition ex_upper :: "addr \<Rightarrow> u64" where
  "ex_upper = ex_table (ex_table (\<lambda>_. 0) 0x1000 0x400000) 0x400000 0x401000"

lemma ex_table_ok:
  assumes "tree_ok t r" "path p" "length p < 3" "tbl t r p = Some a" "\<not> present (t (a + 8 * 0))" "page_ok x"
    "\<forall>q b. path q \<longrightarrow> tbl t r q = Some b \<longrightarrow> b \<in> B" "x \<notin> B"
  shows "tree_ok (ex_table t a x) r" "tbl (ex_table t a x) r (p @ [0]) = Some x" "ex_table t a x (x + 8 * 0) = 0"
    "\<forall>q b. path q \<longrightarrow> tbl (ex_table t a x) r q = Some b \<longrightarrow> b \<in> insert x B"
    "\<And>q. path q \<Longrightarrow> length q \<le> length p \<Longrightarrow> tbl (ex_table t a x) r q = tbl t r q"
proof -
  have fresh: "\<forall>q. path q \<longrightarrow> tbl t r q \<noteq> Some x" using assms(7,8) by blast
  note n = new_table [OF assms(1-4) _ assms(5,6) fresh, folded ex_table_def]
  show "tree_ok (ex_table t a x) r" unfolding ex_table_def
    by (rule new_table_tree(1) [OF assms(1-4) _ assms(5,6) fresh]) simp
  show "tbl (ex_table t a x) r (p @ [0]) = Some x" "ex_table t a x (x + 8 * 0) = 0" using n(1) n(3) [of 0] by simp_all
  have "b \<in> insert x B" if "path q" "tbl (ex_table t a x) r q = Some b" for q b
    using that n(1) n(2) [of q] assms(7) by (cases "q = p @ [0]") auto
  then show "\<forall>q b. path q \<longrightarrow> tbl (ex_table t a x) r q = Some b \<longrightarrow> b \<in> insert x B" by blast
  show "tbl (ex_table t a x) r q = tbl t r q" if "path q" "length q \<le> length p" for q
    using that by (intro n(2)) auto
qed

lemma ex_upper_ok:
  "tree_ok ex_upper 0x1000" "tbl ex_upper 0x1000 [0, 0] = Some 0x401000" "\<not> present (ex_upper (0x401000 + 8 * 0))"
  "\<forall>q b. path q \<longrightarrow> tbl ex_upper 0x1000 q = Some b \<longrightarrow> b \<in> {0x401000, 0x400000, 0x1000}"
proof -
  define t where "t = ex_table (\<lambda>_. 0) 0x1000 0x400000"
  have pages: "page_ok 0x1000" "page_ok 0x400000" "page_ok 0x401000" by (simp_all add: page_ok_def)
  have z: "\<forall>q b. path q \<longrightarrow> tbl (\<lambda>_. 0) 0x1000 q = Some b \<longrightarrow> b \<in> {0x1000}" by (simp add: tbl_zero)
  have z0: "length ([] :: u64 list) < 3" "\<not> present ((\<lambda>_. 0) (0x1000 + 8 * 0 :: u64))" "0x400000 \<notin> {0x1000 :: u64}" by simp_all
  have a: "tree_ok t 0x1000" "tbl t 0x1000 [0] = Some 0x400000" "t (0x400000 + 8 * 0) = 0"
    "\<forall>q b. path q \<longrightarrow> tbl t 0x1000 q = Some b \<longrightarrow> b \<in> {0x400000, 0x1000}"
    using ex_table_ok(1-4) [OF tree_ok_zero [OF pages(1)] path_Nil z0(1) tbl.simps(1) z0(2) pages(2) z z0(3), folded t_def]
    by (simp_all only: append_Nil)
  have np: "\<not> present (t (0x400000 + 8 * 0))" unfolding a(3) by simp
  have p0: "path [0]" "length [0 :: u64] < 3" "0x401000 \<notin> {0x400000, 0x1000 :: u64}" by simp_all
  note b = ex_table_ok [OF a(1) p0(1,2) a(2) np pages(3) a(4) p0(3), folded ex_upper_def [folded t_def]]
  show "tree_ok ex_upper 0x1000" by (rule b(1))
  show "tbl ex_upper 0x1000 [0, 0] = Some 0x401000" using b(2) by simp
  show "\<not> present (ex_upper (0x401000 + 8 * 0))" unfolding b(3) by simp
  show "\<forall>q x. path q \<longrightarrow> tbl ex_upper 0x1000 q = Some x \<longrightarrow> x \<in> {0x401000, 0x400000, 0x1000}" by (rule b(4))
qed

definition ex_2m :: mmu_state where
  "ex_2m = \<lparr>tables = ex_upper(0x401000 + 8 * 0 := 0x83), kmem = ex_kmem ex_full, flushed = []\<rparr>"

definition ex_4k :: mmu_state where
  "ex_4k = \<lparr>tables = (ex_table ex_upper 0x401000 0x402000)(0x402000 + 8 * 0 := 0x7003), kmem = ex_kmem ex_full, flushed = []\<rparr>"

lemma idx_zero [simp]: "VIRT_TO_PML4_IDX 0 = 0" "VIRT_TO_PDPT_IDX 0 = 0" "VIRT_TO_PD_IDX 0 = 0" "VIRT_TO_PT_IDX 0 = 0"
  by (simp_all add: idx_defs)

lemma ex_full_freeable: "freeable (ex_kmem ex_full) (\<lambda>_. [])"
  using ex_full_ok by (simp add: freeable_def ex_kmem_def)

lemma ex_full_mmu_inv:
  assumes "tree_ok t 0x1000" "\<And>q b. path q \<Longrightarrow> tbl t 0x1000 q = Some b \<Longrightarrow> b \<in> {0x402000, 0x401000, 0x400000, 0x1000}"
  shows "mmu_inv \<lparr>tables = t, kmem = ex_kmem ex_full, flushed = []\<rparr> 0x1000 (\<lambda>_. [])"
proof -
  have "wf_block ex_full b 0" if "path q" "tbl t 0x1000 q = Some b" "q \<noteq> []" for q b
  proof -
    have "b \<noteq> 0x1000" using tree_okD(2) [OF assms(1) that(1,2) path_Nil] that(3) by auto
    then have "b \<in> {0x402000, 0x401000, 0x400000}" using assms(2) [OF that(1,2)] by simp
    then show ?thesis by (auto simp: wf_block_def ex_full_def)
  qed
  then show ?thesis using assms(1) ex_full_ok(3,6) by (simp add: mmu_inv_def ex_kmem_def) (simp add: ex_full_def)
qed

lemma ex_2m_ok: "mmu_inv ex_2m 0x1000 (\<lambda>_. [])" "leaf2m (tables ex_2m) 0x1000 0 = Some 0x83"
proof -
  have e: "present (0x83 :: u64)" "huge (0x83 :: u64)" by (simp_all add: present_def huge_def const_defs)
  have pd: "tbl ex_upper 0x1000 [VIRT_TO_PML4_IDX 0, VIRT_TO_PDPT_IDX 0] = Some 0x401000" using ex_upper_ok(2) by simp
  note w = write_2m [OF ex_upper_ok(1) pd e, unfolded idx_zero]
  show "mmu_inv ex_2m 0x1000 (\<lambda>_. [])" unfolding ex_2m_def
    by (rule ex_full_mmu_inv [OF w(3)]) (use w(2) ex_upper_ok(4) in blast)
  show "leaf2m (tables ex_2m) 0x1000 0 = Some 0x83" using w(4) [of 0] by (simp add: ex_2m_def)
qed

lemma ex_4k_ok: "mmu_inv ex_4k 0x1000 (\<lambda>_. [])" "leaf4k (tables ex_4k) 0x1000 0 = Some 0x7003" "leaf2m (tables ex_4k) 0x1000 0 = None"
  "path q \<Longrightarrow> tbl (tables ex_4k) 0x1000 q = Some b \<Longrightarrow> b \<in> {0x402000, 0x401000, 0x400000, 0x1000}"
proof -
  define t where "t = ex_table ex_upper 0x401000 0x402000"
  have p: "path [0, 0]" "length [0, 0 :: u64] < 3" "page_ok 0x402000" "0x402000 \<notin> {0x401000, 0x400000, 0x1000 :: u64}"
    by (simp_all add: page_ok_def)
  note b = ex_table_ok [OF ex_upper_ok(1) p(1,2) ex_upper_ok(2,3) p(3) ex_upper_ok(4) p(4), folded t_def]
  have pt: "tbl t 0x1000 [VIRT_TO_PML4_IDX 0, VIRT_TO_PDPT_IDX 0, VIRT_TO_PD_IDX 0] = Some 0x402000" using b(2) by simp
  note w = write_4k [OF b(1) pt, where e = "0x7003", unfolded idx_zero]
  show "mmu_inv ex_4k 0x1000 (\<lambda>_. [])" unfolding ex_4k_def t_def [symmetric]
    by (rule ex_full_mmu_inv [OF w(2)]) (use w(1) b(4) in auto)
  show "path q \<Longrightarrow> tbl (tables ex_4k) 0x1000 q = Some b \<Longrightarrow> b \<in> {0x402000, 0x401000, 0x400000, 0x1000}"
    using w(1) b(4) unfolding ex_4k_def t_def [symmetric] by auto
  show "leaf4k (tables ex_4k) 0x1000 0 = Some 0x7003"
    using w(4) [of 0] by (simp add: ex_4k_def t_def [symmetric] present_def const_defs)
  have pd: "tbl t 0x1000 [0, 0] = Some 0x401000" using b(5) [of "[0, 0]"] ex_upper_ok(2) by simp
  have "leaf2m t 0x1000 0 = None"
    using pd pt tbl_snoc [of t "0x1000" "[0, 0]" 0] by (auto simp: leaf2m_def Let_def split: if_splits)
  then show "leaf2m (tables ex_4k) 0x1000 0 = None" using w(3) [of 0] by (simp add: ex_4k_def t_def [symmetric])
qed

theorem unmap_page_witness:
  "\<exists>s'. unmap_page ex_4k 0x1000 0x7000 0 = Inr s' \<and> translate (tables s') 0x1000 0 = None \<and> flushed s' = [0] \<and>
     (\<forall>a. tbl (tables s') 0x1000 [0, 0, 0] = Some a \<longrightarrow> \<not> is_empty (tables s') a)"
proof -
  have f: "freeable (kmem ex_4k) (\<lambda>_. [])" using ex_full_freeable by (simp add: ex_4k_def)
  have e: "leaf2m (tables ex_4k) 0x1000 0 = None" "leaf4k (tables ex_4k) 0x1000 0 = Some 0x7003"
    "0x7003 AND PTE_ADDR_MASK = (0x7000 :: u64) AND NOT (PAGE_SIZE - 1)" "flushed ex_4k = []"
    using ex_4k_ok(2,3) by (simp_all add: const_defs ex_4k_def)
  obtain s' where s': "unmap_page ex_4k 0x1000 0x7000 0 = Inr s'" "flushed s' = [0]"
      "\<forall>w. translate (tables s') 0x1000 w = (if vpn w = vpn 0 then None else translate (tables ex_4k) 0x1000 w)"
      "\<forall>q a. q \<noteq> [] \<and> prefix q [0, 0, 0] \<and> tbl (tables s') 0x1000 q = Some a \<longrightarrow> \<not> is_empty (tables s') a"
    using unmap_page_correct [OF ex_4k_ok(1) f, of 0 "0x7000", unfolded idx_zero] e by auto
  then show ?thesis using s'(4) [rule_format, of "[0, 0, 0]"] by auto
qed

theorem unmap_pages_witness:
  "\<exists>s'. unmap_pages ex_4k 0x1000 0x7000 0 0x3 1 = Inr s' \<and> translate (tables s') 0x1000 0 = None"
proof -
  have f: "freeable (kmem ex_4k) (\<lambda>_. [])" using ex_full_freeable by (simp add: ex_4k_def)
  have "\<not> huge 0x3" by (simp add: huge_def const_defs)
  then show ?thesis using unmap_pages_correct [OF ex_4k_ok(1) f, of "0x3" "0x7000" 1 0] ex_4k_ok(2,3) by (auto simp: PTE_ADDR_MASK_def)
qed

theorem unmap_pages_huge_witness:
  "\<exists>s'. unmap_pages ex_2m 0x1000 0 0 0x83 1 = Inr s' \<and> leaf2m (tables s') 0x1000 0 = None"
proof -
  have f: "freeable (kmem ex_2m) (\<lambda>_. [])" using ex_full_freeable by (simp add: ex_2m_def)
  have "huge 0x83" by (simp add: huge_def const_defs)
  then show ?thesis using unmap_pages_huge_correct [OF ex_2m_ok(1) f, of "0x83" 0 1 0] ex_2m_ok(2) by (auto simp: PTE_ADDR_MASK_def)
qed

end
