(* ===== verification/Slab_Create.thy ===== *)
theory Slab_Create
  imports Slab_Alloc
begin

text \<open>
  The parameters \<open>kmem_cache_create\<close> computes for a cache, the cache it leaves, and the choice of a
  cache for a request.
\<close>

section \<open>Parameters\<close>

lemma word_and_minus: 
  fixes x :: "'a::len word"
  assumes "x \<noteq> 0"
  shows "x AND - x \<noteq> 0"
proof
  assume "x AND - x = 0"
  then have "\<not> bit x n \<or> \<not> bit (- x) n" for n by (metis bit_and_iff bit_0_eq bot_apply bot_bool_def)
  then have "x + - x = x OR - x" by (intro disjunctive_add) blast
  then have "x OR - x = 0" by simp
  then have "x = 0" by (metis or_eq_0_iff)
  then show False using assms by simp
qed

lemma word_small_cases:
  fixes m :: u64
  assumes "m < 16"
  shows "m \<in> {0, 1, 2, 3, 4, 5, 6, 7, 8, 9, 10, 11, 12, 13, 14, 15}"
proof -
  have "unat m < 16" using assms by (simp add: word_less_nat_alt)
  then have "unat m \<in> {0, 1, 2, 3, 4, 5, 6, 7, 8, 9, 10, 11, 12, 13, 14, 15}" by (simp, presburger)
  then show ?thesis by (auto simp: word_unat_eq_iff)
qed

lemma minus_take_bit:
  fixes x :: "'a::len word"
  assumes "n \<le> LENGTH('a)"
  shows "take_bit n (- take_bit n x) = take_bit n (- x)"
  using assms by transfer (simp add: take_bit_take_bit min_def take_bit_minus)

lemma lowest_bit_cases:
  fixes x :: u64
  assumes "x \<noteq> 0" "x AND - x < 16"
  shows "x AND - x \<in> {1, 2, 4, 8}"
proof -
  define m where "m = take_bit 4 x"
  have "m < 16" unfolding m_def by (simp add: word_less_nat_alt take_bit_eq_mod unat_mod)
  have "take_bit 4 (- x) = take_bit 4 (- m)" unfolding m_def by (rule minus_take_bit [symmetric]) simp
  then have "take_bit 4 (x AND - x) = m AND take_bit 4 (- m)" by (simp add: m_def)
  moreover have "take_bit 4 (x AND - x) = x AND - x"
    using assms(2) by (simp add: take_bit_eq_mod word_unat_eq_iff unat_mod word_less_nat_alt)
  ultimately have e: "x AND - x = m AND take_bit 4 (- m)" by simp
  moreover have "m AND take_bit 4 (- m) \<in> {0, 1, 2, 4, 8}"
    using word_small_cases [OF \<open>m < 16\<close>] by (auto simp: take_bit_eq_mod)
  ultimately show ?thesis using word_and_minus [OF assms(1)] by auto
qed

lemma calc_object_align_cases: "sz \<noteq> 0 \<Longrightarrow> calc_object_align sz \<in> {1, 2, 4, 8, 16}"
  using lowest_bit_cases [of sz] by (auto simp: calc_object_align_def Let_def)

lemma first_object_offset_cases:
  "object_align k \<in> {1, 2, 4, 8, 16} \<Longrightarrow> first_object_offset k \<in> {40, 48}"
  by (auto simp: first_object_offset_def sizeof_slab_descriptor_def unsigned_minus_1_eq_mask mask_eq_exp_minus_1)

lemma calc_slab_order_spec:
  assumes "0 < unat sz" "8 * unat sz + 56 \<le> 2 ^ 22"
  obtains o1 where "calc_slab_order sz = Some (of_nat o1)" "o1 \<le> 10" "8 * unat sz + 56 \<le> 2 ^ (o1 + 12)"
proof -
  define m where "m = sz * 8 + sizeof_slab_descriptor + 16"
  have "unat (sz * 8) = unat sz * 8" using assms(2) by (simp add: unat_word_ariths)
  then have m: "unat m = 8 * unat sz + 56" using assms(2) by (simp add: m_def sizeof_slab_descriptor_def unat_word_ariths)
  then have um: "unat (ucast m :: u32) = unat m" using assms(2) by (simp add: unsigned_ucast_eq take_bit_nat_eq_self)
  have up: "unat (ucast PAGE_SIZE :: u32) = 4096" by (simp add: PAGE_SIZE_def)
  obtain r where r: "align_up (ucast m) (ucast PAGE_SIZE) = Some r" "4096 dvd unat r" "unat m \<le> unat r" "unat r < unat m + 4096"
    using align_up_spec [of "ucast PAGE_SIZE" "ucast m"] m assms(2) unfolding um up by (auto simp: PAGE_SIZE_def)
  obtain q where q: "unat r = 4096 * q" using r(2) by (auto elim: dvdE)
  have q10: "q \<le> 2 ^ 10" using r(4) m assms(2) q by simp
  have ur: "unat (ucast r :: u64) = 4096 * q" using q unat_lt_u32 [of r] by (simp add: unsigned_ucast_eq take_bit_nat_eq_self)
  obtain k where k: "buddy_order (ucast r) = Some (of_nat k)" "q \<le> 2 ^ k" "\<And>j. q \<le> 2 ^ j \<Longrightarrow> k \<le> j"
    using buddy_order_spec [of "ucast r"] unfolding ur by auto
  have "sz \<noteq> 0" using assms(1) by auto
  then have "calc_slab_order sz = Some (of_nat k)" using r(1) k(1) by (simp add: calc_slab_order_def m_def)
  moreover have "8 * unat sz + 56 \<le> 2 ^ (k + 12)" using m r(3) q k(2) by (simp add: power_add)
  ultimately show thesis using that k(3) [OF q10] by blast
qed

lemma objects_per_slab_spec:
  assumes "object_size k \<noteq> 0" "object_align k \<in> {1, 2, 4, 8, 16}" "unat (slab_order k) \<le> 10"
    and "8 * unat (object_size k) + 56 \<le> 2 ^ (unat (slab_order k) + 12)"
  obtains n where "calc_objects_per_slab k = Some n" "8 \<le> unat n" "n \<noteq> - 1" "unat n \<le> 2 ^ 22"
    "unat (first_object_offset k) + unat n * unat (object_size k) \<le> 2 ^ (unat (slab_order k) + 12)"
proof -
  define o1 where "o1 = unat (slab_order k)"
  define f where "f = unat (first_object_offset k)"
  define n where "n = ((2::u64) ^ (o1 + 12) - first_object_offset k) div object_size k"
  have f: "f \<in> {40, 48}" using first_object_offset_cases [OF assms(2)] by (auto simp: f_def)
  have o10: "o1 \<le> 10" and room: "8 * unat (object_size k) + 56 \<le> 2 ^ (o1 + 12)" using assms(3,4) by (simp_all add: o1_def)
  have p22: "(2::nat) ^ (o1 + 12) \<le> 2 ^ 22" using o10 by (intro power_increasing) auto
  have sz: "0 < unat (object_size k)" using assms(1) by (simp add: unat_gt_0)
  have big: "unat ((2::u64) ^ (o1 + 12)) = 2 ^ (o1 + 12)" using o10 by simp
  have "push_bit o1 PAGE_SIZE = 2 ^ (o1 + 12)" by (simp add: PAGE_SIZE_def push_bit_eq_mult power_add)
  moreover have "scast (ucast ((2::u64) ^ (o1 + 12)) :: u32) = (2::u64) ^ (o1 + 12)"
    using o10 by (simp add: le_Suc_eq numeral_eq_Suc) (auto)
  ultimately have tb: "scast (ucast (push_bit o1 PAGE_SIZE) :: u32) = (2::u64) ^ (o1 + 12)" by simp
  have un: "unat n = (2 ^ (o1 + 12) - f) div unat (object_size k)"
  proof -
    have le: "first_object_offset k \<le> 2 ^ (o1 + 12)" using f room big by (auto simp: word_le_nat_alt f_def)
    show ?thesis unfolding n_def f_def unat_div unat_diff_le [OF le] big ..
  qed
  have n8: "8 \<le> unat n" unfolding un less_eq_div_iff_mult_less_eq [OF sz] using f room by auto
  have "\<not> n < 8" using n8 by (simp add: word_less_nat_alt)
  then have "calc_objects_per_slab k = Some n"
    using assms(1) tb unfolding calc_objects_per_slab_def o1_def n_def calc_alignment_def Let_def
    by (simp add: algebra_simps)
  moreover have "f + unat n * unat (object_size k) \<le> 2 ^ (o1 + 12)"
  proof -
    have "f \<le> 2 ^ (o1 + 12)" using f room by auto
    then show ?thesis using div_times_less_eq_dividend [of "2 ^ (o1 + 12) - f" "unat (object_size k)"] unfolding un by linarith
  qed
  moreover have "unat n \<le> 2 ^ 22" using p22 div_le_dividend [of "2 ^ (o1 + 12) - f" "unat (object_size k)"] unfolding un by linarith
  moreover from this have "n \<noteq> - 1" by (auto simp: unsigned_minus_1_eq_mask mask_eq_exp_minus_1)
  ultimately show thesis using that [of n] n8 unfolding o1_def f_def by auto
qed

section \<open>Creating a cache\<close>

lemma sentinels_apart: "distinct [free_slabs c, partial_slabs c, full_slabs c]"
  by (simp add: free_slabs_def partial_slabs_def full_slabs_def)

lemma kmem_cache_create_fit:
  assumes sz: "0 < unat sz" "8 * unat sz + 56 \<le> 2 ^ 22"
  shows "\<exists>t. kmem_cache_create s c sz = Some (c, t) \<and> cache_fit (caches t c) \<and> slab_lists t c [] [] [] \<and>
    object_size (caches t c) = sz \<and> object_align (caches t c) = calc_object_align sz \<and> 8 \<le> unat (objects_per_slab (caches t c)) \<and> calc_slab_order sz = Some (ucast (slab_order (caches t c))) \<and>
    buddy t = buddy s \<and> slab_lock t = slab_lock s"
proof -
  obtain o1 where o1: "calc_slab_order sz = Some (of_nat o1)" "o1 \<le> 10" "8 * unat sz + 56 \<le> 2 ^ (o1 + 12)"
    using calc_slab_order_spec [OF sz] by blast
  define k where "k = (caches s c)\<lparr>object_size := sz, object_align := calc_object_align sz, slab_order := of_nat o1\<rparr>"
  have sz0: "sz \<noteq> 0" using sz(1) by auto
  note al = calc_object_align_cases [OF sz0]
  have ou: "unat (slab_order k) = o1" unfolding k_def using o1(2) by (simp add: unat_of_nat_id)
  have ks: "object_size k = sz" "object_align k = calc_object_align sz" by (simp_all add: k_def)
  obtain n where n: "calc_objects_per_slab k = Some n" "8 \<le> unat n" "n \<noteq> - 1" "unat n \<le> 2 ^ 22"
      "unat (first_object_offset k) + unat n * unat sz \<le> 2 ^ (o1 + 12)"
    using objects_per_slab_spec [of k] sz0 al o1(2,3) unfolding ou ks by auto
  define k' where "k' = k\<lparr>objects_per_slab := ucast n\<rparr>"
  have un: "unat (ucast n :: u32) = unat n" using n(4) by (simp add: unsigned_ucast_eq take_bit_nat_eq_self)
  define u where "u = s\<lparr>caches := (caches s)(c := k')\<rparr>"
  define t where "t = empty_list (empty_list (empty_list u (free_slabs c)) (partial_slabs c)) (full_slabs c)"
  have "unat (of_nat o1 :: u32) = o1" using o1(2) by (simp add: unat_of_nat_id)
  then have "(of_nat o1 :: u32) \<noteq> - 1" using o1(2) by (auto simp: unsigned_minus_1_eq_mask mask_eq_exp_minus_1)
  moreover have "calc_object_align sz \<noteq> - 1" using al by auto
  moreover have "(ucast (of_nat o1 :: u32) :: u8) = of_nat o1" using o1(2) by (simp add: word_unat_eq_iff unsigned_ucast_eq unat_of_nat_id take_bit_nat_eq_self)
  ultimately have "kmem_cache_create s c sz = Some (c, t)"
    using o1(1) n(1,3) by (simp add: kmem_cache_create_def k'_def k_def u_def t_def upd_cache_def Let_def)
  moreover have sel: "caches t c = k'" "buddy t = buddy s" "slab_lock t = slab_lock s" by (simp_all add: t_def u_def)
  moreover have "cache_fit k'"
  proof -
    have "first_object_offset k' = first_object_offset k" by (simp add: first_object_offset_def k'_def)
    moreover have "first_object_offset k \<in> {40, 48}" using first_object_offset_cases [of k] al by (simp add: ks)
    ultimately show ?thesis using n(2,5) un sz(1) ou o1(2) ks by (auto simp: cache_fit_def) (auto simp: k'_def)
  qed
  moreover have "slab_lists t c [] [] []"
  proof -
    have "clist (nodes_mem t) h []" if "h \<in> {free_slabs c, partial_slabs c, full_slabs c}" for h
      using that sentinels_apart [of c] by (auto simp: t_def clist_def empty_list_def upd_node_def Let_def)
    then show ?thesis using sentinels_apart [of c] by (simp add: slab_lists_def lists3_alt)
  qed
  moreover have "(ucast (of_nat o1 :: u8) :: u32) = of_nat o1"
    using o1(2) by (simp add: word_unat_eq_iff unsigned_ucast_eq unat_of_nat_id take_bit_nat_eq_self)
  ultimately show ?thesis using n(2) un o1(1,2) by (simp add: k'_def k_def)
qed

lemma kmem_cache_create_rep:
  assumes bi: "buddy_inv (buddy s) fl" and lk: "\<not> slab_lock s" and sz: "8 \<le> unat sz" "8 * unat sz + 56 \<le> 2 ^ 22"
    and sen: "\<forall>h\<in>{free_slabs c, partial_slabs c, full_slabs c}. unat h \<notin> free_bytes fl"
  shows "\<exists>t. kmem_cache_create s c sz = Some (c, t) \<and> slab_inv t c fl [] [] [] (\<lambda>_. []) \<and> slab_rep_in t c fl {} \<and>
    object_size (caches t c) = sz \<and> 8 \<le> unat (objects_per_slab (caches t c)) \<and> calc_slab_order sz = Some (ucast (slab_order (caches t c))) \<and>
    buddy t = buddy s \<and> slab_lock t = slab_lock s"
proof -
  obtain t where t: "kmem_cache_create s c sz = Some (c, t)" "cache_fit (caches t c)" "slab_lists t c [] [] []" "object_size (caches t c) = sz"
      "8 \<le> unat (objects_per_slab (caches t c))" "calc_slab_order sz = Some (ucast (slab_order (caches t c)))" "buddy t = buddy s" "slab_lock t = slab_lock s"
    using kmem_cache_create_fit [of sz s c] sz by auto
  have "cache_ok (caches t c)" using t(2,4) sz(1) by (simp add: cache_ok_def)
  then have si: "slab_inv t c fl [] [] [] (\<lambda>_. [])" using bi sen t(3,7) by (simp add: slab_inv_def slabs_ok_def placed_def)
  moreover have "in_use t c (set ([] @ [] @ [])) (\<lambda>_. []) = {}" by (simp add: in_use_def)
  then have "slab_rep_in t c fl {}" using si lk t(8) unfolding slab_rep_in_def by metis
  ultimately show ?thesis using t by blast
qed

text \<open>When nothing fails, the version that takes the lock does the same.\<close>

lemma kmem_cache_create_sl_eq:
  assumes "\<not> slab_lock s" "kmem_cache_create s c sz = Some (c, t)" "c \<noteq> NULL"
  shows "kmem_cache_create_sl s c sz = Some (c, t)"
proof -
  have "slab_lock t = slab_lock s" using assms(2,3)
    by (auto simp: kmem_cache_create_def Let_def upd_cache_def empty_list_def upd_node_def split: if_splits option.splits bind_splits)
  then show ?thesis using assms
    by (auto simp: kmem_cache_create_def kmem_cache_create_sl_def spinlock_acquire_def spinlock_release_def Let_def upd_cache_def
        empty_list_def upd_node_def split: if_splits option.splits bind_splits)
qed

section \<open>Choosing a cache\<close>

lemma size_to_index_spec:
  assumes "0 < unat sz" "unat sz \<le> 2048"
  shows "\<exists>i<8. size_to_index sz = of_nat i \<and> unat sz \<le> 2 ^ (i + 4) \<and> (\<forall>j. unat sz \<le> 2 ^ (j + 4) \<longrightarrow> i \<le> j)"
proof -
  define m where "m = (if sz < 16 then 16 else sz)"
  have m: "16 \<le> unat m" "unat m \<le> 2048" "unat sz \<le> unat m"
    "unat m = max 16 (unat sz)" using assms by (auto simp: m_def word_less_nat_alt)
  have um: "unat (ucast m :: u32) = unat m" using m(2) by (simp add: unsigned_ucast_eq take_bit_nat_eq_self)
  have "(ucast m :: u32) \<noteq> 0" using um m(1) by auto
  from round_up_pow2_least [OF this] obtain k where k: "k \<le> 32" "round_up_pow2 (ucast m) = 2 ^ k" "unat m \<le> 2 ^ k"
      "\<And>j. unat m \<le> 2 ^ j \<Longrightarrow> k \<le> j" unfolding um by blast
  have k11: "k \<le> 11" using k(4) [of 11] m(2) by simp
  have k4: "4 \<le> k"
  proof (rule ccontr)
    assume "\<not> 4 \<le> k"
    then have "(2::nat) ^ k \<le> 2 ^ 3" by (intro power_increasing) auto
    then show False using k(3) m(1) by simp
  qed
  have "unat (ucast ((2::u32) ^ k) :: u64) = 2 ^ k"
  proof -
    have "(2::nat) ^ k \<le> 2 ^ 11" using k11 by (intro power_increasing) auto
    moreover have "unat ((2::u32) ^ k) = 2 ^ k" using k11 by simp
    ultimately show ?thesis using k11 by (simp add: unsigned_ucast_eq take_bit_nat_eq_self)
  qed
  then have "(ucast ((2::u32) ^ k) :: u64) = 2 ^ k" using k11 by (simp add: word_unat_eq_iff)
  then have "klog2 (ucast (round_up_pow2 (ucast m))) = of_nat k" using klog2_power2 [of k] k11 k(2) by simp
  moreover have "klog2 16 = of_nat 4" using klog2_power2 [of 4] by simp
  moreover have "sz \<noteq> 0" using assms(1) by auto
  ultimately have "size_to_index sz = of_nat k - of_nat 4"
    unfolding size_to_index_def MIN_SLAB_ALLOC_SIZE_def m_def Let_def by simp
  then have "size_to_index sz = of_nat (k - 4)" using k4 by (simp add: of_nat_diff)
  moreover have "k - 4 \<le> j" if "unat sz \<le> 2 ^ (j + 4)" for j
  proof -
    have "(16::nat) \<le> 2 ^ (j + 4)" by (simp add: power_add)
    then have "k \<le> j + 4" using that m(4) by (intro k(4)) simp
    then show ?thesis by simp
  qed
  moreover have "unat sz \<le> 2 ^ (k - 4 + 4)" using k(3) m(3) k4 by simp
  ultimately show ?thesis using k4 k11 by (intro exI [of _ "k - 4"]) auto
qed
end
