(* ===== verification/Slab_Small.thy ===== *)
theory Slab_Small
  imports Slab_Create
begin

text \<open>
  Caches for objects of fewer than eight bytes. \<open>kmem_cache_create\<close> accepts them, but a free object has no
  room for the pointer to the next one: threading the free list of a slab overwrites each pointer with
  the one after it, and the second allocation gives out what is left.
\<close>

section \<open>A free list that overwrites itself\<close>

lemma thread_objects_append:
  "thread_objects k first (xs @ ys) h = thread_objects k first ys (thread_objects k first xs h)"
  by (induction xs arbitrary: h) (simp_all add: Let_def)

lemma slot_beyond:
  assumes "i < m" "m < 2 ^ 32" "0 < unat (object_size k)" "unat (object_size k) < 8" "j < 8"
  shows "slot k d i \<noteq> slot k d m + of_nat j"
proof
  let ?z = "unat (object_size k)" and ?D = "(m - i) * unat (object_size k) + j"
  have mi: "(of_nat m :: u64) = of_nat i + of_nat (m - i)" using assms(1) by (simp flip: of_nat_add)
  assume "slot k d i = slot k d m + of_nat j"
  then have "of_nat i * object_size k = of_nat m * object_size k + of_nat j" by (simp add: slot_def)
  then have "of_nat (m - i) * object_size k + of_nat j = 0" unfolding mi by (simp only: distrib_right add.assoc) simp
  moreover have "(of_nat ?D :: u64) = of_nat (m - i) * object_size k + of_nat j" by simp
  ultimately have z: "(of_nat ?D :: u64) = 0" by (simp only:)
  have "(m - i) * ?z \<le> 2 ^ 32 * 8" using assms(2,4) by (intro mult_le_mono) simp_all
  then have "unat (of_nat ?D :: u64) = ?D" using assms(5) by (intro unat_of_nat_id) simp
  then have "?D = 0" unfolding z by simp
  then show False using assms(1,3) by simp
qed

text \<open>The first byte of an object keeps the lowest byte of its own pointer.\<close>

lemma thread_first_byte:
  assumes "i < n" "n = unat (objects_per_slab k)" "0 < unat (object_size k)" "unat (object_size k) < 8"
  shows "thread_objects k (d + first_object_offset k) [0..<n] h (slot k d i) = ucast (if i < n - 1 then slot k d (Suc i) else NULL)"
proof -
  let ?f = "d + first_object_offset k"
  have sl: "?f + of_nat m * object_size k = slot k d m" for m by (simp add: slot_def)
  have "[0..<n] = [0..<i] @ i # [Suc i..<n]" using assms(1) upt_add_eq_append [of 0 i "n - i"] upt_conv_Cons [of i n] by simp
  then have "thread_objects k ?f [0..<n] h = thread_objects k ?f [Suc i..<n]
      (store_ptr (thread_objects k ?f [0..<i] h) (slot k d i) (if i < n - 1 then slot k d (Suc i) else NULL))"
    by (simp add: thread_objects_append sl slot_Suc assms(2) Let_def)
  moreover have "thread_objects k ?f [Suc i..<n] g (slot k d i) = g (slot k d i)" for g
  proof (rule thread_objects_frame, unfold sl)
    fix m j :: nat assume "m \<in> set [Suc i..<n]" "j < 8"
    then show "slot k d i \<noteq> slot k d m + of_nat j"
      using assms(2-4) unat_lt_u32 [of "objects_per_slab k"] by (intro slot_beyond) auto
  qed
  ultimately show ?thesis by (simp only: store_ptr_first)
qed

lemma small_free_list:
  assumes b: "slab_block k d" and off: "first_object_offset k = 40" and n: "8 \<le> unat (objects_per_slab k)"
    and z: "0 < unat (object_size k)" "unat (object_size k) < 8"
  shows "2 ^ 32 \<le> unat (load_ptr (thread_objects k (d + first_object_offset k) [0..<unat (objects_per_slab k)] h) (d + first_object_offset k))"
proof -
  define z where "z = unat (object_size k)"
  define i where "i = (if z = 1 then 4 else if z \<le> 3 then 2 else 1 :: nat)"
  have z8: "z \<in> {1, 2, 3, 4, 5, 6, 7}" using assms(4,5) unfolding z_def [symmetric] by (simp, linarith)
  have i: "4 \<le> i * z" "i * z < 8" "i < unat (objects_per_slab k) - 1" "Suc i * z < 16" using z8 n by (auto simp: i_def)
  let ?h = "thread_objects k (d + first_object_offset k) [0..<unat (objects_per_slab k)] h"
  have "?h (slot k d i) = ucast (slot k d (Suc i))" using thread_first_byte [OF _ refl assms(4,5), of i d h] i(3) by simp
  moreover have e: "slot k d m = d + first_object_offset k + of_nat (m * z)" for m by (simp add: slot_def z_def)
  moreover have "(ucast (slot k d (Suc i)) :: u8) \<noteq> 0"
  proof -
    obtain q where q: "unat d = 2 ^ 12 * q" using b by (auto simp: slab_block_def power_add elim!: dvdE)
    have lt: "unat d + 2 ^ 12 < 2 ^ 64"
    proof -
      have "(2::nat) ^ 12 \<le> 2 ^ (unat (slab_order k) + 12)" by (intro power_increasing) auto
      then show ?thesis using b by (simp add: slab_block_def)
    qed
    have w: "unat (40 + of_nat (Suc i * z) :: u64) = 40 + Suc i * z"
      using i(4) by (subst unat_add_no_overflow) (simp_all add: unat_of_nat_id del: of_nat_mult of_nat_Suc mult_Suc)
    have "slot k d (Suc i) = d + (40 + of_nat (Suc i * z))" unfolding e off by (simp only: add.assoc)
    then have u: "unat (slot k d (Suc i)) = 2 ^ 12 * q + (40 + Suc i * z)"
      using lt i(4) q w by (simp only:) (subst unat_add_no_overflow, simp_all del: mult_Suc)
    have "unat (ucast (slot k d (Suc i)) :: u8) = (2 ^ 12 * q + (40 + Suc i * z)) mod 256"
      unfolding unsigned_ucast_eq u by (simp add: take_bit_eq_mod del: mult_Suc)
    also have "\<dots> = (40 + Suc i * z) mod 256" 
    proof -
      have "2 ^ 12 * q + (40 + Suc i * z) = (40 + Suc i * z) + 256 * (16 * q)" by simp
      then show ?thesis by (simp only: mod_mult_self2)
    qed
    also have "\<dots> \<noteq> 0" using i(4) by (simp del: mult_Suc)
    finally show ?thesis by auto
  qed
  ultimately have "?h (d + first_object_offset k + of_nat (i * z)) \<noteq> 0" using e [of i] by metis
  then show ?thesis using i(1,2) by (rule load_ptr_high)
qed

section \<open>The second allocation\<close>

lemma small_cache_garbage:
  assumes bi: "buddy_inv (buddy s) fl" and lk: "\<not> slab_lock s" and sen: "\<forall>h\<in>{free_slabs c, partial_slabs c, full_slabs c}. unat h \<notin> free_bytes fl"
    and l: "slab_lists s c [] [] []" and k: "cache_fit (caches s c)" "unat (object_size (caches s c)) < 8" "first_object_offset (caches s c) = 40"
      "8 \<le> unat (objects_per_slab (caches s c))" "slab_order (caches s c) = 0"
    and f: "free_bytes fl \<noteq> {}"
  shows "\<exists>p t q u. kmem_cache_kalloc s c = Some (p, t) \<and> p \<noteq> NULL \<and> kmem_cache_kalloc t c = Some (q, u) \<and> 2 ^ 32 \<le> unat q"
proof -
  let ?k = "caches s c"
  have n: "objects_per_slab ?k \<noteq> 1" using k(4) by auto
  have "\<not> (\<forall>j\<in>{0..10}. fl j = [])" using f by (auto simp: free_bytes_def)
  then obtain x b where x: "buddy_kalloc (buddy s) (chunk_bytes 0) = Some (x, b)" "x \<noteq> NULL" "wf_block (buddy s) x 0" "span x 0 \<subseteq> free_bytes fl"
    using kalloc_inv [OF bi size_order_chunk [of 0]] by (auto split: if_splits)
  have sb: "slab_block ?k x" using x(2,3) bi k(5) by (auto simp: slab_block_def wf_block_def buddy_inv_def wf_region_def)
  let ?g = "(node_insert (grown_slab s c x b) (free_slabs c) (desc_node x))\<lparr>slab_lock := True\<rparr>"
  have "unat (desc_node x) \<in> free_bytes fl" using desc_node_in_span [OF sb] x(4) k(5) by auto
  then have nn: "desc_node x \<notin> {free_slabs c, partial_slabs c, full_slabs c}" using sen by auto
  have lg: "slab_lists ?g c [x] [] []"
    using insert3 [of "grown_slab s c x b" "free_slabs c" "[]" "partial_slabs c" "[]" "full_slabs c" "[]" "desc_node x"] l nn
    by (simp add: slab_lists_def grown_slab_def)
  have dg: "descs ?g x = (descs s x)\<lparr>desc_cache := c, inuse_num := 0, desc_free_list := x + 40\<rparr>" "caches ?g = caches s" "slab_lock ?g"
    by (simp_all add: grown_slab_def k(3))
  have p: "x + 40 \<noteq> NULL"
  proof -
    have "slot ?k x 0 \<in> slots ?k x" using k(4) by (simp add: slots_def)
    then show ?thesis using slots_nonnull [OF k(1) sb] by (simp add: slot_def k(3))
  qed
  let ?t = "node_insert (node_unlink (taken ?g x) (desc_node x)) (partial_slabs c) (desc_node x)"
  have take1: "kmem_cache_take ?g c x = (x + 40, ?t)"
    using take_eq [of ?g x c] dg(1,2) p n by simp
  have hs: "sl_next (nodes_mem s (partial_slabs c)) = partial_slabs c" "sl_next (nodes_mem s (free_slabs c)) = free_slabs c"
    using slab_lists_heads [OF l] by simp_all
  have "sl_next (nodes_mem ?g (free_slabs c)) = desc_node x" using slab_lists_heads(2) [OF lg] by simp
  moreover have "kmem_cache_grow s c = Some (True, node_insert (grown_slab s c x b) (free_slabs c) (desc_node x))"
    using x(1,2) k(5) by (intro grow_eq) simp_all
  moreover have "spinlock_release (s\<lparr>slab_lock := True\<rparr>) = s" "\<not> slab_lock (grown_slab s c x b)" using lk by (simp_all add: spinlock_release_def grown_slab_def)
  ultimately have a1: "kmem_cache_kalloc s c = Some (x + 40, spinlock_release ?t)"
    using hs lk take1 by (simp add: kmem_cache_kalloc_def spinlock_acquire_def)
  let ?q = "load_ptr (links ?g) (x + 40)"
  have "slab_lists (taken ?g x) c [x] [] []" using lg by (simp add: slab_lists_def)
  from slab_move(1) [OF this, of x "[x]"] have lt: "slab_lists ?t c [] [x] []" by simp
  let ?u = "(spinlock_release ?t)\<lparr>slab_lock := True\<rparr>"
  have "slab_lists ?u c [] [x] []" using lt by (simp add: slab_lists_def spinlock_release_def)
  then have h2: "sl_next (nodes_mem ?u (partial_slabs c)) = desc_node x" "desc_node x \<noteq> partial_slabs c" using slab_lists_heads(1) nn by fastforce+
  have high: "2 ^ 32 \<le> unat ?q"
    using small_free_list [OF sb k(3,4) _ k(2), of "links s"] k(1,3) by (simp add: grown_slab_def cache_fit_def)
  then have "?q \<noteq> NULL" by auto
  moreover have "desc_free_list (descs ?u x) = ?q" by (simp add: spinlock_release_def grown_slab_def k(3))
  ultimately obtain v where "kmem_cache_take ?u c x = (?q, v)" using take_eq [of ?u x c] by auto
  then have "kmem_cache_kalloc (spinlock_release ?t) c = Some (?q, spinlock_release v)"
    using h2 by (simp add: kmem_cache_kalloc_def spinlock_acquire_def) (simp add: spinlock_release_def)
  then show ?thesis using a1 p high by blast
qed

lemma small_parameters:
  assumes "0 < unat sz" "unat sz < 8"
  shows "calc_slab_order sz = Some 0" "object_align k = calc_object_align sz \<Longrightarrow> first_object_offset k = 40"
proof -
  have "unat sz \<in> {1, 2, 3, 4, 5, 6, 7}" using assms by (simp, linarith)
  then have s: "sz \<in> {1, 2, 3, 4, 5, 6, 7}" by (auto simp: word_unat_eq_iff)
  have "\<forall>sz\<in>set [1, 2, 3, 4, 5, 6, 7]. calc_slab_order sz = Some 0" by code_simp
  then show "calc_slab_order sz = Some 0" using s by auto
  have "\<forall>sz\<in>set [1, 2, 3, 4, 5, 6, 7]. calc_object_align sz \<in> set [1, 2, 4]" by code_simp
  then have "calc_object_align sz \<in> {1, 2, 4}" using s by auto
  then show "first_object_offset k = 40" if "object_align k = calc_object_align sz"
    using that by (auto simp: first_object_offset_def sizeof_slab_descriptor_def unsigned_minus_1_eq_mask mask_eq_exp_minus_1)
qed

lemma kmem_cache_create_small:
  assumes bi: "buddy_inv (buddy s) fl" and lk: "\<not> slab_lock s" and sz: "0 < unat sz" "unat sz < 8"
    and sen: "\<forall>h\<in>{free_slabs c, partial_slabs c, full_slabs c}. unat h \<notin> free_bytes fl" and f: "free_bytes fl \<noteq> {}"
  shows "\<exists>t p u q v. kmem_cache_create s c sz = Some (c, t) \<and> object_size (caches t c) = sz \<and> 8 \<le> unat (objects_per_slab (caches t c)) \<and>
    kmem_cache_kalloc t c = Some (p, u) \<and> p \<noteq> NULL \<and> kmem_cache_kalloc u c = Some (q, v) \<and> 2 ^ 32 \<le> unat q"
proof -
  obtain t where t: "kmem_cache_create s c sz = Some (c, t)" "cache_fit (caches t c)" "slab_lists t c [] [] []" "object_size (caches t c) = sz"
      "object_align (caches t c) = calc_object_align sz" "8 \<le> unat (objects_per_slab (caches t c))"
      "calc_slab_order sz = Some (ucast (slab_order (caches t c)))" "buddy t = buddy s" "slab_lock t = slab_lock s"
    using kmem_cache_create_fit [of sz s c] sz by auto
  have "slab_order (caches t c) = 0"
    using t(7) small_parameters(1) [OF sz] by (simp add: word_unat_eq_iff unsigned_ucast_eq take_bit_nat_eq_self unat_lt_u8 [THEN less_trans])
  then show ?thesis
    using small_cache_garbage [of t fl c] small_parameters(2) [OF sz t(5)] t bi lk sen sz f by fastforce
qed

end
