(* ===== verification/Slab_Props.thy ===== *)
theory Slab_Props
  imports Slab_Small Buddy_Props
begin

text \<open>
  The contract of an object cache as an interface, what a client that issues any sequence of
  requests gets from it, and the properties of the slab allocator.
\<close>

section \<open>Clients of an object cache\<close>

datatype request = Get | Put nat | Fill nat "u8 list"

text \<open>
  A run of requests: \<open>Get\<close> keeps the object it is given, \<open>Put i\<close> gives back the object at position
  \<open>i\<close> of those held, \<open>Fill i bs\<close> writes bytes into it.
\<close>

fun serve :: "('s \<Rightarrow> (addr \<times> 's) option) \<Rightarrow> ('s \<Rightarrow> addr \<Rightarrow> 's option) \<Rightarrow> ('s \<Rightarrow> addr \<Rightarrow> u8 list \<Rightarrow> 's) \<Rightarrow>
    request list \<Rightarrow> 's \<Rightarrow> addr list \<Rightarrow> ('s \<times> addr list) option" where
  "serve get put fill [] s held = Some (s, held)"
| "serve get put fill (Get # rs) s held = do {
     (p, s) \<leftarrow> get s;
     serve get put fill rs s (if p = NULL then held else p # held)
   }"
| "serve get put fill (Put i # rs) s held =
     (if i < length held
      then do { s \<leftarrow> put s (held ! i); serve get put fill rs s (take i held @ drop (Suc i) held) }
      else serve get put fill rs s held)"
| "serve get put fill (Fill i bs # rs) s held =
     serve get put fill rs (if i < length held then fill s (held ! i) bs else s) held"

locale object_cache =
  fixes get :: "'s \<Rightarrow> (addr \<times> 's) option"
    and put :: "'s \<Rightarrow> addr \<Rightarrow> 's option"
    and fill :: "'s \<Rightarrow> addr \<Rightarrow> u8 list \<Rightarrow> 's"
    and rep :: "'s \<Rightarrow> addr set \<Rightarrow> bool"
  assumes get_law: "rep s U \<Longrightarrow> \<exists>p t. get s = Some (p, t) \<and>
      (if p = NULL then rep t U else p \<notin> U \<and> rep t (insert p U))"
    and put_law: "rep s U \<Longrightarrow> p \<in> U \<Longrightarrow> \<exists>t. put s p = Some t \<and> rep t (U - {p})"
    and fill_law: "rep s U \<Longrightarrow> p \<in> U \<Longrightarrow> rep (fill s p bs) U"
begin

lemma set_without_nth:
  assumes "distinct xs" "i < length xs"
  shows "set (take i xs @ drop (Suc i) xs) = set xs - {xs ! i}" "distinct (take i xs @ drop (Suc i) xs)"
proof -
  have xs: "xs = take i xs @ xs ! i # drop (Suc i) xs" by (rule id_take_nth_drop [OF assms(2)])
  then have d: "distinct (take i xs @ xs ! i # drop (Suc i) xs)" using assms(1) by simp
  then show "distinct (take i xs @ drop (Suc i) xs)" by simp
  have "set xs = insert (xs ! i) (set (take i xs @ drop (Suc i) xs))" by (subst xs) simp
  then show "set (take i xs @ drop (Suc i) xs) = set xs - {xs ! i}" using d by auto
qed

lemma serve_law:
  assumes "rep s (set held)" "distinct held"
  shows "\<exists>t held'. serve get put fill rs s held = Some (t, held') \<and> rep t (set held') \<and> distinct held'"
  using assms
proof (induction rs arbitrary: s held)
  case (Cons r rs)
  show ?case
  proof (cases r)
    case Get
    obtain p t where p: "get s = Some (p, t)" "if p = NULL then rep t (set held) else p \<notin> set held \<and> rep t (insert p (set held))"
      using get_law [OF Cons.prems(1)] by blast
    then show ?thesis using Cons.IH [of t "if p = NULL then held else p # held"] Cons.prems(2) Get by (simp split: if_splits)
  next
    case (Put i)
    show ?thesis
    proof (cases "i < length held")
      case True
      then obtain t where t: "put s (held ! i) = Some t" "rep t (set held - {held ! i})"
        using put_law [OF Cons.prems(1)] nth_mem by blast
      then show ?thesis using Cons.IH [of t "take i held @ drop (Suc i) held"] set_without_nth [OF Cons.prems(2) True] True Put by simp
    next
      case False
      then show ?thesis using Cons Put by simp
    qed
  next
    case (Fill i bs)
    have "rep (if i < length held then fill s (held ! i) bs else s) (set held)"
      using fill_law [OF Cons.prems(1)] Cons.prems(1) by simp
    then show ?thesis using Cons.IH Cons.prems(2) Fill by simp
  qed
qed simp

end

interpretation slab_cache: object_cache "\<lambda>s. kmem_cache_kalloc s c" "\<lambda>s. kmem_cache_kfree s c" "fill_object c" "\<lambda>s. slab_rep s c" for c
proof unfold_locales
  fix s U assume r: "slab_rep s c U"
  then show "\<exists>p t. kmem_cache_kalloc s c = Some (p, t) \<and>
      (if p = NULL then slab_rep t c U else p \<notin> U \<and> slab_rep t c (insert p U))"
    using kmem_cache_kalloc_rep [OF r] by (auto split: if_splits)
  fix p assume p: "p \<in> U"
  then show "\<exists>t. kmem_cache_kfree s c p = Some t \<and> slab_rep t c (U - {p})" by (rule kmem_cache_kfree_rep [OF r])
  show "slab_rep (fill_object c s p bs) c U" for bs by (rule fill_object_rep [OF r p])
qed

section \<open>Properties\<close>

text \<open>
  C14. \<open>kmem_cache_kalloc\<close> always returns. The result is \<open>NULL\<close> exactly when no slab has room and the
  buddy allocator refuses another, and then nothing has changed; otherwise the result is an object
  that was not in use, and the cache, its lists, counters and free lists are in order with that object
  in use. The bytes of the objects in use stay as they are. \<open>slab_rep s c U\<close> is the invariant: the cache
  \<open>c\<close> is in order, its objects have at least the eight bytes that the pointer in a free object takes,
  and exactly the objects of \<open>U\<close> are in use.
\<close>

theorem kmem_cache_kalloc_correct:
  assumes "slab_rep s c U"
  shows "\<exists>p t. kmem_cache_kalloc s c = Some (p, t) \<and> (p = NULL \<longleftrightarrow> cache_exhausted s c) \<and>
    (if p = NULL then t = s else p \<notin> U \<and> slab_rep t c (insert p U)) \<and>
    (\<forall>q\<in>U. \<forall>j<unat (object_size (caches s c)). links t (q + of_nat j) = links s (q + of_nat j)) \<and> 8 \<le> unat (object_size (caches s c))"
proof -
  obtain fl where fl: "slab_rep_in s c fl U" using assms by (auto simp: slab_rep_def)
  obtain p t fl' where k: "kmem_cache_kalloc s c = Some (p, t)" "\<forall>a. unat a \<notin> free_bytes fl \<longrightarrow> links t a = links s a"
      "if p = NULL then t = s \<and> fl' = fl \<and> cache_exhausted s c else \<not> cache_exhausted s c \<and> p \<notin> U \<and> slab_rep_in t c fl' (insert p U)"
    using kmem_cache_kalloc_rep_in [OF fl] by blast
  then have "(p = NULL \<longleftrightarrow> cache_exhausted s c) \<and> (if p = NULL then t = s else p \<notin> U \<and> slab_rep t c (insert p U))"
    by (auto simp: slab_rep_def)
  moreover have "\<forall>q\<in>U. \<forall>j<unat (object_size (caches s c)). links t (q + of_nat j) = links s (q + of_nat j)"
    using slab_rep_in_bytes [OF fl] k(2) by blast
  ultimately show ?thesis using k(1) slab_rep_size [OF assms] by blast
qed

text \<open>
  C15. \<open>kmem_cache_kfree\<close> of an object in use finds its slab from the address alone, and leaves the
  cache in order with that object, and no other, no longer in use. The pointer it stores lies within
  the object: no byte outside it changes.
\<close>

theorem kmem_cache_kfree_correct:
  assumes "slab_rep s c U" "p \<in> U"
  shows "\<exists>t. kmem_cache_kfree s c p = Some t \<and> slab_rep t c (U - {p}) \<and>
    (\<forall>a. links t a \<noteq> links s a \<longrightarrow> (\<exists>j<unat (object_size (caches s c)). a = p + of_nat j))"
proof -
  obtain t where t: "kmem_cache_kfree s c p = Some t" "slab_rep t c (U - {p})" using slab_cache.put_law [OF assms] by blast
  have "\<exists>j<unat (object_size (caches s c)). a = p + of_nat j" if a: "links t a \<noteq> links s a" for a
  proof -
    obtain j where "j < 8" "a = p + of_nat j" using kmem_cache_kfree_bytes [OF t(1) a] by blast
    then show ?thesis using slab_rep_size [OF assms(1)] by (intro exI [of _ j]) simp
  qed
  then show ?thesis using t by blast
qed

text \<open>
  C16. A client may allocate from and release to a cache in any order, and between requests write
  anything to the objects it holds: no request faults or deadlocks, the cache stays in order, and the
  objects held are pairwise distinct and do not overlap.
\<close>

theorem slab_history:
  assumes "slab_rep s c {}"
  shows "\<exists>t held. serve (\<lambda>s. kmem_cache_kalloc s c) (\<lambda>s. kmem_cache_kfree s c) (fill_object c) rs s [] = Some (t, held) \<and>
    slab_rep t c (set held) \<and> distinct held \<and>
    (\<forall>p\<in>set held. \<forall>q\<in>set held. p \<noteq> q \<longrightarrow> apart p (unat (object_size (caches t c))) q (unat (object_size (caches t c))))"
proof -
  obtain t held where t: "serve (\<lambda>s. kmem_cache_kalloc s c) (\<lambda>s. kmem_cache_kfree s c) (fill_object c) rs s [] = Some (t, held)"
      "slab_rep t c (set held)" "distinct held"
    using slab_cache.serve_law [of s c "[]" rs] assms by auto
  then show ?thesis using slab_rep_apart [OF t(2)] by blast
qed

text \<open>
  C17. \<open>kmem_cache_create\<close> of a cache for objects of 1 to 524281 bytes succeeds, with at least eight
  objects to a slab. For objects of at least eight bytes it leaves the cache in order with no object
  in use, whatever its memory held before. For smaller ones the cache cannot work, and nothing refuses
  it: the pointers of a new slab overwrite each other, and as soon as there is a page for one, the
  second allocation gives out an address above 4 GB made of the bytes of two or more pointers.
\<close>

theorem kmem_cache_create_correct:
  assumes "buddy_inv (buddy s) fl" "\<not> slab_lock s" "0 < unat sz" "unat sz \<le> 524281"
    and "\<forall>h\<in>{free_slabs c, partial_slabs c, full_slabs c}. unat h \<notin> free_bytes fl"
  shows "\<exists>t. kmem_cache_create s c sz = Some (c, t) \<and> object_size (caches t c) = sz \<and> 8 \<le> unat (objects_per_slab (caches t c)) \<and>
    (8 \<le> unat sz \<longrightarrow> slab_rep t c {}) \<and>
    (unat sz < 8 \<and> free_bytes fl \<noteq> {} \<longrightarrow>
      (\<exists>p u q v. kmem_cache_kalloc t c = Some (p, u) \<and> p \<noteq> NULL \<and> kmem_cache_kalloc u c = Some (q, v) \<and> 2 ^ 32 \<le> unat q))"
proof (cases "8 \<le> unat sz")
  case True
  then show ?thesis using kmem_cache_create_rep [of s fl sz c] assms by (auto simp: slab_rep_def)
next
  case False
  then show ?thesis using kmem_cache_create_small [of s fl sz c] kmem_cache_create_fit [of sz s c] assms by fastforce
qed

text \<open>
  \<open>size_to_index\<close> of a request of 1 to 2048 bytes is the index of the smallest of the eight
  caches whose objects are large enough; of 0 it is no cache. It truncates the size to 32 bits first.
\<close>

theorem size_to_index_correct:
  "(0 < unat sz \<and> unat sz \<le> 2048 \<longrightarrow>
     (\<exists>i<8. size_to_index sz = of_nat i \<and> unat sz \<le> 2 ^ (i + 4) \<and> (i = 0 \<or> 2 ^ (i + 3) < unat sz))) \<and>
   \<not> size_to_index 0 < NUM_CACHES \<and> size_to_index 0x100000010 = 0"
proof (intro conjI impI)
  assume "0 < unat sz \<and> unat sz \<le> 2048"
  then obtain i where i: "i < 8" "size_to_index sz = of_nat i" "unat sz \<le> 2 ^ (i + 4)"
      "\<And>j. unat sz \<le> 2 ^ (j + 4) \<Longrightarrow> i \<le> j" using size_to_index_spec by blast
  have "i = 0 \<or> 2 ^ (i + 3) < unat sz"
  proof (rule disjCI)
    assume "\<not> 2 ^ (i + 3) < unat sz"
    then show "i = 0" using i(4) [of "i - 1"] by (cases i) (auto simp: not_less add.commute)
  qed
  then show "\<exists>i<8. size_to_index sz = of_nat i \<and> unat sz \<le> 2 ^ (i + 4) \<and> (i = 0 \<or> 2 ^ (i + 3) < unat sz)" using i by blast
next
  show "\<not> size_to_index 0 < NUM_CACHES" by (simp add: size_to_index_def NUM_CACHES_def)
  show "size_to_index 0x100000010 = 0"
    by (simp add: size_to_index_def MIN_SLAB_ALLOC_SIZE_def round_up_pow2_def klog2_def klog2_loop.simps Let_def)
qed

text \<open>
  C18. \<open>kmem_cache_create_sl\<close> of a cache for objects of size 0 returns \<open>NULL\<close> with the slab lock
  still held: every later allocation from any cache, every release, and every further creation
  waits for ever.
\<close>

theorem kmem_cache_create_sl_keeps_lock:
  assumes "\<not> slab_lock s"
  shows "\<exists>t. kmem_cache_create_sl s c 0 = Some (NULL, t) \<and>
    (\<forall>c' p sz. kmem_cache_kalloc t c' = None \<and> kmem_cache_kfree t c' p = None \<and> kmem_cache_create_sl t c' sz = None)"
  using assms
  by (simp add: kmem_cache_create_sl_def spinlock_acquire_def calc_object_align_def kmem_cache_kalloc_def kmem_cache_kfree_def)

section \<open>Witnesses\<close>

text \<open>A state with the buddy allocator of \<open>Buddy_Props\<close> and a cache at address \<open>0x9000\<close>.\<close>

definition ex_slab :: slab_state where
  "ex_slab = \<lparr>caches = \<lambda>_. \<lparr>object_size = 7, object_align = 7, slab_order = 7, objects_per_slab = 7\<rparr>,
     nodes_mem = \<lambda>_. \<lparr>sl_next = 7, sl_prev = 7\<rparr>, descs = \<lambda>_. \<lparr>inuse_num = 7, desc_free_list = 7, desc_cache = 7\<rparr>,
     links = \<lambda>_. 7, slab_lock = False, slab_caches = 0x9000, buddy = ex_buddy\<rparr>"

lemma ex_slab_ready:
  "\<exists>fl. buddy_inv (buddy ex_slab) fl \<and> free_bytes fl \<noteq> {} \<and>
     (\<forall>h\<in>{free_slabs 0x9000, partial_slabs 0x9000, full_slabs 0x9000}. unat h \<notin> free_bytes fl)"
proof -
  obtain fl where "buddy_inv ex_buddy fl" "free_bytes fl = {0x400000 ..< 0xC00000}" using ex_buddy_ready by blast
  then show ?thesis by (intro exI [of _ fl]) (simp add: ex_slab_def free_slabs_def partial_slabs_def full_slabs_def)
qed

theorem kmem_cache_create_witness:
  "(\<exists>t. kmem_cache_create ex_slab 0x9000 64 = Some (0x9000, t) \<and> slab_rep t 0x9000 {}) \<and>
   (\<exists>t p u q v. kmem_cache_create ex_slab 0x9000 4 = Some (0x9000, t) \<and> kmem_cache_kalloc t 0x9000 = Some (p, u) \<and>
      kmem_cache_kalloc u 0x9000 = Some (q, v) \<and> 2 ^ 32 \<le> unat q)"
proof -
  obtain fl where fl: "buddy_inv (buddy ex_slab) fl" "free_bytes fl \<noteq> {}"
      "\<forall>h\<in>{free_slabs 0x9000, partial_slabs 0x9000, full_slabs 0x9000}. unat h \<notin> free_bytes fl"
    using ex_slab_ready by blast
  then have "\<exists>t. kmem_cache_create ex_slab 0x9000 64 = Some (0x9000, t) \<and> slab_rep t 0x9000 {}"
    using kmem_cache_create_correct [of ex_slab fl 64 "0x9000"] by (auto simp: ex_slab_def)
  moreover have "\<exists>t p u q v. kmem_cache_create ex_slab 0x9000 4 = Some (0x9000, t) \<and> kmem_cache_kalloc t 0x9000 = Some (p, u) \<and>
      kmem_cache_kalloc u 0x9000 = Some (q, v) \<and> 2 ^ 32 \<le> unat q"
    using kmem_cache_create_correct [of ex_slab fl 4 "0x9000"] fl by (auto simp: ex_slab_def)
  ultimately show ?thesis by blast
qed

lemma ex_buddy_gives: "buddy_kalloc ex_buddy (chunk_bytes 0) \<noteq> Some (NULL, b)"
proof -
  obtain fl where fl: "buddy_inv ex_buddy fl" "free_bytes fl = {0x400000 ..< 0xC00000}" using ex_buddy_ready by blast
  have "\<not> (\<forall>j\<in>{0..10}. fl j = [])" using ex_free_some [OF fl] by blast
  then show ?thesis using kalloc_inv [OF fl(1) size_order_chunk [of 0]] by (auto split: if_splits)
qed

lemma ex_cache: "\<exists>t. slab_rep t 0x9000 {} \<and> \<not> cache_exhausted t 0x9000"
proof -
  obtain fl where "buddy_inv (buddy ex_slab) fl"
      "\<forall>h\<in>{free_slabs 0x9000, partial_slabs 0x9000, full_slabs 0x9000}. unat h \<notin> free_bytes fl"
    using ex_slab_ready by blast
  then obtain t where t: "slab_rep t 0x9000 {}" "calc_slab_order 64 = Some (ucast (slab_order (caches t 0x9000)))"
      "buddy t = ex_buddy"
    using kmem_cache_create_rep [of ex_slab fl 64 "0x9000"] by (auto simp: ex_slab_def slab_rep_def)
  have "calc_slab_order 64 = Some 0" by code_simp
  then have "unat (slab_order (caches t 0x9000)) = 0"
    using t(2) by (simp add: word_unat_eq_iff unsigned_ucast_eq take_bit_nat_eq_self unat_lt_u8 [THEN less_trans])
  then have "\<not> cache_exhausted t 0x9000"
    using ex_buddy_gives t(3) by (auto simp: cache_exhausted_def)
  then show ?thesis using t(1) by blast
qed

theorem kmem_cache_kalloc_witness:
  "\<exists>s p t. slab_rep s 0x9000 {} \<and> kmem_cache_kalloc s 0x9000 = Some (p, t) \<and> p \<noteq> NULL \<and> slab_rep t 0x9000 {p}"
proof -
  obtain s where "slab_rep s 0x9000 {}" "\<not> cache_exhausted s 0x9000" using ex_cache by blast
  then show ?thesis using kmem_cache_kalloc_correct [of s "0x9000" "{}"] by (auto split: if_splits)
qed

theorem kmem_cache_kfree_witness:
  "\<exists>s p t. slab_rep s 0x9000 {p} \<and> kmem_cache_kfree s 0x9000 p = Some t \<and> slab_rep t 0x9000 {}"
proof -
  obtain s where "slab_rep s 0x9000 {}" "\<not> cache_exhausted s 0x9000" using ex_cache by blast
  then obtain p t where "slab_rep t 0x9000 {p}" using kmem_cache_kalloc_rep [of s "0x9000" "{}"] by (auto split: if_splits)
  then show ?thesis using kmem_cache_kfree_correct [of t "0x9000" "{p}" p] by auto
qed

theorem slab_history_witness:
  "\<exists>s t held. slab_rep s 0x9000 {} \<and>
     serve (\<lambda>s. kmem_cache_kalloc s 0x9000) (\<lambda>s. kmem_cache_kfree s 0x9000) (fill_object 0x9000) [Get, Get, Fill 1 (replicate 64 0xFF), Put 0, Get] s [] = Some (t, held) \<and>
     distinct held"
proof -
  obtain s where "slab_rep s 0x9000 {}" using ex_cache by blast
  then show ?thesis using slab_history [of s "0x9000" "[Get, Get, Fill 1 (replicate 64 0xFF), Put 0, Get]"] by blast
qed

theorem size_to_index_witness:
  "\<exists>i<8. size_to_index 100 = of_nat i \<and> 100 \<le> (2::nat) ^ (i + 4)"
  using size_to_index_correct [of 100] by auto

theorem kmem_cache_create_sl_witness:
  "\<exists>t. kmem_cache_create_sl ex_slab 0x9000 0 = Some (NULL, t) \<and> kmem_cache_kalloc t 0x9000 = None"
  using kmem_cache_create_sl_keeps_lock [of ex_slab "0x9000"] by (auto simp: ex_slab_def)

end
