(* ===== verification/Paging_Correct.thy ===== *)
theory Paging_Correct
  imports Paging Mmu_Props Slab_Props
begin

text \<open>
  The kernel's mappings as a whole: the areas live in objects of the area cache, the cache and the
  page tables take their memory from the same buddy allocator, and the tree links the areas that
  are mapped.
\<close>

section \<open>Sharing the buddy allocator\<close>

lemma slab_rep_off_buddy:
  assumes rep: "slab_rep_off k c fl R U" and b: "buddy_inv b fl'" "R' \<union> free_bytes fl' \<subseteq> R \<union> free_bytes fl"
    "base_address b = base_address (buddy k)" "region_size b = region_size (buddy k)"
  shows "slab_rep_off (k\<lparr>buddy := b\<rparr>) c fl' R' U"
proof -
  obtain fr pa fu os where i: "slab_inv k c fl fr pa fu os" and U: "U = in_use k c (set (fr @ pa @ fu)) os" and l: "\<not> slab_lock k"
    and R: "clear_of k c R (set (fr @ pa @ fu))"
    using rep by (auto simp: slab_rep_off_def)
  let ?ds = "set (fr @ pa @ fu)"
  have ok: "slabs_ok k c (free_bytes fl) ?ds os" "\<forall>h\<in>{free_slabs c, partial_slabs c, full_slabs c}. unat h \<notin> free_bytes fl"
    using i by (simp_all add: slab_inv_def)
  have off: "slab_span (caches k c) d \<inter> (R' \<union> free_bytes fl') = {}" if "d \<in> ?ds" for d
  proof -
    have "slab_span (caches k c) d \<inter> R = {}" "free_bytes fl \<inter> slab_span (caches k c) d = {}"
      using that ok(1) R by (simp_all add: slabs_ok_def clear_of_def)
    then show ?thesis using b(2) by blast
  qed
  have heads: "unat h \<notin> R' \<union> free_bytes fl'" if "h \<in> {free_slabs c, partial_slabs c, full_slabs c}" for h
    using that ok(2) R b(2) unfolding clear_of_def by blast
  have at: "slab_at (k\<lparr>buddy := b\<rparr>) c os d = slab_at k c os d" for d by (simp add: slab_at_def)
  have "slabs_ok (k\<lparr>buddy := b\<rparr>) c (free_bytes fl') ?ds os"
    using ok(1) off unfolding slabs_ok_def at by auto
  then have "slab_inv (k\<lparr>buddy := b\<rparr>) c fl' fr pa fu os"
    using i b heads by (auto simp: slab_inv_def slab_lists_def placed_def region_end_def)
  moreover have "clear_of (k\<lparr>buddy := b\<rparr>) c R' ?ds" using off heads by (auto simp: clear_of_def)
  moreover have "U = in_use (k\<lparr>buddy := b\<rparr>) c ?ds os" using U by (simp add: in_use_def)
  ultimately show ?thesis using l unfolding slab_rep_off_def by auto
qed

lemma slab_rep_in_inv: "slab_rep_in k c fl U \<Longrightarrow> buddy_inv (buddy k) fl"
  by (auto simp: slab_rep_in_def slab_inv_def)

lemma mmu_inv_shrunk:
  assumes "mmu_inv m r fl" "buddy_inv (buddy k) fl'" "shrunk fl fl' n"
    "base_address (buddy k) = base_address (buddy (kmem m))" "region_size (buddy k) = region_size (buddy (kmem m))"
  shows "mmu_inv (m\<lparr>kmem := k\<rparr>) r fl'"
  using assms by (fastforce simp: mmu_inv_def shrunk_def wf_block_def)

lemma cache_exhausted_empty:
  assumes "slab_rep_in k c fl U" "slab_order (caches k c) = 0" "cache_exhausted k c"
  shows "free_bytes fl = {}"
proof -
  have "buddy_kalloc (buddy k) (chunk_bytes 0) = Some (NULL, buddy k)" using assms(2,3) by (simp add: cache_exhausted_def)
  then have "\<forall>j\<in>{0..10}. fl j = []"
    using kalloc_inv [OF slab_rep_in_inv [OF assms(1)] size_order_chunk [of 0]] by (auto split: if_splits)
  then show ?thesis by (auto simp: free_bytes_def)
qed

lemma slab_rep_in_room:
  assumes "slab_rep_in k c fl U" "p \<in> U"
  shows "unat p + unat (object_size (caches k c)) < 2 ^ 64"
proof -
  obtain fr pa fu os where i: "slab_inv k c fl fr pa fu os" and U: "U = in_use k c (set (fr @ pa @ fu)) os"
    using assms(1) by (auto simp: slab_rep_in_def)
  from U assms(2) obtain d where d: "d \<in> set (fr @ pa @ fu)" "p \<in> slots (caches k c) d" by (auto simp: in_use_def)
  then obtain j where j: "p = slot (caches k c) d j" "j < unat (objects_per_slab (caches k c))" by (auto simp: slots_def)
  have ok: "cache_ok (caches k c)" "slab_block (caches k c) d" using i d(1) by (auto simp: slab_inv_def slabs_ok_def slab_at_def)
  show ?thesis using unat_slot [OF cache_okD [OF ok(1)] ok(2) j(2)] slot_room [OF cache_okD [OF ok(1)] j(2)] ok(2) by (auto simp: slab_block_def j(1))
qed

section \<open>The invariant\<close>

text \<open>
  The cache of areas is in order and apart from the tables, the tables are a tree apart from the free
  memory, the tree of areas is a red-black tree of objects the cache has handed out, and the lock is free.
\<close>

definition paging_inv :: "paging_state \<Rightarrow> (nat \<Rightarrow> addr list) \<Rightarrow> addr set \<Rightarrow> addr set \<Rightarrow> rbt \<Rightarrow> bool" where
  "paging_inv s fl U V t \<longleftrightarrow>
     slab_rep_off (kmem (mmu s)) (vma_cache s) fl (table_bytes (tables (mmu s)) (kernel_pml4t s)) U \<and> sizeof_vma \<le> object_size (caches (kmem (mmu s)) (vma_cache s)) \<and>
     slab_order (caches (kmem (mmu s)) (vma_cache s)) = 0 \<and> mmu_inv (mmu s) (kernel_pml4t s) fl \<and>
     rb_tree (vma_key (vmas s)) (kernel_rb s) t \<and> nodes t = vma_node ` V \<and> V \<subseteq> U \<and> \<not> kernel_page_lock s"

lemma rb_tree_key_cong:
  assumes "\<And>a. a \<in> nodes t \<Longrightarrow> key a = key' a"
  shows "rb_tree key s t = rb_tree key' s t"
proof -
  have "sorted_wrt (\<lambda>a b. key a < key b) (inorder t) = sorted_wrt (\<lambda>a b. key' a < key' b) (inorder t)"
    using sorted_wrt_mono_rel [of "inorder t" "\<lambda>a b. key a < key b" "\<lambda>a b. key' a < key' b"]
      sorted_wrt_mono_rel [of "inorder t" "\<lambda>a b. key' a < key' b" "\<lambda>a b. key a < key b"] assms by auto
  then show ?thesis by (simp add: rb_tree_def bst_def)
qed


section \<open>Mapping a range\<close>

text \<open>
  \<open>mappable\<close> is what a call of \<open>map_pages\<close> has to respect, \<open>range_mapped\<close> what it does to the
  translation, for both page sizes.
\<close>

definition page_bytes :: "u64 \<Rightarrow> u64" where
  "page_bytes flags = (if huge flags then HUGE_PAGE_SIZE else PAGE_SIZE)"

definition mappable :: "(addr \<Rightarrow> u64) \<Rightarrow> addr \<Rightarrow> u64 \<Rightarrow> u64 \<Rightarrow> u64 \<Rightarrow> u64 \<Rightarrow> bool" where
  "mappable t r pa va flags n \<longleftrightarrow>
     present flags \<and> flags AND PTE_ADDR_MASK = 0 \<and>
     (if huge flags then unat n \<le> 2 ^ 27 \<and> 2 ^ 21 dvd unat pa \<and> unat pa + unat n * 2 ^ 21 \<le> 2 ^ 52
      else unat n \<le> 2 ^ 36 \<and> 4096 dvd unat pa \<and> unat pa + unat n * 4096 \<le> 2 ^ 52 \<and>
        (\<forall>k<unat n. leaf2m t r (va + of_nat k * PAGE_SIZE) = None))"

definition same_page :: "u64 \<Rightarrow> u64 \<Rightarrow> u64 \<Rightarrow> bool" where
  "same_page flags v w \<longleftrightarrow> (if huge flags then hpn v = hpn w else vpn v = vpn w)"

definition page_offset :: "u64 \<Rightarrow> u64 \<Rightarrow> u64" where
  "page_offset flags w = (if huge flags then take_bit 21 w else take_bit 12 w)"

definition range_mapped :: "(addr \<Rightarrow> u64) \<Rightarrow> (addr \<Rightarrow> u64) \<Rightarrow> addr \<Rightarrow> u64 \<Rightarrow> u64 \<Rightarrow> u64 \<Rightarrow> nat \<Rightarrow> bool" where
  "range_mapped t t' r pa va flags n \<longleftrightarrow>
     (\<forall>k<n. \<forall>w. same_page flags w (va + of_nat k * page_bytes flags) \<longrightarrow>
        translate t' r w = Some ((pa + of_nat k * page_bytes flags) OR page_offset flags w)) \<and>
     (\<forall>w. (\<forall>k<n. \<not> same_page flags w (va + of_nat k * page_bytes flags)) \<longrightarrow>
        translate t' r w = translate t r w \<and> leaf2m t' r w = leaf2m t r w)"

lemma beside_mono: "beside r s fl s' fl' m \<Longrightarrow> m \<le> n \<Longrightarrow> beside r s fl s' fl' n"
  by (auto simp: beside_def shrunk_def)

lemma map_pages_range:
  assumes "mmu_inv s r fl" "mappable (tables s) r pa va flags n"
  shows "(\<exists>s' fl'. map_pages s r pa va flags n = Inr s' \<and> mmu_inv s' r fl' \<and> beside r s fl s' fl' (unat n * 12288) \<and>
      range_mapped (tables s) (tables s') r pa va flags (unat n)) \<or>
    card (free_bytes fl) < unat n * 12288 \<and> (\<exists>m. map_pages s r pa va flags n = Inl (Panic m))"
proof (cases "huge flags")
  case True
  then have a: "present flags" "flags AND PTE_ADDR_MASK = 0" "unat n \<le> 2 ^ 27" "2 ^ 21 dvd unat pa" "unat pa + unat n * 2 ^ 21 \<le> 2 ^ 52"
    using assms(2) by (auto simp: mappable_def)
  have le: "unat n * 8192 \<le> unat n * 12288" by simp
  from map_pages_2m_spec [OF assms(1) a(1) True a(2-5), of va] show ?thesis
    using beside_mono [OF _ le] le unfolding range_mapped_def same_page_def page_offset_def page_bytes_def if_P [OF True]
    by (meson less_le_trans)
next
  case False
  then have a: "present flags" "flags AND PTE_ADDR_MASK = 0" "unat n \<le> 2 ^ 36" "4096 dvd unat pa" "unat pa + unat n * 4096 \<le> 2 ^ 52"
    "\<forall>k<unat n. leaf2m (tables s) r (va + of_nat k * PAGE_SIZE) = None"
    using assms(2) by (auto simp: mappable_def)
  from map_pages_4k_spec [OF assms(1) a(1) False a(2-6)] show ?thesis
    unfolding range_mapped_def same_page_def page_offset_def page_bytes_def if_not_P [OF False] by metis
qed

section \<open>A new area\<close>

text \<open>The area a mapping records, and the areas that are linked afterwards: one whose start is taken is not.\<close>

definition area :: "u64 \<Rightarrow> u64 \<Rightarrow> u64 \<Rightarrow> u64 \<Rightarrow> vma" where
  "area pa va flags n = \<lparr>vma_start = va, vma_end = va + n * page_bytes flags, vma_pte = pa OR flags\<rparr>"

definition linked :: "paging_state \<Rightarrow> addr set \<Rightarrow> addr \<Rightarrow> u64 \<Rightarrow> addr set" where
  "linked s V v va = (if \<exists>u\<in>V. vma_start (vmas s u) = va then V else insert v V)"

lemma vma_node_inj [simp]: "vma_node u = vma_node v \<longleftrightarrow> u = v"
  by (simp add: vma_node_def)

lemma new_vma_spec:
  assumes inv: "paging_inv s fl U V t"
  shows "(\<exists>v s1 fl1. new_vma s (vma_start a) (vma_end a) (vma_pte a) m = Inr (v, s1) \<and> v \<notin> U \<and>
      paging_inv s1 fl1 (insert v U) V t \<and> shrunk fl fl1 4096 \<and> vmas s1 = (vmas s)(v := a) \<and>
      tables (mmu s1) = tables (mmu s) \<and> flushed (mmu s1) = flushed (mmu s) \<and> kernel_pml4t s1 = kernel_pml4t s \<and>
      vma_cache s1 = vma_cache s \<and> kernel_rb s1 = kernel_rb s) \<or>
    free_bytes fl = {} \<and> new_vma s (vma_start a) (vma_end a) (vma_pte a) m = Inl (Panic m)"
proof -
  have i: "slab_rep_off (kmem (mmu s)) (vma_cache s) fl (table_bytes (tables (mmu s)) (kernel_pml4t s)) U" "sizeof_vma \<le> object_size (caches (kmem (mmu s)) (vma_cache s))"
    "mmu_inv (mmu s) (kernel_pml4t s) fl" "rb_tree (vma_key (vmas s)) (kernel_rb s) t" "nodes t = vma_node ` V" "V \<subseteq> U"
    "\<not> kernel_page_lock s" "slab_order (caches (kmem (mmu s)) (vma_cache s)) = 0" using inv by (auto simp: paging_inv_def)
  obtain v k fl1 where k: "kmem_cache_kalloc (kmem (mmu s)) (vma_cache s) = Some (v, k)" "shrunk fl fl1 4096"
      "caches k = caches (kmem (mmu s))" "base_address (buddy k) = base_address (buddy (kmem (mmu s)))"
      "region_size (buddy k) = region_size (buddy (kmem (mmu s)))"
      "if v = NULL then cache_exhausted (kmem (mmu s)) (vma_cache s) else v \<notin> U \<and> slab_rep_off k (vma_cache s) fl1 (table_bytes (tables (mmu s)) (kernel_pml4t s)) (insert v U)"
    using kmem_cache_kalloc_rep_off [OF i(1) mmu_inv_apart [OF i(3)]] unfolding i(8) by auto
  show ?thesis
  proof (cases "v = NULL")
    case True
    then have "free_bytes fl = {}" using k(6) cache_exhausted_empty [OF slab_rep_offD [OF i(1)] i(8)] by simp
    then show ?thesis using True k(1) by (simp add: new_vma_def)
  next
    case False
    let ?s = "(set_kmem s k)\<lparr>vmas := (vmas s)(v := a)\<rparr>"
    have v: "v \<notin> U" "slab_rep_off k (vma_cache s) fl1 (table_bytes (tables (mmu s)) (kernel_pml4t s)) (insert v U)" using k(6) False by auto
    have "new_vma s (vma_start a) (vma_end a) (vma_pte a) m = Inr (v, ?s)"
      using k(1) False by (cases a) (simp add: new_vma_def set_kmem_def)
    moreover have "vma_key ((vmas s)(v := a)) x = vma_key (vmas s) x" if "x \<in> nodes t" for x
      using that i(5,6) v(1) by (auto simp: vma_key_def)
    then have "rb_tree (vma_key ((vmas s)(v := a))) (kernel_rb s) t" using i(4) rb_tree_key_cong by blast
    moreover have "mmu_inv ((mmu s)\<lparr>kmem := k\<rparr>) (kernel_pml4t s) fl1"
      using mmu_inv_shrunk [OF i(3) slab_rep_in_inv [OF slab_rep_offD [OF v(2)]] k(2,4,5)] .
    ultimately show ?thesis using v i(2,5,6,7,8) k(2,3)
      by (intro disjI1 exI [of _ v] exI [of _ ?s] exI [of _ fl1]) (auto simp: paging_inv_def set_kmem_def)
  qed
qed

lemma link_vma_spec:
  assumes inv: "paging_inv s fl U V t" and v: "v \<in> U" "v \<notin> V"
  shows "\<exists>s1 t1. bindE (page_lock_acquire s) (\<lambda>s. rb_insert_vma s v) = Inr s1 \<and>
    paging_inv (page_lock_release s1) fl U (linked s V v (vma_start (vmas s v))) t1 \<and> s1 = s\<lparr>kernel_page_lock := True, kernel_rb := kernel_rb s1\<rparr>"
proof -
  have i: "slab_rep_in (kmem (mmu s)) (vma_cache s) fl U" "sizeof_vma \<le> object_size (caches (kmem (mmu s)) (vma_cache s))"
    "rb_tree (vma_key (vmas s)) (kernel_rb s) t" "nodes t = vma_node ` V" "\<not> kernel_page_lock s"
    using inv slab_rep_offD by (auto simp: paging_inv_def)
  have "unat v + 56 < 2 ^ 64" using slab_rep_in_room [OF i(1) v(1)] i(2) by (simp add: sizeof_vma_def word_le_nat_alt)
  then have "unat (vma_node v) = unat v + 24" unfolding vma_node_def by (subst unat_add_no_overflow) auto
  then have nn: "vma_node v \<noteq> NULL" by auto
  have new: "vma_node v \<notin> nodes t" using v(2) i(4) by auto
  have dup: "(\<exists>x\<in>nodes t. vma_key (vmas s) x = vma_key (vmas s) (vma_node v)) \<longleftrightarrow> (\<exists>u\<in>V. vma_start (vmas s u) = vma_start (vmas s v))"
    by (simp add: i(4) vma_key_def)
  obtain p r t1 where r: "rb_insert (kernel_rb s) (vma_node v) (vma_cmp (vmas s)) = Some (p, r)"
      "rb_tree (vma_key (vmas s)) r t1" "nodes t1 = vma_node ` linked s V v (vma_start (vmas s v))"
    using vma_order.insert_correct [OF i(3) nn new] i(4) unfolding dup linked_def by (auto split: if_splits)
  let ?s = "s\<lparr>kernel_page_lock := True, kernel_rb := r\<rparr>"
  have "bindE (page_lock_acquire s) (\<lambda>s. rb_insert_vma s v) = Inr ?s"
    using i(5) r(1) by (simp add: page_lock_acquire_def rb_insert_vma_def)
  moreover have "linked s V v (vma_start (vmas s v)) \<subseteq> U" using inv v by (auto simp: linked_def paging_inv_def)
  then have "paging_inv (page_lock_release ?s) fl U (linked s V v (vma_start (vmas s v))) t1"
    using inv r(2,3) by (simp add: paging_inv_def page_lock_release_def)
  ultimately show ?thesis by (intro exI [of _ ?s] exI [of _ t1]) simp
qed


section \<open>Mapping with an area\<close>

lemma kmap_pages_spec:
  assumes "paging_inv s fl U V t" "mappable (tables (mmu s)) (kernel_pml4t s) pa va flags n"
  shows "(\<exists>v s' fl' t'. kmap_pages s pa va flags n = Inr s' \<and> v \<notin> U \<and>
      paging_inv s' fl' (insert v U) (linked s V v va) t' \<and> vmas s' = (vmas s)(v := area pa va flags n) \<and>
      kernel_pml4t s' = kernel_pml4t s \<and> shrunk fl fl' (4096 + unat n * 12288) \<and>
      held (mmu s') (kernel_pml4t s) fl' \<subseteq> held (mmu s) (kernel_pml4t s) fl \<and>
      range_mapped (tables (mmu s)) (tables (mmu s')) (kernel_pml4t s) pa va flags (unat n)) \<or>
    card (free_bytes fl) < unat n * 12288 + 4096 \<and>
      (\<exists>m. kmap_pages s pa va flags n = Inl (Panic m))"
proof -
  let ?m = "''FAILED TO ALLOCATE A VMA STRUCT IN KMAP_PAGES''" and ?a = "area pa va flags n"
  have eq: "kmap_pages s pa va flags n =
      bindE (new_vma s (vma_start ?a) (vma_end ?a) (vma_pte ?a) ?m) (\<lambda>(v, s).
      bindE (bindE (page_lock_acquire s) (\<lambda>s. rb_insert_vma s v)) (\<lambda>s.
      bindE (with_mmu s (map_pages (mmu s) (kernel_pml4t s) pa va flags n)) (\<lambda>s. Inr (page_lock_release s))))"
    by (cases "new_vma s (vma_start ?a) (vma_end ?a) (vma_pte ?a) ?m") (auto simp: kmap_pages_def area_def page_bytes_def)
  from new_vma_spec [OF assms(1), of ?a ?m] show ?thesis
  proof (elim disjE exE conjE)
    fix v s1 fl1 assume 1: "new_vma s (vma_start ?a) (vma_end ?a) (vma_pte ?a) ?m = Inr (v, s1)" "v \<notin> U"
      "paging_inv s1 fl1 (insert v U) V t" "shrunk fl fl1 4096" "vmas s1 = (vmas s)(v := ?a)"
      "tables (mmu s1) = tables (mmu s)" "kernel_pml4t s1 = kernel_pml4t s"
    have v: "v \<in> insert v U" "v \<notin> V" using 1(2) assms(1) by (auto simp: paging_inv_def)
    have "linked s1 V v (vma_start (vmas s1 v)) = linked s V v va" using v(2) by (auto simp: linked_def 1(5) area_def)
    then obtain s2 t2 where 2: "bindE (page_lock_acquire s1) (\<lambda>s. rb_insert_vma s v) = Inr s2"
        "paging_inv (page_lock_release s2) fl1 (insert v U) (linked s V v va) t2"
        "s2 = s1\<lparr>kernel_page_lock := True, kernel_rb := kernel_rb s2\<rparr>"
      using link_vma_spec [OF 1(3) v] by metis
    have s2: "mmu s2 = mmu s1" "kernel_pml4t s2 = kernel_pml4t s" "vmas s2 = vmas s1" "vma_cache s2 = vma_cache s1"
      by (subst 2(3), simp add: 1(7))+
    have inv2: "mmu_inv (mmu s2) (kernel_pml4t s) fl1"
      "slab_rep_off (kmem (mmu s2)) (vma_cache s2) fl1 (table_bytes (tables (mmu s2)) (kernel_pml4t s)) (insert v U)"
      using 2(2) s2(2) by (auto simp: paging_inv_def page_lock_release_def)
    have "mappable (tables (mmu s2)) (kernel_pml4t s) pa va flags n" using assms(2) by (simp add: s2 1(6))
    from map_pages_range [OF inv2(1) this] show ?thesis
    proof (elim disjE exE conjE)
      fix m3 fl3 assume 3: "map_pages (mmu s2) (kernel_pml4t s) pa va flags n = Inr m3" "mmu_inv m3 (kernel_pml4t s) fl3"
        "beside (kernel_pml4t s) (mmu s2) fl1 m3 fl3 (unat n * 12288)" "range_mapped (tables (mmu s2)) (tables m3) (kernel_pml4t s) pa va flags (unat n)"
      let ?s = "page_lock_release (s2\<lparr>mmu := m3\<rparr>)"
      obtain b where b: "kmem m3 = (kmem (mmu s2))\<lparr>buddy := b\<rparr>"
          "table_bytes (tables m3) (kernel_pml4t s) \<union> free_bytes fl3 \<subseteq> table_bytes (tables (mmu s2)) (kernel_pml4t s) \<union> free_bytes fl1"
          "base_address b = base_address (buddy (kmem (mmu s2)))" "region_size b = region_size (buddy (kmem (mmu s2)))"
        using 3(3) by (auto simp: beside_def within_def held_def)
      have "buddy_inv b fl3" using 3(2) b(1) by (simp add: mmu_inv_def)
      from slab_rep_off_buddy [OF inv2(2) this b(2-4)] have "paging_inv ?s fl3 (insert v U) (linked s V v va) t2"
        using 2(2) 3(2) s2(2) b(1) by (simp add: paging_inv_def page_lock_release_def)
      moreover have "kmap_pages s pa va flags n = Inr ?s" using eq 1(1) 2(1) 3(1) by (simp add: with_mmu_def s2(2))
      moreover have "shrunk fl fl3 (4096 + unat n * 12288)" using shrunk_trans [OF 1(4)] 3(3) by (auto simp: beside_def)
      moreover have "held (mmu ?s) (kernel_pml4t s) fl3 \<subseteq> held (mmu s) (kernel_pml4t s) fl"
        using b(2) 1(4) by (auto simp: held_def page_lock_release_def s2 1(6) shrunk_def)
      ultimately show ?thesis using 1(2,5) 3(4) by (auto simp: page_lock_release_def s2 1(6))
    next
      fix m assume "card (free_bytes fl1) < unat n * 12288" "map_pages (mmu s2) (kernel_pml4t s) pa va flags n = Inl (Panic m)"
      then show ?thesis using eq 1(1,4) 2(1) by (simp add: with_mmu_def s2(2) shrunk_def)
    qed
  next
    assume "free_bytes fl = {}" "new_vma s (vma_start ?a) (vma_end ?a) (vma_pte ?a) ?m = Inl (Panic ?m)"
    then show ?thesis using eq by simp
  qed
qed

text \<open>
  C12. \<open>kmap_pages\<close>, for either page size and a range \<open>map_pages\<close> can take: it records the range in a
  fresh area object, links the area into the tree unless one with the same start is there already,
  changes the translation of exactly the range, keeps the invariants of the area cache, the page
  tables, the tree and the buddy allocator they share, and returns with the lock released. It
  panics only when the buddy allocator has less free memory than a slab of areas and three tables
  for each page take.
\<close>

theorem kmap_pages_correct:
  assumes "paging_inv s fl U V t" "mappable (tables (mmu s)) (kernel_pml4t s) pa va flags n"
  shows "(\<exists>v s' fl' t'. kmap_pages s pa va flags n = Inr s' \<and> v \<notin> U \<and>
      paging_inv s' fl' (insert v U) (linked s V v va) t' \<and> vmas s' = (vmas s)(v := area pa va flags n) \<and>
      kernel_pml4t s' = kernel_pml4t s \<and>
      range_mapped (tables (mmu s)) (tables (mmu s')) (kernel_pml4t s) pa va flags (unat n)) \<or>
    card (free_bytes fl) < unat n * 12288 + 4096 \<and>
      (\<exists>m. kmap_pages s pa va flags n = Inl (Panic m))"
  using kmap_pages_spec [OF assms] by blast

section \<open>Witnesses\<close>

text \<open>An empty table at \<open>0x1000\<close>, an empty tree, and an area cache at \<open>0x9000\<close> that has just been created.\<close>

definition ex_paging :: "slab_state \<Rightarrow> paging_state" where
  "ex_paging k = \<lparr>mmu = \<lparr>tables = \<lambda>_. 0, kmem = k, flushed = []\<rparr>, vmas = \<lambda>_. \<lparr>vma_start = 0, vma_end = 0, vma_pte = 0\<rparr>,
     kernel_rb = \<lparr>rb_root = NULL, rb_mem = \<lambda>_. \<lparr>right = 0, left = 0, parent = 0, color = 0\<rparr>\<rparr>, kernel_pml4t = 0x1000,
     kernel_page_lock = False, vma_cache = 0x9000, cr3 = 0, phys_map_offset = 0, fb_virtual = 0\<rparr>"

lemma table_bytes_zero: "table_bytes (\<lambda>_. 0) r = span r 0"
  by (auto simp: table_bytes_def tbl_zero path_def split: if_splits)

lemma slab_rep_off_empty:
  assumes "slab_inv k c fl [] [] [] os" "\<not> slab_lock k" "\<forall>h\<in>{free_slabs c, partial_slabs c, full_slabs c}. unat h \<notin> R"
  shows "slab_rep_off k c fl R {}"
  using assms by (auto simp: slab_rep_off_def clear_of_def in_use_def intro!: exI [of _ "[]"] exI [of _ os])

lemma ex_paging_inv: "\<exists>k fl. paging_inv (ex_paging k) fl {} {} Leaf \<and> card (free_bytes fl) = 0x800000"
proof -
  obtain fl where fl: "buddy_inv ex_buddy fl" "free_bytes fl = {0x400000 ..< 0xC00000}" using ex_buddy_ready by blast
  have "\<forall>h\<in>{free_slabs 0x9000, partial_slabs 0x9000, full_slabs 0x9000}. unat h \<notin> free_bytes fl"
    by (simp add: fl(2) free_slabs_def partial_slabs_def full_slabs_def)
  then obtain k where k: "slab_inv k 0x9000 fl [] [] [] (\<lambda>_. [])" "object_size (caches k 0x9000) = 56"
      "calc_slab_order 56 = Some (ucast (slab_order (caches k 0x9000)))" "buddy k = ex_buddy" "\<not> slab_lock k"
    using kmem_cache_create_rep [of ex_slab fl 56 "0x9000"] fl(1) by (auto simp: ex_slab_def)
  have "calc_slab_order 56 = Some 0" by code_simp
  then have "slab_order (caches k 0x9000) = 0"
    using k(3) by (simp add: word_unat_eq_iff unsigned_ucast_eq take_bit_nat_eq_self unat_lt_u8 [THEN less_trans])
  moreover have "tree_ok (\<lambda>_. 0) 0x1000" by (simp add: tree_ok_zero page_ok_def)
  moreover have "free_bytes fl \<inter> span 0x1000 0 = {}" by (simp add: fl(2) span_def)
  moreover have "slab_rep_off k 0x9000 fl (span 0x1000 0) {}"
    by (rule slab_rep_off_empty [OF k(1,5)]) (simp add: span_def free_slabs_def partial_slabs_def full_slabs_def)
  ultimately have "paging_inv (ex_paging k) fl {} {} Leaf"
    using k fl(1) by (simp add: table_bytes_zero paging_inv_def ex_paging_def sizeof_vma_def mmu_inv_def tbl_zero ex_region rb_tree_def rb_inv_def bst_def)
  then show ?thesis using fl(2) by (intro exI [of _ k] exI [of _ fl]) simp
qed

theorem kmap_pages_witness:
  "\<exists>k s'. kmap_pages (ex_paging k) 0x7000 0xFFFF800000200000 0x3 2 = Inr s' \<and>
     translate (tables (mmu s')) 0x1000 0xFFFF800000201234 = Some 0x8234"
proof -
  obtain k fl where k: "paging_inv (ex_paging k) fl {} {} Leaf" "card (free_bytes fl) = 0x800000" using ex_paging_inv by blast
  have z: "leaf2m (tables (mmu (ex_paging k))) 0x1000 w = None" for w by (simp add: leaf2m_def ex_paging_def tbl_zero)
  have r: "kernel_pml4t (ex_paging k) = 0x1000" by (simp add: ex_paging_def)
  have "mappable (tables (mmu (ex_paging k))) (kernel_pml4t (ex_paging k)) 0x7000 0xFFFF800000200000 0x3 2"
    by (simp add: mappable_def present_def huge_def const_defs r z)
  from kmap_pages_correct [OF k(1) this] obtain s' where s': "kmap_pages (ex_paging k) 0x7000 0xFFFF800000200000 0x3 2 = Inr s'"
      "range_mapped (tables (mmu (ex_paging k))) (tables (mmu s')) 0x1000 0x7000 0xFFFF800000200000 0x3 2"
    by (auto simp: k(2) r)
  have "same_page 0x3 0xFFFF800000201234 (0xFFFF800000200000 + of_nat 1 * page_bytes 0x3)"
    by (simp add: same_page_def page_bytes_def huge_def const_defs vpn_def)
  then have "translate (tables (mmu s')) 0x1000 0xFFFF800000201234 =
      Some ((0x7000 + of_nat 1 * page_bytes 0x3) OR page_offset 0x3 0xFFFF800000201234)"
    using s'(2) unfolding range_mapped_def by (metis one_less_numeral_iff semiring_norm(76))
  then show ?thesis using s'(1) by (auto simp: page_offset_def page_bytes_def huge_def const_defs take_bit_eq_mod)
qed

end
