(* ===== verification/Paging_Unmap.thy ===== *)
theory Paging_Unmap
  imports Paging_Correct
begin

text \<open>
  The other direction of \<open>Paging_Correct\<close>: \<open>kunmap_pages\<close> looks up the area of the address, takes it out of the
  tree, gives its memory back to the cache and unmaps the pages. The tables that become empty go back to the
  buddy allocator, which is safe because they never share a byte with the slabs of the area cache.
\<close>

section \<open>Unmapping a range\<close>

text \<open>
  \<open>unmappable\<close> is what a call of \<open>unmap_pages\<close> has to respect: 2 MB pages have to be there, 4 KB pages may
  be missing, and what is there has to lead to the given frames. \<open>range_unmapped\<close> is what it does to the translation.
\<close>

definition unmappable :: "(addr \<Rightarrow> u64) \<Rightarrow> addr \<Rightarrow> u64 \<Rightarrow> u64 \<Rightarrow> u64 \<Rightarrow> u64 \<Rightarrow> bool" where
  "unmappable t r pa va flags n \<longleftrightarrow>
     (if huge flags
      then 2 ^ 21 dvd unat pa \<and> unat n \<le> 2 ^ 27 \<and>
        (\<forall>k<unat n. \<exists>e. leaf2m t r (va + of_nat k * HUGE_PAGE_SIZE) = Some e \<and> e AND PTE_ADDR_MASK = pa + of_nat k * HUGE_PAGE_SIZE)
      else 4096 dvd unat pa \<and>
        (\<forall>k<unat n. leaf2m t r (va + of_nat k * PAGE_SIZE) = None \<and>
           (\<forall>e. leaf4k t r (va + of_nat k * PAGE_SIZE) = Some e \<longrightarrow> e AND PTE_ADDR_MASK = pa + of_nat k * PAGE_SIZE)))"

definition range_unmapped :: "(addr \<Rightarrow> u64) \<Rightarrow> (addr \<Rightarrow> u64) \<Rightarrow> addr \<Rightarrow> u64 \<Rightarrow> u64 \<Rightarrow> nat \<Rightarrow> bool" where
  "range_unmapped t t' r va flags n \<longleftrightarrow>
     (\<forall>w. translate t' r w =
        (if \<exists>k<n. same_page flags w (va + of_nat k * page_bytes flags) then None else translate t r w))"

lemma leaf2m_leaf4k: "leaf2m t r w = Some e \<Longrightarrow> leaf4k t r w = None"
  using tbl_snoc [of t r "[VIRT_TO_PML4_IDX w, VIRT_TO_PDPT_IDX w]" "VIRT_TO_PD_IDX w"]
  by (auto simp: leaf2m_def leaf4k_def Let_def split: option.splits if_splits)

lemma unmap_pages_range:
  assumes "mmu_inv s r fl" "freeable (kmem s) fl" "unmappable (tables s) r pa va flags n"
  shows "\<exists>s' fl'. unmap_pages s r pa va flags n = Inr s' \<and> mmu_inv s' r fl' \<and> freeable (kmem s') fl' \<and> within r s fl s' fl' \<and>
    range_unmapped (tables s) (tables s') r va flags (unat n)"
proof (cases "huge flags")
  case True
  then have u: "2 ^ 21 dvd unat pa" "unat n \<le> 2 ^ 27"
      "\<forall>k<unat n. \<exists>e. leaf2m (tables s) r (va + of_nat k * HUGE_PAGE_SIZE) = Some e \<and> e AND PTE_ADDR_MASK = pa + of_nat k * HUGE_PAGE_SIZE"
    using assms(3) by (simp_all add: unmappable_def)
  from unmap_pages_huge_correct [OF assms(1,2) True u] obtain s' fl' where
    1: "unmap_pages s r pa va flags n = Inr s'" "mmu_inv s' r fl'" "freeable (kmem s') fl'" "within r s fl s' fl'"
      "leaf2m (tables s') r = (\<lambda>w. if \<exists>k<unat n. hpn w = hpn (va + of_nat k * HUGE_PAGE_SIZE) then None else leaf2m (tables s) r w)"
      "leaf4k (tables s') r = leaf4k (tables s) r" by blast
  have "leaf4k (tables s) r w = None" if "k < unat n" "hpn w = hpn (va + of_nat k * HUGE_PAGE_SIZE)" for k w
    using u(3) that leaf2m_cong leaf2m_leaf4k by metis
  then have "translate (tables s') r w =
      (if \<exists>k<unat n. hpn w = hpn (va + of_nat k * HUGE_PAGE_SIZE) then None else translate (tables s) r w)" for w
    unfolding translate_def 1(5,6) by (auto split: option.split)
  then have "range_unmapped (tables s) (tables s') r va flags (unat n)"
    using True by (simp add: range_unmapped_def same_page_def page_bytes_def)
  then show ?thesis using 1(1-4) by blast
next
  case False
  then have u: "4096 dvd unat pa" "\<forall>k<unat n. leaf2m (tables s) r (va + of_nat k * PAGE_SIZE) = None \<and>
       (\<forall>e. leaf4k (tables s) r (va + of_nat k * PAGE_SIZE) = Some e \<longrightarrow> e AND PTE_ADDR_MASK = pa + of_nat k * PAGE_SIZE)"
    using assms(3) by (simp_all add: unmappable_def)
  from unmap_pages_4k_spec [OF assms(1,2) False u] show ?thesis
    using False by (simp add: range_unmapped_def same_page_def page_bytes_def)
qed

section \<open>Taking an area out of the tree\<close>

lemma mmu_inv_kmem:
  assumes "mmu_inv m r fl" "buddy k = buddy (kmem m)"
  shows "mmu_inv (m\<lparr>kmem := k\<rparr>) r fl"
  using assms by (simp add: mmu_inv_def)

lemma sorted_key_inj:
  fixes key :: "addr \<Rightarrow> u64"
  shows "sorted_wrt (\<lambda>a b. key a < key b) xs \<Longrightarrow> a \<in> set xs \<Longrightarrow> b \<in> set xs \<Longrightarrow> key a = key b \<Longrightarrow> a = b"
proof -
  assume s: "sorted_wrt (\<lambda>a b. key a < key b) xs" and m: "a \<in> set xs" "b \<in> set xs" "key a = key b"
  have "sorted_wrt (<) (map key xs)" using s by (simp add: sorted_wrt_map)
  then have "distinct (map key xs)" by (simp add: strict_sorted_iff)
  then have "inj_on key (set xs)" by (simp add: distinct_map)
  then show "a = b" using m by (simp add: inj_on_def)
qed

lemma slab_rep_in_not_null:
  assumes "slab_rep_in k c fl U" "p \<in> U"
  shows "p \<noteq> NULL"
proof -
  obtain fr pa fu os where i: "slab_inv k c fl fr pa fu os" and U: "U = in_use k c (set (fr @ pa @ fu)) os"
    using assms(1) by (auto simp: slab_rep_in_def)
  from U assms(2) obtain d where d: "d \<in> set (fr @ pa @ fu)" "p \<in> slots (caches k c) d" by (auto simp: in_use_def)
  then obtain j where j: "p = slot (caches k c) d j" "j < unat (objects_per_slab (caches k c))" by (auto simp: slots_def)
  have ok: "cache_ok (caches k c)" "slab_block (caches k c) d" using i d(1) by (auto simp: slab_inv_def slabs_ok_def slab_at_def)
  have "0 < unat p" using unat_slot [OF cache_okD [OF ok(1)] ok(2) j(2)] ok(1) by (simp add: j(1) cache_ok_def cache_fit_def)
  then show ?thesis by auto
qed

lemma sorted_wrt_remove1: "sorted_wrt P xs \<Longrightarrow> sorted_wrt P (remove1 x xs)"
proof (induction xs)
  case (Cons a xs)
  then show ?case using set_remove1_subset [of x xs] by auto
qed simp

lemma disjoint_ranges_remove1: "disjoint_ranges key fin ns \<Longrightarrow> disjoint_ranges key fin (remove1 x ns)"
  using set_remove1_subset [of x ns] by (auto simp: disjoint_ranges_def intro: sorted_wrt_remove1)

lemma rb_remove_vma_spec:
  assumes "rb_tree (vma_key (vmas s)) (kernel_rb s) t" "nodes t = vma_node ` V" "v \<in> V"
  shows "\<exists>rb t'. rb_remove_vma s v = Inr (s\<lparr>kernel_rb := rb\<rparr>) \<and> rb_tree (vma_key (vmas s)) rb t' \<and>
    inorder t' = remove1 (vma_node v) (inorder t) \<and> nodes t' = vma_node ` (V - {v})"
proof -
  let ?key = "vma_key (vmas s)"
  have vn: "vma_node v \<in> nodes t" using assms(2,3) by simp
  then have "\<exists>a\<in>nodes t. ?key a = ?key (vma_node v)" by blast
  with vma_order.delete_correct [OF assms(1), of "vma_node v"]
  obtain rb t' z where d: "rb_delete (kernel_rb s) (vma_node v) (vma_cmp (vmas s)) = Some (True, rb)" "z \<in> nodes t"
      "?key z = ?key (vma_node v)" "rb_tree ?key rb t'" "inorder t' = remove1 z (inorder t)" by auto
  have st: "sorted_wrt (\<lambda>a b. ?key a < ?key b) (inorder t)" "distinct (inorder t)"
    using assms(1) by (auto simp: rb_tree_def bst_def dest: distinct_inorder)
  have z: "z = vma_node v" by (rule sorted_key_inj [OF st(1) d(2) vn d(3)])
  then have "nodes t' = vma_node ` V - {vma_node v}"
    using st(2) assms(2) by (simp add: d(5))
  also have "\<dots> = vma_node ` (V - {v})" by auto
  finally show ?thesis using d(1,4,5) z by (intro exI [of _ rb] exI [of _ t']) (simp add: rb_remove_vma_def)
qed

section \<open>Unmapping with an area\<close>

text \<open>
  What unmapping needs on top of the invariant: the areas in the tree do not overlap, and the pair
  bits of the buddy allocator tell the truth.
\<close>

definition unmap_ready :: "paging_state \<Rightarrow> (nat \<Rightarrow> addr list) \<Rightarrow> addr set \<Rightarrow> addr set \<Rightarrow> rbt \<Rightarrow> bool" where
  "unmap_ready s fl U V t \<longleftrightarrow> paging_inv s fl U V t \<and> freeable (kmem (mmu s)) fl \<and>
     disjoint_ranges (vma_key (vmas s)) (vma_fin (vmas s)) (inorder t)"

definition area_holds :: "paging_state \<Rightarrow> addr \<Rightarrow> u64 \<Rightarrow> bool" where
  "area_holds s v va \<longleftrightarrow> vma_start (vmas s v) \<le> va \<and> va < vma_end (vmas s v)"

lemma drop_vma_spec:
  assumes inv: "unmap_ready s fl U V t"
  shows "(\<exists>v\<in>V. area_holds s v va \<and>
      (\<exists>s1 t1. drop_vma s va unmap = bindE (with_mmu s1 (unmap s1)) (\<lambda>s. Inr (page_lock_release s)) \<and>
        unmap_ready (page_lock_release s1) fl (U - {v}) (V - {v}) t1 \<and> vmas s1 = vmas s \<and>
        tables (mmu s1) = tables (mmu s) \<and> kernel_pml4t s1 = kernel_pml4t s)) \<or>
    (\<forall>v\<in>V. \<not> area_holds s v va) \<and> drop_vma s va unmap = Inr s"
proof -
  let ?R = "table_bytes (tables (mmu s)) (kernel_pml4t s)"
  have i: "slab_rep_off (kmem (mmu s)) (vma_cache s) fl ?R U" "mmu_inv (mmu s) (kernel_pml4t s) fl"
    "rb_tree (vma_key (vmas s)) (kernel_rb s) t" "nodes t = vma_node ` V" "\<not> kernel_page_lock s" "V \<subseteq> U"
    and dj: "disjoint_ranges (vma_key (vmas s)) (vma_fin (vmas s)) (inorder t)"
    using inv by (auto simp: unmap_ready_def paging_inv_def)
  from rb_find_vma_spec [OF i(3) dj, of va] show ?thesis
  proof (elim disjE exE conjE)
    fix v assume v: "vma_node v \<in> nodes t" "vma_start (vmas s v) \<le> va" "va < vma_end (vmas s v)"
      and f: "rb_find_vma (vmas s) (kernel_rb s) va = Some v"
    have vV: "v \<in> V" using v(1) i(4) by auto
    have nv: "v \<noteq> NULL" using slab_rep_in_not_null [OF slab_rep_offD [OF i(1)]] vV i(6) by auto
    let ?s = "s\<lparr>kernel_page_lock := True\<rparr>"
    obtain rb t1 where r: "rb_remove_vma ?s v = Inr (?s\<lparr>kernel_rb := rb\<rparr>)" "rb_tree (vma_key (vmas s)) rb t1"
        "inorder t1 = remove1 (vma_node v) (inorder t)" "nodes t1 = vma_node ` (V - {v})"
      using rb_remove_vma_spec [of ?s t V v] i(3,4) vV by auto
    obtain k where k: "kmem_cache_kfree (kmem (mmu s)) (vma_cache s) v = Some k" "slab_rep_off k (vma_cache s) fl ?R (U - {v})"
        "buddy k = buddy (kmem (mmu s))" "caches k = caches (kmem (mmu s))"
      using kmem_cache_kfree_rep_off [OF i(1)] vV i(6) by blast
    define s1 where "s1 = set_kmem (?s\<lparr>kernel_rb := rb\<rparr>) k"
    have "drop_vma s va unmap = bindE (with_mmu s1 (unmap s1)) (\<lambda>s. Inr (page_lock_release s))"
      using f nv i(5) r(1) k(1) by (simp add: drop_vma_def page_lock_acquire_def s1_def Let_def)
    moreover have "unmap_ready (page_lock_release s1) fl (U - {v}) (V - {v}) t1"
      using inv r(2-4) k(2-4) mmu_inv_kmem [OF i(2) k(3)] disjoint_ranges_remove1 [OF dj, of "vma_node v"] i(6)
      by (auto simp: unmap_ready_def paging_inv_def freeable_def s1_def set_kmem_def page_lock_release_def)
    ultimately show ?thesis using v(2,3) vV
      by (intro disjI1 bexI [of _ v] conjI exI [of _ s1] exI [of _ t1]) (simp_all add: s1_def set_kmem_def area_holds_def)
  next
    assume a: "\<forall>v. vma_node v \<in> nodes t \<longrightarrow> \<not> (vma_start (vmas s v) \<le> va \<and> va < vma_end (vmas s v))"
      and f: "rb_find_vma (vmas s) (kernel_rb s) va = Some NULL"
    have "drop_vma s va unmap = Inr s" using f by (simp add: drop_vma_def)
    then show ?thesis using a i(4) by (auto simp: area_holds_def)
  qed
qed

lemma unmap_ready_mmu:
  assumes inv: "unmap_ready (page_lock_release s) fl U V t" and m: "mmu_inv m (kernel_pml4t s) fl'" "freeable (kmem m) fl'"
    "within (kernel_pml4t s) (mmu s) fl m fl'"
  shows "unmap_ready (page_lock_release (s\<lparr>mmu := m\<rparr>)) fl' U V t"
proof -
  obtain b where b: "kmem m = (kmem (mmu s))\<lparr>buddy := b\<rparr>" "base_address b = base_address (buddy (kmem (mmu s)))"
      "region_size b = region_size (buddy (kmem (mmu s)))"
      "table_bytes (tables m) (kernel_pml4t s) \<union> free_bytes fl' \<subseteq> table_bytes (tables (mmu s)) (kernel_pml4t s) \<union> free_bytes fl"
    using m(3) by (auto simp: within_def held_def)
  have "slab_rep_off (kmem (mmu s)) (vma_cache s) fl (table_bytes (tables (mmu s)) (kernel_pml4t s)) U" "buddy_inv b fl'"
    using inv m(1) b(1) by (auto simp: unmap_ready_def paging_inv_def page_lock_release_def mmu_inv_def)
  from slab_rep_off_buddy [OF this b(4,2,3)] show ?thesis
    using inv m(1,2) b(1) by (simp add: unmap_ready_def paging_inv_def page_lock_release_def)
qed

text \<open>
  C13. \<open>kunmap_pages\<close> of a range, for either page size, whose mapped pages lead to the given frames. When an area
  holds the address, that area, all of it, leaves the tree and its object goes back to the cache; exactly the given
  pages no longer translate; and the invariants of the cache, the page tables, the tree and the allocator
  they share hold again, with the lock free. When no area holds the address nothing changes, mapped or not.
\<close>

theorem kunmap_pages_correct:
  assumes "unmap_ready s fl U V t" "unmappable (tables (mmu s)) (kernel_pml4t s) pa va flags n"
  shows "(\<exists>v\<in>V. area_holds s v va \<and>
      (\<exists>s' fl' t'. kunmap_pages s pa va flags n = Inr s' \<and> unmap_ready s' fl' (U - {v}) (V - {v}) t' \<and>
        vmas s' = vmas s \<and> kernel_pml4t s' = kernel_pml4t s \<and>
        range_unmapped (tables (mmu s)) (tables (mmu s')) (kernel_pml4t s) va flags (unat n))) \<or>
    (\<forall>v\<in>V. \<not> area_holds s v va) \<and> kunmap_pages s pa va flags n = Inr s"
proof -
  let ?unmap = "\<lambda>s. unmap_pages (mmu s) (kernel_pml4t s) pa va flags n"
  from drop_vma_spec [OF assms(1), of va ?unmap, folded kunmap_pages_def] show ?thesis
  proof (elim disjE bexE exE conjE)
    fix v s1 t1
    assume v: "v \<in> V" "area_holds s v va"
      and e: "kunmap_pages s pa va flags n = bindE (with_mmu s1 (?unmap s1)) (\<lambda>s. Inr (page_lock_release s))"
      and r: "unmap_ready (page_lock_release s1) fl (U - {v}) (V - {v}) t1"
      and m: "vmas s1 = vmas s" "tables (mmu s1) = tables (mmu s)" "kernel_pml4t s1 = kernel_pml4t s"
    have "mmu_inv (mmu s1) (kernel_pml4t s1) fl" "freeable (kmem (mmu s1)) fl"
      using r by (auto simp: unmap_ready_def paging_inv_def page_lock_release_def)
    from unmap_pages_range [OF this assms(2) [folded m(2,3)]] obtain m2 fl' where
      u: "?unmap s1 = Inr m2" "mmu_inv m2 (kernel_pml4t s1) fl'" "freeable (kmem m2) fl'" "within (kernel_pml4t s1) (mmu s1) fl m2 fl'"
        "range_unmapped (tables (mmu s1)) (tables m2) (kernel_pml4t s1) va flags (unat n)" by blast
    let ?s = "page_lock_release (s1\<lparr>mmu := m2\<rparr>)"
    have "kunmap_pages s pa va flags n = Inr ?s" using u(1) by (simp add: e with_mmu_def)
    moreover have "unmap_ready ?s fl' (U - {v}) (V - {v}) t1" by (rule unmap_ready_mmu [OF r u(2-4)])
    ultimately show ?thesis using v u(5) m
      by (intro disjI1 bexI [of _ v] conjI exI [of _ ?s] exI [of _ fl'] exI [of _ t1]) (simp_all add: page_lock_release_def)
  qed blast
qed

section \<open>Witness\<close>

text \<open>
  One page at \<open>0x7000\<close> mapped at address 0 by the tables of \<open>ex_4k\<close>, with an area for it. All of the buddy
  region is handed out; the slab of areas came from its page at \<open>0x500000\<close>.
\<close>

definition ex_mapped :: "slab_state \<Rightarrow> paging_state" where
  "ex_mapped k = (ex_paging k)\<lparr>mmu := ex_4k\<lparr>kmem := k\<rparr>, vmas := \<lambda>_. area 0x7000 0 0x3 1\<rparr>"

lemma ex_4k_bytes: "table_bytes (tables ex_4k) 0x1000 \<subseteq> {0x1000 ..< 0x2000} \<union> {0x400000 ..< 0x403000}"
proof
  fix x assume "x \<in> table_bytes (tables ex_4k) 0x1000"
  then obtain q b where "path q" "tbl (tables ex_4k) 0x1000 q = Some b" "x \<in> span b 0" by (auto simp: table_bytes_def)
  then show "x \<in> {0x1000 ..< 0x2000} \<union> {0x400000 ..< 0x403000}" using ex_4k_ok(4) [of q b] by (auto simp: span_def)
qed

lemma ex_one_page:
  "\<exists>b fl. buddy_inv b fl \<and> free_bytes fl = {0x500000 ..< 0x501000} \<and> base_address b = base_address ex_full \<and> region_size b = region_size ex_full"
proof -
  have "wf_block ex_full 0x500000 0" by (simp add: wf_block_def ex_full_def)
  then have "free_pre ex_full (\<lambda>_. []) 0x500000 0" using ex_full_ok by (simp add: free_pre_def)
  from kfree_inv [OF this page_order] show ?thesis using ex_full_ok(6) by (auto simp: span_def)
qed

lemma ex_area_cache:
  "\<exists>k v. slab_rep_off k 0x9000 (\<lambda>_. []) (table_bytes (tables ex_4k) 0x1000) {v} \<and> buddy k = ex_full \<and>
     object_size (caches k 0x9000) = 56 \<and> slab_order (caches k 0x9000) = 0"
proof -
  let ?R = "table_bytes (tables ex_4k) 0x1000"
  obtain b fl where b: "buddy_inv b fl" "free_bytes fl = {0x500000 ..< 0x501000}" "base_address b = base_address ex_full"
      "region_size b = region_size ex_full" using ex_one_page by blast
  have h: "unat h \<notin> ?R \<union> free_bytes fl" if "h \<in> {free_slabs 0x9000, partial_slabs 0x9000, full_slabs 0x9000}" for h
  proof -
    have "unat h \<in> {0x9000 ..< 0xA000}" using that by (auto simp: free_slabs_def partial_slabs_def full_slabs_def)
    moreover have "{0x9000 ..< 0xA000} \<inter> ({0x1000 ..< 0x2000} \<union> {0x400000 ..< 0x403000} \<union> {0x500000 ..< 0x501000 :: nat}) = {}" by auto
    ultimately show ?thesis using ex_4k_bytes b(2) by blast
  qed
  then obtain k where k: "slab_inv k 0x9000 fl [] [] [] (\<lambda>_. [])" "object_size (caches k 0x9000) = 56"
      "calc_slab_order 56 = Some (ucast (slab_order (caches k 0x9000)))" "buddy k = b" "\<not> slab_lock k"
    using kmem_cache_create_rep [of "ex_slab\<lparr>buddy := b\<rparr>" fl 56 "0x9000"] b(1) by (auto simp: ex_slab_def)
  have "calc_slab_order 56 = Some 0" by code_simp
  then have o0: "slab_order (caches k 0x9000) = 0"
    using k(3) by (simp add: word_unat_eq_iff unsigned_ucast_eq take_bit_nat_eq_self unat_lt_u8 [THEN less_trans])
  have r: "slab_rep_off k 0x9000 fl ?R {}" using h by (intro slab_rep_off_empty [OF k(1,5)]) blast
  have "?R \<inter> free_bytes fl = {}" using ex_4k_bytes b(2) by fastforce
  from kmem_cache_kalloc_rep_off [OF r this] obtain v k2 fl2 where
    v: "shrunk fl fl2 (2 ^ (unat (slab_order (caches k 0x9000)) + 12))" "caches k2 = caches k"
      "base_address (buddy k2) = base_address b" "region_size (buddy k2) = region_size b"
      "if v = NULL then k2 = k \<and> fl2 = fl \<and> cache_exhausted k 0x9000
       else \<not> cache_exhausted k 0x9000 \<and> v \<notin> {} \<and> slab_rep_off k2 0x9000 fl2 ?R (insert v {})"
    unfolding k(4) by blast
  have "v \<noteq> NULL" using v(5) cache_exhausted_empty [OF slab_rep_offD [OF r] o0] b(2) by auto
  then have "slab_rep_off (k2\<lparr>buddy := ex_full\<rparr>) 0x9000 (\<lambda>_. []) ?R {v}"
    using v(3-5) b(3,4) ex_full_ok(3,6) by (intro slab_rep_off_buddy) auto
  then show ?thesis using v(2) k(2) o0 by (intro exI [of _ "k2\<lparr>buddy := ex_full\<rparr>"] exI [of _ v]) simp
qed

lemma ex_mapped_ready:
  "\<exists>s v t. unmap_ready s (\<lambda>_. []) {v} {v} t \<and> area_holds s v 0 \<and> tables (mmu s) = tables ex_4k \<and> kernel_pml4t s = 0x1000"
proof -
  obtain k v where k: "slab_rep_off k 0x9000 (\<lambda>_. []) (table_bytes (tables ex_4k) 0x1000) {v}" "buddy k = ex_full"
     "object_size (caches k 0x9000) = 56" "slab_order (caches k 0x9000) = 0" using ex_area_cache by blast
  have "mmu_inv (ex_4k\<lparr>kmem := k\<rparr>) 0x1000 (\<lambda>_. [])" using mmu_inv_kmem [OF ex_4k_ok(1)] k(2) by (simp add: ex_4k_def ex_kmem_def)
  then have "paging_inv (ex_mapped k) (\<lambda>_. []) {v} {} Leaf"
    using k by (simp add: paging_inv_def ex_mapped_def ex_paging_def sizeof_vma_def rb_tree_def rb_inv_def bst_def)
  from link_vma_spec [OF this, of v] obtain s1 t1 where
    1: "paging_inv (page_lock_release s1) (\<lambda>_. []) {v} {v} t1" "s1 = (ex_mapped k)\<lparr>kernel_page_lock := True, kernel_rb := kernel_rb s1\<rparr>"
    by (auto simp: linked_def)
  let ?s = "page_lock_release s1"
  have sel: "vmas ?s = (\<lambda>_. area 0x7000 0 0x3 1)" "tables (mmu ?s) = tables ex_4k" "kernel_pml4t ?s = 0x1000" "kmem (mmu ?s) = k"
    by (subst 1(2), simp add: page_lock_release_def ex_mapped_def ex_paging_def)+
  have n: "nodes t1 = {vma_node v}" "rb_tree (vma_key (vmas ?s)) (kernel_rb ?s) t1" using 1(1) by (auto simp: paging_inv_def)
  then have "distinct (inorder t1)" by (auto simp: rb_tree_def bst_def dest: distinct_inorder)
  then have "length (inorder t1) = 1" using n(1) distinct_card by fastforce
  then have "inorder t1 = [vma_node v]" using n(1) by (auto simp: length_Suc_conv)
  then have "disjoint_ranges (vma_key (vmas ?s)) (vma_fin (vmas ?s)) (inorder t1)"
    by (simp add: disjoint_ranges_def sel vma_key_def vma_fin_def area_def page_bytes_def huge_def const_defs)
  moreover have "freeable (kmem (mmu ?s)) (\<lambda>_. [])" using ex_full_ok by (simp add: sel freeable_def k(2))
  ultimately have "unmap_ready ?s (\<lambda>_. []) {v} {v} t1" using 1(1) by (simp add: unmap_ready_def)
  moreover have "area_holds ?s v 0" by (simp add: area_holds_def sel area_def page_bytes_def huge_def const_defs)
  ultimately show ?thesis using sel by blast
qed

theorem kunmap_pages_witness:
  "\<exists>s s'. translate (tables (mmu s)) (kernel_pml4t s) 0 = Some 0x7000 \<and> kunmap_pages s 0x7000 0 0x3 1 = Inr s' \<and>
     translate (tables (mmu s')) (kernel_pml4t s) 0 = None \<and> rb_root (kernel_rb s') = NULL"
proof -
  obtain s v t where s: "unmap_ready s (\<lambda>_. []) {v} {v} t" "area_holds s v 0" "tables (mmu s) = tables ex_4k" "kernel_pml4t s = 0x1000"
    using ex_mapped_ready by blast
  have "\<not> huge 0x3" by (simp add: huge_def const_defs)
  then have "unmappable (tables (mmu s)) (kernel_pml4t s) 0x7000 0 0x3 1" and b: "page_bytes 0x3 = PAGE_SIZE" "same_page 0x3 0 0"
    using ex_4k_ok(2,3) by (simp_all add: unmappable_def s(3,4) page_bytes_def same_page_def PTE_ADDR_MASK_def)
  from kunmap_pages_correct [OF s(1) this(1)] s(2) obtain s' fl' t' where
    1: "kunmap_pages s 0x7000 0 0x3 1 = Inr s'" "unmap_ready s' fl' {} {} t'"
      "range_unmapped (tables (mmu s)) (tables (mmu s')) (kernel_pml4t s) 0 0x3 1" by auto
  have "translate (tables (mmu s')) (kernel_pml4t s) 0 = None" using 1(3) b by (simp add: range_unmapped_def)
  moreover have "translate (tables (mmu s)) (kernel_pml4t s) 0 = Some 0x7000"
    using ex_4k_ok(2,3) by (simp add: translate_def s(3,4) PTE_ADDR_MASK_def)
  moreover have "rb_root (kernel_rb s') = NULL" using 1(2) by (cases t') (auto simp: unmap_ready_def paging_inv_def rb_tree_def)
  ultimately show ?thesis using 1(1) by blast
qed

end
