(* ===== verification/Paging_Props.thy ===== *)
theory Paging_Props
  imports Paging Mmu_Props
begin

text \<open>
  The direct map: how the usable entries of the memory map are cut into pieces, and the framebuffer.
\<close>

section \<open>Pieces\<close>

definition piece_bytes :: "u64 \<Rightarrow> u64 \<Rightarrow> nat" where
  "piece_bytes flags n = unat n * (if huge flags then 2 ^ 21 else 2 ^ 12)"

fun chained :: "nat \<Rightarrow> (u64 \<times> u64 \<times> u64) list \<Rightarrow> nat \<Rightarrow> bool" where
  "chained a [] b \<longleftrightarrow> a = b"
| "chained a ((p, flags, n) # ps) b \<longleftrightarrow>
     unat p = a \<and> n \<noteq> 0 \<and> present flags \<and> flags AND PTE_ADDR_MASK = 0 \<and> (if huge flags then 2 ^ 21 else 2 ^ 12) dvd a \<and> chained (a + piece_bytes flags n) ps b"

lemma unat_round_down:
  assumes "s < 64"
  shows "unat (x AND NOT (2 ^ s - 1) :: u64) = unat x div 2 ^ s * 2 ^ s"
  using assms by (rule unat_and_not_low)

lemma unat_round_up:
  assumes "s < 64" "unat x + 2 ^ s \<le> 2 ^ 64"
  shows "unat ((x + 2 ^ s - 1) AND NOT (2 ^ s - 1) :: u64) = (unat x + 2 ^ s - 1) div 2 ^ s * 2 ^ s"
proof -
  have "of_nat (unat x + 2 ^ s - 1) = of_nat (unat x + 2 ^ s) - (of_nat 1 :: u64)"
    using zero_less_power [of "2::nat" s] by (intro of_nat_diff) linarith
  then have "x + 2 ^ s - 1 = of_nat (unat x + 2 ^ s - 1)" by simp
  moreover have "unat x + 2 ^ s - 1 < 2 ^ 64" using assms(2) zero_less_power [of "2::nat" s] by linarith
  ultimately have "unat (x + 2 ^ s - 1) = unat x + 2 ^ s - 1" by (simp only: unat_of_nat_id) (rule unat_of_nat_id, simp)
  then show ?thesis using unat_round_down [OF assms(1), of "x + 2 ^ s - 1"] by simp
qed

lemma unat_count:
  assumes "a \<le> b" "2 ^ s dvd unat a" "2 ^ s dvd unat b" "s < 64"
  shows "unat ((b - a) div 2 ^ s :: u64) * 2 ^ s = unat b - unat a"
proof -
  have "2 ^ s dvd unat b - unat a" using assms(2,3) by (rule dvd_diff_nat [rotated])
  moreover have "unat ((b - a) div 2 ^ s) = (unat b - unat a) div 2 ^ s"
    using assms(1,4) by (simp add: unat_div unat_diff_le)
  ultimately show ?thesis by simp
qed

lemma direct_flags: "present PTE_FLAGS_DIRECT_MAP" "\<not> huge PTE_FLAGS_DIRECT_MAP"
  "present (PTE_FLAGS_DIRECT_MAP OR PTE_HUGE_PAGE)" "huge (PTE_FLAGS_DIRECT_MAP OR PTE_HUGE_PAGE)"
  "PTE_FLAGS_DIRECT_MAP AND PTE_ADDR_MASK = 0" "(PTE_FLAGS_DIRECT_MAP OR PTE_HUGE_PAGE) AND PTE_ADDR_MASK = 0"
  by (simp_all add: present_def huge_def const_defs)

lemma count_nonzero: "unat (n :: u64) * k = d \<Longrightarrow> 0 < d \<Longrightarrow> n \<noteq> 0"
  by auto

lemma direct_pieces_chained:
  assumes "unat (e820_base e) + unat (e820_chunk_size e) + 2 ^ 22 \<le> 2 ^ 64"
  shows "let a = (unat (e820_base e) + 4095) div 4096 * 4096; b = (unat (e820_base e) + unat (e820_chunk_size e)) div 4096 * 4096
    in if b \<le> a then direct_pieces e = [] else chained a (direct_pieces e) b"
proof -
  define A where "A = (e820_base e + PAGE_SIZE - 1) AND NOT (PAGE_SIZE - 1)"
  define L where "L = (e820_base e + e820_chunk_size e) AND NOT (PAGE_SIZE - 1)"
  define H where "H = (A + HUGE_PAGE_SIZE - 1) AND NOT (HUGE_PAGE_SIZE - 1)"
  define E where "E = L AND NOT (HUGE_PAGE_SIZE - 1)"
  have sum: "unat (e820_base e + e820_chunk_size e) = unat (e820_base e) + unat (e820_chunk_size e)"
    using assms by (intro unat_add_no_overflow) simp
  have a: "unat A = (unat (e820_base e) + 4095) div 4096 * 4096"
    using unat_round_up [of 12 "e820_base e"] assms by (simp add: A_def page_size_powers)
  have b: "unat L = (unat (e820_base e) + unat (e820_chunk_size e)) div 4096 * 4096"
    using unat_round_down [of 12 "e820_base e + e820_chunk_size e"] sum by (simp add: L_def page_size_powers)
  have top: "unat A + 2 ^ 21 \<le> 2 ^ 64" using div_times_less_eq_dividend [of "unat (e820_base e) + 4095" 4096] assms unfolding a by simp
  have h: "unat H = (unat A + 2 ^ 21 - 1) div 2 ^ 21 * 2 ^ 21"
    using unat_round_up [of 21 A] top by (simp add: H_def page_size_powers)
  have l: "unat E = unat L div 2 ^ 21 * 2 ^ 21"
    using unat_round_down [of 21 L] by (simp add: E_def page_size_powers)
  have dv: "2 ^ 12 dvd unat A" "2 ^ 12 dvd unat L" "2 ^ 21 dvd unat H" "2 ^ 21 dvd unat E"
    unfolding a b h l by simp_all
  then have dv12: "2 ^ 12 dvd unat H" "2 ^ 12 dvd unat E" by (auto intro: dvd_trans [OF le_imp_power_dvd])
  have AH: "unat A \<le> unat H" unfolding h by simp
  have EL: "unat E \<le> unat L" unfolding l by simp
  have D: "direct_pieces e =
      (if A \<ge> L then []
       else if H \<ge> E then [(A, PTE_FLAGS_DIRECT_MAP, (L - A) div PAGE_SIZE)]
       else (if A < H then [(A, PTE_FLAGS_DIRECT_MAP, (H - A) div PAGE_SIZE)] else []) @
         [(H, PTE_FLAGS_DIRECT_MAP OR PTE_HUGE_PAGE, (E - H) div HUGE_PAGE_SIZE)] @
         (if (L - E) div PAGE_SIZE > 0 then [(E, PTE_FLAGS_DIRECT_MAP, (L - E) div PAGE_SIZE)] else []))"
    unfolding direct_pieces_def Let_def A_def L_def H_def E_def ..
  have small: "unat ((y - x) div PAGE_SIZE) * 2 ^ 12 = unat y - unat x" if "unat x \<le> unat y" "2 ^ 12 dvd unat x" "2 ^ 12 dvd unat y" for x y
    using unat_count [of x y 12] that by (simp add: page_size_powers word_le_nat_alt)
  have big: "unat ((E - H) div HUGE_PAGE_SIZE) * 2 ^ 21 = unat E - unat H" if "unat H \<le> unat E"
    using unat_count [of H E 21] that dv by (simp add: page_size_powers word_le_nat_alt)
  have "if unat L \<le> unat A then direct_pieces e = [] else chained (unat A) (direct_pieces e) (unat L)"
  proof (cases "unat L \<le> unat A")
    case True
    then show ?thesis by (simp add: D word_le_nat_alt)
  next
    case AL: False
    show ?thesis
    proof (cases "unat E \<le> unat H")
      case True
      have c: "unat ((L - A) div PAGE_SIZE) * 2 ^ 12 = unat L - unat A" using small [of A L] AL dv by simp
      then have "(L - A) div PAGE_SIZE \<noteq> 0" using AL count_nonzero by fastforce
      then show ?thesis using True AL c dv direct_flags by (simp add: D word_le_nat_alt piece_bytes_def)
    next
      case HE: False
      have c1: "unat ((H - A) div PAGE_SIZE) * 2 ^ 12 = unat H - unat A" using small [of A H] AH dv dv12 by simp
      have c2: "unat ((E - H) div HUGE_PAGE_SIZE) * 2 ^ 21 = unat E - unat H" using big HE by simp
      have c3: "unat ((L - E) div PAGE_SIZE) * 2 ^ 12 = unat L - unat E" using small [of E L] EL dv dv12 by simp
      have n2: "(E - H) div HUGE_PAGE_SIZE \<noteq> 0" using c2 HE count_nonzero by fastforce
      have n1: "unat A < unat H \<Longrightarrow> (H - A) div PAGE_SIZE \<noteq> 0" using c1 count_nonzero by fastforce
      have n3: "(L - E) div PAGE_SIZE = 0 \<longleftrightarrow> unat L = unat E" using c3 EL by (metis diff_is_0_eq le_antisym mult_eq_0_iff power_not_zero unat_0 unat_eq_0 zero_neq_numeral order_refl)
      have tail: "chained (unat E) (if (L - E) div PAGE_SIZE > 0 then [(E, PTE_FLAGS_DIRECT_MAP, (L - E) div PAGE_SIZE)] else []) (unat L)"
        using n3 c3 EL dv12 direct_flags by (auto simp: piece_bytes_def word_neq_0_conv [symmetric])
      have mid: "chained (unat H) ([(H, PTE_FLAGS_DIRECT_MAP OR PTE_HUGE_PAGE, (E - H) div HUGE_PAGE_SIZE)] @
          (if (L - E) div PAGE_SIZE > 0 then [(E, PTE_FLAGS_DIRECT_MAP, (L - E) div PAGE_SIZE)] else [])) (unat L)"
        using tail n2 c2 HE dv direct_flags by (simp add: piece_bytes_def)
      show ?thesis
      proof (cases "unat A < unat H")
        case True
        then show ?thesis using mid AL HE n1 c1 dv direct_flags by (simp add: D word_le_nat_alt word_less_nat_alt piece_bytes_def)
      next
        case False
        then have "unat A = unat H" using AH by simp
        then show ?thesis using mid AL HE False by (simp add: D word_le_nat_alt word_less_nat_alt)
      qed
    qed
  qed
  then show ?thesis unfolding a b Let_def .
qed

text \<open>
  \<open>map_direct_mapping\<close> cuts a usable entry into pieces that follow each other without gap or
  overlap from the first page boundary in the entry to the last one, with the pieces of 2 MB pages
  aligned to 2 MB; it maps nothing of an entry that holds no whole page.
\<close>

theorem direct_pieces_correct:
  assumes "unat (e820_base e) + unat (e820_chunk_size e) + 2 ^ 22 \<le> 2 ^ 64"
  shows "let a = (unat (e820_base e) + 4095) div 4096 * 4096; b = (unat (e820_base e) + unat (e820_chunk_size e)) div 4096 * 4096
    in if b \<le> a then direct_pieces e = [] else chained a (direct_pieces e) b"
  using assms by (rule direct_pieces_chained)

theorem direct_pieces_witness:
  "chained 0x1000 (direct_pieces \<lparr>e820_base = 0x800, e820_chunk_size = 0x601000, e820_type = 1, e820_ACPI_ext_attr = 0\<rparr>) 0x601000"
  using direct_pieces_correct [of "\<lparr>e820_base = 0x800, e820_chunk_size = 0x601000, e820_type = 1, e820_ACPI_ext_attr = 0\<rparr>"] by simp

lemma framebuffer_range:
  assumes "0 < unat (pitch v) * unat (height_px v)"
  shows "case framebuffer_pages v of (base, n) \<Rightarrow>
    4096 dvd unat base \<and> unat base \<le> unat (framebuffer_address v) \<and>
    unat (framebuffer_address v) + unat (pitch v) * unat (height_px v) \<le> unat base + unat n * 4096 \<and>
    unat base + unat n * 4096 < unat (framebuffer_address v) + unat (pitch v) * unat (height_px v) + 4096"
proof -
  define F P Q where "F = unat (framebuffer_address v)" and "P = unat (pitch v)" and "Q = unat (height_px v)"
  define area where "area = (ucast (ucast (pitch v) * ucast (height_px v) :: u32) :: u64)"
  define fb where "fb = (ucast (framebuffer_address v) :: u64)"
  have F: "F < 2 ^ 32" using unat_lt_u32 by (simp add: F_def)
  have "P \<le> 65535" "Q \<le> 65535" using unat_lt_u16 [of "pitch v"] unat_lt_u16 [of "height_px v"] by (simp_all add: P_def Q_def)
  then have PQ: "P * Q \<le> 65535 * 65535" by (rule mult_le_mono)
  have u: "unat (ucast (pitch v) :: u32) = P" "unat (ucast (height_px v) :: u32) = Q"
    using unat_lt_u16 [of "pitch v"] unat_lt_u16 [of "height_px v"] by (simp_all add: P_def Q_def unsigned_ucast_eq take_bit_nat_eq_self)
  have "unat (ucast (pitch v) * ucast (height_px v) :: u32) = P * Q" using PQ by (simp add: unat_word_ariths u)
  then have ar: "unat area = P * Q" using PQ by (simp add: area_def unsigned_ucast_eq take_bit_nat_eq_self)
  have f: "unat fb = F" using F by (simp add: fb_def F_def unsigned_ucast_eq take_bit_nat_eq_self)
  have s1: "unat (fb + area) = F + P * Q" using f ar F PQ by (subst unat_add_no_overflow) simp_all
  have e: "fb + area - 1 + PAGE_SIZE = fb + area + 2 ^ 12 - 1" by (simp add: page_size_powers)
  have b: "unat (fb AND NOT (PAGE_SIZE - 1)) = F div 4096 * 4096"
    using unat_round_down [of 12 fb] f by (simp add: page_size_powers)
  have en: "unat ((fb + area - 1 + PAGE_SIZE) AND NOT (PAGE_SIZE - 1)) = (F + P * Q + 4095) div 4096 * 4096"
    unfolding e using unat_round_up [of 12 "fb + area"] s1 F PQ by (simp add: page_size_powers)
  have le: "F div 4096 * 4096 \<le> (F + P * Q + 4095) div 4096 * 4096" by (intro mult_le_mono1 div_le_mono) simp
  have cnt: "unat ((((fb + area - 1 + PAGE_SIZE) AND NOT (PAGE_SIZE - 1)) - (fb AND NOT (PAGE_SIZE - 1))) div PAGE_SIZE) * 4096 =
      (F + P * Q + 4095) div 4096 * 4096 - F div 4096 * 4096"
    using unat_count [of "fb AND NOT (PAGE_SIZE - 1)" "(fb + area - 1 + PAGE_SIZE) AND NOT (PAGE_SIZE - 1)" 12] b en le
    by (simp add: word_le_nat_alt page_size_powers)
  have up: "F + P * Q \<le> (F + P * Q + 4095) div 4096 * 4096" "(F + P * Q + 4095) div 4096 * 4096 < F + P * Q + 4096" by linarith+
  show ?thesis
    unfolding framebuffer_pages_def Let_def area_def [symmetric] fb_def [symmetric] prod.case F_def [symmetric] P_def [symmetric] Q_def [symmetric]
    unfolding b cnt using le up by auto
qed

text \<open>
  The pages \<open>map_framebuffer\<close> maps hold every byte of the framebuffer: the range starts at or
  before its first byte and ends after its last one.
\<close>

theorem framebuffer_covered:
  assumes "0 < unat (pitch v) * unat (height_px v)"
  shows "case framebuffer_pages v of (base, n) \<Rightarrow>
    4096 dvd unat base \<and> unat base \<le> unat (framebuffer_address v) \<and>
    unat (framebuffer_address v) + unat (pitch v) * unat (height_px v) \<le> unat base + unat n * 4096 \<and>
    unat base + unat n * 4096 < unat (framebuffer_address v) + unat (pitch v) * unat (height_px v) + 4096"
  using assms by (rule framebuffer_range)

theorem framebuffer_witness:
  "case framebuffer_pages \<lparr>framebuffer_address = 0xFD000000, pitch = 4096, width_px = 1024, height_px = 768, bpp = 32\<rparr> of (base, n) \<Rightarrow>
     0xFD000000 + 4096 * 768 \<le> unat base + unat n * 4096"
  using framebuffer_covered [of "\<lparr>framebuffer_address = 0xFD000000, pitch = 4096, width_px = 1024, height_px = 768, bpp = 32\<rparr>"]
  by (auto split: prod.splits)

end
