(* ===== verification/Paging_Ranges.thy ===== *)
theory Paging_Ranges
  imports Paging_Correct Paging_Props
begin

text \<open>
  Sequences of mappings. A request is one call of \<open>kmap_pages\<close>; its range is an interval of the 48
  bits of a virtual address that the processor translates. Requests with disjoint ranges do not
  disturb each other, so that after all of them every range is mapped linearly to its frames.
\<close>

section \<open>Requests\<close>

record request =
  req_pa :: u64
  req_va :: u64
  req_flags :: u64
  req_n :: u64

definition canon :: "u64 \<Rightarrow> nat" where
  "canon v = unat v mod 2 ^ 48"

definition page_shift :: "u64 \<Rightarrow> nat" where
  "page_shift flags = (if huge flags then 21 else 12)"

definition req_bytes :: "request \<Rightarrow> nat" where
  "req_bytes r = unat (req_n r) * 2 ^ page_shift (req_flags r)"

definition reach :: "request \<Rightarrow> nat set" where
  "reach r = {canon (req_va r) ..< canon (req_va r) + req_bytes r}"

definition req_ok :: "request \<Rightarrow> bool" where
  "req_ok r \<longleftrightarrow>
     present (req_flags r) \<and> req_flags r AND PTE_ADDR_MASK = 0 \<and>
     2 ^ page_shift (req_flags r) dvd unat (req_pa r) \<and> 2 ^ page_shift (req_flags r) dvd unat (req_va r) \<and>
     unat (req_pa r) + req_bytes r \<le> 2 ^ 52 \<and> canon (req_va r) + req_bytes r \<le> 2 ^ 48"

definition target :: "request \<Rightarrow> u64 \<Rightarrow> u64" where
  "target r w = req_pa r + of_nat (canon w - canon (req_va r))"

definition req_cost :: "request \<Rightarrow> nat" where
  "req_cost r = 4096 + unat (req_n r) * 12288"

section \<open>Pages of a range\<close>

lemma canon_div: "b \<le> 48 \<Longrightarrow> canon v div 2 ^ b = unat v div 2 ^ b mod 2 ^ (48 - b)"
  using drop_bit_take_bit [of b 48 "unat v"] by (simp add: canon_def take_bit_eq_mod drop_bit_eq_div)

lemma canon_mod: "b \<le> 48 \<Longrightarrow> canon v mod 2 ^ b = unat v mod 2 ^ b"
  unfolding canon_def by (rule mod_mod_cancel) (rule le_imp_power_dvd)

lemma same_page_div:
  "same_page flags w v \<longleftrightarrow> canon w div 2 ^ page_shift flags = canon v div 2 ^ page_shift flags"
  by (simp add: same_page_def page_shift_def canon_div word_unat_eq_iff unat_vpn unat_hpn)

lemma page_bytes_power: "page_bytes flags = 2 ^ page_shift flags"
  by (simp add: page_bytes_def page_shift_def page_size_powers)

lemma page_shift_le: "page_shift flags \<le> 21" "12 \<le> page_shift flags"
  by (simp_all add: page_shift_def)

lemma canon_dvd: "req_ok r \<Longrightarrow> 2 ^ page_shift (req_flags r) dvd canon (req_va r)"
  using page_shift_le(1) [of "req_flags r"] by (simp add: req_ok_def dvd_eq_mod_eq_0 canon_mod)

lemma same_page_reach:
  assumes "req_ok r" "k < unat (req_n r)"
  shows "same_page (req_flags r) w (req_va r + of_nat k * page_bytes (req_flags r)) \<longleftrightarrow>
    canon (req_va r) \<le> canon w \<and> (canon w - canon (req_va r)) div 2 ^ page_shift (req_flags r) = k"
proof -
  let ?s = "page_shift (req_flags r)"
  obtain q where q: "canon (req_va r) = 2 ^ ?s * q" using canon_dvd [OF assms(1)] by (auto elim: dvdE)
  have s: "?s \<le> 48" "?s + (48 - ?s) \<le> 64" using page_shift_le(1) [of "req_flags r"] by simp_all
  have pw: "(2::nat) ^ 48 = 2 ^ ?s * 2 ^ (48 - ?s)" using s(1) by (simp add: power_add [symmetric])
  have "2 ^ ?s * (q + unat (req_n r)) \<le> 2 ^ ?s * 2 ^ (48 - ?s)"
    using assms(1) unfolding pw [symmetric] by (simp add: req_ok_def req_bytes_def q algebra_simps)
  then have lt: "q + k < 2 ^ (48 - ?s)" using assms(2) by simp
  have "canon (req_va r + of_nat k * 2 ^ ?s) div 2 ^ ?s = (unat (req_va r) div 2 ^ ?s + k) mod 2 ^ (48 - ?s)"
    unfolding canon_div [OF s(1)] by (rule page_step [OF s(2)])
  also have "\<dots> = (canon (req_va r) div 2 ^ ?s + k) mod 2 ^ (48 - ?s)" unfolding canon_div [OF s(1)] by (simp add: mod_add_left_eq)
  also have "\<dots> = q + k" using lt by (simp add: q)
  finally have "same_page (req_flags r) w (req_va r + of_nat k * page_bytes (req_flags r)) \<longleftrightarrow> canon w div 2 ^ ?s = q + k"
    by (simp add: same_page_div page_bytes_power)
  moreover have "canon w div 2 ^ ?s = q + k \<longleftrightarrow> canon (req_va r) \<le> canon w \<and> (canon w - canon (req_va r)) div 2 ^ ?s = k"
  proof (cases "2 ^ ?s * q \<le> canon w")
    case True
    then obtain d where d: "canon w = 2 ^ ?s * q + d" using le_Suc_ex by blast
    then have "canon w div 2 ^ ?s = q + d div 2 ^ ?s" by simp
    then show ?thesis using d by (simp add: q)
  next
    case False
    then have "canon w div 2 ^ ?s < q" by (simp add: div_less_iff_less_mult mult.commute not_le)
    then show ?thesis using False by (simp add: q)
  qed
  ultimately show ?thesis by blast
qed

lemma reach_iff:
  assumes "req_ok r"
  shows "canon w \<in> reach r \<longleftrightarrow> (\<exists>k<unat (req_n r). same_page (req_flags r) w (req_va r + of_nat k * page_bytes (req_flags r)))"
proof -
  have "canon w \<in> reach r \<longleftrightarrow> canon (req_va r) \<le> canon w \<and>
      (canon w - canon (req_va r)) div 2 ^ page_shift (req_flags r) < unat (req_n r)"
    by (auto simp: reach_def req_bytes_def div_less_iff_less_mult)
  then show ?thesis using same_page_reach [OF assms] by metis
qed

lemma target_frame:
  assumes ok: "req_ok r" and w: "canon w \<in> reach r" and k: "k = (canon w - canon (req_va r)) div 2 ^ page_shift (req_flags r)"
  shows "(req_pa r + of_nat k * page_bytes (req_flags r)) OR page_offset (req_flags r) w = target r w"
proof -
  let ?s = "page_shift (req_flags r)"
  have s: "?s \<le> 48" using page_shift_le(1) [of "req_flags r"] by simp
  define d where "d = canon w - canon (req_va r)"
  define f where "f = req_pa r + of_nat k * 2 ^ ?s"
  have d: "canon w = canon (req_va r) + d" "d < req_bytes r" using w by (auto simp: d_def reach_def)
  have kd: "k * 2 ^ ?s + d mod 2 ^ ?s = d" unfolding k d_def by (rule div_mult_mod_eq)
  have dm: "unat w mod 2 ^ ?s = d mod 2 ^ ?s"
    using canon_dvd [OF ok] canon_mod [OF s, of w] unfolding d(1) by (metis add.commute add.left_neutral dvd_imp_mod_0 mod_add_left_eq)
  have po: "page_offset (req_flags r) w = take_bit ?s w" by (simp add: page_offset_def page_shift_def)
  have "unat (req_pa r) + k * 2 ^ ?s < 2 ^ 52" using ok d(2) kd by (simp add: req_ok_def)
  moreover have "f = of_nat (unat (req_pa r) + k * 2 ^ ?s)" by (simp add: f_def)
  ultimately have "unat f = unat (req_pa r) + k * 2 ^ ?s" by (simp only: unat_of_nat_id) (rule unat_of_nat_id, simp)
  then have "2 ^ ?s dvd unat f" using ok by (simp add: req_ok_def)
  then have "take_bit ?s (unat f) = 0" by (simp add: take_bit_eq_mod dvd_eq_mod_eq_0)
  then have "take_bit ?s f = 0" by (metis unsigned_take_bit_eq unsigned_0 word_unat_eq_iff)
  then have "f AND take_bit ?s w = 0" by (metis and.left_commute and_zero_eq take_bit_eq_mask)
  then have "f OR take_bit ?s w = f + take_bit ?s w" by (simp add: disjunctive_add_eq_or)
  moreover have "unat (take_bit ?s w) = d mod 2 ^ ?s" using take_bit_eq_mod [of ?s "unat w"] dm by (simp only: unsigned_take_bit_eq)
  then have "of_nat (unat (take_bit ?s w)) = (of_nat (d mod 2 ^ ?s) :: u64)" by (rule arg_cong)
  then have "take_bit ?s w = of_nat (d mod 2 ^ ?s)" by (simp only: of_nat_unat ucast_id)
  moreover have "f + of_nat (d mod 2 ^ ?s) = req_pa r + of_nat d" unfolding f_def by (subst (2) kd [symmetric]) simp
  ultimately show ?thesis by (simp only: po page_bytes_power f_def target_def d_def)
qed


section \<open>One request\<close>

definition kmap_req :: "request \<Rightarrow> paging_state \<Rightarrow> paging_state res" where
  "kmap_req r s = kmap_pages s (req_pa r) (req_va r) (req_flags r) (req_n r)"

text \<open>The pages of small requests lie outside every 2 MB page.\<close>

definition clear_of_huge :: "(addr \<Rightarrow> u64) \<Rightarrow> addr \<Rightarrow> request \<Rightarrow> bool" where
  "clear_of_huge t root r \<longleftrightarrow> (\<not> huge (req_flags r) \<longrightarrow> (\<forall>w. canon w \<in> reach r \<longrightarrow> leaf2m t root w = None))"

lemma req_mappable:
  assumes "req_ok r" "clear_of_huge t root r"
  shows "mappable t root (req_pa r) (req_va r) (req_flags r) (req_n r)"
proof -
  have n: "unat (req_n r) * 2 ^ page_shift (req_flags r) \<le> 2 ^ 48" using assms(1) by (simp add: req_ok_def req_bytes_def)
  show ?thesis
  proof (cases "huge (req_flags r)")
    case True
    then show ?thesis using assms(1) n by (simp add: mappable_def req_ok_def req_bytes_def page_shift_def)
  next
    case False
    have "leaf2m t root (req_va r + of_nat k * PAGE_SIZE) = None" if "k < unat (req_n r)" for k
    proof -
      have "same_page (req_flags r) (req_va r + of_nat k * page_bytes (req_flags r)) (req_va r + of_nat k * page_bytes (req_flags r))"
        by (simp add: same_page_def)
      then have "canon (req_va r + of_nat k * page_bytes (req_flags r)) \<in> reach r" using reach_iff [OF assms(1)] that by blast
      then show ?thesis using assms(2) False by (simp add: clear_of_huge_def page_bytes_def)
    qed
    then show ?thesis using assms(1) n False by (simp add: mappable_def req_ok_def req_bytes_def page_shift_def)
  qed
qed

definition linear :: "(addr \<Rightarrow> u64) \<Rightarrow> addr \<Rightarrow> request \<Rightarrow> bool" where
  "linear t root r \<longleftrightarrow> (\<forall>w. canon w \<in> reach r \<longrightarrow> translate t root w = Some (target r w))"

definition unchanged_but :: "nat set \<Rightarrow> (addr \<Rightarrow> u64) \<Rightarrow> (addr \<Rightarrow> u64) \<Rightarrow> addr \<Rightarrow> bool" where
  "unchanged_but A t t' root \<longleftrightarrow>
     (\<forall>w. canon w \<notin> A \<longrightarrow> translate t' root w = translate t root w \<and> leaf2m t' root w = leaf2m t root w)"

lemma unchanged_but_trans: "unchanged_but A t t' r \<Longrightarrow> unchanged_but B t' t'' r \<Longrightarrow> unchanged_but (A \<union> B) t t'' r"
  by (simp add: unchanged_but_def)

lemma unchanged_but_refl [simp]: "unchanged_but A t t r"
  by (simp add: unchanged_but_def)

lemma linear_kept: "linear t root r \<Longrightarrow> unchanged_but A t t' root \<Longrightarrow> A \<inter> reach r = {} \<Longrightarrow> linear t' root r"
  by (auto simp: linear_def unchanged_but_def)

lemma clear_kept: "clear_of_huge t root r \<Longrightarrow> unchanged_but A t t' root \<Longrightarrow> A \<inter> reach r = {} \<Longrightarrow> clear_of_huge t' root r"
  by (auto simp: clear_of_huge_def unchanged_but_def)

lemma range_mapped_req:
  assumes ok: "req_ok r" and m: "range_mapped t t' root (req_pa r) (req_va r) (req_flags r) (unat (req_n r))"
  shows "linear t' root r" "unchanged_but (reach r) t t' root"
proof -
  show "linear t' root r" unfolding linear_def
  proof (intro allI impI)
    fix w assume w: "canon w \<in> reach r"
    then obtain k where k: "k < unat (req_n r)" "same_page (req_flags r) w (req_va r + of_nat k * page_bytes (req_flags r))"
      using reach_iff [OF ok] by blast
    then have "k = (canon w - canon (req_va r)) div 2 ^ page_shift (req_flags r)" using same_page_reach [OF ok] by metis
    from target_frame [OF ok w this] show "translate t' root w = Some (target r w)" using m k by (auto simp: range_mapped_def)
  qed
  show "unchanged_but (reach r) t t' root"
    using m reach_iff [OF ok] unfolding unchanged_but_def range_mapped_def by blast
qed

text \<open>What a mapping routine keeps, with \<open>A\<close> the addresses it may map anew and \<open>n\<close> the bytes it may take.\<close>

definition mapped_on :: "nat set \<Rightarrow> nat \<Rightarrow> paging_state \<Rightarrow> (nat \<Rightarrow> addr list) \<Rightarrow> paging_state \<Rightarrow> (nat \<Rightarrow> addr list) \<Rightarrow> bool" where
  "mapped_on A n s fl s' fl' \<longleftrightarrow>
     (\<exists>U V t. paging_inv s' fl' U V t) \<and> kernel_pml4t s' = kernel_pml4t s \<and> shrunk fl fl' n \<and>
     held (mmu s') (kernel_pml4t s) fl' \<subseteq> held (mmu s) (kernel_pml4t s) fl \<and>
     unchanged_but A (tables (mmu s)) (tables (mmu s')) (kernel_pml4t s)"

lemma mapped_on_trans:
  "mapped_on A m s fl s' fl' \<Longrightarrow> mapped_on B n s' fl' s'' fl'' \<Longrightarrow> mapped_on (A \<union> B) (m + n) s fl s'' fl''"
  using shrunk_trans unchanged_but_trans order_trans unfolding mapped_on_def by metis

lemma kmap_req_spec:
  assumes inv: "paging_inv s fl U V t" and ok: "req_ok r" "clear_of_huge (tables (mmu s)) (kernel_pml4t s) r"
  shows "(\<exists>s' fl'. kmap_req r s = Inr s' \<and> mapped_on (reach r) (req_cost r) s fl s' fl' \<and>
      linear (tables (mmu s')) (kernel_pml4t s) r) \<or>
    card (free_bytes fl) < req_cost r \<and> (\<exists>m. kmap_req r s = Inl (Panic m))"
  using kmap_pages_spec [OF inv req_mappable [OF ok]]
proof (elim disjE exE conjE)
  fix v s' fl' t'
  assume a: "kmap_pages s (req_pa r) (req_va r) (req_flags r) (req_n r) = Inr s'"
    "paging_inv s' fl' (insert v U) (linked s V v (req_va r)) t'" "kernel_pml4t s' = kernel_pml4t s"
    "shrunk fl fl' (4096 + unat (req_n r) * 12288)" "held (mmu s') (kernel_pml4t s) fl' \<subseteq> held (mmu s) (kernel_pml4t s) fl"
    "range_mapped (tables (mmu s)) (tables (mmu s')) (kernel_pml4t s) (req_pa r) (req_va r) (req_flags r) (unat (req_n r))"
  then show ?thesis using range_mapped_req [OF ok(1) a(6)] unfolding kmap_req_def mapped_on_def req_cost_def by blast
qed (simp add: kmap_req_def req_cost_def)

section \<open>Sequences\<close>

primrec kmap_all :: "request list \<Rightarrow> paging_state \<Rightarrow> paging_state res" where
  "kmap_all [] s = Inr s"
| "kmap_all (r # rs) s = bindE (kmap_req r s) (kmap_all rs)"

definition total_cost :: "request list \<Rightarrow> nat" where
  "total_cost rs = sum_list (map req_cost rs)"

definition reaches :: "request list \<Rightarrow> nat set" where
  "reaches rs = (\<Union>r\<in>set rs. reach r)"

abbreviation ranges_apart :: "request list \<Rightarrow> bool" where
  "ranges_apart \<equiv> sorted_wrt (\<lambda>r q. reach r \<inter> reach q = {})"

lemma reaches_Cons [simp]: "reaches (r # rs) = reach r \<union> reaches rs" "reaches [] = {}"
  by (simp_all add: reaches_def)

lemma kmap_all_spec:
  assumes "paging_inv s fl U V t" "\<forall>r\<in>set rs. req_ok r \<and> clear_of_huge (tables (mmu s)) (kernel_pml4t s) r" "ranges_apart rs"
  shows "(\<exists>s' fl'. kmap_all rs s = Inr s' \<and> mapped_on (reaches rs) (total_cost rs) s fl s' fl' \<and>
      (\<forall>r\<in>set rs. linear (tables (mmu s')) (kernel_pml4t s) r)) \<or>
    card (free_bytes fl) < total_cost rs \<and> (\<exists>m. kmap_all rs s = Inl (Panic m))"
  using assms
proof (induction rs arbitrary: s fl U V t)
  case Nil
  then have "mapped_on {} 0 s fl s fl" by (auto simp: mapped_on_def)
  then show ?case by (auto simp: total_cost_def)
next
  case (Cons r rs)
  have ok: "req_ok r" "clear_of_huge (tables (mmu s)) (kernel_pml4t s) r" and dj: "\<forall>q\<in>set rs. reach r \<inter> reach q = {}"
    using Cons.prems(2,3) by auto
  from kmap_req_spec [OF Cons.prems(1) ok] show ?case
  proof (elim disjE exE conjE)
    fix s1 fl1 assume 1: "kmap_req r s = Inr s1" "mapped_on (reach r) (req_cost r) s fl s1 fl1" "linear (tables (mmu s1)) (kernel_pml4t s) r"
    obtain U1 V1 t1 where i1: "paging_inv s1 fl1 U1 V1 t1" and r1: "kernel_pml4t s1 = kernel_pml4t s"
      and sh: "shrunk fl fl1 (req_cost r)" and un: "unchanged_but (reach r) (tables (mmu s)) (tables (mmu s1)) (kernel_pml4t s)"
      using 1(2) by (auto simp: mapped_on_def)
    have c1: "\<forall>q\<in>set rs. req_ok q \<and> clear_of_huge (tables (mmu s1)) (kernel_pml4t s1) q"
      using Cons.prems(2) clear_kept [OF _ un] dj by (auto simp: r1)
    have ap: "ranges_apart rs" using Cons.prems(3) by simp
    from Cons.IH [OF i1 c1 ap] show ?thesis
    proof (elim disjE exE conjE)
      fix s2 fl2 assume 2: "kmap_all rs s1 = Inr s2" "mapped_on (reaches rs) (total_cost rs) s1 fl1 s2 fl2"
        "\<forall>r\<in>set rs. linear (tables (mmu s2)) (kernel_pml4t s1) r"
      have "unchanged_but (reaches rs) (tables (mmu s1)) (tables (mmu s2)) (kernel_pml4t s)"
        using 2(2) by (simp add: mapped_on_def r1)
      moreover have "reaches rs \<inter> reach r = {}" using dj by (auto simp: reaches_def)
      ultimately have "linear (tables (mmu s2)) (kernel_pml4t s) r" using linear_kept [OF 1(3)] by blast
      then show ?thesis using 1(1) 2(1,3) mapped_on_trans [OF 1(2) 2(2)] r1 by (auto simp: total_cost_def)
    next
      fix m assume "card (free_bytes fl1) < total_cost rs" "kmap_all rs s1 = Inl (Panic m)"
      then show ?thesis using 1(1) sh by (auto simp: total_cost_def shrunk_def)
    qed
  qed (auto simp: total_cost_def)
qed

lemma kmap_all_append: "kmap_all (rs @ qs) s = bindE (kmap_all rs s) (kmap_all qs)"
proof (induction rs arbitrary: s)
  case (Cons r rs)
  then show ?case by (cases "kmap_req r s") simp_all
qed simp

end
