(* ===== verification/Paging_Boot.thy ===== *)
theory Paging_Boot
  imports Paging_Ranges
begin

text \<open>
  \<open>__init_mmu\<close> as a whole: from an allocator that is ready, an empty tree, a kernel image and a memory
  map to the page table the kernel runs on.
\<close>

section \<open>Phases\<close>

text \<open>\<open>progress\<close>: the requests so far have been mapped, at most \<open>c\<close> bytes have been taken.\<close>

definition progress :: "request list \<Rightarrow> nat \<Rightarrow> paging_state \<Rightarrow> (nat \<Rightarrow> addr list) \<Rightarrow> paging_state \<Rightarrow> (nat \<Rightarrow> addr list) \<Rightarrow> bool" where
  "progress rs c s0 fl0 s fl \<longleftrightarrow>
     mapped_on (reaches rs) c s0 fl0 s fl \<and> (\<forall>r\<in>set rs. linear (tables (mmu s)) (kernel_pml4t s0) r)"

definition no_huge :: "paging_state \<Rightarrow> bool" where
  "no_huge s \<longleftrightarrow> (\<forall>w. leaf2m (tables (mmu s)) (kernel_pml4t s) w = None)"

lemma apart_append: "ranges_apart (rs @ qs) \<longleftrightarrow> ranges_apart rs \<and> ranges_apart qs \<and> (\<forall>r\<in>set rs. \<forall>q\<in>set qs. reach r \<inter> reach q = {})"
  by (simp add: sorted_wrt_append)

lemma progress_map:
  assumes p: "progress rs c s0 fl0 s fl" and z: "no_huge s0" and ap: "ranges_apart (rs @ qs)" and ok: "\<forall>q\<in>set qs. req_ok q"
  shows "(\<exists>s' fl'. kmap_all qs s = Inr s' \<and> progress (rs @ qs) (c + total_cost qs) s0 fl0 s' fl' \<and>
      held (mmu s') (kernel_pml4t s0) fl' \<subseteq> held (mmu s) (kernel_pml4t s0) fl) \<or>
    card (free_bytes fl0) < c + total_cost qs \<and> (\<exists>m. kmap_all qs s = Inl (Panic m))"
proof -
  obtain U V t where i: "paging_inv s fl U V t" and root: "kernel_pml4t s = kernel_pml4t s0" and sh: "shrunk fl0 fl c"
    and un: "unchanged_but (reaches rs) (tables (mmu s0)) (tables (mmu s)) (kernel_pml4t s0)"
    using p by (auto simp: progress_def mapped_on_def)
  have dj: "reaches rs \<inter> reach q = {}" if "q \<in> set qs" for q using ap that by (auto simp: apart_append reaches_def)
  have "clear_of_huge (tables (mmu s)) (kernel_pml4t s) q" if "q \<in> set qs" for q
    unfolding root using z by (intro clear_kept [OF _ un dj [OF that]]) (simp add: clear_of_huge_def no_huge_def)
  then have cl: "\<forall>q\<in>set qs. req_ok q \<and> clear_of_huge (tables (mmu s)) (kernel_pml4t s) q" using ok by blast
  have aq: "ranges_apart qs" using ap by (simp add: apart_append)
  from kmap_all_spec [OF i cl aq] show ?thesis
  proof (elim disjE exE conjE)
    fix s' fl' assume k: "kmap_all qs s = Inr s'" "mapped_on (reaches qs) (total_cost qs) s fl s' fl'"
      "\<forall>r\<in>set qs. linear (tables (mmu s')) (kernel_pml4t s) r"
    have un': "unchanged_but (reaches qs) (tables (mmu s)) (tables (mmu s')) (kernel_pml4t s0)"
      using k(2) by (simp add: mapped_on_def root)
    have "linear (tables (mmu s')) (kernel_pml4t s0) r" if "r \<in> set rs" for r
    proof (rule linear_kept [OF _ un'])
      show "linear (tables (mmu s)) (kernel_pml4t s0) r" using p that by (simp add: progress_def)
      show "reaches qs \<inter> reach r = {}" using ap that by (auto simp: apart_append reaches_def)
    qed
    moreover have "mapped_on (reaches (rs @ qs)) (c + total_cost qs) s0 fl0 s' fl'"
      using mapped_on_trans [OF _ k(2)] p by (simp add: progress_def reaches_def)
    moreover have "held (mmu s') (kernel_pml4t s0) fl' \<subseteq> held (mmu s) (kernel_pml4t s0) fl" using k(2) by (simp add: mapped_on_def root)
    ultimately show ?thesis using k(1,3) by (auto simp: progress_def root)
  next
    fix m assume "card (free_bytes fl) < total_cost qs" "kmap_all qs s = Inl (Panic m)"
    then show ?thesis using sh by (auto simp: shrunk_def)
  qed
qed

section \<open>Memory the tables do not use\<close>

text \<open>Writing to pages that are free in the buddy allocator does not change any table.\<close>

definition agree :: "(addr \<Rightarrow> u64) \<Rightarrow> (addr \<Rightarrow> u64) \<Rightarrow> addr \<Rightarrow> bool" where
  "agree t t' r \<longleftrightarrow> (\<forall>p a i. path p \<longrightarrow> tbl t r p = Some a \<longrightarrow> i < 512 \<longrightarrow> t' (a + 8 * i) = t (a + 8 * i))"

lemma agree_tbl: "agree t t' r \<Longrightarrow> path q \<Longrightarrow> tbl t' r q = tbl t r q"
  by (rule tbl_cong) (auto simp: agree_def)

lemma agree_entry: "agree t t' r \<Longrightarrow> path p \<Longrightarrow> tbl t r p = Some a \<Longrightarrow> i < 512 \<Longrightarrow> t' (a + 8 * i) = t (a + 8 * i)"
  by (simp add: agree_def)

lemma agree_leaf:
  assumes "agree t t' r"
  shows "leaf2m t' r = leaf2m t r" "leaf4k t' r = leaf4k t r" "translate t' r = translate t r"
proof -
  have "leaf2m t' r v = leaf2m t r v" for v
    using agree_entry [OF assms path_of_virt(2) _ idx_less(3), of v]
    by (cases "tbl t r [VIRT_TO_PML4_IDX v, VIRT_TO_PDPT_IDX v]") (simp_all add: leaf2m_def agree_tbl [OF assms path_of_virt(2)])
  then show 2: "leaf2m t' r = leaf2m t r" ..
  have "leaf4k t' r v = leaf4k t r v" for v
    using agree_entry [OF assms path_of_virt(3) _ idx_less(4), of v]
    by (cases "tbl t r [VIRT_TO_PML4_IDX v, VIRT_TO_PDPT_IDX v, VIRT_TO_PD_IDX v]") (simp_all add: leaf4k_def agree_tbl [OF assms path_of_virt(3)])
  then show 4: "leaf4k t' r = leaf4k t r" ..
  show "translate t' r = translate t r" by (rule ext, rule translate_cong) (simp_all add: 2 4)
qed

lemma agree_tree_ok: "agree t t' r \<Longrightarrow> tree_ok t r \<Longrightarrow> tree_ok t' r"
  unfolding tree_ok_def by (simp add: agree_tbl) (simp add: agree_def)

lemma agree_mmu_inv: "agree (tables m) t' r \<Longrightarrow> mmu_inv m r fl \<Longrightarrow> mmu_inv (m\<lparr>tables := t'\<rparr>) r fl"
  using agree_tree_ok [of "tables m" t' r] unfolding mmu_inv_def by (simp add: agree_tbl)

lemma agree_trans:
  assumes "agree t t' r" "agree t' t'' r"
  shows "agree t t'' r"
  unfolding agree_def [of t t'']
proof (intro allI impI)
  fix p a i assume p: "path p" "tbl t r p = Some a" "i < (512 :: u64)"
  then have "tbl t' r p = Some a" using agree_tbl [OF assms(1) p(1)] by simp
  then show "t'' (a + 8 * i) = t (a + 8 * i)"
    using agree_entry [OF assms(1) p] agree_entry [OF assms(2) p(1) _ p(3)] by simp
qed

lemma agree_memset:
  assumes "mmu_inv m r fl" "page_ok x" "span x 0 \<subseteq> free_bytes fl"
  shows "agree (tables m) (memset_pg (tables m) x) r"
  unfolding agree_def
proof (intro allI impI)
  fix p a i assume p: "path p" "tbl (tables m) r p = Some a" "i < (512 :: u64)"
  have "page_ok a" using assms(1) p by (auto simp: mmu_inv_def dest: tree_okD)
  moreover have "free_bytes fl \<inter> span a 0 = {}" using assms(1) p by (auto simp: mmu_inv_def)
  then have "a \<noteq> x" using assms(3) span_nonempty(2) [of x 0] by blast
  ultimately show "memset_pg (tables m) x (a + 8 * i) = tables m (a + 8 * i)" using memset_pg_outside assms(2) p(3) by blast
qed

lemma agree_memset_pages:
  assumes "mmu_inv m r fl" "\<forall>i\<in>set is. page_ok (x + of_nat i * PAGE_SIZE) \<and> span (x + of_nat i * PAGE_SIZE) 0 \<subseteq> free_bytes fl"
  shows "agree (tables m) (memset_pages (tables m) x is) r"
  using assms
proof (induction "is" arbitrary: m)
  case Nil
  then show ?case by (simp add: memset_pages_def agree_def)
next
  case (Cons i "is")
  let ?t = "memset_pg (tables m) (x + of_nat i * PAGE_SIZE)"
  have a: "agree (tables m) ?t r" using Cons.prems by (intro agree_memset) auto
  have "agree (tables (m\<lparr>tables := ?t\<rparr>)) (memset_pages (tables (m\<lparr>tables := ?t\<rparr>)) x is) r"
    using Cons.prems(2) by (intro Cons.IH agree_mmu_inv [OF a Cons.prems(1)]) simp
  then show ?case using agree_trans [OF a] by (simp add: memset_pages_def)
qed


section \<open>Blocks for the boot sequence\<close>

lemma block_kmalloc:
  assumes "buddy_inv (buddy k) fl" "o1 \<le> 10"
  shows "phys_kmalloc k (chunk_bytes o1) BUDDY_ALLOC = Some (NULL, k) \<and> (\<forall>j\<in>{o1..10}. fl j = []) \<or>
    (\<exists>x b fl'. phys_kmalloc k (chunk_bytes o1) BUDDY_ALLOC = Some (x, k\<lparr>buddy := b\<rparr>) \<and> x \<noteq> NULL \<and> wf_block (buddy k) x o1 \<and>
      buddy_inv b fl' \<and> span x o1 \<subseteq> free_bytes fl \<and> free_bytes fl' = free_bytes fl - span x o1 \<and>
      base_address b = base_address (buddy k) \<and> region_size b = region_size (buddy k) \<and> (tidy fl \<longrightarrow> tidy fl'))"
proof (cases "\<forall>j\<in>{o1..10}. fl j = []")
  case True
  then show ?thesis using kalloc_inv [OF assms(1) size_order_chunk [OF assms(2)]] by (simp add: lift_buddy_alloc_def)
next
  case False
  then obtain x b fl' where "buddy_kalloc (buddy k) (chunk_bytes o1) = Some (x, b)" "x \<noteq> NULL" "wf_block (buddy k) x o1" "buddy_inv b fl'"
      "span x o1 \<subseteq> free_bytes fl" "free_bytes fl' = free_bytes fl - span x o1"
      "base_address b = base_address (buddy k)" "region_size b = region_size (buddy k)" "tidy fl \<longrightarrow> tidy fl'"
    using kalloc_inv [OF assms(1) size_order_chunk [OF assms(2)]] assms(2) by (simp add: False not_less del: atLeastAtMost_iff) blast
  then show ?thesis by (auto simp: lift_buddy_alloc_def)
qed

definition stack_req :: "u64 \<Rightarrow> request" where
  "stack_req x = \<lparr>req_pa = x, req_va = KERNEL_STACKS_START, req_flags = PTE_FLAGS_KERNEL_DATA, req_n = 4\<rparr>"

lemma stack_pages:
  assumes "wf_block b x 2" "unat (base_address b) + unat (region_size b) \<le> 2 ^ 52" "i < 4"
  shows "page_ok (x + of_nat i * PAGE_SIZE)" "span (x + of_nat i * PAGE_SIZE) 0 \<subseteq> span x 2"
proof -
  have x: "2 ^ 14 dvd unat x" "unat x + 2 ^ 14 \<le> 2 ^ 52" using assms(1,2) by (auto simp: wf_block_def)
  have u: "unat (x + of_nat i * PAGE_SIZE) = unat x + i * 4096"
    using unat_frame(1) [of x 4 12 i] x(2) assms(3) by (simp add: page_size_powers)
  have "4096 dvd unat x" using dvd_trans [OF _ x(1), of 4096] by simp
  then show "page_ok (x + of_nat i * PAGE_SIZE)" using u x(2) assms(3) by (simp add: page_ok_def)
  show "span (x + of_nat i * PAGE_SIZE) 0 \<subseteq> span x 2" using u assms(3) by (auto simp: span_def)
qed

lemma progress_agree:
  assumes "progress rs c s0 fl0 s fl" "agree (tables (mmu s)) (tables (mmu s')) (kernel_pml4t s0)"
    "paging_inv s' fl' U V t" "kernel_pml4t s' = kernel_pml4t s" "shrunk fl fl' n"
  shows "progress rs (c + n) s0 fl0 s' fl'"
proof -
  have p: "mapped_on (reaches rs) c s0 fl0 s fl" "\<forall>r\<in>set rs. linear (tables (mmu s)) (kernel_pml4t s0) r" using assms(1) by (simp_all add: progress_def)
  have "table_bytes (tables (mmu s')) (kernel_pml4t s0) = table_bytes (tables (mmu s)) (kernel_pml4t s0)"
    using agree_tbl [OF assms(2)] unfolding table_bytes_def by (metis (no_types, lifting))
  then have h: "held (mmu s') (kernel_pml4t s0) fl' \<subseteq> held (mmu s) (kernel_pml4t s0) fl" using assms(5) by (auto simp: held_def shrunk_def)
  have "mapped_on (reaches rs) (c + n) s0 fl0 s' fl'"
    using p(1) assms(3-5) h shrunk_trans [of fl0 fl c fl' n] unfolding mapped_on_def unchanged_but_def by (auto simp: agree_leaf [OF assms(2)])
  then show ?thesis using p(2) by (simp add: progress_def linear_def agree_leaf [OF assms(2)])
qed

text \<open>
  The block for the stack was free, and from then on it is neither free nor a table. If there is none,
  at most 12 KB have been left.
\<close>

lemma map_stacks_alloc:
  assumes p: "progress rs c s0 fl0 s fl" and ti: "tidy fl0"
  shows "map_stacks s = Inl (Panic ''Failed to allocate 16KiB page for stack'') \<and> card (free_bytes fl0) \<le> c + 12288 \<or>
    (\<exists>x s1 fl1. map_stacks s = bindE (kmap_req (stack_req x) s1) (\<lambda>s. Inr (KERNEL_STACKS_START + 4 * PAGE_SIZE - 8, s)) \<and>
      progress rs (c + 16384) s0 fl0 s1 fl1 \<and> 2 ^ 14 dvd unat x \<and> unat x + 16384 \<le> 2 ^ 52 \<and>
      span x 2 \<subseteq> free_bytes fl0 \<and> span x 2 \<inter> held (mmu s1) (kernel_pml4t s0) fl1 = {})"
proof -
  obtain U V t where inv: "paging_inv s fl U V t" and root: "kernel_pml4t s = kernel_pml4t s0" and sh0: "shrunk fl0 fl c"
    using p by (auto simp: progress_def mapped_on_def)
  let ?k = "kmem (mmu s)"
  have i: "slab_rep_off ?k (vma_cache s) fl (table_bytes (tables (mmu s)) (kernel_pml4t s0)) U" "mmu_inv (mmu s) (kernel_pml4t s0) fl" using inv by (auto simp: paging_inv_def root)
  have cb: "4 * PAGE_SIZE = chunk_bytes 2" by (simp add: chunk_bytes_def PAGE_SIZE_def)
  have bi: "buddy_inv (buddy ?k) fl" by (rule slab_rep_in_inv [OF slab_rep_offD [OF i(1)]])
  have two: "2 \<le> (10::nat)" by simp
  from block_kmalloc [OF bi two] show ?thesis
  proof (elim disjE exE conjE)
    fix x b fl' assume x: "phys_kmalloc ?k (chunk_bytes 2) BUDDY_ALLOC = Some (x, ?k\<lparr>buddy := b\<rparr>)" "x \<noteq> NULL" "wf_block (buddy ?k) x 2"
      "buddy_inv b fl'" "span x 2 \<subseteq> free_bytes fl" "free_bytes fl' = free_bytes fl - span x 2"
      "base_address b = base_address (buddy ?k)" "region_size b = region_size (buddy ?k)" "tidy fl \<longrightarrow> tidy fl'"
    have sh: "shrunk fl fl' 16384" using shrunk_span [OF x(6,5,9)] by simp
    have top: "unat (base_address (buddy ?k)) + unat (region_size (buddy ?k)) \<le> 2 ^ 52" using i(2) by (simp add: mmu_inv_def)
    let ?t = "memset_pages (tables (mmu s)) x [0..<4]"
    define s1 where "s1 = s\<lparr>mmu := (mmu s)\<lparr>kmem := ?k\<lparr>buddy := b\<rparr>, tables := ?t\<rparr>\<rparr>"
    have ag: "agree (tables (mmu s)) ?t (kernel_pml4t s0)"
      using stack_pages [OF x(3) top] order_trans [OF _ x(5)] by (intro agree_memset_pages [OF i(2)]) simp
    have "mmu_inv ((mmu s)\<lparr>kmem := ?k\<lparr>buddy := b\<rparr>\<rparr>) (kernel_pml4t s0) fl'"
      using mmu_inv_shrunk [OF i(2), of "?k\<lparr>buddy := b\<rparr>", OF _ sh] x(4,7,8) by simp
    then have "mmu_inv (mmu s1) (kernel_pml4t s0) fl'" using agree_mmu_inv [of "(mmu s)\<lparr>kmem := ?k\<lparr>buddy := b\<rparr>\<rparr>" ?t] ag by (simp add: s1_def)
    moreover have tb: "table_bytes ?t (kernel_pml4t s0) \<subseteq> table_bytes (tables (mmu s)) (kernel_pml4t s0)"
      using ag by (intro table_bytes_mono) (auto simp: agree_tbl [OF ag])
    then have "slab_rep_off (?k\<lparr>buddy := b\<rparr>) (vma_cache s) fl' (table_bytes ?t (kernel_pml4t s0)) U"
      using x(6-8) by (intro slab_rep_off_buddy [OF i(1) x(4)]) auto
    ultimately have "paging_inv s1 fl' U V t" using inv by (simp add: paging_inv_def s1_def root)
    then have "progress rs (c + 16384) s0 fl0 s1 fl'" using ag sh by (intro progress_agree [OF p]) (simp_all add: s1_def)
    moreover have "map_stacks s = bindE (kmap_req (stack_req x) s1) (\<lambda>s. Inr (KERNEL_STACKS_START + 4 * PAGE_SIZE - 8, s))"
      using x(1,2) unfolding cb [symmetric] by (simp add: map_stacks_def kmap_req_def stack_req_def s1_def set_kmem_def)
    moreover have "2 ^ 14 dvd unat x" "unat x + 16384 \<le> 2 ^ 52" using x(3) top by (auto simp: wf_block_def)
    moreover have "span x 2 \<subseteq> free_bytes fl0" using x(5) sh0 by (auto simp: shrunk_def)
    moreover have "span x 2 \<inter> held (mmu s1) (kernel_pml4t s0) fl' = {}"
      using x(5,6) tb mmu_inv_apart [OF i(2)] unfolding held_def s1_def by auto
    ultimately show ?thesis by blast
  next
    assume "phys_kmalloc ?k (chunk_bytes 2) BUDDY_ALLOC = Some (NULL, ?k)" and none: "\<forall>j\<in>{2..10}. fl j = []"
    then have "map_stacks s = Inl (Panic ''Failed to allocate 16KiB page for stack'')" unfolding cb [symmetric] by (simp add: map_stacks_def)
    moreover have "tidy fl" using sh0 ti by (simp add: shrunk_def)
    then have "card (free_bytes fl) \<le> 12288" using tidy_block [of fl] none by (meson not_less)
    then have "card (free_bytes fl0) \<le> c + 12288" using sh0 by (simp add: shrunk_def)
    ultimately show ?thesis by blast
  qed
qed

text \<open>The cache of areas and the root table, before anything is mapped.\<close>

definition boot_ready :: "paging_state \<Rightarrow> (nat \<Rightarrow> addr list) \<Rightarrow> bool" where
  "boot_ready s fl \<longleftrightarrow>
     buddy_inv (buddy (kmem (mmu s))) fl \<and> \<not> slab_lock (kmem (mmu s)) \<and> vma_cache s \<noteq> NULL \<and>
     (\<forall>h\<in>{free_slabs (vma_cache s), partial_slabs (vma_cache s), full_slabs (vma_cache s)}. unat h \<notin> free_bytes fl) \<and>
     unat (base_address (buddy (kmem (mmu s)))) + unat (region_size (buddy (kmem (mmu s)))) \<le> 2 ^ 52 \<and>
     rb_root (kernel_rb s) = NULL \<and> tidy fl"

lemma tbl_zero_root: "(\<And>i. i < 512 \<Longrightarrow> t (r + 8 * i) = 0) \<Longrightarrow> path p \<Longrightarrow> tbl t r p = (if p = [] then Some r else None)"
  by (cases p) (simp_all add: tbl.simps(2) path_def Let_def present_def)

lemma zero_root:
  assumes "page_ok r" "\<And>i. i < 512 \<Longrightarrow> t (r + 8 * i) = 0"
  shows "tree_ok t r" "leaf2m t r w = None"
proof -
  have z: "tbl t r p = (if p = [] then Some r else None)" if "path p" for p by (rule tbl_zero_root [of t r, OF assms(2) that])
  show "tree_ok t r" using assms z by (auto simp: tree_ok_def present_def split: if_splits)
  show "leaf2m t r w = None" by (simp add: leaf2m_def z [OF path_of_virt(2)])
qed


definition root_state :: "paging_state \<Rightarrow> slab_state \<Rightarrow> addr \<Rightarrow> paging_state" where
  "root_state s k root =
     s\<lparr>kernel_page_lock := False, kernel_pml4t := root, mmu := (mmu s)\<lparr>kmem := k, tables := memset_pg (tables (mmu s)) root\<rparr>\<rparr>"

lemma boot_root:
  assumes "boot_ready s fl"
  shows "\<exists>c k. kmem_cache_create_sl (kmem (mmu s)) (vma_cache s) sizeof_vma = Some (c, k) \<and>
    (free_bytes fl = {} \<and> phys_kmalloc k PAGE_SIZE BUDDY_ALLOC = Some (NULL, k) \<or>
     (\<exists>root k' fl'. phys_kmalloc k PAGE_SIZE BUDDY_ALLOC = Some (root, k') \<and> root \<noteq> NULL \<and> shrunk fl fl' 4096 \<and>
       paging_inv (root_state s k' root) fl' {} {} Leaf \<and> no_huge (root_state s k' root)))"
proof -
  let ?c = "vma_cache s"
  have b: "buddy_inv (buddy (kmem (mmu s))) fl" "\<not> slab_lock (kmem (mmu s))" "?c \<noteq> NULL"
    "\<forall>h\<in>{free_slabs ?c, partial_slabs ?c, full_slabs ?c}. unat h \<notin> free_bytes fl"
    "unat (base_address (buddy (kmem (mmu s)))) + unat (region_size (buddy (kmem (mmu s)))) \<le> 2 ^ 52"
    "rb_root (kernel_rb s) = NULL" using assms by (auto simp: boot_ready_def)
  obtain k where k: "kmem_cache_create (kmem (mmu s)) ?c sizeof_vma = Some (?c, k)" "slab_rep_in k ?c fl {}"
      "object_size (caches k ?c) = sizeof_vma" "calc_slab_order sizeof_vma = Some (ucast (slab_order (caches k ?c)))"
      "buddy k = buddy (kmem (mmu s))"
    using kmem_cache_create_rep [OF b(1,2) _ _ b(4), of sizeof_vma] by (auto simp: sizeof_vma_def)
  have cr: "kmem_cache_create_sl (kmem (mmu s)) ?c sizeof_vma = Some (?c, k)" by (rule kmem_cache_create_sl_eq [OF b(2) k(1) b(3)])
  have "calc_slab_order sizeof_vma = Some 0" by code_simp
  then have o0: "slab_order (caches k ?c) = 0"
    using k(4) by (simp add: word_unat_eq_iff unsigned_ucast_eq take_bit_nat_eq_self unat_lt_u8 [THEN less_trans])
  have bk: "buddy_inv (buddy k) fl" using b(1) k(5) by simp
  have "free_bytes fl = {} \<and> phys_kmalloc k PAGE_SIZE BUDDY_ALLOC = Some (NULL, k) \<or>
     (\<exists>root k' fl'. phys_kmalloc k PAGE_SIZE BUDDY_ALLOC = Some (root, k') \<and> root \<noteq> NULL \<and> shrunk fl fl' 4096 \<and>
       paging_inv (root_state s k' root) fl' {} {} Leaf \<and> no_huge (root_state s k' root))"
  proof (cases "free_bytes fl = {}")
    case True
    then show ?thesis using page_kmalloc [OF bk] by (simp add: PAGE_SIZE_def)
  next
    case False
    then obtain x b' fl' where x: "phys_kmalloc k PAGE_SIZE BUDDY_ALLOC = Some (x, k\<lparr>buddy := b'\<rparr>)" "x \<noteq> NULL" "wf_block (buddy k) x 0"
        "buddy_inv b' fl'" "span x 0 \<subseteq> free_bytes fl" "free_bytes fl' = free_bytes fl - span x 0"
        "base_address b' = base_address (buddy k)" "region_size b' = region_size (buddy k)" "tidy fl \<longrightarrow> tidy fl'"
      using page_kmalloc [OF bk] by (auto simp: PAGE_SIZE_def)
    let ?s = "root_state s (k\<lparr>buddy := b'\<rparr>) x"
    have px: "page_ok x" using x(3) b(5) by (simp add: page_ok_def wf_block_def k(5))
    have z: "memset_pg (tables (mmu s)) x (x + 8 * i) = 0" if "i < 512" for i by (rule memset_pg_inside [OF px that])
    have tz: "tbl (memset_pg (tables (mmu s)) x) x p = (if p = [] then Some x else None)" if "path p" for p
      by (rule tbl_zero_root [of "memset_pg (tables (mmu s)) x" x, OF z that])
    have "mmu_inv (mmu ?s) x fl'"
      using zero_root(1) [OF px, of "memset_pg (tables (mmu s)) x", OF z] x(4,6,7,8) b(5) by (auto simp: mmu_inv_def root_state_def tz k(5) split: if_splits)
    moreover have "table_bytes (memset_pg (tables (mmu s)) x) x = span x 0" using tz [of "[]"] by (auto simp: table_bytes_def tz split: if_splits intro!: exI [of _ "[]"])
    then have "slab_rep_off (k\<lparr>buddy := b'\<rparr>) ?c fl' (table_bytes (memset_pg (tables (mmu s)) x) x) {}"
      using x(5-8) by (intro slab_rep_off_buddy [OF k(2) [unfolded slab_rep_in_off] x(4)]) auto
    ultimately have "paging_inv ?s fl' {} {} Leaf"
      using k(3) o0 b(6) by (simp add: paging_inv_def root_state_def rb_tree_def rb_inv_def bst_def)
    moreover have "no_huge ?s" using zero_root(2) [OF px, of "memset_pg (tables (mmu s)) x", OF z] by (simp add: no_huge_def root_state_def)
    moreover have "shrunk fl fl' 4096" using shrunk_span [OF x(6,5,9)] by simp
    ultimately show ?thesis using x(1,2) by blast
  qed
  then show ?thesis using cr by blast
qed


section \<open>The requests of the boot sequence\<close>

definition section_req :: "u64 \<Rightarrow> u64 \<Rightarrow> u64 \<Rightarrow> request" where
  "section_req start fin flags =
     \<lparr>req_pa = start - KERNEL_IMAGE_START, req_va = start, req_flags = flags, req_n = (fin - start) div PAGE_SIZE\<rparr>"

definition metadata_start :: "kernel_image \<Rightarrow> u64" where
  "metadata_start img = data_start_addr img + (kernel_end_addr img - data_start_addr img) div PAGE_SIZE * PAGE_SIZE"

definition image_reqs :: "kernel_image \<Rightarrow> request list" where
  "image_reqs img =
     [section_req (kernel_start_addr img) (text_end_addr img) PTE_FLAGS_KERNEL_CODE,
      section_req (rodata_start_addr img) (rodata_end_addr img) (0 OR PTE_PRESENT OR PTE_NX OR PTE_GLOBAL),
      section_req (data_start_addr img) (kernel_end_addr img) PTE_FLAGS_KERNEL_DATA,
      \<lparr>req_pa = metadata_start img - KERNEL_IMAGE_START, req_va = metadata_start img,
        req_flags = PTE_PRESENT OR PTE_NX OR PTE_GLOBAL OR PTE_WRITABLE, req_n = 4\<rparr>]"

definition piece_req :: "u64 \<times> u64 \<times> u64 \<Rightarrow> request" where
  "piece_req p = \<lparr>req_pa = fst p, req_va = DIRECT_MAP_START + fst p, req_flags = fst (snd p), req_n = snd (snd p)\<rparr>"

definition usable :: "mmap_entry_0xe820 \<Rightarrow> bool" where
  "usable e \<longleftrightarrow> e820_type e = 1"

definition direct_reqs :: "mmap_entry_0xe820 list \<Rightarrow> request list" where
  "direct_reqs es = concat (map (\<lambda>e. map piece_req (direct_pieces e)) (filter usable es))"

definition low_req :: request where
  "low_req = \<lparr>req_pa = 0, req_va = 0, req_flags = 0 OR PTE_PRESENT OR PTE_WRITABLE OR PTE_HUGE_PAGE, req_n = 8\<rparr>"

definition fb_req :: "boot_vbe_handoff \<Rightarrow> request" where
  "fb_req v = (case framebuffer_pages v of (base, n) \<Rightarrow>
     \<lparr>req_pa = base, req_va = DIRECT_MAP_START + base, req_flags = PTE_FLAGS_DIRECT_MAP OR PTE_PWT, req_n = n\<rparr>)"

definition boot_reqs :: "kernel_image \<Rightarrow> u64 \<Rightarrow> mmap_entry_0xe820 list \<Rightarrow> boot_vbe_handoff \<Rightarrow> request list" where
  "boot_reqs img x es v = image_reqs img @ [stack_req x] @ direct_reqs es @ [low_req, fb_req v]"

lemma bindE_assoc: "bindE (bindE m f) g = bindE m (\<lambda>x. bindE (f x) g)"
  by (cases m) simp_all

lemma bindE_Inr [simp]: "bindE m Inr = m"
  by (cases m) simp_all

lemma map_pieces_all: "map_pieces ps s = kmap_all (map piece_req ps) s"
proof (induction ps arbitrary: s)
  case (Cons p ps)
  obtain a b c where "p = (a, b, c)" by (cases p)
  then show ?case using Cons by (simp add: kmap_req_def piece_req_def)
qed simp

lemma map_direct_all: "map_direct_mapping es s = kmap_all (direct_reqs es) s"
proof (induction es arbitrary: s)
  case (Cons e es)
  then show ?case by (simp add: direct_reqs_def usable_def map_pieces_all kmap_all_append)
qed (simp add: direct_reqs_def)

lemma init_mmu_eq:
  assumes "kmem_cache_create_sl (kmem (mmu s)) (vma_cache s) sizeof_vma = Some (c, k)"
    "phys_kmalloc k PAGE_SIZE BUDDY_ALLOC = Some (root, k')" "root \<noteq> NULL"
  shows "init_mmu img es v s =
    bindE (kmap_all (image_reqs img) (root_state s k' root)) (\<lambda>s.
    bindE (map_stacks s) (\<lambda>(rsp, s).
    bindE (kmap_all (direct_reqs es @ [low_req, fb_req v]) s) (\<lambda>s.
    Inr (rsp, s\<lparr>cr3 := kernel_pml4t s, phys_map_offset := DIRECT_MAP_START,
      fb_virtual := DIRECT_MAP_START + ucast (framebuffer_address v)\<rparr>))))"
  using assms
  by (simp add: init_mmu_def root_state_def set_kmem_def image_reqs_def section_req_def metadata_start_def map_section_def kmap_req_def
      map_direct_all map_boot_memory_def map_framebuffer_def low_req_def fb_req_def kmap_all_append bindE_assoc case_prod_unfold Let_def)

lemma total_cost_boot:
  "total_cost (boot_reqs img x es v) =
     total_cost (image_reqs img) + total_cost [stack_req x] + total_cost (direct_reqs es @ [low_req, fb_req v])"
  "total_cost [stack_req x] = total_cost [stack_req y]"
  by (simp_all add: total_cost_def boot_reqs_def req_cost_def stack_req_def)


text \<open>The state after the boot sequence, for requests \<open>rs\<close> and free lists \<open>fl\<close>.\<close>

definition booted :: "request list \<Rightarrow> boot_vbe_handoff \<Rightarrow> (nat \<Rightarrow> addr list) \<Rightarrow> paging_state \<Rightarrow> bool" where
  "booted rs v fl s \<longleftrightarrow>
     (\<exists>U V t. paging_inv s fl U V t) \<and> (\<forall>r\<in>set rs. linear (tables (mmu s)) (cr3 s) r) \<and> cr3 s = kernel_pml4t s \<and>
     phys_map_offset s = DIRECT_MAP_START \<and> fb_virtual s = DIRECT_MAP_START + ucast (framebuffer_address v)"

lemma progress_root:
  assumes "paging_inv s fl U V t" "shrunk fl0 fl n"
  shows "progress [] n s fl0 s fl"
  using assms by (auto simp: progress_def mapped_on_def held_def shrunk_def)

lemma progress_booted:
  assumes "progress rs c s0 fl0 s fl"
  shows "booted rs v fl (s\<lparr>cr3 := kernel_pml4t s, phys_map_offset := DIRECT_MAP_START,
    fb_virtual := DIRECT_MAP_START + ucast (framebuffer_address v)\<rparr>)"
proof -
  obtain U V t where "paging_inv s fl U V t" "kernel_pml4t s = kernel_pml4t s0" using assms by (auto simp: progress_def mapped_on_def)
  then show ?thesis using assms by (auto simp: booted_def progress_def paging_inv_def)
qed

lemma init_mmu_spec:
  assumes ready: "boot_ready s fl"
    and ok: "\<forall>x. 2 ^ 14 dvd unat x \<longrightarrow> unat x + 16384 \<le> 2 ^ 52 \<longrightarrow> (\<forall>r\<in>set (boot_reqs img x es v). req_ok r) \<and> ranges_apart (boot_reqs img x es v)"
  shows "(\<exists>x s' fl'. init_mmu img es v s = Inr (KERNEL_STACKS_START + 4 * PAGE_SIZE - 8, s') \<and> booted (boot_reqs img x es v) v fl' s' \<and>
      2 ^ 14 dvd unat x \<and> unat x + 16384 \<le> 2 ^ 52 \<and> span x 2 \<subseteq> free_bytes fl \<and> span x 2 \<inter> held (mmu s') (cr3 s') fl' = {}) \<or>
    (\<exists>m. init_mmu img es v s = Inl (Panic m)) \<and> card (free_bytes fl) < 20480 + total_cost (boot_reqs img 0 es v)"
proof -
  let ?R = "KERNEL_STACKS_START + 4 * PAGE_SIZE - 8" and ?tail = "direct_reqs es @ [low_req, fb_req v]"
  obtain c k where k: "kmem_cache_create_sl (kmem (mmu s)) (vma_cache s) sizeof_vma = Some (c, k)"
      "free_bytes fl = {} \<and> phys_kmalloc k PAGE_SIZE BUDDY_ALLOC = Some (NULL, k) \<or>
       (\<exists>root k' fl'. phys_kmalloc k PAGE_SIZE BUDDY_ALLOC = Some (root, k') \<and> root \<noteq> NULL \<and> shrunk fl fl' 4096 \<and>
         paging_inv (root_state s k' root) fl' {} {} Leaf \<and> no_huge (root_state s k' root))"
    using boot_root [OF ready] by blast
  have ti: "tidy fl" using ready by (simp add: boot_ready_def)
  have ok0: "(\<forall>r\<in>set (boot_reqs img 0 es v). req_ok r) \<and> ranges_apart (boot_reqs img 0 es v)" using ok [rule_format, of 0] by simp
  from k(2) show ?thesis
  proof (elim disjE exE conjE)
    fix root k' fl' assume r: "phys_kmalloc k PAGE_SIZE BUDDY_ALLOC = Some (root, k')" "root \<noteq> NULL" "shrunk fl fl' 4096"
      "paging_inv (root_state s k' root) fl' {} {} Leaf" "no_huge (root_state s k' root)"
    let ?s0 = "root_state s k' root"
    note eq = init_mmu_eq [OF k(1) r(1,2), of img es v]
    have p0: "progress [] 4096 ?s0 fl ?s0 fl'" by (rule progress_root [OF r(4,3)])
    have a1: "ranges_apart ([] @ image_reqs img)" "\<forall>r\<in>set (image_reqs img). req_ok r" using ok0 by (auto simp: boot_reqs_def apart_append)
    from progress_map [OF p0 r(5) a1] show ?thesis
    proof (elim disjE exE conjE)
      fix s1 fl1 assume 1: "kmap_all (image_reqs img) ?s0 = Inr s1" "progress ([] @ image_reqs img) (4096 + total_cost (image_reqs img)) ?s0 fl s1 fl1"
      from map_stacks_alloc [OF 1(2) ti] show ?thesis
      proof (elim disjE exE conjE)
        assume "map_stacks s1 = Inl (Panic ''Failed to allocate 16KiB page for stack'')"
          "card (free_bytes fl) \<le> 4096 + total_cost (image_reqs img) + 12288"
        then show ?thesis using eq 1(1) total_cost_boot(1) [of img 0 es v] by simp
      next
        fix x s2 fl2 assume 2: "map_stacks s1 = bindE (kmap_req (stack_req x) s2) (\<lambda>s. Inr (?R, s))"
          "progress ([] @ image_reqs img) (4096 + total_cost (image_reqs img) + 16384) ?s0 fl s2 fl2" "2 ^ 14 dvd unat x" "unat x + 16384 \<le> 2 ^ 52"
          "span x 2 \<subseteq> free_bytes fl" "span x 2 \<inter> held (mmu s2) (kernel_pml4t ?s0) fl2 = {}"
        have eq2: "init_mmu img es v s = bindE (kmap_all (stack_req x # ?tail) s2) (\<lambda>s.
            Inr (?R, s\<lparr>cr3 := kernel_pml4t s, phys_map_offset := DIRECT_MAP_START,
              fb_virtual := DIRECT_MAP_START + ucast (framebuffer_address v)\<rparr>))"
          using eq 1(1) 2(1) by (simp add: bindE_assoc)
        have req: "([] @ image_reqs img) @ stack_req x # ?tail = boot_reqs img x es v" by (simp add: boot_reqs_def)
        have a2: "ranges_apart (([] @ image_reqs img) @ stack_req x # ?tail)" "\<forall>r\<in>set (stack_req x # ?tail). req_ok r"
          using ok [rule_format, OF 2(3,4)] unfolding req by (auto simp: boot_reqs_def)
        have cost: "4096 + total_cost (image_reqs img) + 16384 + total_cost (stack_req x # ?tail) = 20480 + total_cost (boot_reqs img 0 es v)"
          by (simp add: total_cost_def boot_reqs_def req_cost_def stack_req_def)
        from progress_map [OF 2(2) r(5) a2, unfolded req cost] show ?thesis
        proof (elim disjE exE conjE)
          fix s3 fl3 assume 3: "kmap_all (stack_req x # ?tail) s2 = Inr s3"
            "progress (boot_reqs img x es v) (20480 + total_cost (boot_reqs img 0 es v)) ?s0 fl s3 fl3"
            "held (mmu s3) (kernel_pml4t ?s0) fl3 \<subseteq> held (mmu s2) (kernel_pml4t ?s0) fl2"
          have "kernel_pml4t s3 = kernel_pml4t ?s0" using 3(2) by (simp add: progress_def mapped_on_def)
          then have "span x 2 \<inter> held (mmu s3) (kernel_pml4t s3) fl3 = {}" using 2(6) 3(3) by auto
          then show ?thesis using eq2 3(1) progress_booted [OF 3(2), of v] 2(3-5) by (intro disjI1 exI [of _ x]) auto
        next
          fix m assume "card (free_bytes fl) < 20480 + total_cost (boot_reqs img 0 es v)" "kmap_all (stack_req x # ?tail) s2 = Inl (Panic m)"
          then show ?thesis using eq2 by auto
        qed
      qed
    next
      fix m assume "card (free_bytes fl) < 4096 + total_cost (image_reqs img)" "kmap_all (image_reqs img) ?s0 = Inl (Panic m)"
      then show ?thesis using eq total_cost_boot(1) [of img 0 es v] by auto
    qed
  next
    assume "free_bytes fl = {}" "phys_kmalloc k PAGE_SIZE BUDDY_ALLOC = Some (NULL, k)"
    then show ?thesis using k(1) by (simp add: init_mmu_def set_kmem_def)
  qed
qed

end
