(* ===== verification/Boot_Layout.thy ===== *)
theory Boot_Layout
  imports Paging_Boot
begin

text \<open>
  The address arithmetic of the boot sequence: for a kernel image with aligned sections, a memory
  map with disjoint usable entries and a framebuffer beside them, the ranges \<open>__init_mmu\<close> maps are
  well-formed and disjoint. With that, the theorem on the page table the kernel starts with.
\<close>

section \<open>Addresses of the two halves\<close>

definition high_base :: nat where
  "high_base = 0xFFFF * 2 ^ 48"

definition direct_base :: nat where
  "direct_base = 0x800000200000"

lemma canon_high: "high_base \<le> unat w \<Longrightarrow> canon w = unat w - high_base"
proof -
  assume h: "high_base \<le> unat w"
  then obtain d where d: "unat w = 0xFFFF * 2 ^ 48 + d" using le_Suc_ex unfolding high_base_def by blast
  have "d < 2 ^ 48" using d unat_lt_u64 [of w] by simp
  then have "canon w = d" unfolding canon_def d by (simp only: mod_mult_self3 mod_less)
  then show ?thesis using d by (simp add: high_base_def)
qed

lemma canon_low: "unat w < 2 ^ 48 \<Longrightarrow> canon w = unat w"
  by (simp add: canon_def)

lemma unat_direct:
  assumes "unat p \<le> 0x3C0000000000"
  shows "unat (DIRECT_MAP_START + p) = 0xFFFF800000200000 + unat p" "canon (DIRECT_MAP_START + p) = direct_base + unat p"
proof -
  show u: "unat (DIRECT_MAP_START + p) = 0xFFFF800000200000 + unat p"
    using assms by (subst unat_add_no_overflow) (simp_all add: const_defs)
  then show "canon (DIRECT_MAP_START + p) = direct_base + unat p"
    by (subst canon_high) (simp_all add: high_base_def direct_base_def)
qed

section \<open>Sections of the image\<close>

definition image_ok :: "kernel_image \<Rightarrow> bool" where
  "image_ok img \<longleftrightarrow>
     (\<forall>a\<in>{kernel_start_addr img, text_end_addr img, rodata_start_addr img, rodata_end_addr img, data_start_addr img, kernel_end_addr img}.
        4096 dvd unat a) \<and>
     KERNEL_IMAGE_START \<le> kernel_start_addr img \<and> kernel_start_addr img \<le> text_end_addr img \<and>
     text_end_addr img \<le> rodata_start_addr img \<and> rodata_start_addr img \<le> rodata_end_addr img \<and>
     rodata_end_addr img \<le> data_start_addr img \<and> data_start_addr img \<le> kernel_end_addr img \<and>
     unat (kernel_end_addr img) + 16384 \<le> 2 ^ 64"

definition small_flag :: "u64 \<Rightarrow> bool" where
  "small_flag f \<longleftrightarrow> present f \<and> \<not> huge f \<and> f AND PTE_ADDR_MASK = 0"

lemma small_flags:
  "small_flag PTE_FLAGS_KERNEL_CODE" "small_flag (0 OR PTE_PRESENT OR PTE_NX OR PTE_GLOBAL)" "small_flag PTE_FLAGS_KERNEL_DATA"
  "small_flag (PTE_PRESENT OR PTE_NX OR PTE_GLOBAL OR PTE_WRITABLE)" "small_flag (PTE_FLAGS_DIRECT_MAP OR PTE_PWT)"
  by (simp_all add: small_flag_def present_def huge_def const_defs)

lemma image_req:
  assumes "KERNEL_IMAGE_START \<le> start" "4096 dvd unat start" "unat start + unat n * 4096 \<le> 2 ^ 64"
    "present flags" "\<not> huge flags" "flags AND PTE_ADDR_MASK = 0"
  defines "r \<equiv> \<lparr>req_pa = start - KERNEL_IMAGE_START, req_va = start, req_flags = flags, req_n = n\<rparr>"
  shows "req_ok r" "reach r = {unat start - high_base ..< unat start + unat n * 4096 - high_base}"
    "high_base \<le> unat w \<Longrightarrow> canon w \<in> reach r \<longleftrightarrow> unat start \<le> unat w \<and> unat w < unat start + unat n * 4096"
    "high_base \<le> unat w \<Longrightarrow> unat start \<le> unat w \<Longrightarrow> target r w = w - KERNEL_IMAGE_START"
proof -
  have k: "0xFFFFFFFF80000000 \<le> unat start" using assms(1) by (simp add: word_le_nat_alt const_defs)
  have u: "unat (start - KERNEL_IMAGE_START) = unat start - 0xFFFFFFFF80000000" using unat_diff_le [OF assms(1)] by (simp add: const_defs)
  have c: "canon start = unat start - high_base" using k by (intro canon_high) (simp add: high_base_def)
  have b: "req_bytes r = unat n * 4096" using assms(5) by (simp add: r_def req_bytes_def page_shift_def)
  have "4096 dvd unat start - 0xFFFFFFFF80000000" using assms(2) by (intro dvd_diff_nat) simp_all
  moreover have "unat start - 0xFFFFFFFF80000000 + unat n * 4096 \<le> 2 ^ 52" "unat start - high_base + unat n * 4096 \<le> 2 ^ 48"
    using assms(3) k by (auto simp: high_base_def)
  ultimately show "req_ok r" using assms(2,4-6) unfolding req_ok_def b by (simp add: r_def page_shift_def c u)
  have h: "high_base \<le> unat start" using k by (simp add: high_base_def)
  show re: "reach r = {unat start - high_base ..< unat start + unat n * 4096 - high_base}"
    using c h by (simp add: reach_def b) (simp add: r_def)
  show "canon w \<in> reach r \<longleftrightarrow> unat start \<le> unat w \<and> unat w < unat start + unat n * 4096" if "high_base \<le> unat w"
    using canon_high [OF that] that h unfolding re by auto
  show "target r w = w - KERNEL_IMAGE_START" if w: "high_base \<le> unat w" "unat start \<le> unat w"
  proof -
    have "canon w - canon start = unat w - unat start" using canon_high [OF w(1)] c h w by simp
    also have "\<dots> = unat (w - start)" using w(2) by (simp add: unat_diff_le word_le_nat_alt)
    finally have "of_nat (canon w - canon start) = w - start" by (simp only: of_nat_unat ucast_id)
    then show ?thesis by (simp add: target_def r_def)
  qed
qed


lemma section_count:
  assumes "start \<le> fin" "4096 dvd unat start" "4096 dvd unat fin"
  shows "unat start + unat ((fin - start) div PAGE_SIZE) * 4096 = unat fin"
  using unat_count [of start fin 12] assms by (simp add: page_size_powers word_le_nat_alt)

definition image_ranges :: "kernel_image \<Rightarrow> (nat \<times> nat) list" where
  "image_ranges img =
     [(unat (kernel_start_addr img), unat (text_end_addr img)), (unat (rodata_start_addr img), unat (rodata_end_addr img)),
      (unat (data_start_addr img), unat (kernel_end_addr img)), (unat (kernel_end_addr img), unat (kernel_end_addr img) + 16384)]"

definition in_place :: "request \<Rightarrow> nat \<times> nat \<Rightarrow> bool" where
  "in_place r ab \<longleftrightarrow>
     req_ok r \<and> 0xFFFFFFFF80000000 \<le> fst ab \<and> fst ab \<le> snd ab \<and> reach r = {fst ab - high_base ..< snd ab - high_base} \<and>
     (\<forall>w. fst ab \<le> unat w \<longrightarrow> target r w = w - KERNEL_IMAGE_START)"

lemma in_place_image:
  assumes "KERNEL_IMAGE_START \<le> a" "4096 dvd unat a" "unat a + unat n * 4096 = b" "b \<le> 2 ^ 64" "small_flag f"
  shows "in_place \<lparr>req_pa = a - KERNEL_IMAGE_START, req_va = a, req_flags = f, req_n = n\<rparr> (unat a, b)"
proof -
  have k: "0xFFFFFFFF80000000 \<le> unat a" using assms(1) by (simp add: word_le_nat_alt const_defs)
  have le: "unat a + unat n * 4096 \<le> 2 ^ 64" using assms(3,4) by simp
  have "high_base \<le> unat w" if "unat a \<le> unat w" for w :: u64 using k that by (simp add: high_base_def)
  then show ?thesis using image_req [OF assms(1,2) le] assms(3,5) k by (auto simp: in_place_def small_flag_def)
qed

lemma in_place_section:
  assumes "KERNEL_IMAGE_START \<le> a" "4096 dvd unat a" "a \<le> b" "4096 dvd unat b" "small_flag f"
  shows "in_place (section_req a b f) (unat a, unat b)"
  unfolding section_req_def using assms unat_lt_u64 [of b] by (intro in_place_image section_count) simp_all

lemma image_reqs_spec:
  assumes "image_ok img"
  shows "list_all2 in_place (image_reqs img) (image_ranges img)"
proof -
  have o: "KERNEL_IMAGE_START \<le> kernel_start_addr img" "kernel_start_addr img \<le> text_end_addr img"
    "text_end_addr img \<le> rodata_start_addr img" "rodata_start_addr img \<le> rodata_end_addr img"
    "rodata_end_addr img \<le> data_start_addr img" "data_start_addr img \<le> kernel_end_addr img" "unat (kernel_end_addr img) + 16384 \<le> 2 ^ 64"
    and d: "4096 dvd unat (kernel_start_addr img)" "4096 dvd unat (text_end_addr img)" "4096 dvd unat (rodata_start_addr img)"
    "4096 dvd unat (rodata_end_addr img)" "4096 dvd unat (data_start_addr img)" "4096 dvd unat (kernel_end_addr img)"
    using assms by (auto simp: image_ok_def)
  have m: "metadata_start img = kernel_end_addr img"
  proof -
    have "metadata_start img = of_nat (unat (data_start_addr img) + unat ((kernel_end_addr img - data_start_addr img) div PAGE_SIZE) * 4096)"
      by (simp add: metadata_start_def PAGE_SIZE_def)
    then show ?thesis unfolding section_count [OF o(6) d(5,6)] by simp
  qed
  have "KERNEL_IMAGE_START \<le> rodata_start_addr img" "KERNEL_IMAGE_START \<le> data_start_addr img" "KERNEL_IMAGE_START \<le> kernel_end_addr img"
    using o by (auto intro: order_trans)
  then show ?thesis unfolding image_reqs_def image_ranges_def m list_all2_Cons list_all2_Nil
    using o d by (intro conjI in_place_section in_place_image small_flags) simp_all
qed

section \<open>Pieces of the direct map\<close>

lemma piece_req_spec:
  assumes "unat p + piece_bytes flags n \<le> 0x3C0000000000" "present flags" "flags AND PTE_ADDR_MASK = 0"
    "(if huge flags then 2 ^ 21 else 2 ^ 12) dvd unat p"
  defines "r \<equiv> \<lparr>req_pa = p, req_va = DIRECT_MAP_START + p, req_flags = flags, req_n = n\<rparr>"
  shows "req_ok r" "reach r = {direct_base + unat p ..< direct_base + unat p + piece_bytes flags n}"
    "unat p \<le> unat w \<Longrightarrow> unat w \<le> 0x3C0000000000 \<Longrightarrow> target r (DIRECT_MAP_START + w) = w"
proof -
  have le: "unat p \<le> 0x3C0000000000" using assms(1) by simp
  have b: "req_bytes r = piece_bytes flags n" by (simp add: r_def req_bytes_def piece_bytes_def page_shift_def)
  have al: "2 ^ page_shift flags dvd unat p" using assms(4) by (simp add: page_shift_def split: if_splits)
  have "2 ^ page_shift flags dvd (0xFFFF800000200000 :: nat)" by (simp add: page_shift_def)
  then have "2 ^ page_shift flags dvd unat (DIRECT_MAP_START + p)" unfolding unat_direct(1) [OF le] using al by (rule dvd_add)
  then show "req_ok r" using assms(1-3) al unat_direct(2) [OF le] unfolding req_ok_def b by (simp add: r_def direct_base_def)
  show "reach r = {direct_base + unat p ..< direct_base + unat p + piece_bytes flags n}"
    using unat_direct(2) [OF le] unfolding reach_def b by (simp add: r_def)
  show "target r (DIRECT_MAP_START + w) = w" if w: "unat p \<le> unat w" "unat w \<le> 0x3C0000000000"
  proof -
    have "canon (DIRECT_MAP_START + w) - canon (DIRECT_MAP_START + p) = unat w - unat p" by (simp add: unat_direct(2) [OF le] unat_direct(2) [OF w(2)])
    also have "\<dots> = unat (w - p)" using w(1) by (simp add: unat_diff_le word_le_nat_alt)
    finally have "of_nat (canon (DIRECT_MAP_START + w) - canon (DIRECT_MAP_START + p)) = w - p" by (simp only: of_nat_unat ucast_id)
    then show ?thesis by (simp add: target_def r_def)
  qed
qed

lemma chained_le: "chained a ps b \<Longrightarrow> a \<le> b"
  by (induction a ps b rule: chained.induct) auto

definition covers_direct :: "request list \<Rightarrow> nat \<Rightarrow> nat \<Rightarrow> bool" where
  "covers_direct rs a b \<longleftrightarrow>
     (\<forall>w. a \<le> unat w \<longrightarrow> unat w < b \<longrightarrow>
        (\<exists>r\<in>set rs. canon (DIRECT_MAP_START + w) \<in> reach r \<and> target r (DIRECT_MAP_START + w) = w))"

lemma chained_reqs:
  "chained a ps b \<Longrightarrow> b \<le> 0x3C0000000000 \<Longrightarrow>
   (\<forall>r\<in>set (map piece_req ps). req_ok r \<and> reach r \<subseteq> {direct_base + a ..< direct_base + b}) \<and> ranges_apart (map piece_req ps) \<and>
   covers_direct (map piece_req ps) a b"
proof (induction a ps b rule: chained.induct)
  case (2 a p flags n ps b)
  define c where "c = a + piece_bytes flags n"
  define r where "r = piece_req (p, flags, n)"
  have ch: "chained c ps b" "unat p = a" "present flags" "flags AND PTE_ADDR_MASK = 0" "(if huge flags then 2 ^ 21 else 2 ^ 12) dvd unat p"
    using 2(2) by (auto simp: c_def)
  have cb: "c \<le> b" by (rule chained_le [OF ch(1)])
  then have le: "unat p + piece_bytes flags n \<le> 0x3C0000000000" using 2(3) ch(2) by (simp add: c_def)
  have rr: "r = \<lparr>req_pa = p, req_va = DIRECT_MAP_START + p, req_flags = flags, req_n = n\<rparr>" by (simp add: r_def piece_req_def)
  note r = piece_req_spec [OF le ch(3-5), folded rr]
  have ih: "\<forall>r\<in>set (map piece_req ps). req_ok r \<and> reach r \<subseteq> {direct_base + c ..< direct_base + b}" "ranges_apart (map piece_req ps)"
    "covers_direct (map piece_req ps) c b" using 2(1) [OF ch(1) [unfolded c_def] 2(3)] by (simp_all add: c_def)
  have re: "reach r = {direct_base + a ..< direct_base + c}" unfolding r(2) by (simp add: ch(2) c_def add.assoc)
  have "reach r \<inter> reach q = {}" if "q \<in> set (map piece_req ps)" for q
    using ih(1) that unfolding re by (metis (no_types, lifting) disjoint_iff atLeastLessThan_iff subsetD not_less)
  then have "ranges_apart (r # map piece_req ps)" using ih(2) by simp
  moreover have "reach q \<subseteq> {direct_base + a ..< direct_base + b}" if "q \<in> set (map piece_req ps)" for q
  proof (rule order_trans)
    show "reach q \<subseteq> {direct_base + c ..< direct_base + b}" using ih(1) that by blast
  qed (auto simp: c_def)
  then have "\<forall>q\<in>set (r # map piece_req ps). req_ok q \<and> reach q \<subseteq> {direct_base + a ..< direct_base + b}"
    using ih(1) r(1) re cb by simp
  moreover have "covers_direct (r # map piece_req ps) a b" unfolding covers_direct_def
  proof (intro allI impI)
    fix w :: u64 assume w: "a \<le> unat w" "unat w < b"
    show "\<exists>q\<in>set (r # map piece_req ps). canon (DIRECT_MAP_START + w) \<in> reach q \<and> target q (DIRECT_MAP_START + w) = w"
    proof (cases "unat w < c")
      case True
      then show ?thesis using w 2(3) r(3) [of w] unat_direct(2) [of w] by (simp add: re ch(2))
    next
      case False
      then show ?thesis using ih(3) w by (auto simp: covers_direct_def)
    qed
  qed
  ultimately show ?case by (simp add: r_def)
qed (simp add: covers_direct_def)


section \<open>The memory map\<close>

definition entry_bytes :: "mmap_entry_0xe820 \<Rightarrow> nat set" where
  "entry_bytes e = {unat (e820_base e) ..< unat (e820_base e) + unat (e820_chunk_size e)}"

definition first_page :: "mmap_entry_0xe820 \<Rightarrow> nat" where
  "first_page e = (unat (e820_base e) + 4095) div 4096 * 4096"

definition last_page :: "mmap_entry_0xe820 \<Rightarrow> nat" where
  "last_page e = (unat (e820_base e) + unat (e820_chunk_size e)) div 4096 * 4096"

definition entries_ok :: "mmap_entry_0xe820 list \<Rightarrow> bool" where
  "entries_ok es \<longleftrightarrow>
     (\<forall>e\<in>set es. usable e \<longrightarrow> unat (e820_base e) + unat (e820_chunk_size e) \<le> 0x3C0000000000) \<and>
     sorted_wrt (\<lambda>e f. entry_bytes e \<inter> entry_bytes f = {}) (filter usable es)"

definition fb_bytes :: "boot_vbe_handoff \<Rightarrow> nat set" where
  "fb_bytes v = (case framebuffer_pages v of (base, n) \<Rightarrow> {unat base ..< unat base + unat n * 4096})"

definition memory_ok :: "mmap_entry_0xe820 list \<Rightarrow> boot_vbe_handoff \<Rightarrow> bool" where
  "memory_ok es v \<longleftrightarrow>
     entries_ok es \<and> 0 < unat (pitch v) * unat (height_px v) \<and> (\<forall>e\<in>set es. usable e \<longrightarrow> entry_bytes e \<inter> fb_bytes v = {})"

lemma entry_reqs:
  assumes "unat (e820_base e) + unat (e820_chunk_size e) \<le> 0x3C0000000000"
  shows "\<forall>r\<in>set (map piece_req (direct_pieces e)). req_ok r \<and> reach r \<subseteq> (+) direct_base ` entry_bytes e"
    "ranges_apart (map piece_req (direct_pieces e))" "covers_direct (map piece_req (direct_pieces e)) (first_page e) (last_page e)"
proof -
  have "unat (e820_base e) + unat (e820_chunk_size e) + 2 ^ 22 \<le> 2 ^ 64" using assms by simp
  from direct_pieces_chained [OF this] consider "last_page e \<le> first_page e" "direct_pieces e = []"
    | "chained (first_page e) (direct_pieces e) (last_page e)" by (auto simp: Let_def first_page_def last_page_def split: if_splits)
  then have "(\<forall>r\<in>set (map piece_req (direct_pieces e)). req_ok r \<and> reach r \<subseteq> (+) direct_base ` entry_bytes e) \<and>
    ranges_apart (map piece_req (direct_pieces e)) \<and> covers_direct (map piece_req (direct_pieces e)) (first_page e) (last_page e)"
  proof cases
    case 1
    then show ?thesis by (simp add: covers_direct_def)
  next
    case 2
    have lo: "unat (e820_base e) \<le> first_page e" unfolding first_page_def by linarith
    have hi: "last_page e \<le> unat (e820_base e) + unat (e820_chunk_size e)" unfolding last_page_def by simp
    then have "{direct_base + first_page e ..< direct_base + last_page e} \<subseteq> (+) direct_base ` entry_bytes e"
      using lo by (auto simp: entry_bytes_def image_add_atLeastLessThan)
    then show ?thesis using chained_reqs [OF 2] hi assms by (meson order_trans)
  qed
  then show "\<forall>r\<in>set (map piece_req (direct_pieces e)). req_ok r \<and> reach r \<subseteq> (+) direct_base ` entry_bytes e"
    "ranges_apart (map piece_req (direct_pieces e))" "covers_direct (map piece_req (direct_pieces e)) (first_page e) (last_page e)" by blast+
qed

lemma direct_reqs_Cons: "direct_reqs (e # es) = (if usable e then map piece_req (direct_pieces e) else []) @ direct_reqs es"
  by (simp add: direct_reqs_def)

lemma direct_reqs_in:
  assumes "entries_ok es" "r \<in> set (direct_reqs es)"
  shows "req_ok r \<and> (\<exists>e\<in>set es. usable e \<and> reach r \<subseteq> (+) direct_base ` entry_bytes e)"
proof -
  obtain e where e: "e \<in> set es" "usable e" "r \<in> set (map piece_req (direct_pieces e))" using assms(2) by (auto simp: direct_reqs_def)
  then show ?thesis using entry_reqs(1) [of e] assms(1) by (auto simp: entries_ok_def)
qed

lemma direct_reqs_apart: "entries_ok es \<Longrightarrow> ranges_apart (direct_reqs es)"
proof (induction es)
  case (Cons e es)
  then have es: "entries_ok es" by (auto simp: entries_ok_def split: if_splits)
  show ?case
  proof (cases "usable e")
    case True
    have "reach r \<inter> reach q = {}" if r: "r \<in> set (map piece_req (direct_pieces e))" and q: "q \<in> set (direct_reqs es)" for r q
    proof -
      obtain f where f: "f \<in> set es" "usable f" "reach q \<subseteq> (+) direct_base ` entry_bytes f" using direct_reqs_in [OF es q] by blast
      have "reach r \<subseteq> (+) direct_base ` entry_bytes e" using entry_reqs(1) [of e] Cons.prems True r by (auto simp: entries_ok_def)
      moreover have "entry_bytes e \<inter> entry_bytes f = {}" using Cons.prems True f(1,2) by (auto simp: entries_ok_def)
      then have "(+) direct_base ` entry_bytes e \<inter> (+) direct_base ` entry_bytes f = {}" by auto
      ultimately show ?thesis using f(3) by blast
    qed
    then show ?thesis using entry_reqs(2) [of e] Cons.prems True Cons.IH [OF es] by (simp add: direct_reqs_Cons apart_append entries_ok_def)
  next
    case False
    then show ?thesis using Cons.IH [OF es] by (simp add: direct_reqs_Cons)
  qed
qed (simp add: direct_reqs_def)

lemma fb_req_spec:
  assumes "0 < unat (pitch v) * unat (height_px v)"
  shows "req_ok (fb_req v)" "reach (fb_req v) = (+) direct_base ` fb_bytes v" "reach (fb_req v) \<subseteq> {direct_base ..< 0xBC0000200000}"
    "unat (ucast (framebuffer_address v) :: u64) \<le> unat w \<Longrightarrow>
     unat w < unat (framebuffer_address v) + unat (pitch v) * unat (height_px v) \<Longrightarrow>
     canon (DIRECT_MAP_START + w) \<in> reach (fb_req v) \<and> target (fb_req v) (DIRECT_MAP_START + w) = w"
proof -
  obtain base n where bn: "framebuffer_pages v = (base, n)" by (cases "framebuffer_pages v")
  have f: "4096 dvd unat base" "unat base \<le> unat (framebuffer_address v)"
    "unat (framebuffer_address v) + unat (pitch v) * unat (height_px v) \<le> unat base + unat n * 4096"
    "unat base + unat n * 4096 < unat (framebuffer_address v) + unat (pitch v) * unat (height_px v) + 4096"
    using framebuffer_range [OF assms] by (simp_all add: bn)
  have "unat (pitch v) \<le> 65535" "unat (height_px v) \<le> 65535" using unat_lt_u16 [of "pitch v"] unat_lt_u16 [of "height_px v"] by simp_all
  then have "unat (pitch v) * unat (height_px v) \<le> 65535 * 65535" by (rule mult_le_mono)
  then have top: "unat base + unat n * 4096 \<le> 2 ^ 34" using f(4) unat_lt_u32 [of "framebuffer_address v"] by simp
  let ?f = "PTE_FLAGS_DIRECT_MAP OR PTE_PWT"
  have fl: "present ?f" "\<not> huge ?f" "?f AND PTE_ADDR_MASK = 0" using small_flags(5) by (auto simp: small_flag_def)
  have pb: "piece_bytes ?f n = unat n * 4096" using fl(2) by (simp add: piece_bytes_def)
  have r: "fb_req v = \<lparr>req_pa = base, req_va = DIRECT_MAP_START + base, req_flags = ?f, req_n = n\<rparr>" by (simp add: fb_req_def bn)
  have le: "unat base + piece_bytes ?f n \<le> 0x3C0000000000" using top by (simp add: pb)
  have dv: "(if huge ?f then 2 ^ 21 else 2 ^ 12) dvd unat base" using f(1) fl(2) by simp
  note p = piece_req_spec [OF le fl(1,3) dv, folded r]
  show "req_ok (fb_req v)" by (rule p(1))
  show re: "reach (fb_req v) = (+) direct_base ` fb_bytes v"
    unfolding p(2) pb by (simp add: fb_bytes_def bn ac_simps)
  show "reach (fb_req v) \<subseteq> {direct_base ..< 0xBC0000200000}" unfolding p(2) pb using top by (auto simp: direct_base_def)
  show "canon (DIRECT_MAP_START + w) \<in> reach (fb_req v) \<and> target (fb_req v) (DIRECT_MAP_START + w) = w"
    if "unat (ucast (framebuffer_address v) :: u64) \<le> unat w" "unat w < unat (framebuffer_address v) + unat (pitch v) * unat (height_px v)"
  proof -
    have "unat (ucast (framebuffer_address v) :: u64) = unat (framebuffer_address v)"
      using unat_lt_u32 [of "framebuffer_address v"] by (simp add: unsigned_ucast_eq take_bit_nat_eq_self)
    then have w: "unat base \<le> unat w" "unat w < unat base + unat n * 4096" using that f(2,3) by simp_all
    then have "unat w \<le> 0x3C0000000000" using top by simp
    then show ?thesis using p(3) [OF w(1)] w unat_direct(2) [of w] unfolding p(2) pb by simp
  qed
qed


section \<open>All ranges together\<close>

lemma stack_req_spec:
  assumes "2 ^ 14 dvd unat x" "unat x + 16384 \<le> 2 ^ 52"
  shows "req_ok (stack_req x)" "reach (stack_req x) = {0xFC0000600000 ..< 0xFC0000604000}"
    "i < 16384 \<Longrightarrow> target (stack_req x) (KERNEL_STACKS_START + of_nat i) = x + of_nat i"
    "i < 16384 \<Longrightarrow> canon (KERNEL_STACKS_START + of_nat i) \<in> reach (stack_req x)"
proof -
  have c: "canon KERNEL_STACKS_START = 0xFC0000600000" by (simp add: canon_def const_defs)
  have fl: "present PTE_FLAGS_KERNEL_DATA" "\<not> huge PTE_FLAGS_KERNEL_DATA" "PTE_FLAGS_KERNEL_DATA AND PTE_ADDR_MASK = 0"
    using small_flags(3) by (auto simp: small_flag_def)
  have b: "req_bytes (stack_req x) = 16384" using fl(2) by (simp add: stack_req_def req_bytes_def page_shift_def)
  have "4096 dvd unat x" using dvd_trans [OF _ assms(1), of 4096] by simp
  then show "req_ok (stack_req x)"
    using assms(2) fl c unfolding req_ok_def b by (simp add: stack_req_def page_shift_def) (simp add: const_defs)
  show re: "reach (stack_req x) = {0xFC0000600000 ..< 0xFC0000604000}" unfolding reach_def b using c by (simp add: stack_req_def)
  show i: "canon (KERNEL_STACKS_START + of_nat i) \<in> reach (stack_req x)" "target (stack_req x) (KERNEL_STACKS_START + of_nat i) = x + of_nat i"
    if "i < 16384"
  proof -
    have "unat (of_nat i :: u64) = i" using that by (intro unat_of_nat_id) simp
    then have u: "unat (KERNEL_STACKS_START + of_nat i) = 0xFFFFFC0000600000 + i" using that by (subst unat_add_no_overflow) (simp_all add: const_defs)
    then have ci: "canon (KERNEL_STACKS_START + of_nat i) = 0xFC0000600000 + i" by (subst canon_high) (simp_all add: high_base_def)
    then show "canon (KERNEL_STACKS_START + of_nat i) \<in> reach (stack_req x)" using that by (simp add: re)
    show "target (stack_req x) (KERNEL_STACKS_START + of_nat i) = x + of_nat i" using ci c by (simp add: target_def stack_req_def)
  qed
qed

lemma low_req_spec: "req_ok low_req" "reach low_req = {0 ..< 2 ^ 24}" "unat p < 2 ^ 24 \<Longrightarrow> target low_req p = p"
proof -
  have fl: "present (req_flags low_req)" "huge (req_flags low_req)" "req_flags low_req AND PTE_ADDR_MASK = 0"
    by (simp_all add: low_req_def present_def huge_def const_defs)
  have b: "req_bytes low_req = 2 ^ 24" using fl(2) by (simp add: req_bytes_def page_shift_def) (simp add: low_req_def)
  have c: "canon (req_va low_req) = 0" by (simp add: low_req_def canon_def)
  show "req_ok low_req" using fl c unfolding req_ok_def b by (simp add: low_req_def)
  show "reach low_req = {0 ..< 2 ^ 24}" unfolding reach_def b c by simp
  show "target low_req p = p" if "unat p < 2 ^ 24"
    using that c canon_low [of p] by (simp add: target_def low_req_def)
qed

lemma image_apart:
  assumes "image_ok img"
  shows "ranges_apart (image_reqs img)" "\<forall>r\<in>set (image_reqs img). req_ok r \<and> reach r \<subseteq> {0xFFFF80000000 ..}"
proof -
  note l = image_reqs_spec [OF assms, unfolded image_reqs_def image_ranges_def list_all2_Cons list_all2_Nil in_place_def fst_conv snd_conv]
  have o: "text_end_addr img \<le> rodata_start_addr img" "rodata_end_addr img \<le> data_start_addr img" using assms by (auto simp: image_ok_def)
  show "ranges_apart (image_reqs img)" using l o unfolding image_reqs_def sorted_wrt.simps
    by (simp add: word_le_nat_alt disjoint_iff) linarith
  show "\<forall>r\<in>set (image_reqs img). req_ok r \<and> reach r \<subseteq> {0xFFFF80000000 ..}"
    using l unfolding image_reqs_def by (auto simp: high_base_def)
qed

lemma boot_reqs_ok:
  assumes img: "image_ok img" and mem: "memory_ok es v" and x: "2 ^ 14 dvd unat x" "unat x + 16384 \<le> 2 ^ 52"
  shows "(\<forall>r\<in>set (boot_reqs img x es v). req_ok r) \<and> ranges_apart (boot_reqs img x es v)"
proof -
  have es: "entries_ok es" and v: "0 < unat (pitch v) * unat (height_px v)" and fb: "\<And>e. e \<in> set es \<Longrightarrow> usable e \<Longrightarrow> entry_bytes e \<inter> fb_bytes v = {}"
    using mem by (auto simp: memory_ok_def)
  note st = stack_req_spec [OF x] and f = fb_req_spec [OF v] and im = image_apart [OF img]
  have d: "reach r \<subseteq> {direct_base ..< 0xBC0000200000}" if r: "r \<in> set (direct_reqs es)" for r
  proof -
    obtain e where e: "e \<in> set es" "usable e" "reach r \<subseteq> (+) direct_base ` entry_bytes e" using direct_reqs_in [OF es r] by blast
    then have "entry_bytes e \<subseteq> {0 ..< 0x3C0000000000}" using es by (auto simp: entries_ok_def entry_bytes_def)
    then have "(+) direct_base ` entry_bytes e \<subseteq> {direct_base ..< 0xBC0000200000}" by (auto simp: direct_base_def)
    then show ?thesis using e(3) by blast
  qed
  have dfb: "reach r \<inter> reach (fb_req v) = {}" if r: "r \<in> set (direct_reqs es)" for r
  proof -
    obtain e where e: "e \<in> set es" "usable e" "reach r \<subseteq> (+) direct_base ` entry_bytes e" using direct_reqs_in [OF es r] by blast
    have "(+) direct_base ` entry_bytes e \<inter> (+) direct_base ` fb_bytes v = {}" using fb [OF e(1,2)] by auto
    then show ?thesis using e(3) unfolding f(2) by blast
  qed
  have z: "{0xFFFF80000000 ..} \<inter> {0xFC0000600000 ..< (0xFC0000604000 :: nat)} = {}" "{0xFFFF80000000 ..} \<inter> {direct_base ..< 0xBC0000200000} = {}"
    "{0xFFFF80000000 ..} \<inter> {0 ..< (2 ^ 24 :: nat)} = {}" "{0xFC0000600000 ..< (0xFC0000604000 :: nat)} \<inter> {direct_base ..< 0xBC0000200000} = {}"
    "{0xFC0000600000 ..< (0xFC0000604000 :: nat)} \<inter> {0 ..< 2 ^ 24} = {}" "{direct_base ..< 0xBC0000200000} \<inter> {0 ..< 2 ^ 24} = {}"
    by (auto simp: direct_base_def)
  have i1: "reach r \<inter> reach q = {}" if "r \<in> set (image_reqs img)" "q \<in> set ([stack_req x] @ direct_reqs es @ [low_req, fb_req v])" for r q
  proof -
    have "reach r \<subseteq> {0xFFFF80000000 ..}" using im(2) that(1) by blast
    moreover have "reach q \<subseteq> {0xFC0000600000 ..< 0xFC0000604000} \<or> reach q \<subseteq> {direct_base ..< 0xBC0000200000} \<or> reach q \<subseteq> {0 ..< 2 ^ 24}"
      using that(2) st(2) d low_req_spec(2) f(3) by auto
    ultimately show ?thesis using z(1-3) by blast
  qed
  have s1: "reach (stack_req x) \<inter> reach q = {}" if "q \<in> set (direct_reqs es @ [low_req, fb_req v])" for q
  proof -
    have "reach q \<subseteq> {direct_base ..< 0xBC0000200000} \<or> reach q \<subseteq> {0 ..< 2 ^ 24}" using that d low_req_spec(2) f(3) by auto
    then show ?thesis unfolding st(2) using z(4,5) by blast
  qed
  have d1: "reach r \<inter> reach q = {}" if "r \<in> set (direct_reqs es)" "q \<in> set [low_req, fb_req v]" for r q
    using that d [OF that(1)] dfb [OF that(1)] z(6) low_req_spec(2) by auto
  have l1: "reach low_req \<inter> reach (fb_req v) = {}" using f(3) z(6) low_req_spec(2) by blast
  have "ranges_apart (boot_reqs img x es v)"
    unfolding boot_reqs_def apart_append using im(1) i1 s1 d1 l1 direct_reqs_apart [OF es] by simp
  moreover have "\<forall>r\<in>set (boot_reqs img x es v). req_ok r"
    unfolding boot_reqs_def using im(2) st(1) direct_reqs_in [OF es] low_req_spec(1) f(1) by auto
  ultimately show ?thesis by blast
qed

section \<open>The page table the kernel starts with\<close>

definition in_image :: "kernel_image \<Rightarrow> u64 \<Rightarrow> bool" where
  "in_image img w \<longleftrightarrow>
     kernel_start_addr img \<le> w \<and> w < text_end_addr img \<or> rodata_start_addr img \<le> w \<and> w < rodata_end_addr img \<or>
     data_start_addr img \<le> w \<and> unat w < unat (kernel_end_addr img) + 16384"

lemma image_linear:
  assumes img: "image_ok img" and w: "in_image img w"
  shows "\<exists>r\<in>set (image_reqs img). canon w \<in> reach r \<and> target r w = w - KERNEL_IMAGE_START"
proof -
  have "\<exists>ab\<in>set (image_ranges img). fst ab \<le> unat w \<and> unat w < snd ab"
    using w by (auto simp: in_image_def image_ranges_def word_le_nat_alt word_less_nat_alt)
  then obtain r a b where r: "r \<in> set (image_reqs img)" "in_place r (a, b)" "a \<le> unat w" "unat w < b"
    using image_reqs_spec [OF img] by (metis in_set_conv_nth list_all2_conv_all_nth prod.collapse)
  have h: "high_base \<le> a" using r(2) by (simp add: in_place_def high_base_def)
  then have "canon w = unat w - high_base" using r(3) by (intro canon_high) simp
  moreover have "a - high_base \<le> unat w - high_base" "unat w - high_base < b - high_base" using h r(3,4) by linarith+
  ultimately have "canon w \<in> reach r" using r(2) by (simp add: in_place_def)
  then show ?thesis using r by (intro bexI [of _ r]) (simp_all add: in_place_def)
qed

lemma init_mmu_layout:
  assumes "boot_ready s fl" "image_ok img" "memory_ok es v"
  shows "(\<exists>stack s' T fl'. init_mmu img es v s = Inr (KERNEL_STACKS_START + 4 * PAGE_SIZE - 8, s') \<and>
      T = translate (tables (mmu s')) (cr3 s') \<and>
      (\<forall>w. in_image img w \<longrightarrow> T w = Some (w - KERNEL_IMAGE_START)) \<and>
      (\<forall>i<16384. T (KERNEL_STACKS_START + of_nat i) = Some (stack + of_nat i)) \<and>
      span stack 2 \<subseteq> free_bytes fl \<and> span stack 2 \<inter> (table_bytes (tables (mmu s')) (cr3 s') \<union> free_bytes fl') = {} \<and>
      (\<forall>e\<in>set es. usable e \<longrightarrow> (\<forall>p. first_page e \<le> unat p \<and> unat p < last_page e \<longrightarrow> T (DIRECT_MAP_START + p) = Some p)) \<and>
      (\<forall>p. unat p < 2 ^ 24 \<longrightarrow> T p = Some p) \<and>
      (\<forall>p. unat (framebuffer_address v) \<le> unat p \<and> unat p < unat (framebuffer_address v) + unat (pitch v) * unat (height_px v) \<longrightarrow>
         T (DIRECT_MAP_START + p) = Some p) \<and>
      (\<exists>U V t. paging_inv s' fl' U V t) \<and> cr3 s' = kernel_pml4t s' \<and> phys_map_offset s' = DIRECT_MAP_START \<and>
      fb_virtual s' = DIRECT_MAP_START + ucast (framebuffer_address v)) \<or>
    (\<exists>m. init_mmu img es v s = Inl (Panic m)) \<and> card (free_bytes fl) < 20480 + total_cost (boot_reqs img 0 es v)"
proof -
  have es: "entries_ok es" and fb: "0 < unat (pitch v) * unat (height_px v)" using assms(3) by (auto simp: memory_ok_def)
  have "\<forall>x. 2 ^ 14 dvd unat x \<longrightarrow> unat x + 16384 \<le> 2 ^ 52 \<longrightarrow> (\<forall>r\<in>set (boot_reqs img x es v). req_ok r) \<and> ranges_apart (boot_reqs img x es v)"
    using boot_reqs_ok [OF assms(2,3)] by blast
  from init_mmu_spec [OF assms(1) this] show ?thesis
  proof (elim disjE exE conjE)
    fix x s' fl' assume i: "init_mmu img es v s = Inr (KERNEL_STACKS_START + 4 * PAGE_SIZE - 8, s')" "booted (boot_reqs img x es v) v fl' s'"
      and x: "2 ^ 14 dvd unat x" "unat x + 16384 \<le> 2 ^ 52"
      and fresh: "span x 2 \<subseteq> free_bytes fl" "span x 2 \<inter> held (mmu s') (cr3 s') fl' = {}"
    let ?T = "translate (tables (mmu s')) (cr3 s')"
    have lin: "?T w = Some (target r w)" if "r \<in> set (boot_reqs img x es v)" "canon w \<in> reach r" for r w
      using i(2) that by (auto simp: booted_def linear_def)
    have mem: "set (image_reqs img) \<subseteq> set (boot_reqs img x es v)" "stack_req x \<in> set (boot_reqs img x es v)"
      "set (direct_reqs es) \<subseteq> set (boot_reqs img x es v)" "low_req \<in> set (boot_reqs img x es v)" "fb_req v \<in> set (boot_reqs img x es v)"
      by (auto simp: boot_reqs_def)
    have "?T w = Some (w - KERNEL_IMAGE_START)" if "in_image img w" for w
      using image_linear [OF assms(2) that] lin mem(1) by (metis subsetD)
    moreover have "?T (KERNEL_STACKS_START + of_nat j) = Some (x + of_nat j)" if "j < 16384" for j
      using lin [OF mem(2)] stack_req_spec(3,4) [OF x that] by simp
    moreover have "?T (DIRECT_MAP_START + p) = Some p" if e: "e \<in> set es" "usable e" "first_page e \<le> unat p" "unat p < last_page e" for e p
    proof -
      have "unat (e820_base e) + unat (e820_chunk_size e) \<le> 0x3C0000000000" using es e(1,2) by (auto simp: entries_ok_def)
      from entry_reqs(3) [OF this] obtain r where r: "r \<in> set (map piece_req (direct_pieces e))"
          "canon (DIRECT_MAP_START + p) \<in> reach r" "target r (DIRECT_MAP_START + p) = p"
        using e(3,4) unfolding covers_direct_def by blast
      then have "r \<in> set (direct_reqs es)" using e(1,2) by (auto simp: direct_reqs_def)
      then show ?thesis using lin [of r "DIRECT_MAP_START + p"] mem(3) r(2,3) by auto
    qed
    moreover have "?T p = Some p" if "unat p < 2 ^ 24" for p
    proof -
      have "canon p \<in> reach low_req" unfolding low_req_spec(2) using canon_low [of p] that by simp
      then show ?thesis using lin [OF mem(4)] low_req_spec(3) [OF that] by simp
    qed
    moreover have "?T (DIRECT_MAP_START + p) = Some p"
      if "unat (framebuffer_address v) \<le> unat p" "unat p < unat (framebuffer_address v) + unat (pitch v) * unat (height_px v)" for p
    proof -
      have "unat (ucast (framebuffer_address v) :: u64) = unat (framebuffer_address v)"
        using unat_lt_u32 [of "framebuffer_address v"] by (simp add: unsigned_ucast_eq take_bit_nat_eq_self)
      then show ?thesis using lin [OF mem(5), of "DIRECT_MAP_START + p"] fb_req_spec(4) [OF fb, of p] that by simp
    qed
    ultimately show ?thesis using i fresh
      by (intro disjI1 exI [of _ x] exI [of _ s'] exI [of _ ?T] exI [of _ fl']) (auto simp: booted_def held_def)
  qed blast+
qed

text \<open>
  C11. \<open>__init_mmu\<close>, for a kernel image with page-aligned sections in order above
  \<open>KERNEL_IMAGE_START\<close>, usable memory below the end of the direct map in disjoint entries, and a
  framebuffer beside it: it returns the top of the mapped stack, with the new table loaded. Under
  that table the sections of the image and the 16 KB behind it are mapped to where they were
  loaded, every whole page of usable memory and the framebuffer into the direct map, and the first
  16 MB to themselves. The 16 KB of the stack are mapped to one block that was free before and that is
  neither free nor part of a page table afterwards. Tables, areas and allocators are in order and the lock
  is free. It panics only when less memory is free than the areas, the tables and the stack can take; on
  lists as \<open>__init_buddy\<close> leaves them, with at most one block of each order below 10, that much free
  memory always has a block of 16 KB in it.
\<close>

theorem init_mmu_correct:
  assumes "boot_ready s fl" "image_ok img" "memory_ok es v"
  shows "(\<exists>stack s' T fl'. init_mmu img es v s = Inr (KERNEL_STACKS_START + 4 * PAGE_SIZE - 8, s') \<and>
      T = translate (tables (mmu s')) (cr3 s') \<and>
      (\<forall>w. in_image img w \<longrightarrow> T w = Some (w - KERNEL_IMAGE_START)) \<and>
      (\<forall>i<16384. T (KERNEL_STACKS_START + of_nat i) = Some (stack + of_nat i)) \<and>
      span stack 2 \<subseteq> free_bytes fl \<and> span stack 2 \<inter> (table_bytes (tables (mmu s')) (cr3 s') \<union> free_bytes fl') = {} \<and>
      (\<forall>e\<in>set es. usable e \<longrightarrow> (\<forall>p. first_page e \<le> unat p \<and> unat p < last_page e \<longrightarrow> T (DIRECT_MAP_START + p) = Some p)) \<and>
      (\<forall>p. unat p < 2 ^ 24 \<longrightarrow> T p = Some p) \<and>
      (\<forall>p. unat (framebuffer_address v) \<le> unat p \<and> unat p < unat (framebuffer_address v) + unat (pitch v) * unat (height_px v) \<longrightarrow>
         T (DIRECT_MAP_START + p) = Some p) \<and>
      (\<exists>U V t. paging_inv s' fl' U V t) \<and> cr3 s' = kernel_pml4t s' \<and> phys_map_offset s' = DIRECT_MAP_START \<and>
      fb_virtual s' = DIRECT_MAP_START + ucast (framebuffer_address v)) \<or>
    (\<exists>m. init_mmu img es v s = Inl (Panic m)) \<and> card (free_bytes fl) < 20480 + total_cost (boot_reqs img 0 es v)"
  by (rule init_mmu_layout [OF assms])

section \<open>Witness\<close>

text \<open>8 MB of memory at 4 MB, an image of three pages at 1 MB, four pages of framebuffer.\<close>

definition ex_image :: kernel_image where
  "ex_image = \<lparr>kernel_start_addr = 0xFFFFFFFF80100000, kernel_end_addr = 0xFFFFFFFF80103000, text_end_addr = 0xFFFFFFFF80101000,
     rodata_start_addr = 0xFFFFFFFF80101000, rodata_end_addr = 0xFFFFFFFF80102000, data_start_addr = 0xFFFFFFFF80102000\<rparr>"

definition ex_entries :: "mmap_entry_0xe820 list" where
  "ex_entries = [\<lparr>e820_base = 0x400000, e820_chunk_size = 0x800000, e820_type = 1, e820_ACPI_ext_attr = 0\<rparr>]"

definition ex_vbe :: boot_vbe_handoff where
  "ex_vbe = \<lparr>framebuffer_address = 0xFD000000, pitch = 4096, width_px = 1024, height_px = 4, bpp = 32\<rparr>"

lemma ex_boot_ready: "\<exists>fl. boot_ready (ex_paging ex_slab) fl \<and> free_bytes fl = {0x400000 ..< 0xC00000}"
proof -
  obtain fl where fl: "buddy_inv ex_buddy fl" "free_bytes fl = {0x400000 ..< 0xC00000}" "tidy fl" using ex_buddy_ready by blast
  then have "boot_ready (ex_paging ex_slab) fl"
    by (simp add: boot_ready_def ex_paging_def ex_slab_def free_slabs_def partial_slabs_def full_slabs_def ex_region)
  then show ?thesis using fl(2) by (intro exI [of _ fl]) simp
qed

lemma ex_memory: "image_ok ex_image" "memory_ok ex_entries ex_vbe" "framebuffer_pages ex_vbe = (0xFD000000, 4)"
proof -
  show "image_ok ex_image" by (simp add: image_ok_def ex_image_def const_defs)
  show fb: "framebuffer_pages ex_vbe = (0xFD000000, 4)" by code_simp
  show "memory_ok ex_entries ex_vbe"
    by (simp add: memory_ok_def entries_ok_def entry_bytes_def fb_bytes_def fb) (simp add: ex_entries_def ex_vbe_def usable_def)
qed

lemma ex_cost: "total_cost (boot_reqs ex_image 0 ex_entries ex_vbe) = 364544"
proof -
  have "map req_cost (image_reqs ex_image) = [16384, 16384, 16384, 53248]"
    by (simp add: image_reqs_def section_req_def req_cost_def ex_image_def PAGE_SIZE_def)
  moreover have "direct_pieces \<lparr>e820_base = 0x400000, e820_chunk_size = 0x800000, e820_type = 1, e820_ACPI_ext_attr = 0\<rparr> = [(0x400000, PTE_FLAGS_DIRECT_MAP OR PTE_HUGE_PAGE, 4)]"
    by (simp add: direct_pieces_def Let_def PAGE_SIZE_def HUGE_PAGE_SIZE_def)
  then have "map req_cost (direct_reqs ex_entries) = [53248]" by (simp add: direct_reqs_def ex_entries_def usable_def piece_req_def req_cost_def)
  moreover have "map req_cost [low_req, fb_req ex_vbe] = [102400, 53248]" by (simp add: low_req_def fb_req_def ex_memory(3) req_cost_def)
  moreover have "req_cost (stack_req 0) = 53248" by (simp add: stack_req_def req_cost_def)
  ultimately show ?thesis by (simp add: total_cost_def boot_reqs_def)
qed

theorem init_mmu_witness:
  "\<exists>s' stack. init_mmu ex_image ex_entries ex_vbe (ex_paging ex_slab) = Inr (0xFFFFFC0000603FF8, s') \<and>
     translate (tables (mmu s')) (cr3 s') 0xFFFFFFFF80101234 = Some 0x101234 \<and>
     translate (tables (mmu s')) (cr3 s') 0xFFFF800000601234 = Some 0x401234 \<and>
     translate (tables (mmu s')) (cr3 s') 0xFFFFFC0000600000 = Some stack \<and> span stack 2 \<subseteq> {0x400000 ..< 0xC00000}"
proof -
  obtain fl where fl: "boot_ready (ex_paging ex_slab) fl" "free_bytes fl = {0x400000 ..< 0xC00000}" using ex_boot_ready by blast
  let ?e = "\<lparr>e820_base = 0x400000, e820_chunk_size = 0x800000, e820_type = 1, e820_ACPI_ext_attr = 0\<rparr> :: mmap_entry_0xe820"
  have e: "?e \<in> set ex_entries" "usable ?e" "first_page ?e \<le> unat (0x401234 :: u64)" "unat (0x401234 :: u64) < last_page ?e"
    by (simp_all add: ex_entries_def usable_def first_page_def last_page_def)
  have i: "in_image ex_image 0xFFFFFFFF80101234" by (simp add: in_image_def ex_image_def)
  have d: "DIRECT_MAP_START + 0x401234 = 0xFFFF800000601234" "0xFFFFFFFF80101234 - KERNEL_IMAGE_START = 0x101234"
    "KERNEL_STACKS_START + 4 * PAGE_SIZE - 8 = 0xFFFFFC0000603FF8" by (simp_all add: const_defs)
  from init_mmu_correct [OF fl(1) ex_memory(1,2)] show ?thesis
  proof (elim disjE exE conjE)
    fix stack s' T fl'
    assume i1: "init_mmu ex_image ex_entries ex_vbe (ex_paging ex_slab) = Inr (KERNEL_STACKS_START + 4 * PAGE_SIZE - 8, s')"
      and T: "T = translate (tables (mmu s')) (cr3 s')" and t: "\<forall>w. in_image ex_image w \<longrightarrow> T w = Some (w - KERNEL_IMAGE_START)"
      "\<forall>e\<in>set ex_entries. usable e \<longrightarrow> (\<forall>p. first_page e \<le> unat p \<and> unat p < last_page e \<longrightarrow> T (DIRECT_MAP_START + p) = Some p)"
      "\<forall>i<16384. T (KERNEL_STACKS_START + of_nat i) = Some (stack + of_nat i)" and sp: "span stack 2 \<subseteq> free_bytes fl"
    have "T 0xFFFFFFFF80101234 = Some 0x101234" using t(1) i d(2) by metis
    moreover have "T 0xFFFF800000601234 = Some 0x401234" using t(2) e d(1) by metis
    moreover have "T 0xFFFFFC0000600000 = Some stack" using t(3) [rule_format, of 0] by (simp add: KERNEL_STACKS_START_def)
    ultimately show ?thesis using i1 T sp d(3) fl(2) by metis
  qed (simp_all add: fl(2) ex_cost)
qed

end
