(* ===== verification/Slab_Boot.thy ===== *)
theory Slab_Boot
  imports Slab_Props
begin

text \<open>
  The boot of the allocators: \<open>__init_slab\<close> sets up the eight caches of the general allocator one after the
  other, on top of the buddy allocator that \<open>__init_buddy\<close> leaves.
\<close>

section \<open>A cache without slabs\<close>

abbreviation sentinels :: "addr \<Rightarrow> addr set" where
  "sentinels c \<equiv> {free_slabs c, partial_slabs c, full_slabs c}"

definition fresh_cache :: "slab_state \<Rightarrow> addr \<Rightarrow> (nat \<Rightarrow> addr list) \<Rightarrow> bool" where
  "fresh_cache s c fl \<longleftrightarrow> slab_inv s c fl [] [] [] (\<lambda>_. [])"

lemma fresh_cache_rep: "fresh_cache s c fl \<Longrightarrow> \<not> slab_lock s \<Longrightarrow> slab_rep_in s c fl {}"
  unfolding slab_rep_in_def fresh_cache_def
  by (rule conjI, assumption) (intro exI [of _ "[]"] exI [of _ "\<lambda>_. []"] conjI, assumption, simp add: in_use_def)

lemma fresh_cache_keep:
  assumes "fresh_cache s c fl" "caches t c = caches s c" "\<And>h. h \<in> sentinels c \<Longrightarrow> nodes_mem t h = nodes_mem s h" "buddy t = buddy s"
  shows "fresh_cache t c fl"
proof -
  have "clist (nodes_mem t) h [] = clist (nodes_mem s) h []" if "h \<in> sentinels c" for h
    using assms(3) [OF that] by (simp add: clist_def)
  then show ?thesis using assms(1,2,4)
    by (simp add: fresh_cache_def slab_inv_def slab_lists_def lists3_alt slabs_ok_def placed_def)
qed

lemma kmem_cache_create_frame:
  assumes "kmem_cache_create s c sz = Some (r, t)"
  shows "buddy t = buddy s" "slab_lock t = slab_lock s" "slab_caches t = slab_caches s" "c' \<noteq> c \<Longrightarrow> caches t c' = caches s c'"
    "h \<notin> sentinels c \<Longrightarrow> nodes_mem t h = nodes_mem s h"
  using assms
  by (auto simp: kmem_cache_create_def Let_def upd_cache_def upd_node_def empty_list_def split: if_splits Option.bind_splits)

section \<open>The eight caches\<close>

abbreviation cache_nr :: "slab_state \<Rightarrow> nat \<Rightarrow> addr" where
  "cache_nr s i \<equiv> slab_cache_at s (of_nat i)"

lemma unat_cache_nr:
  assumes "unat (slab_caches s) + 576 < 2 ^ 64" "i < 8" "k \<le> 72"
  shows "unat (cache_nr s i + of_nat k) = unat (slab_caches s) + 72 * i + k"
proof -
  have "unat (72 * ucast (of_nat i :: u32) + of_nat k :: u64) = 72 * i + k"
    using assms(2,3) by (simp add: unat_word_ariths unsigned_ucast_eq unat_of_nat_id take_bit_nat_eq_self)
  then show ?thesis using assms unfolding slab_cache_at_def add.assoc by (subst unat_add_no_overflow) simp_all
qed

lemma sentinels_eq: "sentinels c = (\<lambda>k. c + of_nat k) ` {24, 40, 56}"
  by (simp add: free_slabs_def partial_slabs_def full_slabs_def)

lemma caches_apart:
  assumes "unat (slab_caches s) + 576 < 2 ^ 64" "i < 8" "j < 8" "i \<noteq> j"
  shows "cache_nr s i \<noteq> cache_nr s j" "h \<in> sentinels (cache_nr s i) \<Longrightarrow> h \<notin> sentinels (cache_nr s j)"
proof -
  have u: "unat (cache_nr s i + of_nat k) \<noteq> unat (cache_nr s j + of_nat l)" if "k < 72" "l < 72" for k l
    using unat_cache_nr [OF assms(1,2), of k] unat_cache_nr [OF assms(1,3), of l] that assms(4) by linarith
  show "cache_nr s i \<noteq> cache_nr s j" using u [of 0 0] by auto
  show "h \<notin> sentinels (cache_nr s j)" if "h \<in> sentinels (cache_nr s i)"
  proof
    assume "h \<in> sentinels (cache_nr s j)"
    then obtain l where l: "h = cache_nr s j + of_nat l" "l \<in> {24, 40, 56}" unfolding sentinels_eq by (rule imageE)
    from that obtain k where k: "h = cache_nr s i + of_nat k" "k \<in> {24, 40, 56}" unfolding sentinels_eq by (rule imageE)
    have "k < 72" "l < 72" using k(2) l(2) by auto
    from u [OF this] show False by (simp only: k(1) [symmetric] l(1) [symmetric])
  qed
qed

lemma size_to_index_pow: "4 \<le> pow \<Longrightarrow> pow < 12 \<Longrightarrow> size_to_index (push_bit pow 1) = of_nat (pow - 4)"
proof -
  assume p: "4 \<le> pow" "pow < 12"
  have u: "unat (push_bit pow 1 :: u64) = 2 ^ pow" using p by (simp add: unat_push_bit_1)
  have "(2::nat) ^ pow \<le> 2 ^ 11" using p by (intro power_increasing) simp_all
  then obtain i where i: "size_to_index (push_bit pow 1) = of_nat i" "2 ^ pow \<le> (2::nat) ^ (i + 4)"
      "\<And>j. 2 ^ pow \<le> (2::nat) ^ (j + 4) \<Longrightarrow> i \<le> j"
    using size_to_index_spec [of "push_bit pow 1"] unfolding u by auto
  have "i \<le> pow - 4" using p by (intro i(3)) simp
  moreover have "pow \<le> i + 4" using i(2) by simp
  ultimately have "i = pow - 4" by simp
  then show ?thesis using i(1) by simp
qed

definition cache_ready :: "slab_state \<Rightarrow> (nat \<Rightarrow> addr list) \<Rightarrow> nat \<Rightarrow> bool" where
  "cache_ready s fl i \<longleftrightarrow> fresh_cache s (cache_nr s i) fl \<and> object_size (caches s (cache_nr s i)) = push_bit (i + 4) 1"

lemma init_slab_loop_spec:
  assumes "set pows \<subseteq> {4..<12}" "distinct pows" "buddy_inv (buddy s) fl" "\<not> slab_lock s"
    "slab_caches s \<noteq> NULL" "unat (slab_caches s) + 576 < 2 ^ 64" "\<And>i. i < 8 \<Longrightarrow> \<forall>h\<in>sentinels (cache_nr s i). unat h \<notin> free_bytes fl"
    "\<And>i. i < 8 \<Longrightarrow> i + 4 \<notin> set pows \<Longrightarrow> cache_ready s fl i"
  shows "\<exists>t. init_slab_loop s pows = Some (True, t) \<and> buddy t = buddy s \<and> \<not> slab_lock t \<and> slab_caches t = slab_caches s \<and>
    (\<forall>i<8. cache_ready t fl i)"
  using assms
proof (induction pows arbitrary: s)
  case (Cons pow pows)
  define j where "j = pow - 4"
  have pow: "pow = j + 4" "j < 8" "4 \<le> pow" "pow < 12" using Cons.prems(1) by (auto simp: j_def)
  let ?c = "cache_nr s j" and ?sz = "push_bit pow 1 :: u64"
  have u: "unat ?sz = 2 ^ pow" using pow by (simp add: unat_push_bit_1)
  have "(2::nat) ^ pow \<le> 2 ^ 11" using pow by (intro power_increasing) simp_all
  moreover have "(2::nat) ^ 4 \<le> 2 ^ pow" using pow by (intro power_increasing) simp_all
  ultimately have "8 \<le> unat ?sz" "8 * unat ?sz + 56 \<le> 2 ^ 22" unfolding u by simp_all
  from kmem_cache_create_rep [OF Cons.prems(3,4) this Cons.prems(7) [OF pow(2)]] obtain t where
    t: "kmem_cache_create s ?c ?sz = Some (?c, t)" "slab_inv t ?c fl [] [] [] (\<lambda>_. [])" "object_size (caches t ?c) = ?sz" by blast
  note fr = kmem_cache_create_frame [OF t(1)]
  have at: "slab_cache_at t i = slab_cache_at s i" for i by (simp add: slab_cache_at_def fr(3))
  have "cache_ready t fl i" if i: "i < 8" "i + 4 \<notin> set pows" for i
  proof (cases "i = j")
    case True
    then show ?thesis using t(2,3) by (simp add: cache_ready_def fresh_cache_def at pow(1))
  next
    case False
    then have r: "cache_ready s fl i" using i pow(1) by (intro Cons.prems(8)) simp_all
    note ap = caches_apart [OF Cons.prems(6) i(1) pow(2) False]
    show ?thesis using r fresh_cache_keep [of s "cache_nr s i" fl t] fr(1) fr(4) [OF ap(1)] fr(5) [OF ap(2)]
      by (simp add: cache_ready_def at)
  qed
  then have "\<exists>u. init_slab_loop t pows = Some (True, u) \<and> buddy u = buddy t \<and> \<not> slab_lock u \<and> slab_caches u = slab_caches t \<and>
      (\<forall>i<8. cache_ready u fl i)"
    using Cons.prems fr by (intro Cons.IH) (simp_all add: at)
  moreover have "?c \<noteq> NULL"
    using unat_cache_nr [OF Cons.prems(6) pow(2), of 0] Cons.prems(5) by (auto simp: unat_eq_0)
  moreover have "size_to_index (push_bit pow 1) = of_nat j" unfolding j_def by (rule size_to_index_pow [OF pow(3,4)])
  then have "init_slab_loop s (pow # pows) = init_slab_loop t pows"
    unfolding init_slab_loop.simps by (simp only: t(1)) (simp add: \<open>?c \<noteq> NULL\<close>)
  ultimately show ?case using fr(1,3) by simp
qed simp

lemma sentinels_above:
  assumes "unat (slab_caches s) + 576 < 2 ^ 64" "i < 8" "h \<in> sentinels (cache_nr s i)"
  shows "unat (slab_caches s) \<le> unat h"
proof -
  from assms(3) obtain k where k: "h = cache_nr s i + of_nat k" "k \<in> {24, 40, 56}" unfolding sentinels_eq by (rule imageE)
  then show ?thesis using unat_cache_nr [OF assms(1,2), of k] by auto
qed

section \<open>The allocators after boot\<close>

lemma slab_front_end:
  assumes "0 < unat sz" "unat sz \<le> 2048"
  obtains i where "i < 8" "unat sz \<le> 2 ^ (i + 4)" "phys_kmalloc s sz CHOOSE_ALLOC = kmem_cache_kalloc s (cache_nr s i)"
    "\<And>u p. phys_kfree u p sz CHOOSE_ALLOC = kmem_cache_kfree u (cache_nr u i) p"
proof -
  obtain i where i: "i < 8" "size_to_index sz = of_nat i" "unat sz \<le> 2 ^ (i + 4)" using size_to_index_spec [OF assms] by blast
  have "sz \<le> MAX_SLAB_ALLOC_SIZE" using assms(2) by (simp add: word_le_nat_alt MAX_SLAB_ALLOC_SIZE_def)
  moreover have "(of_nat i :: u32) < NUM_CACHES"
    using i(1) by (simp add: word_less_nat_alt NUM_CACHES_def unat_of_nat_id)
  ultimately show thesis
    by (intro that [OF i(1,3)]) (simp_all add: slab_kalloc_def slab_kfree_def i(2) not_less [symmetric])
qed

lemma node_ops_slab_caches [simp]:
  "slab_caches (node_insert s h n) = slab_caches s" "slab_caches (node_unlink s n) = slab_caches s"
  "slab_caches (upd_desc s d f) = slab_caches s"
  by (simp_all add: node_insert_def node_unlink_def upd_node_def upd_desc_def Let_def)

lemma kmem_cache_take_slab_caches [simp]: "slab_caches (snd (kmem_cache_take s c d)) = slab_caches s"
  by (simp add: kmem_cache_take_def Let_def)

lemma kmem_cache_grow_slab_caches: "kmem_cache_grow s c = Some (ok, t) \<Longrightarrow> slab_caches t = slab_caches s"
  by (auto simp: kmem_cache_grow_def Let_def split: if_splits Option.bind_splits)

lemma kmem_cache_kalloc_slab_caches:
  assumes "kmem_cache_kalloc s c = Some (p, t)"
  shows "slab_caches t = slab_caches s"
proof -
  have "slab_caches u = slab_caches v" if "kmem_cache_take v c d = (q, u)" for u v d q
    using kmem_cache_take_slab_caches [of v c d] that by simp
  then show ?thesis using assms
    by (auto simp: kmem_cache_kalloc_def spinlock_acquire_def spinlock_release_def Let_def split: if_splits Option.bind_splits prod.splits
        dest!: kmem_cache_grow_slab_caches)
qed

lemma slab_rep_below:
  assumes "slab_rep s c U" "p \<in> U"
  shows "unat p < region_end (buddy s)"
proof -
  obtain fl fr pa fu os where i: "slab_inv s c fl fr pa fu os" and U: "U = in_use s c (set (fr @ pa @ fu)) os"
    using assms(1) by (auto simp: slab_rep_def slab_rep_in_def)
  from U assms(2) obtain d where d: "d \<in> set (fr @ pa @ fu)" "p \<in> slots (caches s c) d" by (auto simp: in_use_def)
  then obtain j where j: "p = slot (caches s c) d j" "j < unat (objects_per_slab (caches s c))" by (auto simp: slots_def)
  have ok: "cache_fit (caches s c)" "slab_block (caches s c) d" "unat d + 2 ^ (unat (slab_order (caches s c)) + 12) \<le> region_end (buddy s)"
    using i d(1) by (auto simp: slab_inv_def slabs_ok_def slab_at_def)
  have "0 < unat (object_size (caches s c))" using ok(1) by (simp add: cache_fit_def)
  then show ?thesis using unat_slot [OF ok(1,2) j(2)] slot_room [OF ok(1) j(2)] ok(3) by (simp add: j(1))
qed

lemma init_phys_kmalloc_spec:
  assumes "b = init_buddy ke es (buddy s)" "base_address b \<noteq> NULL" "region_end b \<le> unat (slab_caches s)"
    "unat (slab_caches s) + 576 < 2 ^ 64" "unat (region_size b) < 2 ^ 43"
  shows "\<exists>t fl. init_phys_kmalloc ke es s = Inr t \<and> buddy t = b \<and> \<not> slab_lock t \<and> buddy_inv b fl \<and> tidy fl \<and>
    free_bytes fl = {unat (base_address b) ..< region_end b} \<and> (\<forall>i<8. cache_ready t fl i)"
proof -
  obtain fl where fl: "buddy_inv b fl" "free_bytes fl = {unat (base_address b) ..< region_end b}" "tidy fl"
    using init_buddy_inv [of ke es "buddy s"] assms by (auto simp: region_end_def)
  let ?s = "s\<lparr>buddy := b, slab_lock := False\<rparr>"
  have "\<exists>t. init_slab_loop ?s [4..<12] = Some (True, t) \<and> buddy t = buddy ?s \<and> \<not> slab_lock t \<and> slab_caches t = slab_caches ?s \<and>
      (\<forall>i<8. cache_ready t fl i)"
  proof (rule init_slab_loop_spec)
    show "\<forall>h\<in>sentinels (cache_nr ?s i). unat h \<notin> free_bytes fl" if "i < 8" for i
    proof
      fix h assume "h \<in> sentinels (cache_nr ?s i)"
      from sentinels_above [OF _ that this] show "unat h \<notin> free_bytes fl" using assms(3,4) by (simp add: fl(2))
    qed
    show "slab_caches ?s \<noteq> NULL" using assms(2,3) by (auto simp: region_end_def unat_eq_0)
  qed (use fl(1) assms(4) in auto)
  then show ?thesis using fl assms(1) by (auto simp: init_phys_kmalloc_def init_slab_def Let_def)
qed

lemma front_end_cycle:
  assumes "slab_rep t (cache_nr t i) {}" "phys_kmalloc t sz CHOOSE_ALLOC = kmem_cache_kalloc t (cache_nr t i)"
    "\<And>u p. phys_kfree u p sz CHOOSE_ALLOC = kmem_cache_kfree u (cache_nr u i) p" "buddy t = b"
  shows "\<exists>p u. phys_kmalloc t sz CHOOSE_ALLOC = Some (p, u) \<and>
    (if p = NULL then u = t \<and> cache_exhausted t (cache_nr t i)
     else unat p < region_end b \<and> slab_rep u (cache_nr t i) {p} \<and>
       (\<exists>v. phys_kfree u p sz CHOOSE_ALLOC = Some v \<and> slab_rep v (cache_nr t i) {}))"
proof -
  let ?c = "cache_nr t i"
  obtain fl where fl: "slab_rep_in t ?c fl {}" using assms(1) by (auto simp: slab_rep_def)
  obtain p u fl' where p: "kmem_cache_kalloc t ?c = Some (p, u)" "base_address (buddy u) = base_address b" "region_size (buddy u) = region_size b"
      "if p = NULL then u = t \<and> fl' = fl \<and> cache_exhausted t ?c else slab_rep_in u ?c fl' {p}"
    using kmem_cache_kalloc_rep_in [OF fl] unfolding assms(4) by (fastforce split: if_splits)
  have c: "cache_nr u i = ?c" using kmem_cache_kalloc_slab_caches [OF p(1)] by (simp add: slab_cache_at_def)
  show ?thesis
  proof (cases "p = NULL")
    case True
    then show ?thesis using p(1,4) assms(2) by simp
  next
    case False
    then have r: "slab_rep u ?c {p}" using p(4) by (auto simp: slab_rep_def)
    then have "unat p < region_end b" using slab_rep_below [OF r, of p] p(2,3) by (simp add: region_end_def)
    moreover obtain v where "kmem_cache_kfree u ?c p = Some v" "slab_rep v ?c {}"
      using kmem_cache_kfree_rep [OF r, of p] by auto
    ultimately show ?thesis using False r p(1) assms(2,3) c by simp
  qed
qed

text \<open>
  C10. \<open>__init_phys_kmalloc\<close> succeeds on any memory map whose largest usable region is not empty and lies below
  the kernel image, and leaves both allocators ready: all bytes of the region are free, no lock is
  held, and each of the eight caches is in order with no object in use and objects of 16 to 2048 bytes.
  A request of at most 2048 bytes then gets an object that is large enough, inside the region, or \<open>NULL\<close>
  when the cache can get no slab, and the release of that object puts the cache back in order.
\<close>

theorem init_phys_kmalloc_correct:
  assumes "b = init_buddy ke es (buddy s)" "base_address b \<noteq> NULL" "region_end b \<le> unat (slab_caches s)"
    "unat (slab_caches s) + 576 < 2 ^ 64" "unat (region_size b) < 2 ^ 43" "0 < unat sz" "unat sz \<le> 2048"
  shows "\<exists>t fl. init_phys_kmalloc ke es s = Inr t \<and> buddy t = b \<and> \<not> slab_lock t \<and>
    buddy_inv b fl \<and> free_bytes fl = {unat (base_address b) ..< region_end b} \<and>
    (\<forall>i<8. slab_rep t (cache_nr t i) {} \<and> unat (object_size (caches t (cache_nr t i))) = 2 ^ (i + 4)) \<and>
    (\<exists>i<8. \<exists>p u. unat sz \<le> 2 ^ (i + 4) \<and> phys_kmalloc t sz CHOOSE_ALLOC = Some (p, u) \<and>
       (if p = NULL then u = t \<and> cache_exhausted t (cache_nr t i)
        else unat p < region_end b \<and> slab_rep u (cache_nr t i) {p} \<and>
          (\<exists>v. phys_kfree u p sz CHOOSE_ALLOC = Some v \<and> slab_rep v (cache_nr t i) {})))"
proof -
  obtain t fl where t: "init_phys_kmalloc ke es s = Inr t" "buddy t = b" "\<not> slab_lock t" "buddy_inv b fl"
      "free_bytes fl = {unat (base_address b) ..< region_end b}" "\<forall>i<8. cache_ready t fl i"
    using init_phys_kmalloc_spec [OF assms(1-5)] by blast
  have rep: "slab_rep t (cache_nr t i) {}" "unat (object_size (caches t (cache_nr t i))) = 2 ^ (i + 4)" if "i < 8" for i
    using t(6) that fresh_cache_rep [OF _ t(3)] by (auto simp: cache_ready_def slab_rep_def unat_push_bit_1)
  obtain i where i: "i < 8" "unat sz \<le> 2 ^ (i + 4)" "phys_kmalloc t sz CHOOSE_ALLOC = kmem_cache_kalloc t (cache_nr t i)"
      "\<And>u p. phys_kfree u p sz CHOOSE_ALLOC = kmem_cache_kfree u (cache_nr u i) p"
    using slab_front_end [OF assms(6,7)] by blast
  from front_end_cycle [OF rep(1) [OF i(1)] i(3,4) t(2)] show ?thesis using t rep i(1,2) by blast
qed

theorem init_phys_kmalloc_witness:
  "\<exists>t. init_phys_kmalloc 0xFFFFFFFF80020000 ex_entries (ex_slab\<lparr>buddy := ex_mem, slab_caches := 0xFFFFFFFF80010000\<rparr>) = Inr t \<and>
     (\<forall>i<8. slab_rep t (cache_nr t i) {})"
proof -
  let ?s = "ex_slab\<lparr>buddy := ex_mem, slab_caches := 0xFFFFFFFF80010000\<rparr>"
  have b: "ex_buddy = init_buddy 0xFFFFFFFF80020000 ex_entries (buddy ?s)" by (simp add: ex_buddy_def)
  have "base_address ex_buddy \<noteq> NULL" "region_end ex_buddy \<le> unat (slab_caches ?s)" "unat (slab_caches ?s) + 576 < 2 ^ 64"
    "unat (region_size ex_buddy) < 2 ^ 43" "0 < unat (100 :: u64)" "unat (100 :: u64) \<le> 2048"
    by (simp_all add: ex_region region_end_def)
  from init_phys_kmalloc_correct [OF b this] show ?thesis by blast
qed

end
