(* ===== verification/Idt.thy ===== *)
theory Idt
  imports Prelude
begin

text \<open>
  \<^verbatim>\<open>src/mikroKernellib/idt.c\<close> and \<^verbatim>\<open>src/mikroKernellib/idt_common.asm\<close>: the interrupt descriptor table, and
  the frame the stubs build for \<open>isr_dispatch\<close>.

  The addresses of the labels \<open>isr0\<close> to \<open>isr31\<close> and of the array \<open>idt\<close> come from the linker and are
  arguments. \<open>outb\<close> is recorded in the order of the writes, and \<open>lidt\<close> is an assignment to the register
  of the processor. The stack is the list of its 64-bit words, the top first.
\<close>

unbundle bit_operations_syntax

record idtr_t =
  idtr_limit :: u16
  idtr_base :: u64

record IDT_gate_descriptor_64bit =
  offset_low :: u16
  selector :: u16
  gate_zero :: u8
  type_attr :: u8
  offset_mid :: u16
  offset_high :: u32
  gate_zero2 :: u32

record idt_state =
  idt :: "nat \<Rightarrow> IDT_gate_descriptor_64bit"
  idtr :: idtr_t
  cpu_idtr :: idtr_t
  port_writes :: "(u16 \<times> u8) list"

section \<open>The table\<close>

definition isr_stubs :: "(nat \<Rightarrow> u64) \<Rightarrow> u64 list" where
  "isr_stubs isr =
     [isr 0, isr 1, isr 2, isr 3, isr 4, isr 5, isr 6, isr 7, isr 8, isr 9, isr 10, isr 11, isr 12, isr 13, isr 14, isr 15,
      isr 16, isr 17, isr 18, isr 19, isr 20, isr 21, isr 22, isr 23, isr 24, isr 25, isr 26, isr 27, isr 28, isr 29, isr 30, isr 31]"

definition outb :: "u16 \<Rightarrow> u8 \<Rightarrow> idt_state \<Rightarrow> idt_state" where
  "outb port v s = s\<lparr>port_writes := port_writes s @ [(port, v)]\<rparr>"

definition idt_load :: "idt_state \<Rightarrow> idt_state" where
  "idt_load s = s\<lparr>cpu_idtr := idtr s\<rparr>"

definition idt_set_gate :: "u8 \<Rightarrow> u64 \<Rightarrow> u16 \<Rightarrow> u8 \<Rightarrow> idt_state \<Rightarrow> idt_state" where
  "idt_set_gate num base sel flags s =
     s\<lparr>idt := (idt s)(unat num :=
       \<lparr>offset_low = ucast (base AND 0xFFFF), selector = sel, gate_zero = 0x00, type_attr = flags,
        offset_mid = ucast (drop_bit 16 base AND 0xFFFF), offset_high = ucast (drop_bit 32 base AND 0xFFFFFFFF),
        gate_zero2 = 0x00000000\<rparr>)\<rparr>"

definition init_idt :: "(nat \<Rightarrow> u64) \<Rightarrow> u64 \<Rightarrow> idt_state \<Rightarrow> idt_state" where
  "init_idt isr idt_addr s =
     (let s = s\<lparr>idtr := \<lparr>idtr_limit = 256 * 16 - 1, idtr_base = idt_addr\<rparr>\<rparr>;
          s = idt_set_gate 0 (isr_stubs isr ! 0) 0x08 0x8e s;
          s = idt_set_gate 1 (isr_stubs isr ! 1) 0x08 0x8e s;
          s = idt_set_gate 2 (isr_stubs isr ! 2) 0x08 0x8e s;
          s = idt_set_gate 3 (isr_stubs isr ! 3) 0x08 0x8f s;
          s = fold (\<lambda>i. idt_set_gate (of_nat i) (isr_stubs isr ! i) 0x08 0x8e) [4..<32] s;
          s = outb 0x20 0x11 s;
          s = outb 0xA0 0x11 s;
          s = outb 0x21 0x20 s;
          s = outb 0xA1 0x28 s;
          s = outb 0x21 0x04 s;
          s = outb 0xA1 0x02 s;
          s = outb 0x21 0x01 s;
          s = outb 0xA1 0x01 s;
          s = outb 0x21 0xFF s;
          s = outb 0xA1 0xFF s
      in idt_load s)"

definition reload_idt_virtual :: "(nat \<Rightarrow> u64) \<Rightarrow> u64 \<Rightarrow> idt_state \<Rightarrow> idt_state" where
  "reload_idt_virtual isr idt_addr s =
     (let s = s\<lparr>idtr := (idtr s)\<lparr>idtr_base := idt_addr\<rparr>\<rparr>;
          s = fold (\<lambda>i. idt_set_gate (of_nat i) (isr_stubs isr ! i) 0x08 (if i = 3 then 0x8f else 0x8e)) [0..<32] s
      in idt_load s)"

section \<open>The frame\<close>

record registers_t =
  r15 :: u64
  r14 :: u64
  r13 :: u64
  r12 :: u64
  r11 :: u64
  r10 :: u64
  r9 :: u64
  r8 :: u64
  rbp :: u64
  rdi :: u64
  rsi :: u64
  rdx :: u64
  rcx :: u64
  rbx :: u64
  rax :: u64
  vec :: u64
  error_code :: u64
  rip :: u64
  cs :: u64
  rflags :: u64
  rsp :: u64
  ss :: u64

text \<open>\<open>pushes_dummy n\<close>: whether the stub \<open>isr\<open>n\<close>\<close> pushes a zero before its vector.\<close>

definition pushes_dummy :: "nat \<Rightarrow> bool" where
  "pushes_dummy n \<longleftrightarrow> n \<notin> {8, 10, 11, 12, 13, 14, 17, 21, 29, 30}"

definition isr_stub :: "nat \<Rightarrow> u64 list \<Rightarrow> u64 list" where
  "isr_stub n stack = of_nat n # (if pushes_dummy n then 0 # stack else stack)"

definition push_registers :: "registers_t \<Rightarrow> u64 list \<Rightarrow> u64 list" where
  "push_registers cpu stack =
     fold (\<lambda>w st. w # st)
       [rax cpu, rbx cpu, rcx cpu, rdx cpu, rsi cpu, rdi cpu, rbp cpu, r8 cpu, r9 cpu, r10 cpu, r11 cpu, r12 cpu, r13 cpu, r14 cpu, r15 cpu] stack"

text \<open>What \<open>isr_dispatch\<close> reads through the pointer to the top of the stack.\<close>

definition registers_at :: "u64 list \<Rightarrow> registers_t option" where
  "registers_at stack =
     (case stack of
        a15 # a14 # a13 # a12 # a11 # a10 # a9 # a8 # abp # adi # asi # adx # acx # abx # aax # v # e # ip # c # fl # sp # sg # rest \<Rightarrow>
          Some \<lparr>r15 = a15, r14 = a14, r13 = a13, r12 = a12, r11 = a11, r10 = a10, r9 = a9, r8 = a8, rbp = abp, rdi = adi, rsi = asi,
                rdx = adx, rcx = acx, rbx = abx, rax = aax, vec = v, error_code = e, rip = ip, cs = c, rflags = fl, rsp = sp, ss = sg\<rparr>
      | _ \<Rightarrow> None)"

text \<open>The end of \<open>isr_common_handler\<close>: the registers come back, and \<open>iretq\<close> takes the words behind the two the stub left.\<close>

definition pop_registers :: "registers_t \<Rightarrow> u64 list \<Rightarrow> (registers_t \<times> u64 list) option" where
  "pop_registers cpu stack =
     (case stack of
        a15 # a14 # a13 # a12 # a11 # a10 # a9 # a8 # abp # adi # asi # adx # acx # abx # aax # v # e # rest \<Rightarrow>
          Some (cpu\<lparr>r15 := a15, r14 := a14, r13 := a13, r12 := a12, r11 := a11, r10 := a10, r9 := a9, r8 := a8, rbp := abp, rdi := adi,
                 rsi := asi, rdx := adx, rcx := acx, rbx := abx, rax := aax\<rparr>, rest)
      | _ \<Rightarrow> None)"

definition isr_enter :: "nat \<Rightarrow> registers_t \<Rightarrow> u64 list \<Rightarrow> u64 list" where
  "isr_enter n cpu stack = push_registers cpu (isr_stub n stack)"

section \<open>What the gates hold\<close>

definition gate_target :: "IDT_gate_descriptor_64bit \<Rightarrow> u64" where
  "gate_target g = ucast (offset_low g) OR push_bit 16 (ucast (offset_mid g)) OR push_bit 32 (ucast (offset_high g))"

definition gate :: "u64 \<Rightarrow> u8 \<Rightarrow> IDT_gate_descriptor_64bit" where
  "gate base flags =
     \<lparr>offset_low = ucast base, selector = 0x08, gate_zero = 0, type_attr = flags,
      offset_mid = ucast (drop_bit 16 base), offset_high = ucast (drop_bit 32 base), gate_zero2 = 0\<rparr>"

lemma halves: "(0xFFFF :: u64) = mask 16" "(0xFFFFFFFF :: u64) = mask 32"
  by (simp_all add: mask_eq_exp_minus_1)

lemma idt_set_gate_eq: "idt_set_gate num base 0x08 flags s = s\<lparr>idt := (idt s)(unat num := gate base flags)\<rparr>"
proof -
  have "(ucast (base AND 0xFFFF) :: u16) = ucast base" "(ucast (drop_bit 16 base AND 0xFFFF) :: u16) = ucast (drop_bit 16 base)"
    "(ucast (drop_bit 32 base AND 0xFFFFFFFF) :: u32) = ucast (drop_bit 32 base)"
    unfolding halves by (auto intro!: bit_word_eqI simp: bit_simps)
  then show ?thesis by (simp add: gate_def idt_set_gate_def)
qed

lemma gate_target_gate [simp]: "gate_target (gate base flags) = base"
proof (rule bit_word_eqI)
  fix n assume "n < LENGTH(64)"
  then consider "n < 16" | "16 \<le> n" "n < 32" | "32 \<le> n" "n < 64" by fastforce
  then show "bit (gate_target (gate base flags)) n = bit base n"
    by cases (auto simp: gate_target_def gate_def bit_simps)
qed

lemma gate_fields [simp]: "selector (gate base flags) = 8" "type_attr (gate base flags) = flags"
  by (simp_all add: gate_def)

lemma fold_set_gates:
  assumes "\<And>i. i \<in> set is \<Longrightarrow> i < 256"
  shows "fold (\<lambda>i. idt_set_gate (of_nat i) (h i) 0x08 (fl i)) is s =
    s\<lparr>idt := \<lambda>k. if k \<in> set is then gate (h k) (fl k) else idt s k\<rparr>"
  using assms
proof (induction "is" arbitrary: s)
  case (Cons i "is")
  then have "unat (of_nat i :: u8) = i" by (simp add: unat_of_nat_id)
  then show ?case using Cons by (simp add: idt_set_gate_eq fun_eq_iff cong: if_cong)
qed simp

definition kernel_gates :: "(nat \<Rightarrow> u64) \<Rightarrow> (nat \<Rightarrow> IDT_gate_descriptor_64bit) \<Rightarrow> nat \<Rightarrow> IDT_gate_descriptor_64bit" where
  "kernel_gates isr old k = (if k < 32 then gate (isr k) (if k = 3 then 0x8f else 0x8e) else old k)"

lemma isr_stubs_nth: "i < 32 \<Longrightarrow> isr_stubs isr ! i = isr i"
proof -
  have "isr_stubs isr = map isr [0..<32]" by (simp add: isr_stubs_def upt_rec eval_nat_numeral)
  then show "i < 32 \<Longrightarrow> ?thesis" by simp
qed

lemma init_idt_eq:
  "init_idt isr idt_addr s =
     \<lparr>idt = kernel_gates isr (idt s), idtr = \<lparr>idtr_limit = 4095, idtr_base = idt_addr\<rparr>,
      cpu_idtr = \<lparr>idtr_limit = 4095, idtr_base = idt_addr\<rparr>,
      port_writes = port_writes s @
        [(0x20, 0x11), (0xA0, 0x11), (0x21, 0x20), (0xA1, 0x28), (0x21, 0x04), (0xA1, 0x02), (0x21, 0x01), (0xA1, 0x01), (0x21, 0xFF), (0xA1, 0xFF)]\<rparr>"
proof -
  have "(\<lambda>k. if k \<in> set [4..<32] then gate (isr_stubs isr ! k) 0x8e else
      ((idt s)(0 := gate (isr 0) 0x8e, 1 := gate (isr 1) 0x8e, 2 := gate (isr 2) 0x8e, 3 := gate (isr 3) 0x8f)) k) = kernel_gates isr (idt s)"
    (is "?new = _")
  proof
    fix k :: nat
    consider "k = 0" | "k = 1" | "k = 2" | "k = 3" | "4 \<le> k" by arith
    then show "?new k = kernel_gates isr (idt s) k"
      by cases (simp_all add: kernel_gates_def isr_stubs_nth del: upt_rec_numeral)
  qed
  then show ?thesis
    unfolding init_idt_def Let_def
    by (subst fold_set_gates) (simp_all add: idt_set_gate_eq isr_stubs_nth outb_def idt_load_def cong: if_cong del: upt_rec_numeral)
qed

lemma reload_idt_virtual_eq:
  "reload_idt_virtual isr idt_addr s =
     s\<lparr>idt := kernel_gates isr (idt s), idtr := (idtr s)\<lparr>idtr_base := idt_addr\<rparr>, cpu_idtr := (idtr s)\<lparr>idtr_base := idt_addr\<rparr>\<rparr>"
proof -
  have "(\<lambda>k. if k \<in> set [0..<32] then gate (isr_stubs isr ! k) (if k = 3 then 0x8f else 0x8e) else idt s k) = kernel_gates isr (idt s)"
    by (auto simp: fun_eq_iff kernel_gates_def isr_stubs_nth simp del: upt_rec_numeral)
  then show ?thesis
    unfolding reload_idt_virtual_def Let_def
    by (subst fold_set_gates) (simp_all add: idt_load_def cong: if_cong del: upt_rec_numeral)
qed

text \<open>
  C34. After \<open>__init_idt\<close> each of the first 32 vectors has a present interrupt gate (a trap gate for the
  breakpoint) with the kernel's code segment, whose three offset fields put together are the address
  of that vector's stub. No other gate changes, the processor holds a limit that covers all 256 gates,
  and the interrupt controllers are moved to vectors 32 and 40 and masked, in the order of their
  protocol. \<open>_reload_idt_virtual\<close> does the same for the stubs' new addresses without touching the
  controllers, and changes nothing when the addresses are the old ones.
\<close>

theorem init_idt_correct:
  "let s1 = init_idt isr a s; s2 = reload_idt_virtual isr' a' s1
   in (if v < 32
       then gate_target (idt s1 v) = isr v \<and> gate_target (idt s2 v) = isr' v \<and>
            selector (idt s1 v) = 8 \<and> selector (idt s2 v) = 8 \<and>
            type_attr (idt s1 v) = (if v = 3 then 0x8f else 0x8e) \<and> type_attr (idt s2 v) = (if v = 3 then 0x8f else 0x8e)
       else idt s1 v = idt s v \<and> idt s2 v = idt s v) \<and>
      cpu_idtr s1 = \<lparr>idtr_limit = 4095, idtr_base = a\<rparr> \<and> cpu_idtr s2 = \<lparr>idtr_limit = 4095, idtr_base = a'\<rparr> \<and>
      port_writes s1 = port_writes s @
        [(0x20, 0x11), (0xA0, 0x11), (0x21, 0x20), (0xA1, 0x28), (0x21, 4), (0xA1, 2), (0x21, 1), (0xA1, 1), (0x21, 0xFF), (0xA1, 0xFF)] \<and>
      port_writes s2 = port_writes s1 \<and> reload_idt_virtual isr a s1 = s1"
  by (simp add: Let_def init_idt_eq reload_idt_virtual_eq kernel_gates_def fun_eq_iff)

section \<open>The frame is the one the handler reads\<close>

text \<open>What the processor has on the stack when it enters a stub.\<close>

definition interrupt_frame :: "bool \<Rightarrow> u64 \<Rightarrow> registers_t \<Rightarrow> u64 list \<Rightarrow> u64 list" where
  "interrupt_frame has_error err cpu rest = (if has_error then [err] else []) @ [rip cpu, cs cpu, rflags cpu, rsp cpu, ss cpu] @ rest"

text \<open>
  C35. On a processor that pushes an error code for the vectors 8, 10 to 14, 17, 21, 29 and 30 and for no
  other of the first 32, the structure \<open>isr_dispatch\<close> reads through its argument has the vector of the
  stub, the error code of the processor or zero, and every register as it was when the interrupt came;
  and the code after the call would restore those registers and leave the processor's own words for
  \<open>iretq\<close> on top of the stack.
\<close>

theorem isr_frame_correct:
  assumes "\<And>n. n < 32 \<Longrightarrow> has_error n \<longleftrightarrow> n \<in> {8, 10, 11, 12, 13, 14, 17, 21, 29, 30}" "n < 32"
    and "stack = isr_enter n cpu (interrupt_frame (has_error n) err cpu rest)"
  shows "registers_at stack = Some (cpu\<lparr>vec := of_nat n, error_code := if has_error n then err else 0\<rparr>) \<and>
    pop_registers cpu' stack = Some (cpu'\<lparr>r15 := r15 cpu, r14 := r14 cpu, r13 := r13 cpu, r12 := r12 cpu, r11 := r11 cpu, r10 := r10 cpu,
      r9 := r9 cpu, r8 := r8 cpu, rbp := rbp cpu, rdi := rdi cpu, rsi := rsi cpu, rdx := rdx cpu, rcx := rcx cpu, rbx := rbx cpu, rax := rax cpu\<rparr>,
      [rip cpu, cs cpu, rflags cpu, rsp cpu, ss cpu] @ rest)"
proof -
  have p: "pushes_dummy n \<longleftrightarrow> \<not> has_error n" using assms(1) [OF assms(2)] by (simp add: pushes_dummy_def)
  have s: "stack = [r15 cpu, r14 cpu, r13 cpu, r12 cpu, r11 cpu, r10 cpu, r9 cpu, r8 cpu, rbp cpu, rdi cpu, rsi cpu, rdx cpu, rcx cpu, rbx cpu,
      rax cpu, of_nat n, if has_error n then err else 0, rip cpu, cs cpu, rflags cpu, rsp cpu, ss cpu] @ rest"
    by (simp add: assms(3) isr_enter_def push_registers_def isr_stub_def interrupt_frame_def p)
  show ?thesis by (simp add: s registers_at_def pop_registers_def)
qed

definition ex_cpu :: registers_t where
  "ex_cpu = \<lparr>r15 = 15, r14 = 14, r13 = 13, r12 = 12, r11 = 11, r10 = 10, r9 = 9, r8 = 8, rbp = 7, rdi = 6, rsi = 5, rdx = 4, rcx = 3, rbx = 2,
     rax = 1, vec = 0, error_code = 0, rip = 0xFFFFFFFF80001234, cs = 8, rflags = 2, rsp = 0xFFFFFFFF80010000, ss = 16\<rparr>"

theorem isr_frame_witness:
  "registers_at (isr_enter 14 ex_cpu (interrupt_frame True 2 ex_cpu [])) = Some (ex_cpu\<lparr>vec := 14, error_code := 2\<rparr>)"
  using isr_frame_correct [of "\<lambda>n. n \<in> {8, 10, 11, 12, 13, 14, 17, 21, 29, 30}" 14 _ ex_cpu 2 "[]", OF _ _ refl] by simp

end
