(* ===== verification/Vesa_Props.thy ===== *)
theory Vesa_Props
  imports Vesa
begin

text \<open>
  What the printing routines do to the screen. The screen is the rectangle of pixels the framebuffer
  has; a routine paints a set of its pixels and leaves every other word of memory alone.
\<close>

section \<open>The screen\<close>

definition cols :: "vesa_state \<Rightarrow> nat" where
  "cols s = unat (pitch (s_vbe_info s)) div 4"

definition rows :: "vesa_state \<Rightarrow> nat" where
  "rows s = unat (height_px (s_vbe_info s))"

definition pixel_addr :: "vesa_state \<Rightarrow> nat \<Rightarrow> nat \<Rightarrow> addr" where
  "pixel_addr s x y = get_fb s + 4 * of_nat (y * cols s + x)"

definition screen :: "vesa_state \<Rightarrow> nat \<times> nat \<Rightarrow> u32" where
  "screen s q = pixels s (pixel_addr s (fst q) (snd q))"

definition on_screen :: "vesa_state \<Rightarrow> (nat \<times> nat) set" where
  "on_screen s = {..<cols s} \<times> {..<rows s}"

definition paints :: "(nat \<times> nat) set \<Rightarrow> (nat \<times> nat \<Rightarrow> u32) \<Rightarrow> vesa_state \<Rightarrow> vesa_state \<Rightarrow> bool" where
  "paints A g s s' \<longleftrightarrow>
     A \<subseteq> on_screen s \<and> s_fb_virt s' = s_fb_virt s \<and> s_vbe_info s' = s_vbe_info s \<and>
     (\<forall>q\<in>on_screen s. screen s' q = (if q \<in> A then g q else screen s q)) \<and>
     (\<forall>a. a \<notin> (\<lambda>q. pixel_addr s (fst q) (snd q)) ` on_screen s \<longrightarrow> pixels s' a = pixels s a)"

lemma paints_same:
  assumes "paints A g s s'"
  shows "get_fb s' = get_fb s" "cols s' = cols s" "rows s' = rows s" "pixel_addr s' = pixel_addr s" "on_screen s' = on_screen s"
    "pitch_in_pixels s' = pitch_in_pixels s"
  using assms by (auto simp: paints_def get_fb_def cols_def rows_def pixel_addr_def on_screen_def pitch_in_pixels_def fun_eq_iff)

lemma paints_screen: "paints A g s s' \<Longrightarrow> q \<in> A \<Longrightarrow> screen s' q = g q"
  by (auto simp: paints_def)

lemma paints_refl: "paints {} g s s"
  by (simp add: paints_def)

lemma paints_trans: "paints A g s s' \<Longrightarrow> paints B g s' s'' \<Longrightarrow> paints (A \<union> B) g s s''"
  using paints_same [of A g s s'] unfolding paints_def by auto

lemma cols_le: "cols s \<le> 16383"
  using unat_lt_u16 [of "pitch (s_vbe_info s)"] by (simp add: cols_def)

lemma rows_le: "rows s \<le> 65535"
  using unat_lt_u16 [of "height_px (s_vbe_info s)"] by (simp add: rows_def)

lemma pixel_index_less:
  assumes "x < cols s" "y < rows s"
  shows "y * cols s + x < 2 ^ 30"
proof -
  have "y * cols s + x < Suc y * cols s" using assms(1) by simp
  also have "\<dots> \<le> 65535 * 16383" using assms(2) rows_le [of s] cols_le [of s] by (intro mult_le_mono) simp_all
  finally show ?thesis by simp
qed

lemma pixel_addr_eq:
  assumes "x < cols s" "y < rows s" "x' < cols s" "y' < rows s" "pixel_addr s x y = pixel_addr s x' y'"
  shows "x = x' \<and> y = y'"
proof -
  let ?i = "y * cols s + x" and ?j = "y' * cols s + x'"
  have l: "?i < 2 ^ 30" "?j < 2 ^ 30" using pixel_index_less assms by blast+
  have u: "unat (4 * of_nat k :: u64) = 4 * k" if "k < 2 ^ 30" for k
    using that by (simp add: unat_word_ariths unat_of_nat_id)
  have "(4 * of_nat ?i :: u64) = 4 * of_nat ?j" using assms(5) unfolding pixel_addr_def by (rule add_left_imp_eq)
  then have "4 * ?i = 4 * ?j" using u l by metis
  then have e: "?i = ?j" by simp
  have c: "0 < cols s" using assms(1) by simp
  have "y = ?i div cols s" "y' = ?j div cols s" using assms(1,3) c by simp_all
  then have "y = y'" using e by metis
  then show ?thesis using e by simp
qed

lemma put_pixel_paints:
  assumes "x < cols s" "y < rows s" "g (x, y) = color" "i = of_nat y * pitch_in_pixels s + of_nat x"
  shows "paints {(x, y)} g s (put_pixel (get_fb s) i color s)"
proof -
  have p: "pitch_in_pixels s = of_nat (cols s)"
    using unat_lt_u16 [of "pitch (s_vbe_info s)"]
    by (simp add: pitch_in_pixels_def cols_def word_unat_eq_iff unsigned_ucast_eq unat_div unat_of_nat_id take_bit_nat_eq_self)
  have l: "y * cols s + x < 2 ^ 30" by (rule pixel_index_less [OF assms(1,2)])
  have "i = of_nat (y * cols s + x)" by (simp add: assms(4) p)
  then have "unat i = y * cols s + x" using l by (simp only:) (rule unat_of_nat_id, simp)
  then have "(ucast i :: u64) = of_nat (y * cols s + x)" by (metis of_nat_unat)
  then have a: "get_fb s + 4 * ucast i = pixel_addr s x y" by (simp add: pixel_addr_def)
  define s' where "s' = put_pixel (get_fb s) i color s"
  have px: "pixels s' = (pixels s)(pixel_addr s x y := color)" by (simp add: s'_def put_pixel_def a)
  have same: "pixel_addr s' = pixel_addr s"
    by (simp add: fun_eq_iff pixel_addr_def s'_def put_pixel_def get_fb_def cols_def)
  have "screen s' q = (if q \<in> {(x, y)} then g q else screen s q)" if "q \<in> on_screen s" for q
    using that pixel_addr_eq [OF assms(1,2), of "fst q" "snd q"] assms(3)
    by (cases q) (auto simp: screen_def same on_screen_def px)
  moreover have "pixels s' b = pixels s b" if "b \<notin> (\<lambda>q. pixel_addr s (fst q) (snd q)) ` on_screen s" for b
  proof -
    have "(x, y) \<in> on_screen s" using assms(1,2) by (simp add: on_screen_def)
    then have "b \<noteq> pixel_addr s x y" using that by force
    then show ?thesis by (simp add: px)
  qed
  moreover have "s_fb_virt s' = s_fb_virt s" "s_vbe_info s' = s_vbe_info s" by (simp_all add: s'_def put_pixel_def)
  ultimately show ?thesis using assms(1,2) unfolding s'_def [symmetric] by (simp add: paints_def on_screen_def)
qed

text \<open>A loop whose every step paints its set paints their union.\<close>

lemma fold_paints:
  assumes "\<And>k s. k \<in> set ks \<Longrightarrow> get_fb s = get_fb s0 \<Longrightarrow> pitch_in_pixels s = pitch_in_pixels s0 \<Longrightarrow> on_screen s = on_screen s0 \<Longrightarrow>
      cols s = cols s0 \<Longrightarrow> rows s = rows s0 \<Longrightarrow> paints (A k) g s (f k s)"
    "get_fb s = get_fb s0" "pitch_in_pixels s = pitch_in_pixels s0" "on_screen s = on_screen s0" "cols s = cols s0" "rows s = rows s0"
  shows "paints (\<Union>k\<in>set ks. A k) g s (fold f ks s)"
  using assms
proof (induction ks arbitrary: s)
  case Nil
  then show ?case by (simp add: paints_refl)
next
  case (Cons k ks)
  have 1: "paints (A k) g s (f k s)" using Cons.prems by (intro Cons.prems(1)) simp_all
  have "paints (\<Union>k\<in>set ks. A k) g (f k s) (fold f ks (f k s))"
    using Cons.prems paints_same [OF 1] by (intro Cons.IH) simp_all
  then show ?case using paints_trans [OF 1] by simp
qed

section \<open>Clearing\<close>

lemma fill_rows_paints:
  assumes "unat (width_px (s_vbe_info s)) \<le> cols s"
  shows "paints ({..<unat (width_px (s_vbe_info s))} \<times> {y0..<rows s}) (\<lambda>_. color) s (fill_rows y0 color s)"
proof -
  let ?w = "unat (width_px (s_vbe_info s))"
  have row: "paints ({..<?w} \<times> {y}) (\<lambda>_. color) t (fold (\<lambda>x. put_pixel (get_fb s) (of_nat y * pitch_in_pixels s + of_nat x) color) [0..<?w] t)"
    if "y < rows s" "get_fb t = get_fb s" "pitch_in_pixels t = pitch_in_pixels s" "on_screen t = on_screen s" "cols t = cols s" "rows t = rows s" for y t
  proof -
    have "paints (\<Union>x\<in>set [0..<?w]. {(x, y)}) (\<lambda>_. color) t
        (fold (\<lambda>x. put_pixel (get_fb s) (of_nat y * pitch_in_pixels s + of_nat x) color) [0..<?w] t)"
    proof (rule fold_paints [where ?s0.0 = s])
      fix x u assume "x \<in> set [0..<?w]" "get_fb u = get_fb s" "pitch_in_pixels u = pitch_in_pixels s" "cols u = cols s" "rows u = rows s"
      then show "paints {(x, y)} (\<lambda>_. color) u (put_pixel (get_fb s) (of_nat y * pitch_in_pixels s + of_nat x) color u)"
        using put_pixel_paints [of x u y "\<lambda>_. color" color] assms that(1) by simp
    qed (use that in simp_all)
    moreover have "(\<Union>x\<in>set [0..<?w]. {(x, y)}) = {..<?w} \<times> {y}" by auto
    ultimately show ?thesis by simp
  qed
  have "paints (\<Union>y\<in>set [y0..<rows s]. {..<?w} \<times> {y}) (\<lambda>_. color) s
      (fold (\<lambda>y. fold (\<lambda>x. put_pixel (get_fb s) (of_nat y * pitch_in_pixels s + of_nat x) color) [0..<?w]) [y0..<rows s] s)"
    by (rule fold_paints [where ?s0.0 = s]) (auto intro: row)
  moreover have "(\<Union>y\<in>set [y0..<rows s]. {..<?w} \<times> {y}) = {..<?w} \<times> {y0..<rows s}" by auto
  ultimately show ?thesis by (simp add: fill_rows_def Let_def rows_def)
qed

section \<open>Text\<close>

lemma offset_in_range: "X \<le> a \<Longrightarrow> a < X + n \<Longrightarrow> \<exists>x\<in>{0..<n}. a = X + x" for X :: nat
  by (rule bexI [of _ "a - X"]) simp_all

lemma shifted_row: "(\<Union>c\<in>set [0..<n]. {(X + c, y)}) = {X..<X + n} \<times> {y}" for X y :: nat
  by (auto intro: offset_in_range)

lemma shifted_rows: "(\<Union>r\<in>set [0..<n]. A \<times> {Y + r}) = A \<times> {Y..<Y + n}" for Y :: nat
  by (auto intro: offset_in_range)

lemma draw_glyph_paints:
  assumes "X + 8 \<le> cols s" "Y + unat (psf_charheight font) \<le> rows s"
    and g: "\<And>r c. r < unat (psf_charheight font) \<Longrightarrow> c < 8 \<Longrightarrow> g (X + c, Y + r) = glyph_color font glyph r c"
  shows "paints ({X..<X + 8} \<times> {Y..<Y + unat (psf_charheight font)}) g s
    (draw_glyph font (get_fb s) (pitch_in_pixels s) glyph (of_nat X) (of_nat Y) s)"
proof -
  let ?h = "unat (psf_charheight font)"
  let ?f = "\<lambda>r c. put_pixel (get_fb s) ((of_nat Y + of_nat r) * pitch_in_pixels s + (of_nat X + of_nat c)) (glyph_color font glyph r c)"
  have row: "paints ({X..<X + 8} \<times> {Y + r}) g t (fold (?f r) [0..<8] t)"
    if "r < ?h" "get_fb t = get_fb s" "pitch_in_pixels t = pitch_in_pixels s" "on_screen t = on_screen s" "cols t = cols s" "rows t = rows s" for r t
  proof -
    have "paints (\<Union>c\<in>set [0..<8]. {(X + c, Y + r)}) g t (fold (?f r) [0..<8] t)"
    proof (rule fold_paints [where ?s0.0 = s])
      fix c u assume c: "c \<in> set [0..<8]" and u: "get_fb u = get_fb s" "pitch_in_pixels u = pitch_in_pixels s" "cols u = cols s" "rows u = rows s"
      show "paints {(X + c, Y + r)} g u (?f r c u)"
        unfolding u(1) [symmetric] using assms(1,2) c u that(1) g [OF that(1), of c] by (intro put_pixel_paints) simp_all
    qed (use that in simp_all)
    then show ?thesis by (simp only: shifted_row)
  qed
  have "paints (\<Union>r\<in>set [0..<?h]. {X..<X + 8} \<times> {Y + r}) g s (fold (\<lambda>r. fold (?f r) [0..<8]) [0..<?h] s)"
    by (rule fold_paints [where ?s0.0 = s]) (auto intro: row)
  then show ?thesis by (simp only: draw_glyph_def shifted_rows)
qed

text \<open>The cells a text takes, and the colour each of their pixels has in the font.\<close>

definition text_cells :: "(nat \<Rightarrow> u8) \<Rightarrow> nat \<Rightarrow> nat \<Rightarrow> string \<Rightarrow> (nat \<times> nat) set" where
  "text_cells font row col nt_s =
     {8 * col..<8 * (col + length nt_s)} \<times> {row * unat (psf_charheight font)..<Suc row * unat (psf_charheight font)}"

definition text_color :: "(nat \<Rightarrow> u8) \<Rightarrow> nat \<Rightarrow> nat \<Rightarrow> string \<Rightarrow> nat \<times> nat \<Rightarrow> u32" where
  "text_color font row col nt_s q =
     glyph_color font (psf_glyph font (of_char (nt_s ! (fst q div 8 - col)))) (snd q - row * unat (psf_charheight font)) (fst q mod 8)"

lemma word_of_rows: "word_of_int (int row) * psf_charheight font = of_nat (row * unat (psf_charheight font))"
  by (simp add: of_nat_mult)

lemma println_loop_paints:
  assumes "8 * (col + length nt_s) \<le> cols s" "Suc row * unat (psf_charheight font) \<le> rows s"
    and "\<And>q. q \<in> text_cells font row col nt_s \<Longrightarrow> g q = text_color font row col nt_s q"
  shows "paints (text_cells font row col nt_s) g s
    (println_loop font (get_fb s) (pitch_in_pixels s) (int row) nt_s (int col) s)"
  using assms
proof (induction nt_s arbitrary: col s)
  case Nil
  then show ?case by (simp add: paints_refl text_cells_def)
next
  case (Cons ch nt_s)
  let ?h = "unat (psf_charheight font)"
  let ?s = "draw_glyph font (get_fb s) (pitch_in_pixels s) (psf_glyph font (of_char ch)) (of_nat (8 * col)) (of_nat (row * ?h)) s"
  have first: "paints ({8 * col..<8 * col + 8} \<times> {row * ?h..<row * ?h + ?h}) g s ?s"
  proof (rule draw_glyph_paints)
    fix r c :: nat assume "r < ?h" "c < 8"
    then have "g (8 * col + c, row * ?h + r) = text_color font row col (ch # nt_s) (8 * col + c, row * ?h + r)"
      by (intro Cons.prems(3)) (simp add: text_cells_def)
    then show "g (8 * col + c, row * ?h + r) = glyph_color font (psf_glyph font (of_char ch)) r c"
      using \<open>c < 8\<close> by (simp add: text_color_def)
  qed (use Cons.prems in simp_all)
  note same = paints_same [OF first]
  have "g q = text_color font row (Suc col) nt_s q" if "q \<in> text_cells font row (Suc col) nt_s" for q
  proof -
    have "Suc col \<le> fst q div 8" using that by (auto simp: text_cells_def)
    then have "fst q div 8 - col = Suc (fst q div 8 - Suc col)" by simp
    moreover have "g q = text_color font row col (ch # nt_s) q"
      using that by (intro Cons.prems(3)) (auto simp: text_cells_def)
    ultimately show ?thesis by (simp add: text_color_def)
  qed
  then have rest: "paints (text_cells font row (Suc col) nt_s) g ?s
      (println_loop font (get_fb ?s) (pitch_in_pixels ?s) (int row) nt_s (int (Suc col)) ?s)"
    using Cons.prems(1,2) same by (intro Cons.IH) simp_all
  have "{8 * col..<8 * col + 8} \<times> {row * ?h..<row * ?h + ?h} \<union> text_cells font row (Suc col) nt_s = text_cells font row col (ch # nt_s)"
    by (auto simp: text_cells_def)
  then show ?case using paints_trans [OF first rest] same
    by (simp add: word_of_rows mult.commute add.commute)
qed

lemma println_paints:
  assumes "8 * (col + length nt_s) \<le> cols s" "Suc row * unat (psf_charheight font) \<le> rows s"
    and "\<And>q. q \<in> text_cells font row col nt_s \<Longrightarrow> g q = text_color font row col nt_s q"
  shows "paints (text_cells font row col nt_s) g s (vesa_nt_println font nt_s (int row) (int col) s)"
  unfolding vesa_nt_println_def by (rule println_loop_paints [OF assms])

text \<open>A sequence of prints whose cells do not meet shows every one of its texts.\<close>

type_synonym print_job = "nat \<times> nat \<times> string"

definition job_cells :: "(nat \<Rightarrow> u8) \<Rightarrow> print_job \<Rightarrow> (nat \<times> nat) set" where
  "job_cells font j = (case j of (row, col, nt_s) \<Rightarrow> text_cells font row col nt_s)"

definition job_color :: "(nat \<Rightarrow> u8) \<Rightarrow> print_job \<Rightarrow> nat \<times> nat \<Rightarrow> u32" where
  "job_color font j = (case j of (row, col, nt_s) \<Rightarrow> text_color font row col nt_s)"

definition job_fits :: "(nat \<Rightarrow> u8) \<Rightarrow> vesa_state \<Rightarrow> print_job \<Rightarrow> bool" where
  "job_fits font s j = (case j of (row, col, nt_s) \<Rightarrow>
     8 * (col + length nt_s) \<le> cols s \<and> Suc row * unat (psf_charheight font) \<le> rows s)"

definition print_job :: "(nat \<Rightarrow> u8) \<Rightarrow> print_job \<Rightarrow> vesa_state \<Rightarrow> vesa_state" where
  "print_job font j s = (case j of (row, col, nt_s) \<Rightarrow> vesa_nt_println font nt_s (int row) (int col) s)"

lemma jobs_paint:
  assumes "\<And>j. j \<in> set js \<Longrightarrow> job_fits font s j"
    and "\<And>j q. j \<in> set js \<Longrightarrow> q \<in> job_cells font j \<Longrightarrow> g q = job_color font j q"
  shows "paints (\<Union>j\<in>set js. job_cells font j) g s (fold (print_job font) js s)"
proof (rule fold_paints [where ?s0.0 = s])
  fix j u assume j: "j \<in> set js" and u: "cols u = cols s" "rows u = rows s"
  obtain row col nt_s where e: "j = (row, col, nt_s)" by (cases j)
  show "paints (job_cells font j) g u (print_job font j u)"
    using assms(1) [OF j] assms(2) [OF j] u
    by (simp add: e job_cells_def job_color_def print_job_def job_fits_def println_paints)
qed simp_all

definition cells_meet :: "print_job \<Rightarrow> print_job \<Rightarrow> bool" where
  "cells_meet j k = (case j of (row, col, nt_s) \<Rightarrow> case k of (row', col', nt_s') \<Rightarrow>
     row = row' \<and> col < col' + length nt_s' \<and> col' < col + length nt_s)"

lemma text_cells_disjoint:
  assumes "\<not> cells_meet j k" "q \<in> job_cells font j" "q \<in> job_cells font k"
  shows False
proof -
  obtain row col nt_s row' col' nt_s' where e: "j = (row, col, nt_s)" "k = (row', col', nt_s')" by (metis prod_cases3)
  let ?h = "unat (psf_charheight font)"
  obtain x y where q: "q = (x, y)" by (cases q)
  have x: "8 * col \<le> x" "x < 8 * (col + length nt_s)" "8 * col' \<le> x" "x < 8 * (col' + length nt_s')"
    and y: "row * ?h \<le> y" "y < Suc row * ?h" "row' * ?h \<le> y" "y < Suc row' * ?h"
    using assms(2,3) by (auto simp: job_cells_def e q text_cells_def)
  have "row * ?h < Suc row' * ?h" "row' * ?h < Suc row * ?h" using y by linarith+
  then have "row < Suc row'" "row' < Suc row" by (simp_all only: mult_less_cancel2)
  then have "row = row'" by simp
  moreover have "8 * col < 8 * (col' + length nt_s')" "8 * col' < 8 * (col + length nt_s)"
    using le_less_trans [OF x(1) x(4)] le_less_trans [OF x(3) x(2)] .
  ultimately show False using assms(1) by (simp add: cells_meet_def e del: distrib_left_numeral)
qed

lemma jobs_shown:
  assumes "\<And>j. j \<in> set js \<Longrightarrow> job_fits font s j"
    and "\<And>j k. j \<in> set js \<Longrightarrow> k \<in> set js \<Longrightarrow> j \<noteq> k \<Longrightarrow> \<not> cells_meet j k"
  shows "\<exists>g. paints (\<Union>j\<in>set js. job_cells font j) g s (fold (print_job font) js s) \<and>
    (\<forall>j\<in>set js. \<forall>q\<in>job_cells font j. g q = job_color font j q)"
proof -
  define owner where "owner q = (SOME j. j \<in> set js \<and> q \<in> job_cells font j)" for q
  define g where "g q = job_color font (owner q) q" for q
  have g: "g q = job_color font j q" if "j \<in> set js" "q \<in> job_cells font j" for j q
  proof -
    have "owner q \<in> set js \<and> q \<in> job_cells font (owner q)"
      unfolding owner_def by (rule someI [of _ j]) (use that in simp)
    then have "owner q = j" using that assms(2) text_cells_disjoint by metis
    then show ?thesis by (simp add: g_def)
  qed
  then show ?thesis using jobs_paint [OF assms(1)] by blast
qed

section \<open>Rows below the screen\<close>

text \<open>
  No printing routine reads the height of the screen, so a text at a row below it is written to the
  memory behind the framebuffer. \<open>VESA_LAST_ROW\<close> is a fixed number: with a screen lower than 1344 lines
  and a font of 16 lines the reports of the interrupt handlers do not appear on the screen.
\<close>

lemma println_loop_info:
  "println_loop font fb p row nt_s c (s\<lparr>s_vbe_info := v\<rparr>) = (println_loop font fb p row nt_s c s)\<lparr>s_vbe_info := v\<rparr>"
proof (induction nt_s arbitrary: c s)
  case (Cons ch nt_s)
  have "draw_glyph font fb p glyph x y (s\<lparr>s_vbe_info := v\<rparr>) = (draw_glyph font fb p glyph x y s)\<lparr>s_vbe_info := v\<rparr>" for glyph x y
    unfolding draw_glyph_def
    by (subst fold_commute_apply [where h = "\<lambda>s. s\<lparr>s_vbe_info := v\<rparr>"], rule ext, simp,
        subst fold_commute_apply [where h = "\<lambda>s. s\<lparr>s_vbe_info := v\<rparr>"]) (auto simp: put_pixel_def)
  then show ?case by (simp add: Cons.IH)
qed simp

lemma println_below_screen:
  assumes "rows s \<le> row * unat (psf_charheight font)" "Suc row * unat (psf_charheight font) \<le> 65535"
    "8 * (col + length nt_s) \<le> cols s" "s' = vesa_nt_println font nt_s (int row) (int col) s"
  shows "q \<in> on_screen s \<Longrightarrow> screen s' q = screen s q"
    "(x, y) \<in> text_cells font row col nt_s \<Longrightarrow> pixels s' (pixel_addr s x y) = text_color font row col nt_s (x, y)"
proof -
  let ?v = "(s_vbe_info s)\<lparr>height_px := 65535\<rparr>"
  let ?t = "s\<lparr>s_vbe_info := ?v\<rparr>"
  have t: "get_fb ?t = get_fb s" "pitch_in_pixels ?t = pitch_in_pixels s" "cols ?t = cols s" "rows ?t = 65535"
    by (simp_all add: get_fb_def pitch_in_pixels_def cols_def rows_def)
  have a: "pixel_addr ?t = pixel_addr s" by (simp add: fun_eq_iff pixel_addr_def t)
  have "paints (text_cells font row col nt_s) (text_color font row col nt_s) ?t (vesa_nt_println font nt_s (int row) (int col) ?t)"
    using assms(2,3) by (intro println_paints) (simp_all add: t)
  moreover have e: "vesa_nt_println font nt_s (int row) (int col) ?t = s'\<lparr>s_vbe_info := ?v\<rparr>"
    unfolding vesa_nt_println_def t assms(4) by (rule println_loop_info)
  ultimately have p: "paints (text_cells font row col nt_s) (text_color font row col nt_s) ?t (s'\<lparr>s_vbe_info := ?v\<rparr>)"
    by simp
  note b = paints_same(4) [OF p] a
  have "s' = s'\<lparr>s_vbe_info := s_vbe_info s\<rparr>"
    using println_loop_info [where s = s and v = "s_vbe_info s"] by (simp add: assms(4) vesa_nt_println_def)
  then have "s_vbe_info s' = s_vbe_info s" by (metis vesa_state.select_convs(3) vesa_state.surjective vesa_state.update_convs(3))
  moreover have "s_fb_virt s' = s_fb_virt s" using p by (simp add: paints_def)
  ultimately have c: "pixel_addr s' = pixel_addr s" by (simp add: fun_eq_iff pixel_addr_def get_fb_def cols_def)
  show "screen s' q = screen s q" if "q \<in> on_screen s"
  proof -
    have "q \<in> on_screen ?t" "q \<notin> text_cells font row col nt_s"
      using that rows_le [of s] assms(1) by (auto simp: on_screen_def t text_cells_def)
    then have "screen (s'\<lparr>s_vbe_info := ?v\<rparr>) q = screen ?t q" using p by (simp add: paints_def)
    then show ?thesis by (simp add: screen_def b c)
  qed
  show "(x, y) \<in> text_cells font row col nt_s \<Longrightarrow> pixels s' (pixel_addr s x y) = text_color font row col nt_s (x, y)"
    using paints_screen [OF p, of "(x, y)"] b by (simp add: screen_def)
qed

section \<open>The memory map\<close>

definition mmap_fields :: "nat \<Rightarrow> mmap_entry_0xe820 \<Rightarrow> (nat \<times> string) list" where
  "mmap_fields i e =
     [(0, idx_chars i), (3, ''Base:''), (8, uint64_to_hex (e820_base e)), (27, ''Size:''),
      (32, uint64_to_hex (e820_chunk_size e)), (51, ''Type:''), (56, mmap_type_str (e820_type e))]"

definition mmap_jobs :: "nat \<Rightarrow> nat \<Rightarrow> nat \<Rightarrow> mmap_entry_0xe820 \<Rightarrow> print_job list" where
  "mmap_jobs row col i e = map (\<lambda>(c, nt_s). (row, col + c, nt_s)) (mmap_fields i e)"

fun mmap_table :: "nat \<Rightarrow> nat \<Rightarrow> nat \<Rightarrow> mmap_entry_0xe820 list \<Rightarrow> print_job list" where
  "mmap_table row col i [] = []"
| "mmap_table row col i (e # es) = mmap_jobs row col i e @ mmap_table (Suc row) col (Suc i) es"

lemma print_mmap_loop_jobs:
  "print_mmap_loop font (int col) i es (int row) s = fold (print_job font) (mmap_table row col i es) s"
proof (induction es arbitrary: row i s)
  case (Cons e es)
  show ?case using Cons [of "Suc i" "Suc row"]
    by (simp add: mmap_jobs_def mmap_fields_def print_job_def Let_def add.commute)
qed simp

lemma length_uint64_to_hex [simp]: "length (uint64_to_hex v) = 18"
  by (simp add: uint64_to_hex_def)

lemma length_mmap_type_str [simp]: "length (mmap_type_str t) = 12"
  by (simp add: mmap_type_str_def)

lemma length_idx_chars: "length (idx_chars i) \<le> 2"
  using length_takeWhile_le by (fastforce simp: idx_chars_def Let_def)

lemma mmap_jobs_spread:
  assumes "j \<in> set (mmap_jobs row col i e)" "k \<in> set (mmap_jobs row col i e)" "j \<noteq> k"
  shows "\<not> cells_meet j k"
  using assms length_idx_chars [of i] by (auto simp: mmap_jobs_def mmap_fields_def cells_meet_def)

lemma mmap_jobs_width:
  assumes "(r, c, nt_s) \<in> set (mmap_jobs row col i e)"
  shows "r = row \<and> col \<le> c \<and> c + length nt_s \<le> col + 68"
  using assms length_idx_chars [of i] by (auto simp: mmap_jobs_def mmap_fields_def)

lemma mmap_table_row:
  assumes "(r, c, nt_s) \<in> set (mmap_table row col i es)"
  shows "row \<le> r \<and> r < row + length es \<and> c + length nt_s \<le> col + 68"
  using assms
proof (induction es arbitrary: row i)
  case (Cons e es)
  then show ?case using mmap_jobs_width [of r c nt_s row col i e] by fastforce
qed simp

lemma mmap_table_spread:
  assumes "j \<in> set (mmap_table row col i es)" "k \<in> set (mmap_table row col i es)" "j \<noteq> k"
  shows "\<not> cells_meet j k"
  using assms
proof (induction es arbitrary: row i)
  case (Cons e es)
  obtain r c t r' c' t' where e: "j = (r, c, t)" "k = (r', c', t')" by (metis prod_cases3)
  show ?case
  proof (cases "r = r'")
    case True
    then have "(j \<in> set (mmap_jobs row col i e) \<longleftrightarrow> r = row)" "(k \<in> set (mmap_jobs row col i e) \<longleftrightarrow> r = row)"
      using Cons.prems(1,2) mmap_jobs_width [of _ _ _ row col i e] mmap_table_row [of _ _ _ "Suc row" col "Suc i" es]
      by (fastforce simp: e)+
    then show ?thesis using Cons.prems Cons.IH [of "Suc row" "Suc i"] mmap_jobs_spread [of j row col i e k] by auto
  qed (simp add: e cells_meet_def)
qed simp

text \<open>
  C36. Printing the memory map of the firmware fills the table it means to. When the rows of the table and
  its 68 columns lie on the screen, every field of every entry (its index, the base and size in
  hexadecimal and the name of its type) stands in the cells of its own column, no field overwrites
  another, every other pixel of the screen keeps its colour, and no memory outside the screen changes.
\<close>

theorem vesa_print_mmap_correct:
  assumes "(row + length es) * unat (psf_charheight font) \<le> rows s" "8 * (col + 68) \<le> cols s"
    and "s' = vesa_print_mmap font es (int row) (int col) s"
  shows "(\<forall>j\<in>set (mmap_table row col 0 es). \<forall>q\<in>job_cells font j. screen s' q = job_color font j q) \<and>
    (\<forall>q\<in>on_screen s. q \<notin> (\<Union>j\<in>set (mmap_table row col 0 es). job_cells font j) \<longrightarrow> screen s' q = screen s q) \<and>
    (\<forall>a. a \<notin> (\<lambda>q. pixel_addr s (fst q) (snd q)) ` on_screen s \<longrightarrow> pixels s' a = pixels s a)"
proof -
  let ?js = "mmap_table row col 0 es"
  have fits: "job_fits font s j" if "j \<in> set ?js" for j
  proof -
    obtain r c nt_s where j: "j = (r, c, nt_s)" by (cases j)
    have w: "r < row + length es" "c + length nt_s \<le> col + 68" using that mmap_table_row [of r c nt_s row col 0 es] by (simp_all add: j)
    then have "Suc r * unat (psf_charheight font) \<le> (row + length es) * unat (psf_charheight font)" by (intro mult_le_mono1) simp
    then show ?thesis using w assms(1,2) by (simp add: job_fits_def j)
  qed
  have "s' = fold (print_job font) ?js s" using assms(3) print_mmap_loop_jobs by (simp add: vesa_print_mmap_def)
  then obtain g where p: "paints (\<Union>j\<in>set ?js. job_cells font j) g s s'"
    and g: "\<forall>j\<in>set ?js. \<forall>q\<in>job_cells font j. g q = job_color font j q"
    using jobs_shown [of ?js font s] fits mmap_table_spread [of _ row col 0 es] by blast
  have "screen s' q = job_color font j q" if "j \<in> set ?js" "q \<in> job_cells font j" for j q
  proof -
    have "q \<in> (\<Union>j\<in>set ?js. job_cells font j)" using that by blast
    then show ?thesis using paints_screen [OF p] g that by simp
  qed
  then show ?thesis using p unfolding paints_def by simp
qed

definition ex_font :: "nat \<Rightarrow> u8" where
  "ex_font i = (if i = 3 then 16 else of_nat i)"

definition ex_screen :: vesa_state where
  "ex_screen = \<lparr>pixels = \<lambda>_. 0, s_fb_virt = 0xFFFFFF8000000000,
     s_vbe_info = \<lparr>framebuffer_address = 0xFD000000, pitch = 10240, width_px = 2560, height_px = 1440, bpp = 32\<rparr>\<rparr>"

definition ex_mmap :: "mmap_entry_0xe820 list" where
  "ex_mmap = [\<lparr>e820_base = 0, e820_chunk_size = 0x9FC00, e820_type = 1, e820_ACPI_ext_attr = 0\<rparr>,
              \<lparr>e820_base = 0x100000, e820_chunk_size = 0x7EE0000, e820_type = 1, e820_ACPI_ext_attr = 0\<rparr>]"

theorem vesa_print_mmap_witness:
  "screen (vesa_print_mmap ex_font ex_mmap 17 0 ex_screen) (465, 290) = job_color ex_font (18, 56, ''Usable RAM  '') (465, 290)"
proof -
  have "\<forall>j\<in>set (mmap_table 17 0 0 ex_mmap). \<forall>q\<in>job_cells ex_font j.
      screen (vesa_print_mmap ex_font ex_mmap (int 17) (int 0) ex_screen) q = job_color ex_font j q"
    using vesa_print_mmap_correct [of 17 ex_mmap ex_font ex_screen 0, OF _ _ refl]
    by (simp add: ex_mmap_def ex_screen_def rows_def cols_def psf_charheight_def is_psf2_def ex_font_def)
  moreover have "(18, 56, ''Usable RAM  '') \<in> set (mmap_table 17 0 0 ex_mmap)"
    by (simp add: ex_mmap_def mmap_jobs_def mmap_fields_def mmap_type_str_def)
  moreover have "(465, 290) \<in> job_cells ex_font (18, 56, ''Usable RAM  '')"
    by (simp add: job_cells_def text_cells_def psf_charheight_def is_psf2_def ex_font_def)
  ultimately show ?thesis by auto
qed

section \<open>Numbers\<close>

definition hex_digit :: "char \<Rightarrow> nat" where
  "hex_digit c = (let n = of_char c in if n \<le> 57 then n - 48 else n - 55)"

definition parse_hex :: "string \<Rightarrow> nat" where
  "parse_hex ds = foldl (\<lambda>a c. 16 * a + hex_digit c) 0 (drop 2 ds)"

lemma hex_digit_hex: "n < 16 \<Longrightarrow> hex_digit (hex ! n) = n"
proof -
  have "list_all (\<lambda>n. hex_digit (hex ! n) = n) [0..<16]" by code_simp
  then show "n < 16 \<Longrightarrow> ?thesis" by (simp add: list_all_iff del: upt_rec_numeral)
qed

lemma nibbles:
  fixes v :: nat
  assumes "v < 16 ^ n" "m \<le> n"
  shows "foldl (\<lambda>a i. 16 * a + v div 16 ^ (n - Suc i) mod 16) 0 [0..<m] = v div 16 ^ (n - m)"
  using assms(2)
proof (induction m)
  case 0
  then show ?case using assms(1) by simp
next
  case (Suc m)
  let ?d = "v div 16 ^ (n - Suc m)"
  have "n - m = Suc (n - Suc m)" using Suc.prems by simp
  then have "v div 16 ^ (n - m) = ?d div 16" by (simp only: power_Suc2 div_mult2_eq)
  then have "16 * (v div 16 ^ (n - m)) + ?d mod 16 = ?d" by simp
  then show ?case using Suc by simp
qed

text \<open>
  A number printed in hexadecimal reads back as itself: the eighteen characters are the prefix and
  sixteen digits, whose value is the number.
\<close>

theorem uint64_to_hex_roundtrip:
  "take 2 (uint64_to_hex val) = ''0x'' \<and> length (uint64_to_hex val) = 18 \<and> parse_hex (uint64_to_hex val) = unat val"
proof -
  have n: "unat (drop_bit (60 - i * 4) val AND 0xF) = unat val div 16 ^ (16 - Suc i) mod 16" if "i < 16" for i
  proof -
    have "(drop_bit (60 - i * 4) val AND 0xF) = take_bit 4 (drop_bit (60 - i * 4) val)"
      by (simp add: take_bit_eq_mask mask_eq_exp_minus_1)
    moreover have "60 - i * 4 = 4 * (16 - Suc i)" using that by simp
    ultimately show ?thesis by (simp add: unsigned_take_bit_eq take_bit_eq_mod unat_drop_bit_div power_mult unat_mod)
  qed
  have "parse_hex (uint64_to_hex val) = foldl (\<lambda>a i. 16 * a + hex_digit (hex ! unat (drop_bit (60 - i * 4) val AND 0xF))) 0 [0..<16]"
    by (simp add: parse_hex_def uint64_to_hex_def foldl_map del: upt_rec_numeral)
  also have "\<dots> = foldl (\<lambda>a i. 16 * a + unat val div 16 ^ (16 - Suc i) mod 16) 0 [0..<16]"
    by (rule foldl_cong) (simp_all add: n hex_digit_hex del: upt_rec_numeral)
  also have "\<dots> = unat val"
    using nibbles [of "unat val" 16 16] unat_lt_u64 [of val] by (simp del: upt_rec_numeral)
  finally show ?thesis by (simp add: uint64_to_hex_def)
qed

end
