(* ===== verification/Isr.thy ===== *)
theory Isr
  imports Idt Vesa_Props "HOL-Library.Sublist"
begin

text \<open>
  \<^verbatim>\<open>src/mikroKernellib/isr_dispatch.c\<close>: the handler behind every stub. It prints a report and stops the
  processor; \<open>cr2\<close>, which the page fault handler reads, is an argument.
\<close>

record pf_info_t =
  pf_error_code :: u64
  pf_vaddr :: u64

datatype run = Halted vesa_state | Returned vesa_state

text \<open>The loop around \<open>hlt\<close> after every report.\<close>

definition hlt_forever :: "vesa_state \<Rightarrow> run" where
  "hlt_forever s = Halted s"

definition pf_handler :: "(nat \<Rightarrow> u8) \<Rightarrow> u64 \<Rightarrow> registers_t \<Rightarrow> vesa_state \<Rightarrow> vesa_state" where
  "pf_handler font cr2 regs s =
     (let pf_info = \<lparr>pf_error_code = error_code regs, pf_vaddr = cr2\<rparr>;
          s = vesa_clear_lower_half font s;
          s = vesa_print_virt_addr font (pf_vaddr pf_info) (VESA_LAST_ROW - 2) 0 s
      in vesa_print_virt_addr font (error_code regs) (VESA_LAST_ROW - 1) 0 s)"

definition low_messages :: "string list" where
  "low_messages =
    [''#DE  Divide Error, vector: 0x00'', ''#DB  Debug, vector: 0x01'', ''NMI  Non-Maskable Interrupt, vector: 0x02'',
     ''#BP  Breakpoint, vector: 0x03'', ''#OF  Overflow, vector: 0x04'', ''#BR  BOUND Range Exceeded, vector: 0x05'',
     ''#UD  Invalid Opcode, vector: 0x06'', ''#NM  Device Not Available, vector: 0x07'', ''#DF  Double Fault, vector: 0x08'',
     ''Coprocessor Segment Overrun, vector: 0x09'', ''#TS  Invalid TSS, vector: 0x0A'', ''#NP  Segment Not Present, vector: 0x0B'',
     ''#SS  Stack-Segment Fault, vector: 0x0C'', ''#GP  General Protection fault, vector: 0x0D'', ''#PF  Page Fault, vector: 0x0E'',
     ''Reserved, vector: 0x0F'']"

definition high_messages :: "string list" where
  "high_messages =
    [''#MF  x87 FPU Error, vector: 0x10'', ''#AC  Alignment Check, vector: 0x11'', ''#MC  Machine Check, vector: 0x12'',
     ''#XM  SIMD Floating-Point Exception, vector: 0x13'', ''#VE  Virtualization Exception, vector: 0x14'', ''#CP  Control Protection, vector: 0x15'',
     ''Reserved, vector: 0x16'', ''Reserved, vector: 0x17'', ''Reserved, vector: 0x18'', ''Reserved, vector: 0x19'', ''Reserved, vector: 0x1A'',
     ''Reserved, vector: 0x1B'', ''#HV  Hypervisor Injection Exception, vector: 0x1C'', ''#VC  VMM Communication Exception, vector: 0x1D'',
     ''#SX  Security Exception, vector: 0x1E'', ''Reserved, vector: 0x1F'']"

definition isr_message :: "u64 \<Rightarrow> string" where
  "isr_message v =
     (if v < 16 then low_messages ! unat v else if v < 32 then high_messages ! (unat v - 16) else ''Unhandled Interrupt'')"

definition isr_dispatch :: "(nat \<Rightarrow> u8) \<Rightarrow> u64 \<Rightarrow> registers_t \<Rightarrow> vesa_state \<Rightarrow> run" where
  "isr_dispatch font cr2 regs s =
     (if vec regs = 13 then
        (let s = vesa_nt_println font (isr_message (vec regs)) VESA_LAST_ROW 0 s;
             s = vesa_print_virt_addr font (error_code regs) (VESA_LAST_ROW - 2) 0 s
         in hlt_forever s)
      else if vec regs = 14 then
        (let s = pf_handler font cr2 regs s;
             s = vesa_nt_println font (isr_message (vec regs)) VESA_LAST_ROW 0 s
         in hlt_forever s)
      else hlt_forever (vesa_nt_println font (isr_message (vec regs)) VESA_LAST_ROW 0 s))"

section \<open>The messages\<close>

definition vector_suffix :: "nat \<Rightarrow> string" where
  "vector_suffix n = '', vector: 0x'' @ [hex ! (n div 16), hex ! (n mod 16)]"

lemma message_lists:
  "list_all (\<lambda>n. suffix (vector_suffix n) (low_messages ! n) \<and> length (low_messages ! n) \<le> 64) [0..<16]"
  "list_all (\<lambda>n. suffix (vector_suffix (n + 16)) (high_messages ! n) \<and> length (high_messages ! n) \<le> 64) [0..<16]"
  by code_simp+

lemma isr_message_of_nat:
  assumes "n < 32"
  shows "isr_message (of_nat n) = (if n < 16 then low_messages ! n else high_messages ! (n - 16))"
proof -
  have "unat (of_nat n :: u64) = n" using assms by (simp add: unat_of_nat_id)
  then show ?thesis using assms by (auto simp: isr_message_def word_less_nat_alt)
qed

lemma low_message: "n < 16 \<Longrightarrow> suffix (vector_suffix n) (low_messages ! n) \<and> length (low_messages ! n) \<le> 64"
  using message_lists(1) by (simp add: list_all_iff del: upt_rec_numeral)

lemma high_message: "n < 16 \<Longrightarrow> suffix (vector_suffix (n + 16)) (high_messages ! n) \<and> length (high_messages ! n) \<le> 64"
  using message_lists(2) by (simp add: list_all_iff del: upt_rec_numeral)

lemma isr_message_suffix: "n < 32 \<Longrightarrow> suffix (vector_suffix n) (isr_message (of_nat n))"
  using low_message [of n] high_message [of "n - 16"] by (cases "n < 16") (simp_all add: isr_message_of_nat)

lemma isr_message_length: "length (isr_message v) \<le> 64"
proof (cases "v < 32")
  case True
  then have "unat v < 32" by (simp add: word_less_nat_alt)
  then have "length (isr_message (of_nat (unat v))) \<le> 64"
    using low_message [of "unat v"] high_message [of "unat v - 16"] by (simp only: isr_message_of_nat) simp
  then show ?thesis by simp
next
  case False
  then have "\<not> v < 16" using order_trans [of "16 :: u64" 32 v] by (simp add: not_less)
  then show ?thesis using False by (simp add: isr_message_def)
qed

section \<open>The report\<close>

definition shows_text :: "(nat \<Rightarrow> u8) \<Rightarrow> vesa_state \<Rightarrow> nat \<Rightarrow> string \<Rightarrow> bool" where
  "shows_text font s row nt_s \<longleftrightarrow> (\<forall>q\<in>text_cells font row 0 nt_s. screen s q = text_color font row 0 nt_s q)"

definition report :: "u64 \<Rightarrow> registers_t \<Rightarrow> print_job list" where
  "report cr2 regs =
     (if vec regs = 13 then [(83, 0, isr_message (vec regs)), (81, 0, uint64_to_hex (error_code regs))]
      else if vec regs = 14 then [(81, 0, uint64_to_hex cr2), (82, 0, uint64_to_hex (error_code regs)), (83, 0, isr_message (vec regs))]
      else [(83, 0, isr_message (vec regs))])"

lemma isr_dispatch_jobs:
  "isr_dispatch font cr2 regs s =
     Halted (fold (print_job font) (report cr2 regs) (if vec regs = 14 then vesa_clear_lower_half font s else s))"
  by (simp add: isr_dispatch_def report_def print_job_def hlt_forever_def VESA_LAST_ROW_def vesa_print_virt_addr_def pf_handler_def Let_def)

lemma clear_lower_half_keeps:
  assumes "unat (width_px (s_vbe_info s)) \<le> cols s"
  shows "cols (vesa_clear_lower_half font s) = cols s" "rows (vesa_clear_lower_half font s) = rows s"
  using paints_same [OF fill_rows_paints [OF assms]] by (simp_all add: vesa_clear_lower_half_def)

text \<open>
  C33. Whatever interrupt comes, the handler never returns: it stops the processor with a report. On a
  screen with 84 rows and 64 columns of text the last row shows the message of the vector, which for
  the 32 exceptions ends in the vector's own number; a general protection fault also shows its error
  code, and a page fault the faulting address and the error code, two rows and one row above it.
\<close>

theorem isr_dispatch_reports:
  assumes "84 * unat (psf_charheight font) \<le> rows s" "8 * 64 \<le> cols s" "unat (width_px (s_vbe_info s)) \<le> cols s"
  shows "\<exists>s'. isr_dispatch font cr2 regs s = Halted s' \<and> shows_text font s' 83 (isr_message (vec regs)) \<and>
    (vec regs < 32 \<longrightarrow> suffix (vector_suffix (unat (vec regs))) (isr_message (vec regs))) \<and>
    (vec regs = 13 \<longrightarrow> shows_text font s' 81 (uint64_to_hex (error_code regs))) \<and>
    (vec regs = 14 \<longrightarrow> shows_text font s' 81 (uint64_to_hex cr2) \<and> shows_text font s' 82 (uint64_to_hex (error_code regs)))"
proof -
  let ?s = "if vec regs = 14 then vesa_clear_lower_half font s else s"
  let ?t = "fold (print_job font) (report cr2 regs) ?s"
  have fits: "job_fits font ?s j" if "j \<in> set (report cr2 regs)" for j
    using that assms(1,2) clear_lower_half_keeps [OF assms(3)] isr_message_length [of "vec regs"]
    by (auto simp: report_def job_fits_def split: if_splits)
  have apart: "\<not> cells_meet j k" if "j \<in> set (report cr2 regs)" "k \<in> set (report cr2 regs)" "j \<noteq> k" for j k
    using that by (auto simp: report_def cells_meet_def split: if_splits)
  obtain g where p: "paints (\<Union>j\<in>set (report cr2 regs). job_cells font j) g ?s ?t"
    and g: "\<forall>j\<in>set (report cr2 regs). \<forall>q\<in>job_cells font j. g q = job_color font j q"
    using jobs_shown [of "report cr2 regs" font ?s] fits apart by blast
  have shown: "shows_text font ?t row nt_s" if "(row, 0, nt_s) \<in> set (report cr2 regs)" for row nt_s
    unfolding shows_text_def
  proof
    fix q assume q: "q \<in> text_cells font row 0 nt_s"
    then have "q \<in> (\<Union>j\<in>set (report cr2 regs). job_cells font j)" using that by (force simp: job_cells_def)
    moreover have "g q = text_color font row 0 nt_s q" using g that q by (force simp: job_cells_def job_color_def)
    ultimately show "screen ?t q = text_color font row 0 nt_s q" using paints_screen [OF p] by simp
  qed
  have "vec regs < 32 \<longrightarrow> suffix (vector_suffix (unat (vec regs))) (isr_message (vec regs))"
    using isr_message_suffix [of "unat (vec regs)"] by (simp add: word_less_nat_alt)
  then show ?thesis using shown by (intro exI [of _ ?t]) (auto simp: isr_dispatch_jobs report_def)
qed

theorem isr_dispatch_witness:
  "\<exists>s'. isr_dispatch ex_font 0xDEADB000 (ex_cpu\<lparr>vec := 14, error_code := 2\<rparr>) ex_screen = Halted s' \<and>
    shows_text ex_font s' 83 ''#PF  Page Fault, vector: 0x0E'' \<and> shows_text ex_font s' 81 (uint64_to_hex 0xDEADB000)"
proof -
  have "84 * unat (psf_charheight ex_font) \<le> rows ex_screen" "8 * 64 \<le> cols ex_screen" "unat (width_px (s_vbe_info ex_screen)) \<le> cols ex_screen"
    by (simp_all add: ex_screen_def rows_def cols_def psf_charheight_def is_psf2_def ex_font_def)
  from isr_dispatch_reports [OF this, of "0xDEADB000" "ex_cpu\<lparr>vec := 14, error_code := 2\<rparr>"]
  show ?thesis by (auto simp: isr_message_def low_messages_def)
qed

end
