(* ===== verification/Kstrings.thy ===== *)
theory Kstrings
  imports Bytes "HOL-Library.List_Lexorder"
begin

text \<open>
  \<^verbatim>\<open>src/mikroKernellib/kstrings.c\<close> and \<^verbatim>\<open>src/mikroKernellib/pmap.c\<close>: strings and blocks of bytes in
  memory, and the copy of the firmware's memory map.

  Memory is a function from addresses to bytes. A loop that runs to the end of a string has no bound of
  its own, so its result is \<open>None\<close> when no zero byte follows; a loop with a count is structural in it.
\<close>

section \<open>Strings\<close>

partial_function (option) kstring_length_loop :: "bytes \<Rightarrow> addr \<Rightarrow> u64 \<Rightarrow> u64 option" where
  "kstring_length_loop m s len = (if m (s + len) \<noteq> 0 then kstring_length_loop m s (len + 1) else Some len)"

definition kstring_length :: "bytes \<Rightarrow> addr \<Rightarrow> u64 option" where
  "kstring_length m s = (if s = 0 then Some 0 else kstring_length_loop m s 0)"

function kstring_strcpy_loop :: "addr \<Rightarrow> addr \<Rightarrow> u64 \<Rightarrow> u64 \<Rightarrow> bytes \<Rightarrow> u64 \<times> bytes" where
  "kstring_strcpy_loop s1 d dst_size i m =
     (if i < dst_size - 1 \<and> m (s1 + i) \<noteq> 0 then kstring_strcpy_loop s1 d dst_size (i + 1) (m(d + i := m (s1 + i))) else (i, m))"
  by pat_completeness auto
termination
proof (relation "measure (\<lambda>(s1, d, dst_size, i, m). unat (dst_size - 1 - i))")
  fix s1 d dst_size i :: u64 and m :: bytes
  assume "i < dst_size - 1 \<and> m (s1 + i) \<noteq> 0"
  then have l: "unat i < unat (dst_size - 1)" by (simp add: word_less_nat_alt)
  then have u: "unat (i + 1) = unat i + 1"
    using unat_lt_u64 [of "dst_size - 1"] by (subst unat_add_no_overflow) simp_all
  then have "i + 1 \<le> dst_size - 1" "i \<le> dst_size - 1" using l by (simp_all add: word_le_nat_alt)
  then have "unat (dst_size - 1 - (i + 1)) = unat (dst_size - 1) - unat (i + 1)" "unat (dst_size - 1 - i) = unat (dst_size - 1) - unat i"
    by (simp_all only: unat_diff_le)
  then have "unat (dst_size - 1 - (i + 1)) < unat (dst_size - 1 - i)" using u l by linarith
  then show "((s1, d, dst_size, i + 1, m(d + i := m (s1 + i))), s1, d, dst_size, i, m) \<in> measure (\<lambda>(s1, d, dst_size, i, m). unat (dst_size - 1 - i))"
    by simp
qed simp

definition kstring_strcpy :: "bytes \<Rightarrow> addr \<Rightarrow> addr \<Rightarrow> u64 \<Rightarrow> bytes" where
  "kstring_strcpy m s1 dst dst_size =
     (if s1 = 0 \<or> dst = 0 \<or> dst_size = 0 then m
      else let (i, m) = kstring_strcpy_loop s1 dst dst_size 0 m in m(dst + i := 0))"

partial_function (option) kstring_strcmp_loop :: "bytes \<Rightarrow> addr \<Rightarrow> addr \<Rightarrow> int option" where
  "kstring_strcmp_loop m s1 s2 =
     (if m s1 \<noteq> 0 \<and> m s1 = m s2 then kstring_strcmp_loop m (s1 + 1) (s2 + 1) else Some (uint (m s1) - uint (m s2)))"

definition kstring_strcmp :: "bytes \<Rightarrow> addr \<Rightarrow> addr \<Rightarrow> int option" where
  "kstring_strcmp m s1 s2 =
     (if s1 = s2 then Some 0 else if s1 = 0 then Some (- 1) else if s2 = 0 then Some 1 else kstring_strcmp_loop m s1 s2)"

section \<open>Blocks of bytes\<close>

text \<open>\<open>rep stosb\<close>: the count runs down to zero while the pointer runs up; the code returns the pointer.\<close>

primrec rep_stosb :: "nat \<Rightarrow> u8 \<Rightarrow> addr \<Rightarrow> bytes \<Rightarrow> addr \<times> bytes" where
  "rep_stosb 0 al rdi m = (rdi, m)"
| "rep_stosb (Suc rcx) al rdi m = rep_stosb rcx al (rdi + 1) (m(rdi := al))"

definition memset :: "addr \<Rightarrow> int \<Rightarrow> u64 \<Rightarrow> bytes \<Rightarrow> addr \<times> bytes" where
  "memset ptr v num m = (if num = 0 then (ptr, m) else rep_stosb (unat num) (word_of_int v) ptr m)"

primrec memcpy_loop :: "nat \<Rightarrow> addr \<Rightarrow> addr \<Rightarrow> bytes \<Rightarrow> bytes" where
  "memcpy_loop 0 d s m = m"
| "memcpy_loop (Suc n) d s m = memcpy_loop n (d + 1) (s + 1) (m(d := m s))"

definition memcpy :: "addr \<Rightarrow> addr \<Rightarrow> u64 \<Rightarrow> bytes \<Rightarrow> addr \<times> bytes" where
  "memcpy dest src n m = (dest, memcpy_loop (unat n) dest src m)"

section \<open>The copy of the memory map\<close>

text \<open>The buffer has half a page, an entry 24 bytes.\<close>

definition PMAP_BUF_SIZE :: nat where
  "PMAP_BUF_SIZE = 4096 div 2"

definition init_pmap :: "addr \<Rightarrow> addr \<Rightarrow> u16 \<Rightarrow> bytes \<Rightarrow> bytes" where
  "init_pmap pmap_buf mmap_bios_entries mmap_entry_count m =
     snd (memcpy pmap_buf mmap_bios_entries (ucast mmap_entry_count * 24) m)"

definition get_pmap_entry_count :: "u16 \<Rightarrow> u16" where
  "get_pmap_entry_count mmap_entry_count = mmap_entry_count"

definition get_pmap :: "addr \<Rightarrow> addr" where
  "get_pmap pmap_buf = pmap_buf"

section \<open>Blocks\<close>

lemma rep_stosb_eq: "rep_stosb n v a m = (a + of_nat n, poke m a (replicate n v))"
  by (induction n arbitrary: a m) (simp_all add: add.assoc)

lemma memcpy_loop_eq: "apart d n s n \<Longrightarrow> memcpy_loop n d s m = poke m d (peek m s n)"
proof (induction n arbitrary: d s m)
  case (Suc n)
  have "peek (m(d := m s)) (s + 1) n = peek m (s + 1) n"
  proof -
    have "d \<noteq> s + 1 + of_nat j" if "j < n" for j
      using apart_nth [OF Suc.prems, of 0 "Suc j"] that by (simp add: add.assoc)
    then show ?thesis using peek_poke_apart [of d "[m s]" "s + 1" n m] by (simp add: apart_def)
  qed
  then show ?case by (simp only: memcpy_loop.simps Suc.IH [OF apart_step [OF Suc.prems]] peek_Suc poke.simps)
qed (simp add: peek_def)

text \<open>
  C39. \<open>memset\<close> and \<open>memcpy\<close> write exactly the block they are given: \<open>memset\<close> fills it with the low byte of the
  value, \<open>memcpy\<close> copies a source that does not meet it, and every other byte keeps its value. \<open>memcpy\<close> returns
  the destination; \<open>memset\<close> returns the address behind the block, where \<open>rep stosb\<close> left the pointer.
\<close>

theorem memset_memcpy_correct:
  assumes "apart p (unat n) q (unat n)"
  shows "fst (memset p v n m) = p + n \<and> peek (snd (memset p v n m)) p (unat n) = replicate (unat n) (word_of_int v) \<and>
    fst (memcpy p q n m) = p \<and> peek (snd (memcpy p q n m)) p (unat n) = peek m q (unat n) \<and>
    (\<forall>a. (\<forall>k<unat n. a \<noteq> p + of_nat k) \<longrightarrow> snd (memset p v n m) a = m a \<and> snd (memcpy p q n m) a = m a)"
proof -
  have l: "unat n \<le> 2 ^ 64" using unat_lt_u64 [of n] by simp
  have s: "memset p v n m = (p + n, poke m p (replicate (unat n) (word_of_int v)))"
    by (simp add: memset_def rep_stosb_eq)
  have c: "memcpy p q n m = (p, poke m p (peek m q (unat n)))"
    by (simp add: memcpy_def memcpy_loop_eq [OF assms])
  have o: "poke m p xs a = m a" if "length xs = unat n" "\<forall>k<unat n. a \<noteq> p + of_nat k" for xs a
    by (rule poke_outside) (use that in simp)
  show ?thesis
    using l peek_poke_same [of "replicate (unat n) (word_of_int v)" m p] peek_poke_same [of "peek m q (unat n)" m p]
    by (simp add: s c o)
qed

theorem memset_memcpy_witness:
  "fst (memset 0x1000 0 16 (\<lambda>_. 1)) = 0x1010 \<and> peek (snd (memcpy 0x1000 0x2000 16 (\<lambda>a. ucast a))) 0x1000 16 = peek (\<lambda>a. ucast a) 0x2000 16"
proof -
  have "apart 0x1000 (unat (16 :: u64)) 0x2000 (unat (16 :: u64))"
    by (rule apart_ranges) simp_all
  from memset_memcpy_correct [OF this] show ?thesis by simp
qed

section \<open>Strings in memory\<close>

fun cstr :: "bytes \<Rightarrow> addr \<Rightarrow> u8 list \<Rightarrow> bool" where
  "cstr m s [] \<longleftrightarrow> m s = 0"
| "cstr m s (c # cs) \<longleftrightarrow> m s = c \<and> c \<noteq> 0 \<and> cstr m (s + 1) cs"

lemma kstring_length_loop_cstr: "cstr m (s + len) cs \<Longrightarrow> kstring_length_loop m s len = Some (len + of_nat (length cs))"
proof (induction cs arbitrary: len)
  case Nil
  then show ?case by (subst kstring_length_loop.simps) simp
next
  case (Cons c cs)
  then have "kstring_length_loop m s (len + 1) = Some (len + 1 + of_nat (length cs))" by (intro Cons.IH) (simp add: add.assoc)
  then show ?case using Cons.prems by (subst kstring_length_loop.simps) (simp add: add.assoc)
qed

lemma uint_pos: "x \<noteq> 0 \<Longrightarrow> 0 < uint x" for x :: u8
  by (simp add: order_less_le uint_0_iff flip: uint_0_iff)

lemma uint_eq: "uint x = uint y \<longleftrightarrow> x = y" for x y :: u8
  by (simp add: word_eq_iff_unsigned [where 'a = int])

lemma kstring_strcmp_loop_cstr:
  "cstr m s1 a \<Longrightarrow> cstr m s2 b \<Longrightarrow> \<exists>r. kstring_strcmp_loop m s1 s2 = Some r \<and> (r = 0 \<longleftrightarrow> a = b) \<and> (r < 0 \<longleftrightarrow> a < b)"
proof (induction a arbitrary: s1 s2 b)
  case Nil
  then show ?case
    by (cases b) (auto simp: kstring_strcmp_loop.simps [of m s1 s2] uint_0_iff uint_pos)
next
  case (Cons c a)
  show ?case
  proof (cases b)
    case Nil
    then show ?thesis using Cons.prems by (auto simp: kstring_strcmp_loop.simps [of m s1 s2] uint_0_iff not_less)
  next
    case (Cons d b')
    note b = this
    show ?thesis
    proof (cases "c = d")
      case True
      then show ?thesis using Cons.IH [of "s1 + 1" "s2 + 1" b'] Cons.prems
        by (auto simp: b kstring_strcmp_loop.simps [of m s1 s2])
    next
      case False
      then show ?thesis using Cons.prems
        by (auto simp: b kstring_strcmp_loop.simps [of m s1 s2] word_less_def uint_eq)
    qed
  qed
qed

lemma cstr_poke:
  assumes "0 \<notin> set cs" "length cs < 2 ^ 64"
  shows "cstr (poke m a (cs @ [0])) a cs"
  using assms
proof (induction cs arbitrary: m a)
  case (Cons c cs)
  then show ?case using poke_nth [of 0 "(c # cs) @ [0]" m a] by simp
qed simp

lemma cstr_peek: "cstr m s cs \<longleftrightarrow> peek m s (Suc (length cs)) = cs @ [0] \<and> 0 \<notin> set cs"
  by (induction cs arbitrary: s) (auto simp: peek_Suc [of m _ 0] peek_Suc [of m _ "Suc _"] peek_def [of m _ 0])

lemma cstr_unique: "cstr m s a \<Longrightarrow> cstr m s b \<Longrightarrow> a = b"
proof (induction a arbitrary: s b)
  case Nil
  then show ?case by (cases b) auto
next
  case (Cons c a)
  then show ?case by (cases b) auto
qed

lemma cstr_after_write:
  assumes "cstr m s cs" "\<And>j. j < Suc (length cs) \<Longrightarrow> d \<noteq> s + of_nat j"
  shows "cstr (m(d := x)) s cs"
proof -
  have "peek (poke m d [x]) s (Suc (length cs)) = peek m s (Suc (length cs))"
    using assms(2) by (intro peek_poke_apart) (simp add: apart_def)
  then show ?thesis using assms(1) by (simp add: cstr_peek)
qed

lemma kstring_strcpy_loop_eq:
  assumes "cstr m (s1 + i) cs" "i \<le> dst_size - 1" "apart (d + i) (unat (dst_size - 1 - i)) (s1 + i) (Suc (length cs))"
  shows "kstring_strcpy_loop s1 d dst_size i m =
    (i + of_nat (length (take (unat (dst_size - 1 - i)) cs)), poke m (d + i) (take (unat (dst_size - 1 - i)) cs))"
  using assms
proof (induction cs arbitrary: i m)
  case Nil
  then show ?case by (subst kstring_strcpy_loop.simps) simp
next
  case (Cons c cs)
  show ?case
  proof (cases "i < dst_size - 1")
    case True
    let ?n = "unat (dst_size - 1 - (i + 1))"
    have l: "unat i < unat (dst_size - 1)" using True by (simp add: word_less_nat_alt)
    then have u: "unat (i + 1) = unat i + 1"
      using unat_lt_u64 [of "dst_size - 1"] by (subst unat_add_no_overflow) simp_all
    then have i: "i + 1 \<le> dst_size - 1" using l by (simp add: word_le_nat_alt)
    have n: "unat (dst_size - 1 - i) = Suc ?n"
      using u l unat_diff_le [OF i] unat_diff_le [OF Cons.prems(2)] by linarith
    note ap = Cons.prems(3) [unfolded n length_Cons]
    have "cstr (m(d + i := c)) (s1 + (i + 1)) cs"
    proof (rule cstr_after_write)
      show "cstr m (s1 + (i + 1)) cs" using Cons.prems(1) by (simp add: add.assoc)
      show "d + i \<noteq> s1 + (i + 1) + of_nat j" if "j < Suc (length cs)" for j
        using apart_nth [OF ap, of 0 "Suc j"] that by (simp add: add.assoc)
    qed
    moreover have "apart (d + (i + 1)) ?n (s1 + (i + 1)) (Suc (length cs))"
      using apart_step [OF ap] by (simp add: add.assoc)
    ultimately have "kstring_strcpy_loop s1 d dst_size (i + 1) (m(d + i := c)) =
        (i + 1 + of_nat (length (take ?n cs)), poke (m(d + i := c)) (d + (i + 1)) (take ?n cs))"
      using i by (intro Cons.IH)
    then show ?thesis using True Cons.prems(1) unfolding n
      by (subst kstring_strcpy_loop.simps) (simp add: add.assoc)
  next
    case False
    then have "i = dst_size - 1" using Cons.prems(2) by simp
    then show ?thesis by (subst kstring_strcpy_loop.simps) simp
  qed
qed

lemma kstring_strcpy_eq:
  assumes "cstr m s1 cs" "s1 \<noteq> 0" "dst \<noteq> 0" "dst_size \<noteq> 0" "apart dst (unat dst_size) s1 (Suc (length cs))"
  shows "kstring_strcpy m s1 dst dst_size = poke m dst (take (unat dst_size - 1) cs @ [0])"
proof -
  have n: "unat (dst_size - 1) = unat dst_size - 1"
    using assms(4) by (simp add: unat_minus_one)
  have "apart dst (unat (dst_size - 1)) s1 (Suc (length cs))" using assms(5) by (auto simp: apart_def n)
  then have "kstring_strcpy_loop s1 dst dst_size 0 m =
      (of_nat (length (take (unat dst_size - 1) cs)), poke m dst (take (unat dst_size - 1) cs))"
    using kstring_strcpy_loop_eq [of m s1 0 cs dst_size dst] assms(1) by (simp add: n)
  then show ?thesis using assms(2-4) by (simp add: kstring_strcpy_def poke_append)
qed

text \<open>
  C37. \<open>kstring_strcmp\<close> returns for any two strings in memory, zero exactly when they are equal and a negative
  number exactly when the first comes before the second in the lexicographic order of unsigned bytes. A
  null pointer comes before every string.
\<close>

theorem kstring_strcmp_correct:
  assumes "s1 \<noteq> 0 \<Longrightarrow> cstr m s1 a" "s2 \<noteq> 0 \<Longrightarrow> cstr m s2 b"
  shows "\<exists>r. kstring_strcmp m s1 s2 = Some r \<and>
    (r = 0 \<longleftrightarrow> s1 = 0 \<and> s2 = 0 \<or> s1 \<noteq> 0 \<and> s2 \<noteq> 0 \<and> a = b) \<and>
    (r < 0 \<longleftrightarrow> s1 = 0 \<and> s2 \<noteq> 0 \<or> s1 \<noteq> 0 \<and> s2 \<noteq> 0 \<and> a < b)"
proof (cases "s1 = s2 \<or> s1 = 0 \<or> s2 = 0")
  case True
  moreover have "a = b" if "s1 = s2" "s1 \<noteq> 0" using assms that cstr_unique by blast
  ultimately show ?thesis by (auto simp: kstring_strcmp_def)
next
  case False
  then show ?thesis using kstring_strcmp_loop_cstr [of m s1 a s2 b] assms by (simp add: kstring_strcmp_def)
qed

definition ex_bytes :: bytes where
  "ex_bytes = poke (poke (\<lambda>_. 0) 0x1000 [0x61, 0x62, 0xE9]) 0x2000 [0x61, 0x62, 0x63]"

lemma ex_bytes_cstr: "cstr ex_bytes 0x1000 [0x61, 0x62, 0xE9]" "cstr ex_bytes 0x2000 [0x61, 0x62, 0x63]"
  by (simp_all add: ex_bytes_def)

theorem kstring_strcmp_witness:
  "\<exists>r. kstring_strcmp ex_bytes 0x1000 0x2000 = Some r \<and> r \<noteq> 0 \<and> \<not> r < 0"
  using kstring_strcmp_correct [of "0x1000" ex_bytes "[0x61, 0x62, 0xE9]" "0x2000" "[0x61, 0x62, 0x63]"] ex_bytes_cstr by simp

text \<open>
  C38. \<open>kstring_strcpy\<close> into a buffer that does not meet the source leaves there the longest prefix that fits
  with its terminating zero, and writes nowhere else. \<open>kstring_length\<close> of the copy is its length, and when
  the buffer is large enough \<open>kstring_strcmp\<close> finds copy and source equal.
\<close>

theorem kstring_strcpy_roundtrip:
  assumes "cstr m s1 cs" "s1 \<noteq> 0" "dst \<noteq> 0" "dst_size \<noteq> 0" "apart dst (unat dst_size) s1 (Suc (length cs))"
    and "m' = kstring_strcpy m s1 dst dst_size"
  shows "cstr m' dst (take (unat dst_size - 1) cs) \<and>
    kstring_length m' dst = Some (of_nat (min (length cs) (unat dst_size - 1))) \<and>
    (length cs < unat dst_size \<longrightarrow> kstring_strcmp m' dst s1 = Some 0) \<and>
    (\<forall>a. (\<forall>k<unat dst_size. a \<noteq> dst + of_nat k) \<longrightarrow> m' a = m a)"
proof -
  let ?cs = "take (unat dst_size - 1) cs"
  have m': "m' = poke m dst (?cs @ [0])" unfolding assms(6) by (rule kstring_strcpy_eq [OF assms(1-5)])
  have l: "length (?cs @ [0]) \<le> unat dst_size" using assms(4) by (simp add: Suc_le_eq min_less_iff_disj unat_gt_0)
  have z: "0 \<notin> set cs" using assms(1) by (simp add: cstr_peek)
  then have c: "cstr m' dst ?cs"
    unfolding m' using l unat_lt_u64 [of dst_size] by (intro cstr_poke) (auto dest: in_set_takeD)
  have "peek m' s1 (Suc (length cs)) = peek m s1 (Suc (length cs))"
    unfolding m' using assms(5) l by (intro peek_poke_apart) (auto simp: apart_def)
  then have s: "cstr m' s1 cs" using assms(1) by (simp add: cstr_peek)
  have len: "kstring_length m' dst = Some (of_nat (length ?cs))"
    using kstring_length_loop_cstr [of m' dst 0 ?cs] c assms(3) by (simp add: kstring_length_def)
  have cmp: "kstring_strcmp m' dst s1 = Some 0" if "length cs < unat dst_size"
    using kstring_strcmp_loop_cstr [OF c s] that assms(2,3) by (auto simp: kstring_strcmp_def)
  have "m' a = m a" if "\<forall>k<unat dst_size. a \<noteq> dst + of_nat k" for a
    unfolding m' using that l by (intro poke_outside) auto
  then show ?thesis using c len cmp by (simp add: min.commute)
qed

theorem kstring_strcpy_witness:
  "kstring_length (kstring_strcpy ex_bytes 0x1000 0x3000 3) 0x3000 = Some 2"
proof -
  have "apart 0x3000 (unat (3 :: u64)) 0x1000 (Suc (length [0x61, 0x62, 0xE9 :: u8]))"
    by (rule apart_sym, rule apart_ranges) simp_all
  from kstring_strcpy_roundtrip [OF ex_bytes_cstr(1) _ _ _ this refl] show ?thesis by simp
qed

section \<open>The memory map\<close>

text \<open>
  C40. \<open>__init_pmap\<close> copies the whole memory map for any number of entries, and nothing else, when the
  firmware's array does not meet the bytes it writes. Those bytes lie in the buffer for up to 85 entries;
  with 86 or more the copy runs past the end of the buffer.
\<close>

theorem init_pmap_correct:
  assumes "apart pmap_buf (24 * unat count) entries (24 * unat count)"
    and "m' = init_pmap pmap_buf entries count m"
  shows "peek m' (get_pmap pmap_buf) (24 * unat (get_pmap_entry_count count)) = peek m entries (24 * unat count) \<and>
    (\<forall>a. (\<forall>k<24 * unat count. a \<noteq> pmap_buf + of_nat k) \<longrightarrow> m' a = m a) \<and>
    (24 * unat count \<le> PMAP_BUF_SIZE \<longleftrightarrow> unat count \<le> 85)"
proof -
  have u: "unat (ucast count * 24 :: u64) = 24 * unat count"
    using unat_lt_u16 [of count] by (simp add: unat_word_ariths unsigned_ucast_eq take_bit_nat_eq_self)
  have m': "m' = poke m pmap_buf (peek m entries (24 * unat count))"
    using assms by (simp add: init_pmap_def memcpy_def u memcpy_loop_eq)
  have "m' a = m a" if "\<forall>k<24 * unat count. a \<noteq> pmap_buf + of_nat k" for a
    unfolding m' by (rule poke_outside) (use that in simp)
  moreover have "peek m' pmap_buf (24 * unat count) = peek m entries (24 * unat count)"
    using peek_poke_same [of "peek m entries (24 * unat count)" m pmap_buf] unat_lt_u16 [of count] by (simp add: m')
  ultimately show ?thesis by (auto simp: get_pmap_def get_pmap_entry_count_def PMAP_BUF_SIZE_def)
qed

theorem init_pmap_witness:
  "peek (init_pmap 0x9000 0x7200 6 ex_bytes) 0x9000 144 = peek ex_bytes 0x7200 144"
proof -
  have "apart 0x9000 (24 * unat (6 :: u16)) 0x7200 (24 * unat (6 :: u16))"
    by (rule apart_sym, rule apart_ranges) simp_all
  from init_pmap_correct [OF this refl] show ?thesis by (simp add: get_pmap_def get_pmap_entry_count_def)
qed

end
