(* ===== verification/Kernel.thy ===== *)
theory Kernel
  imports Boot_Layout Slab_Boot Isr Kstrings
begin

text \<open>
  \<^verbatim>\<open>src/mikroKernellib/start_kernel.c\<close> and \<^verbatim>\<open>src/mikroKernellib/kmain.c\<close>: the boot, which calls every component
  in turn.

  What the bootloader, the linker and the build provide is in \<open>boot_env\<close>: the font, the VBE handoff at
  \<open>0x7100\<close>, the memory map, the sections of the image, the addresses of the interrupt stubs and of the
  static arrays. A panic of a component stops the kernel with its message on the screen; the state it is
  given with has what the components had done before the one that failed. \<open>Hung\<close> is a wait for ever or an
  access the C code has no right to.
\<close>

record boot_env =
  env_font :: "nat \<Rightarrow> u8"
  env_handoff :: boot_vbe_handoff
  env_entries :: "mmap_entry_0xe820 list"
  env_image :: kernel_image
  env_isr :: "nat \<Rightarrow> u64"
  env_idt :: addr
  env_pmap_buf :: addr
  env_mmap_bios_entries :: addr

record kernel_state =
  k_screen :: vesa_state
  k_idt :: idt_state
  k_paging :: paging_state
  k_bytes :: bytes

datatype boot_end = Stopped string kernel_state | Hung

definition k_println :: "boot_env \<Rightarrow> string \<Rightarrow> int \<Rightarrow> int \<Rightarrow> kernel_state \<Rightarrow> kernel_state" where
  "k_println env nt_s row c s = s\<lparr>k_screen := vesa_nt_println (env_font env) nt_s row c (k_screen s)\<rparr>"

definition PANIC :: "boot_env \<Rightarrow> string \<Rightarrow> kernel_state \<Rightarrow> boot_end" where
  "PANIC env msg s = Stopped msg (k_println env (''KERNEL PANIC: '' @ msg) VESA_LAST_ROW 0 s)"

definition or_panic :: "boot_env \<Rightarrow> kernel_state \<Rightarrow> 'a res \<Rightarrow> ('a \<Rightarrow> boot_end) \<Rightarrow> boot_end" where
  "or_panic env s r f = (case r of Inr x \<Rightarrow> f x | Inl (Panic msg) \<Rightarrow> PANIC env msg s | Inl Fault \<Rightarrow> Hung)"

section \<open>kmain\<close>

definition vhello :: "boot_env \<Rightarrow> kernel_state \<Rightarrow> kernel_state" where
  "vhello env s =
     (let s = s\<lparr>k_screen := vbe_black_screen (k_screen s)\<rparr>
      in k_println env ''entered virtual kernel entry'' 0 0 s)"

definition kmain :: "boot_env \<Rightarrow> kernel_state \<Rightarrow> boot_end" where
  "kmain env s =
     (let s = vhello env s;
          s = s\<lparr>k_idt := reload_idt_virtual (env_isr env) (env_idt env) (k_idt s)\<rparr>;
          s = s\<lparr>k_bytes := init_pmap (env_pmap_buf env) (env_mmap_bios_entries env) (of_nat (length (env_entries env))) (k_bytes s)\<rparr>
      in or_panic env s (unmap_boot_memory (k_paging s)) (\<lambda>p. PANIC env ''HELLO VIRTUAL'' (s\<lparr>k_paging := p\<rparr>)))"

section \<open>start_kernel\<close>

definition khello :: "boot_env \<Rightarrow> kernel_state \<Rightarrow> kernel_state" where
  "khello env s =
     (let s = s\<lparr>k_screen := vbe_black_screen (k_screen s)\<rparr>
      in k_println env ''Welcome to E.K's mikrokernellib'' 0 0 s)"

text \<open>
  The two allocators, with what \<open>__init_buddy\<close>, \<open>__init_slab\<close> and \<open>__init_phys_kmalloc\<close> print. The map and the
  line of \<open>__init_buddy\<close> are on the screen before \<open>__init_slab\<close> can fail.
\<close>

definition boot_allocators :: "boot_env \<Rightarrow> kernel_state \<Rightarrow> (kernel_state \<Rightarrow> boot_end) \<Rightarrow> boot_end" where
  "boot_allocators env s f =
     (let s = s\<lparr>k_screen := vesa_print_mmap (env_font env) (env_entries env) 17 0 (k_screen s)\<rparr>;
          s = k_println env ''Initialized buddy allocation...'' 1 0 s
      in or_panic env s (init_phys_kmalloc (kernel_end_addr (env_image env)) (env_entries env) (kmem (mmu (k_paging s))))
           (\<lambda>k. let s = s\<lparr>k_paging := (k_paging s)\<lparr>mmu := (mmu (k_paging s))\<lparr>kmem := k\<rparr>\<rparr>\<rparr>;
                    s = k_println env ''Initialized slab allocator caches...'' 2 0 s
                in f (k_println env ''Allocator initialisation success'' 3 0 s)))"

text \<open>\<open>__init_mmu\<close> with its last call, which moves the framebuffer, and the jump to \<open>kmain\<close>.\<close>

definition boot_mmu :: "boot_env \<Rightarrow> kernel_state \<Rightarrow> boot_end" where
  "boot_mmu env s =
     or_panic env s (init_mmu (env_image env) (env_entries env) (env_handoff env) (k_paging s))
       (\<lambda>(rsp, p). kmain env (s\<lparr>k_paging := p, k_screen := vesa_set_fb_virtual (fb_virtual p) (k_screen s)\<rparr>))"

definition start_kernel :: "boot_env \<Rightarrow> kernel_state \<Rightarrow> boot_end" where
  "start_kernel env s =
     (let s = s\<lparr>k_screen := init_vbe_handoff (env_handoff env) (k_screen s)\<rparr>;
          s = khello env s;
          s = s\<lparr>k_idt := init_idt (env_isr env) (env_idt env) (k_idt s)\<rparr>
      in boot_allocators env s (boot_mmu env))"

section \<open>What the screen routines keep\<close>

definition same_mode :: "vesa_state \<Rightarrow> vesa_state \<Rightarrow> bool" where
  "same_mode s t \<longleftrightarrow> s_vbe_info t = s_vbe_info s \<and> s_fb_virt t = s_fb_virt s"

lemma fold_keeps: "(\<And>x s. same_mode s (f x s)) \<Longrightarrow> same_mode s (fold f xs s)"
  by (induction xs arbitrary: s) (auto simp: same_mode_def)

lemma put_pixel_mode: "same_mode s (put_pixel fb i c s)"
  by (simp add: same_mode_def put_pixel_def)

lemma println_mode: "same_mode s (vesa_nt_println font nt_s row c s)"
proof -
  have g: "same_mode s (draw_glyph font fb p glyph x y s)" for font fb p glyph x y s
    unfolding draw_glyph_def by (intro fold_keeps put_pixel_mode)
  have "same_mode s (println_loop font fb p row nt_s d s)" for fb p d
    by (induction nt_s arbitrary: d s) (use g in \<open>auto simp: same_mode_def\<close>)
  then show ?thesis by (simp add: vesa_nt_println_def)
qed

lemma black_screen_mode: "same_mode s (vbe_black_screen s)"
  unfolding vbe_black_screen_def fill_rows_def Let_def by (intro fold_keeps put_pixel_mode)

lemma print_mmap_mode: "same_mode s (vesa_print_mmap font es row c s)"
proof -
  have "same_mode s (print_mmap_loop font c i es row s)" for i
  proof (induction es arbitrary: i row s)
    case (Cons e es)
    then show ?case using println_mode by (auto simp: same_mode_def Let_def)
  qed (simp add: same_mode_def)
  then show ?thesis by (simp add: vesa_print_mmap_def)
qed

section \<open>The boot\<close>

text \<open>
  What the boot relies on: a well-formed image and memory map, the static structures of the kernel above
  the memory that the buddy allocator gets, and an empty tree of areas.
\<close>

definition boot_buddy :: "boot_env \<Rightarrow> kernel_state \<Rightarrow> buddy_metadata" where
  "boot_buddy env s = init_buddy (kernel_end_addr (env_image env)) (env_entries env) (buddy (kmem (mmu (k_paging s))))"

definition boot_ok :: "boot_env \<Rightarrow> kernel_state \<Rightarrow> bool" where
  "boot_ok env s \<longleftrightarrow>
     image_ok (env_image env) \<and> memory_ok (env_entries env) (env_handoff env) \<and>
     base_address (boot_buddy env s) \<noteq> NULL \<and> unat (region_size (boot_buddy env s)) < 2 ^ 43 \<and> region_end (boot_buddy env s) \<le> 2 ^ 52 \<and>
     region_end (boot_buddy env s) \<le> unat (slab_caches (kmem (mmu (k_paging s)))) \<and> unat (slab_caches (kmem (mmu (k_paging s)))) + 576 < 2 ^ 64 \<and>
     region_end (boot_buddy env s) \<le> unat (vma_cache (k_paging s)) \<and> unat (vma_cache (k_paging s)) + 72 < 2 ^ 64 \<and>
     rb_root (kernel_rb (k_paging s)) = NULL"

lemma boot_allocators_spec:
  assumes "boot_ok env s"
  shows "\<exists>s1 fl. boot_allocators env s f = f s1 \<and> boot_ready (k_paging s1) fl \<and>
    free_bytes fl = {unat (base_address (boot_buddy env s)) ..< region_end (boot_buddy env s)} \<and>
    same_mode (k_screen s) (k_screen s1) \<and> k_idt s1 = k_idt s"
proof -
  let ?b = "boot_buddy env s" and ?k = "kmem (mmu (k_paging s))"
  have b: "base_address ?b \<noteq> NULL" "region_end ?b \<le> unat (slab_caches ?k)" "unat (slab_caches ?k) + 576 < 2 ^ 64" "unat (region_size ?b) < 2 ^ 43"
    and v: "region_end ?b \<le> unat (vma_cache (k_paging s))" "unat (vma_cache (k_paging s)) + 72 < 2 ^ 64"
    and r: "region_end ?b \<le> 2 ^ 52" "rb_root (kernel_rb (k_paging s)) = NULL"
    using assms by (auto simp: boot_ok_def)
  obtain k fl where k: "init_phys_kmalloc (kernel_end_addr (env_image env)) (env_entries env) ?k = Inr k" "buddy k = ?b" "\<not> slab_lock k"
      "buddy_inv ?b fl" "free_bytes fl = {unat (base_address ?b) ..< region_end ?b}" "tidy fl"
    using init_phys_kmalloc_spec [OF boot_buddy_def b] by blast
  let ?s1 = "k_println env ''Initialized buddy allocation...'' 1 0
    (s\<lparr>k_screen := vesa_print_mmap (env_font env) (env_entries env) 17 0 (k_screen s)\<rparr>)"
  define s2 where "s2 = k_println env ''Allocator initialisation success'' 3 0 (k_println env ''Initialized slab allocator caches...'' 2 0
    (?s1\<lparr>k_paging := (k_paging s)\<lparr>mmu := (mmu (k_paging s))\<lparr>kmem := k\<rparr>\<rparr>\<rparr>))"
  have e: "boot_allocators env s f = f s2" using k(1) by (simp add: boot_allocators_def or_panic_def s2_def k_println_def)
  have p: "k_paging s2 = (k_paging s)\<lparr>mmu := (mmu (k_paging s))\<lparr>kmem := k\<rparr>\<rparr>" "k_idt s2 = k_idt s" by (simp_all add: s2_def k_println_def)
  have "unat (vma_cache (k_paging s) + of_nat j) \<notin> free_bytes fl" if "j \<in> {24, 40, 56}" for j
    using that v unfolding k(5) by (subst unat_add_no_overflow) auto
  then have "\<forall>h\<in>sentinels (vma_cache (k_paging s)). unat h \<notin> free_bytes fl" unfolding sentinels_eq by blast
  moreover have "vma_cache (k_paging s) \<noteq> NULL" using b(1) v(1) by (auto simp: region_end_def unat_eq_0)
  ultimately have "boot_ready (k_paging s2) fl"
    using k(2-4,6) r by (simp add: boot_ready_def p region_end_def)
  moreover have "same_mode (k_screen s) (k_screen s2)"
    using print_mmap_mode println_mode by (auto simp: s2_def k_println_def same_mode_def)
  ultimately show ?thesis using e p(2) k(5) by blast
qed

lemma pixel_in_framebuffer:
  assumes "x < cols s" "y < rows s"
  shows "4 * (y * cols s + x) < unat (pitch (s_vbe_info s)) * unat (height_px (s_vbe_info s))"
proof -
  have "y * cols s + x < Suc y * cols s" using assms(1) by simp
  also have "\<dots> \<le> rows s * cols s" using assms(2) by (intro mult_le_mono1) simp
  finally have "4 * (y * cols s + x) < rows s * (4 * cols s)" by simp
  also have "\<dots> \<le> rows s * unat (pitch (s_vbe_info s))" by (intro mult_le_mono2) (simp add: cols_def)
  finally show ?thesis by (simp add: rows_def mult.commute)
qed

lemma boot_mmu_spec:
  assumes "boot_ready (k_paging s) fl" "image_ok (env_image env)" "memory_ok (env_entries env) (env_handoff env)" "s_vbe_info (k_screen s) = env_handoff env"
  shows "(\<exists>s1 T stack fl'. boot_mmu env s = kmain env s1 \<and> T = translate (tables (mmu (k_paging s1))) (cr3 (k_paging s1)) \<and>
      (\<forall>w. in_image (env_image env) w \<longrightarrow> T w = Some (w - KERNEL_IMAGE_START)) \<and>
      (\<forall>i<16384. T (KERNEL_STACKS_START + of_nat i) = Some (stack + of_nat i)) \<and> span stack 2 \<subseteq> free_bytes fl \<and>
      span stack 2 \<inter> (table_bytes (tables (mmu (k_paging s1))) (cr3 (k_paging s1)) \<union> free_bytes fl') = {} \<and>
      (\<forall>(x, y)\<in>on_screen (k_screen s1). T (pixel_addr (k_screen s1) x y) =
         Some (ucast (framebuffer_address (env_handoff env)) + 4 * of_nat (y * cols (k_screen s1) + x))) \<and>
      (\<exists>U V t. paging_inv (k_paging s1) fl' U V t) \<and> k_idt s1 = k_idt s \<and> s_vbe_info (k_screen s1) = env_handoff env) \<or>
    (\<exists>m s1. boot_mmu env s = Stopped m s1) \<and>
      card (free_bytes fl) < 20480 + total_cost (boot_reqs (env_image env) 0 (env_entries env) (env_handoff env))"
  using init_mmu_layout [OF assms(1-3)]
proof (elim disjE exE conjE)
  fix stack p T fl' U V t
  let ?v = "env_handoff env"
  assume i: "init_mmu (env_image env) (env_entries env) ?v (k_paging s) = Inr (KERNEL_STACKS_START + 4 * PAGE_SIZE - 8, p)"
    and T: "T = translate (tables (mmu p)) (cr3 p)" "\<forall>w. in_image (env_image env) w \<longrightarrow> T w = Some (w - KERNEL_IMAGE_START)"
    and fb: "\<forall>q. unat (framebuffer_address ?v) \<le> unat q \<and> unat q < unat (framebuffer_address ?v) + unat (pitch ?v) * unat (height_px ?v) \<longrightarrow>
      T (DIRECT_MAP_START + q) = Some q"
    and stk: "\<forall>i<16384. T (KERNEL_STACKS_START + of_nat i) = Some (stack + of_nat i)" "span stack 2 \<subseteq> free_bytes fl"
      "span stack 2 \<inter> (table_bytes (tables (mmu p)) (cr3 p) \<union> free_bytes fl') = {}"
    and inv: "paging_inv p fl' U V t" and fv: "fb_virtual p = DIRECT_MAP_START + ucast (framebuffer_address ?v)"
  define s1 where "s1 = s\<lparr>k_paging := p, k_screen := vesa_set_fb_virtual (fb_virtual p) (k_screen s)\<rparr>"
  have b: "boot_mmu env s = kmain env s1" using i by (simp add: boot_mmu_def or_panic_def s1_def)
  have m: "s_vbe_info (k_screen s1) = ?v" "k_paging s1 = p" "k_idt s1 = k_idt s" "s_fb_virt (k_screen s1) = fb_virtual p"
    using assms(4) by (simp_all add: s1_def vesa_set_fb_virtual_def)
  let ?f = "ucast (framebuffer_address ?v) :: u64"
  have uf: "unat ?f = unat (framebuffer_address ?v)" "unat ?f < 2 ^ 32"
    using unat_lt_u32 [of "framebuffer_address ?v"] by (simp_all add: unsigned_ucast_eq take_bit_nat_eq_self)
  have "fb_virtual p \<noteq> 0"
  proof -
    have "unat (DIRECT_MAP_START + ?f) = unat DIRECT_MAP_START + unat ?f" using uf(2) by (intro unat_add_no_overflow) (simp add: const_defs)
    then show ?thesis unfolding fv by (auto simp: const_defs)
  qed
  then have g: "get_fb (k_screen s1) = DIRECT_MAP_START + ?f" by (simp add: get_fb_def m fv)
  have "T (pixel_addr (k_screen s1) x y) = Some (?f + 4 * of_nat (y * cols (k_screen s1) + x))" if "x < cols (k_screen s1)" "y < rows (k_screen s1)" for x y
  proof -
    define n where "n = y * cols (k_screen s1) + x"
    have n: "4 * n < unat (pitch ?v) * unat (height_px ?v)" "n < 2 ^ 30"
      using pixel_in_framebuffer [OF that] pixel_index_less [OF that] by (simp_all add: n_def m(1))
    have "unat (4 * of_nat n :: u64) = 4 * n" using n(2) by (simp add: unat_word_ariths unat_of_nat_id)
    then have "unat (?f + 4 * of_nat n) = unat (framebuffer_address ?v) + 4 * n"
      using uf n(2) by (subst unat_add_no_overflow) simp_all
    then have "T (DIRECT_MAP_START + (?f + 4 * of_nat n)) = Some (?f + 4 * of_nat n)" using fb n(1) by simp
    then show ?thesis by (simp add: pixel_addr_def g n_def add.assoc)
  qed
  then have "\<forall>(x, y)\<in>on_screen (k_screen s1). T (pixel_addr (k_screen s1) x y) = Some (?f + 4 * of_nat (y * cols (k_screen s1) + x))"
    by (auto simp: on_screen_def)
  then show ?thesis using b T inv m stk by (intro disjI1 exI [of _ s1] exI [of _ T] exI [of _ stack] exI [of _ fl'] conjI) auto
qed (auto simp: boot_mmu_def or_panic_def PANIC_def)


section \<open>Witness\<close>

text \<open>The machine of \<open>Boot_Layout\<close>, with the static structures of the kernel in its image.\<close>

definition ex_env :: boot_env where
  "ex_env = \<lparr>env_font = ex_font, env_handoff = ex_vbe, env_entries = Boot_Layout.ex_entries, env_image = ex_image,
     env_isr = \<lambda>n. 0xFFFFFFFF80100100 + 16 * of_nat n, env_idt = 0xFFFFFFFF80102000, env_pmap_buf = 0xFFFFFFFF80102400, env_mmap_bios_entries = 0x7200\<rparr>"

definition ex_kernel :: kernel_state where
  "ex_kernel = \<lparr>k_screen = ex_screen\<lparr>s_fb_virt := 0\<rparr>,
     k_idt = \<lparr>idt = \<lambda>_. gate 0 0, idtr = \<lparr>idtr_limit = 0, idtr_base = 0\<rparr>, cpu_idtr = \<lparr>idtr_limit = 0, idtr_base = 0\<rparr>, port_writes = []\<rparr>,
     k_paging = (ex_paging (ex_slab\<lparr>buddy := ex_mem, slab_caches := 0xFFFFFFFF80102800\<rparr>))\<lparr>vma_cache := 0xFFFFFFFF80102C00\<rparr>,
     k_bytes = ex_bytes\<rparr>"

lemma ex_boot_region: "base_address (boot_buddy ex_env ex_kernel) = 0x400000" "region_size (boot_buddy ex_env ex_kernel) = 0x800000"
  by (simp_all add: boot_buddy_def ex_env_def ex_image_def init_buddy_sel Boot_Layout.ex_entries_def clear_lower_bound_def align_region_def
      chunk_bytes_def page_sizes ONE_MB_ADDRESS_def Let_def)

lemma ex_boot_ok: "boot_ok ex_env ex_kernel"
  using ex_memory(1,2) by (simp add: boot_ok_def ex_boot_region region_end_def) (simp add: ex_env_def ex_kernel_def ex_paging_def)


end
