(* ===== verification/Mapped.thy ===== *)
theory Mapped
  imports Slab_Boot Directmap Kstrings
begin

text \<open>
  \<^verbatim>\<open>src/mikroKernellib/mapped_phys_kmalloc.c\<close>, and the zeroed page of \<^verbatim>\<open>phys_kmalloc.c\<close>: the allocators again,
  with the pointers they give out moved into the direct map.

  \<open>phys_map_offset\<close> is the argument \<open>off\<close>. The routines that clear a page also change \<open>ram\<close>, the bytes behind
  the virtual addresses; the structures the allocators themselves keep are in \<open>slab_state\<close>.
\<close>

section \<open>Pointers into the direct map\<close>

definition is_direct_mapped_ptr :: "addr \<Rightarrow> bool" where
  "is_direct_mapped_ptr ptr \<longleftrightarrow> DIRECT_MAP_START \<le> ptr \<and> ptr < DIRECT_MAP_END"

text \<open>What every allocating routine does with the result of the allocator below, and every releasing one with its argument.\<close>

definition to_direct :: "u64 \<Rightarrow> (addr \<times> 's) option \<Rightarrow> (addr \<times> 's) option" where
  "to_direct off r = do { (ptr, s) \<leftarrow> r; Some (if ptr = NULL then NULL else ptr + off, s) }"

definition from_direct :: "u64 \<Rightarrow> ('s \<Rightarrow> addr \<Rightarrow> 's option) \<Rightarrow> 's \<Rightarrow> addr \<Rightarrow> (bool \<times> 's) option" where
  "from_direct off free s ptr =
     (if is_direct_mapped_ptr ptr then do { s \<leftarrow> free s (ptr - off); Some (True, s) } else Some (False, s))"

definition mapped_phys_kmalloc :: "u64 \<Rightarrow> slab_state \<Rightarrow> u64 \<Rightarrow> alloc_flag \<Rightarrow> (addr \<times> slab_state) option" where
  "mapped_phys_kmalloc off s sz flg = to_direct off (phys_kmalloc s sz flg)"

definition mapped_phys_kfree :: "u64 \<Rightarrow> slab_state \<Rightarrow> addr \<Rightarrow> u64 \<Rightarrow> alloc_flag \<Rightarrow> (bool \<times> slab_state) option" where
  "mapped_phys_kfree off s ptr sz flg = from_direct off (\<lambda>s p. phys_kfree s p sz flg) s ptr"

definition mapped_kmem_cache_kalloc :: "u64 \<Rightarrow> slab_state \<Rightarrow> addr \<Rightarrow> (addr \<times> slab_state) option" where
  "mapped_kmem_cache_kalloc off s cache = to_direct off (kmem_cache_kalloc s cache)"

definition mapped_kmem_cache_kfree :: "u64 \<Rightarrow> slab_state \<Rightarrow> addr \<Rightarrow> addr \<Rightarrow> (bool \<times> slab_state) option" where
  "mapped_kmem_cache_kfree off s cache object = from_direct off (\<lambda>s p. kmem_cache_kfree s cache p) s object"

definition mapped_buddy_kalloc :: "u64 \<Rightarrow> slab_state \<Rightarrow> u64 \<Rightarrow> (addr \<times> slab_state) option" where
  "mapped_buddy_kalloc off s sz = to_direct off (lift_buddy_alloc s sz)"

definition mapped_buddy_kfree :: "u64 \<Rightarrow> slab_state \<Rightarrow> addr \<Rightarrow> u64 \<Rightarrow> (bool \<times> slab_state) option" where
  "mapped_buddy_kfree off s chunk sz = from_direct off (\<lambda>s p. lift_buddy_free s p sz) s chunk"

section \<open>Pages\<close>

record page_state =
  pkmem :: slab_state
  ram :: bytes

definition memset_lb :: "bytes \<Rightarrow> addr \<Rightarrow> u8 \<Rightarrow> u64 \<Rightarrow> bytes" where
  "memset_lb m p val sz = fold (\<lambda>i m. m(p + of_nat i := val)) [0..<unat sz] m"

definition get_zeroed_phys_page :: "u64 \<Rightarrow> page_state \<Rightarrow> (addr \<times> page_state) option" where
  "get_zeroed_phys_page off s = do {
     (ptr, k) \<leftarrow> lift_buddy_alloc (pkmem s) PAGE_SIZE;
     if ptr = NULL then Some (NULL, s\<lparr>pkmem := k\<rparr>)
     else Some (ptr, s\<lparr>pkmem := k, ram := memset_lb (ram s) (directmap_p2v off ptr) 0 PAGE_SIZE\<rparr>)
   }"

text \<open>Each store is of a 64-bit zero.\<close>

definition zero_page :: "bytes \<Rightarrow> addr \<Rightarrow> bytes" where
  "zero_page m page = fold (\<lambda>i m. poke m (page + 8 * of_nat i) (replicate 8 0)) [0..<unat (PAGE_SIZE div 8)] m"

definition get_page :: "u64 \<Rightarrow> page_state \<Rightarrow> (addr \<times> page_state) option" where
  "get_page off s = to_direct off (get_zeroed_phys_page off s)"

definition get_zeroed_page :: "u64 \<Rightarrow> page_state \<Rightarrow> (addr \<times> page_state) option" where
  "get_zeroed_page off s = do {
     (page, s) \<leftarrow> get_page off s;
     if page = NULL then Some (NULL, s)
     else Some (page + off, s\<lparr>ram := zero_page (ram s) page\<rparr>)
   }"

definition free_page :: "u64 \<Rightarrow> page_state \<Rightarrow> addr \<Rightarrow> (bool \<times> page_state) option" where
  "free_page off s page =
     from_direct off (\<lambda>s p. map_option (\<lambda>k. s\<lparr>pkmem := k\<rparr>) (free_phys_page (pkmem s) p)) s page"

section \<open>Clients of a mapped allocator\<close>

definition DIRECT_BYTES :: nat where
  "DIRECT_BYTES = unat DIRECT_MAP_END - unat DIRECT_MAP_START"

lemma direct_ptr:
  assumes "unat p < DIRECT_BYTES"
  shows "unat (p + DIRECT_MAP_START) = unat p + unat DIRECT_MAP_START" "is_direct_mapped_ptr (p + DIRECT_MAP_START)"
    "p + DIRECT_MAP_START \<noteq> NULL"
proof -
  show u: "unat (p + DIRECT_MAP_START) = unat p + unat DIRECT_MAP_START"
    using assms by (intro unat_add_no_overflow) (simp add: DIRECT_BYTES_def const_defs)
  then show "is_direct_mapped_ptr (p + DIRECT_MAP_START)"
    using assms by (simp add: is_direct_mapped_ptr_def word_less_nat_alt word_le_nat_alt DIRECT_BYTES_def const_defs)
  have "0 < unat (p + DIRECT_MAP_START)" unfolding u by (simp add: const_defs)
  then show "p + DIRECT_MAP_START \<noteq> NULL" by auto
qed

definition direct_rep :: "('s \<Rightarrow> addr set \<Rightarrow> bool) \<Rightarrow> 's \<Rightarrow> addr set \<Rightarrow> bool" where
  "direct_rep rep s V \<longleftrightarrow> (\<exists>U. rep s U \<and> V = (\<lambda>p. p + DIRECT_MAP_START) ` U)"

text \<open>
  A source of memory in the sense of \<open>object_cache\<close> whose objects all lie in the part of physical memory the
  direct map covers. Behind the direct map it is such a source again, of the moved pointers.
\<close>

locale phys_source = object_cache get put fill rep
  for get :: "'s \<Rightarrow> (addr \<times> 's) option" and put :: "'s \<Rightarrow> addr \<Rightarrow> 's option" and fill :: "'s \<Rightarrow> addr \<Rightarrow> u8 list \<Rightarrow> 's" and rep :: "'s \<Rightarrow> addr set \<Rightarrow> bool" +
  assumes below: "rep s U \<Longrightarrow> p \<in> U \<Longrightarrow> unat p < DIRECT_BYTES"
begin

lemma mapped_get:
  assumes "direct_rep rep s V"
  shows "\<exists>q t. to_direct DIRECT_MAP_START (get s) = Some (q, t) \<and>
    (if q = NULL then direct_rep rep t V else q \<notin> V \<and> is_direct_mapped_ptr q \<and> direct_rep rep t (insert q V))"
proof -
  obtain U where U: "rep s U" "V = (\<lambda>p. p + DIRECT_MAP_START) ` U" using assms by (auto simp: direct_rep_def)
  obtain p t where p: "get s = Some (p, t)" "if p = NULL then rep t U else p \<notin> U \<and> rep t (insert p U)" using get_law [OF U(1)] by blast
  show ?thesis
  proof (cases "p = NULL")
    case True
    then show ?thesis using p U(2) by (auto simp: to_direct_def direct_rep_def)
  next
    case False
    then have r: "rep t (insert p U)" "p \<notin> U" using p by simp_all
    have "insert (p + DIRECT_MAP_START) V = (\<lambda>p. p + DIRECT_MAP_START) ` insert p U" by (simp add: U(2))
    then have "direct_rep rep t (insert (p + DIRECT_MAP_START) V)" using r(1) unfolding direct_rep_def by blast
    moreover have "p + DIRECT_MAP_START \<notin> V" using r(2) by (auto simp: U(2))
    ultimately show ?thesis using p(1) False direct_ptr [OF below [OF r(1)], of p] by (simp add: to_direct_def)
  qed
qed

lemma mapped_put:
  assumes "direct_rep rep s V" "q \<in> V"
  shows "\<exists>t. from_direct DIRECT_MAP_START put s q = Some (True, t) \<and> direct_rep rep t (V - {q})"
proof -
  obtain U p where U: "rep s U" "V = (\<lambda>p. p + DIRECT_MAP_START) ` U" "p \<in> U" "q = p + DIRECT_MAP_START"
    using assms by (auto simp: direct_rep_def)
  obtain t where t: "put s p = Some t" "rep t (U - {p})" using put_law [OF U(1,3)] by blast
  have "V - {q} = (\<lambda>p. p + DIRECT_MAP_START) ` (U - {p})" by (auto simp: U(2,4))
  then have "direct_rep rep t (V - {q})" using t(2) unfolding direct_rep_def by blast
  then show ?thesis using t(1) direct_ptr(2) [OF below [OF U(1,3)]] by (simp add: from_direct_def U(4))
qed

lemma mapped_fill:
  assumes "direct_rep rep s V" "q \<in> V"
  shows "direct_rep rep (fill s (q - DIRECT_MAP_START) bs) V"
proof -
  obtain U p where U: "rep s U" "V = (\<lambda>p. p + DIRECT_MAP_START) ` U" "p \<in> U" "q = p + DIRECT_MAP_START"
    using assms by (auto simp: direct_rep_def)
  have "rep (fill s (q - DIRECT_MAP_START) bs) U" using fill_law [OF U(1,3)] by (simp add: U(4))
  then show ?thesis using U(2) unfolding direct_rep_def by blast
qed

end

sublocale phys_source \<subseteq> mapped: object_cache "\<lambda>s. to_direct DIRECT_MAP_START (get s)"
  "\<lambda>s q. map_option snd (from_direct DIRECT_MAP_START put s q)" "\<lambda>s q. fill s (q - DIRECT_MAP_START)" "direct_rep rep"
proof unfold_locales
  fix s V assume r: "direct_rep rep s V"
  then show "\<exists>p t. to_direct DIRECT_MAP_START (get s) = Some (p, t) \<and> (if p = NULL then direct_rep rep t V else p \<notin> V \<and> direct_rep rep t (insert p V))"
    using mapped_get [OF r] by (auto split: if_splits)
  fix p assume p: "p \<in> V"
  then show "direct_rep rep (fill s (p - DIRECT_MAP_START) bs) V" for bs
    using mapped_fill [OF r] by blast
  from mapped_put [OF r p] show "\<exists>t. map_option snd (from_direct DIRECT_MAP_START put s p) = Some t \<and> direct_rep rep t (V - {p})" by auto
qed

section \<open>Caches\<close>

definition low_rep :: "addr \<Rightarrow> slab_state \<Rightarrow> addr set \<Rightarrow> bool" where
  "low_rep c s U \<longleftrightarrow> slab_rep s c U \<and> region_end (buddy s) \<le> DIRECT_BYTES"

interpretation slab_source: phys_source "\<lambda>s. kmem_cache_kalloc s c" "\<lambda>s. kmem_cache_kfree s c" "fill_object c" "low_rep c" for c
proof unfold_locales
  fix s U assume r: "low_rep c s U"
  then obtain fl where fl: "slab_rep_in s c fl U" by (auto simp: low_rep_def slab_rep_def)
  show "\<exists>p t. kmem_cache_kalloc s c = Some (p, t) \<and> (if p = NULL then low_rep c t U else p \<notin> U \<and> low_rep c t (insert p U))"
    using kmem_cache_kalloc_rep_in [OF fl] r by (fastforce simp: low_rep_def slab_rep_def region_end_def split: if_splits)
  fix p assume p: "p \<in> U"
  show "\<exists>t. kmem_cache_kfree s c p = Some t \<and> low_rep c t (U - {p})"
    using kmem_cache_kfree_rep_in [OF fl p] r by (auto simp: low_rep_def slab_rep_def)
  show "low_rep c (fill_object c s p bs) U" for bs
    using r fill_object_rep [of s c U p] p by (simp add: low_rep_def) (simp add: fill_object_def)
  show "unat p < DIRECT_BYTES" using r slab_rep_below [of s c U p] p by (auto simp: low_rep_def)
qed

text \<open>
  C31. A client of a cache through the direct map may allocate, release and write to the objects it holds in
  any order, when the buddy allocator's region lies in the physical memory the direct map covers. No
  request faults or waits for ever; the pointers held are pairwise distinct, all in the direct map, and
  the objects behind them do not overlap; moved back they are the cache's objects in use; and the release
  of any of them succeeds.
\<close>

theorem mapped_cache_history:
  assumes "slab_rep s c {}" "region_end (buddy s) \<le> DIRECT_BYTES"
  shows "\<exists>t held. serve (\<lambda>s. mapped_kmem_cache_kalloc DIRECT_MAP_START s c)
      (\<lambda>s q. map_option snd (mapped_kmem_cache_kfree DIRECT_MAP_START s c q))
      (\<lambda>s q. fill_object c s (q - DIRECT_MAP_START)) rs s [] = Some (t, held) \<and>
    distinct held \<and>
    (\<forall>p\<in>set held. \<forall>q\<in>set held. p \<noteq> q \<longrightarrow> apart p (unat (object_size (caches t c))) q (unat (object_size (caches t c)))) \<and> slab_rep t c ((\<lambda>q. q - DIRECT_MAP_START) ` set held) \<and>
    (\<forall>q\<in>set held. is_direct_mapped_ptr q \<and> (\<exists>u. mapped_kmem_cache_kfree DIRECT_MAP_START t c q = Some (True, u)))"
proof -
  have "direct_rep (low_rep c) s (set [])" using assms by (auto simp: direct_rep_def low_rep_def)
  from slab_source.mapped.serve_law [OF this, of rs] obtain t held where
    h: "serve (\<lambda>s. mapped_kmem_cache_kalloc DIRECT_MAP_START s c)
      (\<lambda>s q. map_option snd (mapped_kmem_cache_kfree DIRECT_MAP_START s c q))
      (\<lambda>s q. fill_object c s (q - DIRECT_MAP_START)) rs s [] = Some (t, held)"
      "direct_rep (low_rep c) t (set held)" "distinct held"
    by (auto simp: mapped_kmem_cache_kalloc_def [abs_def] mapped_kmem_cache_kfree_def [abs_def])
  obtain U where U: "low_rep c t U" "set held = (\<lambda>p. p + DIRECT_MAP_START) ` U" using h(2) by (auto simp: direct_rep_def)
  have "(\<lambda>q. q - DIRECT_MAP_START) ` set held = U" by (simp add: U(2) image_image)
  moreover have "is_direct_mapped_ptr q" if "q \<in> set held" for q
    using that direct_ptr(2) slab_source.below [OF U(1)] by (auto simp: U(2))
  moreover have "\<exists>u. mapped_kmem_cache_kfree DIRECT_MAP_START t c q = Some (True, u)" if "q \<in> set held" for q
    using slab_source.mapped_put [OF h(2) that] by (auto simp: mapped_kmem_cache_kfree_def)
  moreover have "apart p (unat (object_size (caches t c))) q (unat (object_size (caches t c)))" if pq: "p \<in> set held" "q \<in> set held" "p \<noteq> q" for p q
  proof -
    obtain p' q' where "p = p' + DIRECT_MAP_START" "q = q' + DIRECT_MAP_START" "p' \<in> U" "q' \<in> U" using pq(1,2) U(2) by auto
    then show ?thesis using slab_rep_apart [of t c U p' q'] U(1) pq(3) apart_shift by (auto simp: low_rep_def)
  qed
  ultimately show ?thesis using h(1,3) U(1) by (auto simp: low_rep_def)
qed

theorem mapped_cache_witness:
  "\<exists>s t held. serve (\<lambda>s. mapped_kmem_cache_kalloc DIRECT_MAP_START s 0x9000)
      (\<lambda>s q. map_option snd (mapped_kmem_cache_kfree DIRECT_MAP_START s 0x9000 q))
      (\<lambda>s q. fill_object 0x9000 s (q - DIRECT_MAP_START)) [Get, Get, Fill 0 [1, 2, 3], Put 0] s [] = Some (t, held) \<and> distinct held"
proof -
  obtain fl where "buddy_inv (buddy ex_slab) fl"
      "\<forall>h\<in>{free_slabs 0x9000, partial_slabs 0x9000, full_slabs 0x9000}. unat h \<notin> free_bytes fl"
    using ex_slab_ready by blast
  then obtain s where s: "slab_rep s 0x9000 {}" "buddy s = ex_buddy"
    using kmem_cache_create_rep [of ex_slab fl 64 "0x9000"] by (auto simp: ex_slab_def slab_rep_def)
  have "region_end ex_buddy \<le> DIRECT_BYTES" by (simp add: region_end_def ex_region DIRECT_BYTES_def const_defs)
  then show ?thesis using mapped_cache_history [of s "0x9000" "[Get, Get, Fill 0 [1, 2, 3], Put 0]"] s by auto
qed

section \<open>Single pages\<close>

lemma memset_lb_poke: "memset_lb m p v sz = poke m p (replicate (unat sz) v)"
proof -
  have "fold (\<lambda>i m. m(p + of_nat i := v)) [0..<n] m = poke m p (replicate n v)" for n
  proof (induction n)
    case (Suc n)
    have "replicate (Suc n) v = replicate n v @ [v]" by (simp add: replicate_append_same)
    then have "poke m p (replicate (Suc n) v) = (poke m p (replicate n v))(p + of_nat n := v)" by (simp add: poke_append)
    then show ?case using Suc.IH by (simp only: upt_Suc_append [OF zero_le] fold_append fold_simps comp_apply id_apply)
  qed simp
  then show ?thesis by (simp add: memset_lb_def)
qed

lemma zero_page_poke: "zero_page m p = poke m p (replicate 4096 0)"
proof -
  have "fold (\<lambda>i m. poke m (p + 8 * of_nat i) (replicate 8 0)) [0..<n] m = poke m p (replicate (8 * n) 0)" for n
  proof (induction n)
    case (Suc n)
    have "8 * Suc n = 8 * n + 8" by simp
    then have "poke m p (replicate (8 * Suc n) 0) = poke (poke m p (replicate (8 * n) 0)) (p + 8 * of_nat n) (replicate 8 0)"
      by (simp only: replicate_add poke_append length_replicate of_nat_mult of_nat_numeral)
    then show ?case using Suc.IH by (simp only: upt_Suc_append [OF zero_le] fold_append fold_simps comp_apply id_apply)
  qed simp
  from this [of 512] show ?thesis by (simp add: zero_page_def page_sizes)
qed

definition zeroed :: "bytes \<Rightarrow> addr \<Rightarrow> bytes \<Rightarrow> bool" where
  "zeroed m p m' \<longleftrightarrow> peek m' p 4096 = replicate 4096 0 \<and> (\<forall>a. (\<forall>k<4096. a \<noteq> p + of_nat k) \<longrightarrow> m' a = m a)"

lemma poke_zeroed: "zeroed m p (poke m p (replicate 4096 0))"
  using peek_poke_same [of "replicate 4096 0" m p] by (auto simp: zeroed_def intro!: poke_outside)

lemma zeroed_again: "zeroed m p m' \<Longrightarrow> zeroed m p (zero_page m' p)"
  using poke_zeroed [of m' p] by (simp add: zeroed_def zero_page_poke)

lemma get_page_spec:
  assumes "buddy_inv (buddy (pkmem s)) fl" "region_end (buddy (pkmem s)) \<le> DIRECT_BYTES"
  shows "if free_bytes fl = {} then get_page DIRECT_MAP_START s = Some (NULL, s)
    else \<exists>p t fl'. get_page DIRECT_MAP_START s = Some (p + DIRECT_MAP_START, t) \<and> unat p < DIRECT_BYTES \<and> 4096 dvd unat p \<and>
      span p 0 \<subseteq> free_bytes fl \<and> buddy_inv (buddy (pkmem t)) fl' \<and> free_bytes fl' = free_bytes fl - span p 0 \<and>
      zeroed (ram s) (p + DIRECT_MAP_START) (ram t)"
proof -
  have e: "free_bytes fl = {} \<longleftrightarrow> (\<forall>j\<in>{0..10}. fl j = [])" by (auto simp: free_bytes_def span_def)
  have o: "size_order PAGE_SIZE 0 = Some 0" using size_order_chunk [of 0] by (simp add: chunk_bytes_def)
  note k = kalloc_inv [OF assms(1) o]
  show ?thesis
  proof (cases "free_bytes fl = {}")
    case True
    then have "buddy_kalloc (buddy (pkmem s)) PAGE_SIZE = Some (NULL, buddy (pkmem s))" using k e by simp
    then show ?thesis using True by (simp add: get_page_def to_direct_def get_zeroed_phys_page_def lift_buddy_alloc_def)
  next
    case False
    then have "\<not> (0 > (10 :: nat) \<or> (\<forall>j\<in>{0..10}. fl j = []))" using e by simp
    from k [unfolded if_not_P [OF this]]
    obtain p b fl' where p: "buddy_kalloc (buddy (pkmem s)) PAGE_SIZE = Some (p, b)" "p \<noteq> NULL" "wf_block (buddy (pkmem s)) p 0"
        "buddy_inv b fl'" "span p 0 \<subseteq> free_bytes fl" "free_bytes fl' = free_bytes fl - span p 0"
      by blast
    have lt: "unat p < DIRECT_BYTES" using p(3) assms(2) by (simp add: wf_block_def region_end_def)
    then have "p < PML4_KERNEL_HALF_BASE" by (simp add: word_less_nat_alt DIRECT_BYTES_def const_defs)
    then have "get_page DIRECT_MAP_START s = Some (p + DIRECT_MAP_START,
        s\<lparr>pkmem := (pkmem s)\<lparr>buddy := b\<rparr>, ram := poke (ram s) (p + DIRECT_MAP_START) (replicate 4096 0)\<rparr>)"
      using p(1,2) by (simp add: get_page_def to_direct_def get_zeroed_phys_page_def lift_buddy_alloc_def directmap_p2v_def memset_lb_poke page_sizes)
    moreover have "4096 dvd unat p" using p(3) by (simp add: wf_block_def)
    ultimately show ?thesis using False lt p(4-6) poke_zeroed [of "ram s" "p + DIRECT_MAP_START"]
      by (intro if_not_P [THEN iffD2] exI conjI) auto
  qed
qed

lemma twice_moved:
  assumes "unat p < DIRECT_BYTES"
  shows "\<not> is_direct_mapped_ptr (p + DIRECT_MAP_START + DIRECT_MAP_START)"
proof -
  have "unat (p + 0xFFFF000000400000) = unat p + 0xFFFF000000400000"
    using assms by (subst unat_add_no_overflow) (simp_all add: DIRECT_BYTES_def const_defs)
  moreover have d: "DIRECT_MAP_START + DIRECT_MAP_START = 0xFFFF000000400000" by (simp add: const_defs)
  ultimately show ?thesis using assms unfolding add.assoc d
    by (simp add: is_direct_mapped_ptr_def word_le_nat_alt DIRECT_BYTES_def const_defs)
qed

text \<open>
  C32. \<open>get_page\<close> gives a page of the direct map that was free, with all of its bytes zero and no other byte
  changed, or \<open>NULL\<close> exactly when no memory is free, and \<open>free_page\<close> passes its frame back to the buddy
  allocator. \<open>get_zeroed_page\<close> takes and clears the same page but adds the offset of the direct map a
  second time: the address it returns is not the page's, and \<open>free_page\<close> refuses it and frees nothing.
\<close>

theorem get_page_correct:
  assumes "buddy_inv (buddy (pkmem s)) fl" "region_end (buddy (pkmem s)) \<le> DIRECT_BYTES"
  shows "if free_bytes fl = {} then get_page DIRECT_MAP_START s = Some (NULL, s) \<and> get_zeroed_page DIRECT_MAP_START s = Some (NULL, s)
    else \<exists>p t fl' u. get_page DIRECT_MAP_START s = Some (p + DIRECT_MAP_START, t) \<and>
      is_direct_mapped_ptr (p + DIRECT_MAP_START) \<and> 4096 dvd unat p \<and> span p 0 \<subseteq> free_bytes fl \<and>
      buddy_inv (buddy (pkmem t)) fl' \<and> free_bytes fl' = free_bytes fl - span p 0 \<and>
      zeroed (ram s) (p + DIRECT_MAP_START) (ram t) \<and>
      free_page DIRECT_MAP_START t (p + DIRECT_MAP_START) = map_option (\<lambda>k. (True, t\<lparr>pkmem := k\<rparr>)) (free_phys_page (pkmem t) p) \<and>
      get_zeroed_page DIRECT_MAP_START s = Some (p + DIRECT_MAP_START + DIRECT_MAP_START, u) \<and> pkmem u = pkmem t \<and>
      zeroed (ram s) (p + DIRECT_MAP_START) (ram u) \<and>
      free_page DIRECT_MAP_START u (p + DIRECT_MAP_START + DIRECT_MAP_START) = Some (False, u)"
proof (cases "free_bytes fl = {}")
  case True
  then show ?thesis using get_page_spec [OF assms] by (simp add: get_zeroed_page_def)
next
  case False
  from get_page_spec [OF assms, unfolded if_not_P [OF False]]
  obtain p t fl' where p: "get_page DIRECT_MAP_START s = Some (p + DIRECT_MAP_START, t)" "unat p < DIRECT_BYTES" "4096 dvd unat p"
      "span p 0 \<subseteq> free_bytes fl" "buddy_inv (buddy (pkmem t)) fl'" "free_bytes fl' = free_bytes fl - span p 0"
      "zeroed (ram s) (p + DIRECT_MAP_START) (ram t)" by blast
  define u where "u = t\<lparr>ram := zero_page (ram t) (p + DIRECT_MAP_START)\<rparr>"
  have d: "is_direct_mapped_ptr (p + DIRECT_MAP_START)" "p + DIRECT_MAP_START \<noteq> NULL" using direct_ptr [OF p(2)] by simp_all
  then have "free_page DIRECT_MAP_START t (p + DIRECT_MAP_START) = map_option (\<lambda>k. (True, t\<lparr>pkmem := k\<rparr>)) (free_phys_page (pkmem t) p)"
    by (cases "free_phys_page (pkmem t) p") (simp_all add: free_page_def from_direct_def)
  moreover have "get_zeroed_page DIRECT_MAP_START s = Some (p + DIRECT_MAP_START + DIRECT_MAP_START, u)"
    using d(2) by (simp add: get_zeroed_page_def p(1) u_def)
  moreover have "zeroed (ram s) (p + DIRECT_MAP_START) (ram u)" "pkmem u = pkmem t" using zeroed_again [OF p(7)] by (simp_all add: u_def)
  moreover have "free_page DIRECT_MAP_START u (p + DIRECT_MAP_START + DIRECT_MAP_START) = Some (False, u)"
    using twice_moved [OF p(2)] by (simp add: free_page_def from_direct_def)
  ultimately show ?thesis unfolding if_not_P [OF False] using p d(1) by blast
qed

theorem get_page_witness:
  "\<exists>p u. get_zeroed_page DIRECT_MAP_START \<lparr>pkmem = ex_slab, ram = \<lambda>_. 1\<rparr> = Some (p + DIRECT_MAP_START + DIRECT_MAP_START, u) \<and>
     is_direct_mapped_ptr (p + DIRECT_MAP_START) \<and> free_page DIRECT_MAP_START u (p + DIRECT_MAP_START + DIRECT_MAP_START) = Some (False, u)"
proof -
  let ?s = "\<lparr>pkmem = ex_slab, ram = \<lambda>_. 1\<rparr>"
  obtain fl where fl: "buddy_inv ex_buddy fl" "free_bytes fl = {0x400000 ..< 0xC00000}" using ex_buddy_ready by blast
  have "region_end ex_buddy \<le> DIRECT_BYTES" by (simp add: region_end_def ex_region DIRECT_BYTES_def const_defs)
  then have h: "buddy_inv (buddy (pkmem ?s)) fl" "region_end (buddy (pkmem ?s)) \<le> DIRECT_BYTES" using fl(1) by (simp_all add: ex_slab_def)
  have ne: "free_bytes fl \<noteq> {}" by (simp add: fl(2))
  from get_page_correct [OF h, unfolded if_not_P [OF ne]] obtain p u where
    p: "is_direct_mapped_ptr (p + DIRECT_MAP_START)" "get_zeroed_page DIRECT_MAP_START ?s = Some (p + DIRECT_MAP_START + DIRECT_MAP_START, u)"
      "free_page DIRECT_MAP_START u (p + DIRECT_MAP_START + DIRECT_MAP_START) = Some (False, u)" by blast
  then show ?thesis by blast
qed

end
