(* ===== verification/Percpu.thy ===== *)
theory Percpu
  imports Mapped
begin

text \<open>
  \<^verbatim>\<open>src/mikroKernellib/per_cpu.c\<close>: the block of data each processor finds through its \<open>gs\<close> register.

  The repository has neither the header with \<open>struct cpu_local\<close> nor the assembly behind the routines on \<open>gs\<close>.
  Both are arguments: \<open>cpu_local_struct\<close> gives the size of the struct and the place of its two fields that the code
  names, \<open>gs_ops\<close> the routines, on any type of processor state. What the code relies on is in \<open>struct_ok\<close> (a C
  compiler's layout) and \<open>gs_laws\<close> (the two base registers, and \<open>swapgs\<close> as the exchange of them).

  The state has the allocators, the bytes of memory by virtual address, and the processors by number; each routine
  takes the number of the processor that runs it. \<open>off\<close> is \<open>phys_map_offset\<close>, \<open>cache\<close> the address of the
  static cache.
\<close>

section \<open>The model\<close>

record 'c gs_ops =
  write_gs_base :: "u64 \<Rightarrow> 'c \<Rightarrow> 'c"
  write_kernel_gs_base :: "u64 \<Rightarrow> 'c \<Rightarrow> 'c"
  swapgs :: "'c \<Rightarrow> 'c"
  get_cpu_id :: "'c \<Rightarrow> u32"
  get_cpu_local_gs :: "'c \<Rightarrow> addr"
  supports_fsgsbase :: "'c \<Rightarrow> bool"
  enable_fsgsbase :: "'c \<Rightarrow> 'c"

record cpu_local_struct =
  sizeof_cpu_local :: u64
  off_cpu_id :: u64
  len_cpu_id :: nat
  off_current :: u64

record 'c percpu_state =
  pc_kmem :: slab_state
  pc_ram :: bytes
  pc_cpus :: "nat \<Rightarrow> 'c"

definition on_cpu :: "nat \<Rightarrow> ('c \<Rightarrow> 'c) \<Rightarrow> 'c percpu_state \<Rightarrow> 'c percpu_state" where
  "on_cpu i f s = s\<lparr>pc_cpus := (pc_cpus s)(i := f (pc_cpus s i))\<rparr>"

text \<open>The allocation both routines make: an object of the cache, cleared, or a panic.\<close>

definition new_cpu_local :: "cpu_local_struct \<Rightarrow> addr \<Rightarrow> u64 \<Rightarrow> string \<Rightarrow> 'c percpu_state \<Rightarrow> (addr \<times> 'c percpu_state) res" where
  "new_cpu_local cl cache off msg s =
     bindE (of_option (mapped_kmem_cache_kalloc off (pc_kmem s) cache)) (\<lambda>(cpu_local, k).
       if cpu_local = NULL then Inl (Panic msg)
       else Inr (cpu_local, s\<lparr>pc_kmem := k, pc_ram := snd (memset cpu_local 0 (sizeof_cpu_local cl) (pc_ram s))\<rparr>))"

definition percpu_init ::
  "'c gs_ops \<Rightarrow> cpu_local_struct \<Rightarrow> addr \<Rightarrow> u64 \<Rightarrow> nat \<Rightarrow> 'c percpu_state \<Rightarrow> 'c percpu_state res" where
  "percpu_init ops cl cache off i s =
     (if \<not> supports_fsgsbase ops (pc_cpus s i) then Inl (Panic ''FSGSBASE hardware extension not supported'')
      else
        let s = on_cpu i (enable_fsgsbase ops) s in
        bindE (of_option (kmem_cache_create_sl (pc_kmem s) cache (sizeof_cpu_local cl))) (\<lambda>(c, k).
        bindE (new_cpu_local cl cache off ''allocator failure: cant allocate BSP cpu_local data'' (s\<lparr>pc_kmem := k\<rparr>)) (\<lambda>(cpu_local, s).
        let paddr = cpu_local - DIRECT_MAP_START;
            s = on_cpu i (write_kernel_gs_base ops paddr) s;
            s = on_cpu i (write_gs_base ops 0) s
        in Inr (on_cpu i (swapgs ops) s))))"

definition percpu_init_ap ::
  "'c gs_ops \<Rightarrow> cpu_local_struct \<Rightarrow> addr \<Rightarrow> u64 \<Rightarrow> nat \<Rightarrow> 'c percpu_state \<Rightarrow> 'c percpu_state res" where
  "percpu_init_ap ops cl cache off i s =
     (let s = on_cpu i (enable_fsgsbase ops) s in
      bindE (new_cpu_local cl cache off ''allocator failure: cant allocate cpu_local data'' s) (\<lambda>(cpu_local, s).
      let s = s\<lparr>pc_ram := set_field (pc_ram s) (cpu_local + off_cpu_id cl) (len_cpu_id cl) (ucast (get_cpu_id ops (pc_cpus s i)))\<rparr>;
          paddr = cpu_local - DIRECT_MAP_START;
          s = on_cpu i (write_kernel_gs_base ops paddr) s
      in Inr (on_cpu i (swapgs ops) s)))"

definition get_cpu_local :: "'c gs_ops \<Rightarrow> nat \<Rightarrow> 'c percpu_state \<Rightarrow> addr" where
  "get_cpu_local ops i s = get_cpu_local_gs ops (pc_cpus s i)"

definition cpu_set_current :: "'c gs_ops \<Rightarrow> cpu_local_struct \<Rightarrow> nat \<Rightarrow> addr \<Rightarrow> 'c percpu_state \<Rightarrow> 'c percpu_state option" where
  "cpu_set_current ops cl i task s =
     (let cpu_local = get_cpu_local ops i s in
      if cpu_local = NULL then None
      else Some (s\<lparr>pc_ram := set_field (pc_ram s) (cpu_local + off_current cl) 8 task\<rparr>))"

definition cpu_get_current_task :: "'c gs_ops \<Rightarrow> cpu_local_struct \<Rightarrow> nat \<Rightarrow> 'c percpu_state \<Rightarrow> addr option" where
  "cpu_get_current_task ops cl i s =
     (let cpu_local = get_cpu_local ops i s in
      if cpu_local = NULL then None
      else Some (get_field (pc_ram s) (cpu_local + off_current cl) 8))"

section \<open>What the code relies on\<close>

definition struct_ok :: "cpu_local_struct \<Rightarrow> bool" where
  "struct_ok cl \<longleftrightarrow>
     8 * unat (sizeof_cpu_local cl) + 56 \<le> 2 ^ 22 \<and> len_cpu_id cl \<le> 8 \<and>
     unat (off_cpu_id cl) + len_cpu_id cl \<le> unat (sizeof_cpu_local cl) \<and>
     unat (off_current cl) + 8 \<le> unat (sizeof_cpu_local cl)"

text \<open>\<open>kgs\<close> reads the second base register, which no routine of the file does.\<close>

definition gs_laws :: "'c gs_ops \<Rightarrow> ('c \<Rightarrow> u64) \<Rightarrow> bool" where
  "gs_laws ops kgs \<longleftrightarrow>
     (\<forall>c v. get_cpu_local_gs ops (write_gs_base ops v c) = v \<and> kgs (write_gs_base ops v c) = kgs c) \<and>
     (\<forall>c v. kgs (write_kernel_gs_base ops v c) = v) \<and>
     (\<forall>c. get_cpu_local_gs ops (swapgs ops c) = kgs c)"

section \<open>Blocks\<close>

lemma fields_apart:
  assumes ab: "unat a + N \<le> unat b \<or> unat b + N \<le> unat a" "unat a + N < 2 ^ 64" "unat b + N < 2 ^ 64"
    and o: "unat o1 + n1 \<le> N" "unat o2 + n2 \<le> N"
  shows "apart (a + o1) n1 (b + o2) n2"
proof -
  have u: "unat (a + o1) = unat a + unat o1" "unat (b + o2) = unat b + unat o2" using assms by (simp_all add: unat_add_no_overflow)
  from ab(1) show ?thesis
  proof
    assume "unat a + N \<le> unat b"
    then show ?thesis using assms u by (intro apart_ranges) simp_all
  next
    assume "unat b + N \<le> unat a"
    then have "apart (b + o2) n2 (a + o1) n1" using assms u by (intro apart_ranges) simp_all
    then show ?thesis by (rule apart_sym)
  qed
qed

lemma spans_apart:
  assumes "span a k \<inter> span b k = {}"
  shows "unat a + 2 ^ (k + 12) \<le> unat b \<or> unat b + 2 ^ (k + 12) \<le> unat a"
proof (rule ccontr)
  assume "\<not> ?thesis"
  then have "max (unat a) (unat b) \<in> span a k \<inter> span b k" by (auto simp: span_def max_def)
  then show False using assms by blast
qed

lemma slab_objects:
  assumes "slab_rep s c U" "p \<in> U"
  shows "p \<noteq> NULL" "unat p + unat (object_size (caches s c)) \<le> region_end (buddy s)"
    "q \<in> U \<Longrightarrow> q \<noteq> p \<Longrightarrow> unat p + unat (object_size (caches s c)) \<le> unat q \<or> unat q + unat (object_size (caches s c)) \<le> unat p"
proof -
  let ?k = "caches s c" and ?z = "unat (object_size (caches s c))"
  obtain fl fr pa fu os where inv: "slab_inv s c fl fr pa fu os" and U: "U = in_use s c (set (fr @ pa @ fu)) os"
    using assms(1) by (auto simp: slab_rep_def slab_rep_in_def)
  let ?ds = "set (fr @ pa @ fu)"
  have k: "cache_ok ?k" and ok: "slabs_ok s c (free_bytes fl) ?ds os"
    and re: "\<And>d. d \<in> ?ds \<Longrightarrow> unat d + 2 ^ (unat (slab_order ?k) + 12) \<le> region_end (buddy s)"
    using inv by (auto simp: slab_inv_def)
  have at: "\<exists>d i. d \<in> ?ds \<and> slab_block ?k d \<and> i < unat (objects_per_slab ?k) \<and> x = slot ?k d i \<and>
      unat x = unat d + unat (first_object_offset ?k) + i * ?z \<and>
      unat (first_object_offset ?k) + i * ?z + ?z \<le> 2 ^ (unat (slab_order ?k) + 12)" if "x \<in> U" for x
  proof -
    from that obtain d i where d: "d \<in> ?ds" "x = slot ?k d i" "i < unat (objects_per_slab ?k)" by (auto simp: U in_use_def slots_def)
    then have "slab_block ?k d" using ok by (simp add: slabs_ok_def slab_at_def)
    then show ?thesis using d unat_slot [OF cache_okD [OF k] _ d(3)] slot_room [OF cache_okD [OF k] d(3)] by blast
  qed
  obtain d i where d: "d \<in> ?ds" "slab_block ?k d" "i < unat (objects_per_slab ?k)" "p = slot ?k d i"
      "unat p = unat d + unat (first_object_offset ?k) + i * ?z"
      "unat (first_object_offset ?k) + i * ?z + ?z \<le> 2 ^ (unat (slab_order ?k) + 12)" using at [OF assms(2)] by blast
  have "0 < unat p" using d(5) k by (simp add: cache_ok_def cache_fit_def)
  then show "p \<noteq> NULL" by auto
  show "unat p + ?z \<le> region_end (buddy s)" using d(5,6) re [OF d(1)] by linarith
  assume "q \<in> U" "q \<noteq> p"
  then obtain e j where e: "e \<in> ?ds" "j < unat (objects_per_slab ?k)" "q = slot ?k e j"
      "unat q = unat e + unat (first_object_offset ?k) + j * ?z"
      "unat (first_object_offset ?k) + j * ?z + ?z \<le> 2 ^ (unat (slab_order ?k) + 12)" using at by blast
  show "unat p + ?z \<le> unat q \<or> unat q + ?z \<le> unat p"
  proof (cases "d = e")
    case True
    then have "i \<noteq> j" using \<open>q \<noteq> p\<close> d(4) e(3) by auto
    then have "Suc i \<le> j \<or> Suc j \<le> i" by linarith
    then have "Suc i * ?z \<le> j * ?z \<or> Suc j * ?z \<le> i * ?z" using mult_le_mono1 by blast
    then show ?thesis using d(5) e(4) True by auto
  next
    case False
    then have "slab_span ?k d \<inter> slab_span ?k e = {}" using ok d(1) e(1) by (simp add: slabs_ok_def)
    then have "unat d + 2 ^ (unat (slab_order ?k) + 12) \<le> unat e \<or> unat e + 2 ^ (unat (slab_order ?k) + 12) \<le> unat d"
      by (rule spans_apart)
    then show ?thesis using d(5,6) e(4,5) by linarith
  qed
qed

section \<open>The invariant\<close>

text \<open>
  \<open>percpu_inv\<close>: the processors \<open>ids\<close> have a block each, all different, which are exactly the objects of the cache
  in use; the block of \<open>i\<close> has \<open>cid i\<close> in its field \<open>cpu_id\<close>. The register holds the physical address.
\<close>

definition cpu_block :: "'c gs_ops \<Rightarrow> nat \<Rightarrow> 'c percpu_state \<Rightarrow> addr" where
  "cpu_block ops i s = get_cpu_local ops i s + DIRECT_MAP_START"

definition percpu_inv ::
  "'c gs_ops \<Rightarrow> cpu_local_struct \<Rightarrow> addr \<Rightarrow> nat set \<Rightarrow> (nat \<Rightarrow> u64) \<Rightarrow> 'c percpu_state \<Rightarrow> bool" where
  "percpu_inv ops cl cache ids cid s \<longleftrightarrow>
     low_rep cache (pc_kmem s) ((\<lambda>i. get_cpu_local ops i s) ` ids) \<and>
     object_size (caches (pc_kmem s) cache) = sizeof_cpu_local cl \<and>
     calc_slab_order (sizeof_cpu_local cl) = Some (ucast (slab_order (caches (pc_kmem s) cache))) \<and> inj_on (\<lambda>i. get_cpu_local ops i s) ids \<and>
     (\<forall>i\<in>ids. get_field (pc_ram s) (cpu_block ops i s + off_cpu_id cl) (len_cpu_id cl) = cid i)"

lemma low_objects:
  assumes "low_rep c k U" "object_size (caches k c) = z" "p \<in> U"
  shows "p \<noteq> NULL" "unat p + unat z \<le> DIRECT_BYTES"
    "q \<in> U \<Longrightarrow> q \<noteq> p \<Longrightarrow> unat p + unat z \<le> unat q \<or> unat q + unat z \<le> unat p"
  using assms slab_objects(1,2) [of k c U p] slab_objects(3) [of k c U p q] by (auto simp: low_rep_def)

lemma block_addr:
  assumes "unat p + unat z \<le> DIRECT_BYTES" "0 < unat z"
  shows "unat (p + DIRECT_MAP_START) = unat p + unat DIRECT_MAP_START" "unat (p + DIRECT_MAP_START) + unat z < 2 ^ 64"
    "is_direct_mapped_ptr (p + DIRECT_MAP_START)"
proof -
  have lt: "unat p < DIRECT_BYTES" using assms by linarith
  show u: "unat (p + DIRECT_MAP_START) = unat p + unat DIRECT_MAP_START" by (rule direct_ptr(1) [OF lt])
  show "is_direct_mapped_ptr (p + DIRECT_MAP_START)" by (rule direct_ptr(2) [OF lt])
  show "unat (p + DIRECT_MAP_START) + unat z < 2 ^ 64" unfolding u using assms(1) by (simp add: DIRECT_BYTES_def const_defs)
qed

lemma new_cpu_local_spec:
  assumes r: "low_rep cache (pc_kmem s) U"
  shows "(\<exists>p k. new_cpu_local cl cache DIRECT_MAP_START msg s = Inr (p + DIRECT_MAP_START,
        s\<lparr>pc_kmem := k, pc_ram := poke (pc_ram s) (p + DIRECT_MAP_START) (replicate (unat (sizeof_cpu_local cl)) 0)\<rparr>) \<and>
      p \<notin> U \<and> low_rep cache k (insert p U) \<and> caches k = caches (pc_kmem s)) \<or>
    new_cpu_local cl cache DIRECT_MAP_START msg s = Inl (Panic msg) \<and> cache_exhausted (pc_kmem s) cache"
proof -
  obtain fl where fl: "slab_rep_in (pc_kmem s) cache fl U" using r by (auto simp: low_rep_def slab_rep_def)
  obtain p k fl' where k: "kmem_cache_kalloc (pc_kmem s) cache = Some (p, k)" "caches k = caches (pc_kmem s)"
      "base_address (buddy k) = base_address (buddy (pc_kmem s))" "region_size (buddy k) = region_size (buddy (pc_kmem s))"
      "if p = NULL then k = pc_kmem s \<and> fl' = fl \<and> cache_exhausted (pc_kmem s) cache else \<not> cache_exhausted (pc_kmem s) cache \<and> p \<notin> U \<and> slab_rep_in k cache fl' (insert p U)"
    using kmem_cache_kalloc_rep_in [OF fl] by blast
  show ?thesis
  proof (cases "p = NULL")
    case True
    then show ?thesis using k(1,5) by (simp add: new_cpu_local_def mapped_kmem_cache_kalloc_def to_direct_def)
  next
    case False
    then have lr: "low_rep cache k (insert p U)" "p \<notin> U" using k(3-5) r by (auto simp: low_rep_def slab_rep_def region_end_def)
    have nn: "p + DIRECT_MAP_START \<noteq> NULL" using slab_source.below [OF lr(1)] direct_ptr(3) by blast
    have "snd (memset (p + DIRECT_MAP_START) 0 z m) = poke m (p + DIRECT_MAP_START) (replicate (unat z) 0)" for z m
      by (simp add: memset_def rep_stosb_eq)
    then show ?thesis using False nn lr k(1,2)
      by (intro disjI1 exI [of _ p] exI [of _ k]) (simp add: new_cpu_local_def mapped_kmem_cache_kalloc_def to_direct_def)
  qed
qed

text \<open>One more processor with a block of its own: what the fields of the others are afterwards.\<close>

lemma percpu_inv_insert:
  assumes inv: "percpu_inv ops cl cache ids cid s" and i: "i \<notin> ids" and z: "struct_ok cl"
    and k: "low_rep cache (pc_kmem s') (insert p ((\<lambda>i. get_cpu_local ops i s) ` ids))" "p \<notin> (\<lambda>i. get_cpu_local ops i s) ` ids"
      "caches (pc_kmem s') = caches (pc_kmem s)"
    and c: "get_cpu_local ops i s' = p" "\<And>j. j \<in> ids \<Longrightarrow> get_cpu_local ops j s' = get_cpu_local ops j s"
    and m: "pc_ram s' = poke (poke (pc_ram s) (p + DIRECT_MAP_START) (replicate (unat (sizeof_cpu_local cl)) 0)) (p + DIRECT_MAP_START + o1) xs"
      "unat o1 + length xs \<le> unat (sizeof_cpu_local cl)"
    and f: "get_field (pc_ram s') (p + DIRECT_MAP_START + off_cpu_id cl) (len_cpu_id cl) = w"
  shows "percpu_inv ops cl cache (insert i ids) (cid(i := w)) s'"
proof -
  let ?z = "sizeof_cpu_local cl" and ?gs = "\<lambda>s i. get_cpu_local ops i s"
  have sz: "object_size (caches (pc_kmem s') cache) = ?z" "0 < unat ?z" "calc_slab_order ?z = Some (ucast (slab_order (caches (pc_kmem s') cache)))"
    using inv k(3) z by (auto simp: percpu_inv_def struct_ok_def)
  have img: "?gs s' ` insert i ids = insert p (?gs s ` ids)" using c by simp
  have inj: "inj_on (?gs s') (insert i ids)"
  proof -
    have "inj_on (?gs s) ids" using inv by (simp add: percpu_inv_def)
    then have "inj_on (?gs s') ids" using inj_on_cong [of ids "?gs s'" "?gs s"] c(2) by simp
    moreover have "?gs s' ` ids = ?gs s ` ids" using c(2) by simp
    ultimately show ?thesis using k(2) c(1) i by simp
  qed
  have "get_field (pc_ram s') (cpu_block ops j s' + off_cpu_id cl) (len_cpu_id cl) = cid j" if j: "j \<in> ids" for j
  proof -
    let ?q = "?gs s j"
    have q: "?q \<in> insert p (?gs s ` ids)" "?q \<noteq> p" using j k(2) by auto
    note P = low_objects(2) [OF k(1) sz(1), of p, simplified] and Q = low_objects(2) [OF k(1) sz(1) q(1)]
    have "unat p + unat ?z \<le> unat ?q \<or> unat ?q + unat ?z \<le> unat p"
      using low_objects(3) [OF k(1) sz(1), of p ?q] q by blast
    then have d: "unat (p + DIRECT_MAP_START) + unat ?z \<le> unat (?q + DIRECT_MAP_START) \<or>
        unat (?q + DIRECT_MAP_START) + unat ?z \<le> unat (p + DIRECT_MAP_START)"
      using block_addr(1) [OF P sz(2)] block_addr(1) [OF Q sz(2)] by auto
    note ap = fields_apart [OF d block_addr(2) [OF P sz(2)] block_addr(2) [OF Q sz(2)], where ?o2.0 = "off_cpu_id cl" and ?n2.0 = "len_cpu_id cl"]
    have "apart (p + DIRECT_MAP_START) (length (replicate (unat ?z) (0 :: u8))) (?q + DIRECT_MAP_START + off_cpu_id cl) (len_cpu_id cl)"
      using ap [of 0 "unat ?z"] z by (simp add: struct_ok_def)
    moreover have "apart (p + DIRECT_MAP_START + o1) (length xs) (?q + DIRECT_MAP_START + off_cpu_id cl) (len_cpu_id cl)"
      using ap [of o1 "length xs"] z m(2) by (simp add: struct_ok_def)
    ultimately show ?thesis using inv j by (simp add: m(1) c(2) get_field_poke percpu_inv_def cpu_block_def)
  qed
  then have "\<forall>j\<in>insert i ids. get_field (pc_ram s') (cpu_block ops j s' + off_cpu_id cl) (len_cpu_id cl) = (cid(i := w)) j"
    using f c(1) i by (auto simp: cpu_block_def)
  then show ?thesis using k(1) sz inj unfolding percpu_inv_def img by blast
qed

section \<open>Starting the processors\<close>

lemma gs_after:
  assumes "gs_laws ops kgs"
  shows "get_cpu_local_gs ops (swapgs ops (write_kernel_gs_base ops v c)) = v"
    "get_cpu_local_gs ops (swapgs ops (write_gs_base ops w (write_kernel_gs_base ops v c))) = v"
  using assms by (simp_all add: gs_laws_def)

lemma percpu_init_ap_spec:
  assumes inv: "percpu_inv ops cl cache ids cid s" and h: "i \<notin> ids" "struct_ok cl" "gs_laws ops kgs"
  shows "(\<exists>s'. percpu_init_ap ops cl cache DIRECT_MAP_START i s = Inr s' \<and>
      percpu_inv ops cl cache (insert i ids) (cid(i := take_bit (8 * len_cpu_id cl) (ucast (get_cpu_id ops (enable_fsgsbase ops (pc_cpus s i)))))) s' \<and>
      (\<forall>j. j \<noteq> i \<longrightarrow> pc_cpus s' j = pc_cpus s j)) \<or>
    percpu_init_ap ops cl cache DIRECT_MAP_START i s = Inl (Panic ''allocator failure: cant allocate cpu_local data'') \<and>
      cache_exhausted (pc_kmem s) cache"
proof -
  let ?s = "on_cpu i (enable_fsgsbase ops) s" and ?z = "unat (sizeof_cpu_local cl)" and ?msg = "''allocator failure: cant allocate cpu_local data''"
  let ?id = "ucast (get_cpu_id ops (enable_fsgsbase ops (pc_cpus s i))) :: u64"
  have "low_rep cache (pc_kmem ?s) ((\<lambda>i. get_cpu_local ops i s) ` ids)" using inv by (simp add: percpu_inv_def on_cpu_def)
  from new_cpu_local_spec [OF this, of cl ?msg] show ?thesis
  proof (elim disjE exE conjE)
    fix p k assume p: "new_cpu_local cl cache DIRECT_MAP_START ?msg ?s = Inr (p + DIRECT_MAP_START,
        ?s\<lparr>pc_kmem := k, pc_ram := poke (pc_ram ?s) (p + DIRECT_MAP_START) (replicate ?z 0)\<rparr>)"
      "p \<notin> (\<lambda>i. get_cpu_local ops i s) ` ids" "low_rep cache k (insert p ((\<lambda>i. get_cpu_local ops i s) ` ids))" "caches k = caches (pc_kmem ?s)"
    let ?m = "poke (pc_ram s) (p + DIRECT_MAP_START) (replicate ?z 0)"
    define s' where "s' = s\<lparr>pc_kmem := k, pc_ram := set_field ?m (p + DIRECT_MAP_START + off_cpu_id cl) (len_cpu_id cl) ?id,
      pc_cpus := (pc_cpus s)(i := swapgs ops (write_kernel_gs_base ops p (enable_fsgsbase ops (pc_cpus s i))))\<rparr>"
    have "percpu_init_ap ops cl cache DIRECT_MAP_START i s = Inr s'"
      using p(1) by (simp add: percpu_init_ap_def Let_def on_cpu_def s'_def)
    moreover have "percpu_inv ops cl cache (insert i ids) (cid(i := take_bit (8 * len_cpu_id cl) ?id)) s'"
    proof (rule percpu_inv_insert [OF inv h(1,2)])
      show "get_field (pc_ram s') (p + DIRECT_MAP_START + off_cpu_id cl) (len_cpu_id cl) = take_bit (8 * len_cpu_id cl) ?id"
        using h(2) by (simp add: s'_def get_set_field struct_ok_def)
      show "pc_ram s' = poke (poke (pc_ram s) (p + DIRECT_MAP_START) (replicate ?z 0)) (p + DIRECT_MAP_START + off_cpu_id cl) (le_bytes (len_cpu_id cl) ?id)"
        by (simp add: s'_def set_field_def)
    qed (use p(2-4) h gs_after(1) [OF h(3)] in \<open>auto simp: s'_def on_cpu_def get_cpu_local_def struct_ok_def\<close>)
    ultimately show ?thesis by (auto simp: s'_def)
  next
    assume "new_cpu_local cl cache DIRECT_MAP_START ?msg ?s = Inl (Panic ?msg)" "cache_exhausted (pc_kmem ?s) cache"
    then show ?thesis by (simp add: percpu_init_ap_def Let_def on_cpu_def)
  qed
qed

text \<open>What has to hold before the first of them: the allocators are up, and their memory is in the direct map.\<close>

definition percpu_ready :: "addr \<Rightarrow> 'c percpu_state \<Rightarrow> bool" where
  "percpu_ready cache s \<longleftrightarrow> cache \<noteq> NULL \<and> \<not> slab_lock (pc_kmem s) \<and> region_end (buddy (pc_kmem s)) \<le> DIRECT_BYTES \<and>
     (\<exists>fl. buddy_inv (buddy (pc_kmem s)) fl \<and> (\<forall>h\<in>{free_slabs cache, partial_slabs cache, full_slabs cache}. unat h \<notin> free_bytes fl))"

lemma percpu_init_spec:
  assumes r: "percpu_ready cache s" and h: "struct_ok cl" "gs_laws ops kgs"
  shows "if supports_fsgsbase ops (pc_cpus s i)
    then (\<exists>s'. percpu_init ops cl cache DIRECT_MAP_START i s = Inr s' \<and> percpu_inv ops cl cache {i} (\<lambda>_. 0) s' \<and>
        (\<forall>j. j \<noteq> i \<longrightarrow> pc_cpus s' j = pc_cpus s j)) \<or>
      percpu_init ops cl cache DIRECT_MAP_START i s = Inl (Panic ''allocator failure: cant allocate BSP cpu_local data'') \<and>
        (\<exists>t. kmem_cache_create_sl (pc_kmem s) cache (sizeof_cpu_local cl) = Some (cache, pc_kmem t) \<and> percpu_inv ops cl cache {} (\<lambda>_. 0) t \<and>
          cache_exhausted (pc_kmem t) cache \<and> buddy (pc_kmem t) = buddy (pc_kmem s))
    else percpu_init ops cl cache DIRECT_MAP_START i s = Inl (Panic ''FSGSBASE hardware extension not supported'')"
proof -
  let ?z = "sizeof_cpu_local cl" and ?msg = "''allocator failure: cant allocate BSP cpu_local data''"
  have z: "8 \<le> unat ?z" "8 * unat ?z + 56 \<le> 2 ^ 22" using h(1) by (auto simp: struct_ok_def)
  obtain fl where b: "buddy_inv (buddy (pc_kmem s)) fl" "\<forall>h\<in>{free_slabs cache, partial_slabs cache, full_slabs cache}. unat h \<notin> free_bytes fl"
    and c: "cache \<noteq> NULL" "\<not> slab_lock (pc_kmem s)" "region_end (buddy (pc_kmem s)) \<le> DIRECT_BYTES"
    using r by (auto simp: percpu_ready_def)
  obtain k where k: "kmem_cache_create (pc_kmem s) cache ?z = Some (cache, k)" "slab_rep_in k cache fl {}" "object_size (caches k cache) = ?z"
      "buddy k = buddy (pc_kmem s)" "calc_slab_order ?z = Some (ucast (slab_order (caches k cache)))"
    using kmem_cache_create_rep [OF b(1) c(2) z b(2)] by blast
  have cr: "kmem_cache_create_sl (pc_kmem s) cache ?z = Some (cache, k)" by (rule kmem_cache_create_sl_eq [OF c(2) k(1) c(1)])
  let ?s = "(on_cpu i (enable_fsgsbase ops) s)\<lparr>pc_kmem := k\<rparr>"
  have e: "percpu_inv ops cl cache {} (\<lambda>_. 0) ?s" using k c(3) by (auto simp: percpu_inv_def low_rep_def slab_rep_def)
  have lr: "low_rep cache (pc_kmem ?s) {}" using e by (simp add: percpu_inv_def)
  show ?thesis
  proof (cases "supports_fsgsbase ops (pc_cpus s i)")
    case True
    then have eq: "percpu_init ops cl cache DIRECT_MAP_START i s =
        bindE (new_cpu_local cl cache DIRECT_MAP_START ?msg ?s) (\<lambda>(cpu_local, s).
          Inr (on_cpu i (swapgs ops) (on_cpu i (write_gs_base ops 0) (on_cpu i (write_kernel_gs_base ops (cpu_local - DIRECT_MAP_START)) s))))"
      using cr by (simp add: percpu_init_def Let_def on_cpu_def)
    from new_cpu_local_spec [OF lr, of cl ?msg] show ?thesis
    proof (elim disjE exE conjE)
      fix p k' assume p: "new_cpu_local cl cache DIRECT_MAP_START ?msg ?s = Inr (p + DIRECT_MAP_START,
          ?s\<lparr>pc_kmem := k', pc_ram := poke (pc_ram ?s) (p + DIRECT_MAP_START) (replicate (unat ?z) 0)\<rparr>)"
        "low_rep cache k' {p}" "caches k' = caches (pc_kmem ?s)"
      define s' where "s' = s\<lparr>pc_kmem := k', pc_ram := poke (pc_ram s) (p + DIRECT_MAP_START) (replicate (unat ?z) 0),
        pc_cpus := (pc_cpus s)(i := swapgs ops (write_gs_base ops 0 (write_kernel_gs_base ops p (enable_fsgsbase ops (pc_cpus s i)))))\<rparr>"
      have "percpu_init ops cl cache DIRECT_MAP_START i s = Inr s'" using p(1) by (simp add: eq on_cpu_def s'_def)
      moreover have "percpu_inv ops cl cache (insert i {}) ((\<lambda>_. 0)(i := 0)) s'"
      proof (rule percpu_inv_insert [OF e _ h(1), where ?o1.0 = 0 and xs = "[]"])
        show "get_field (pc_ram s') (p + DIRECT_MAP_START + off_cpu_id cl) (len_cpu_id cl) = 0"
          unfolding s'_def using h(1) z(2) by (simp, intro get_field_zero) (simp_all add: struct_ok_def)
      qed (use p(2,3) gs_after(2) [OF h(2)] in \<open>auto simp: s'_def on_cpu_def get_cpu_local_def\<close>)
      ultimately show ?thesis using True by (auto simp: s'_def fun_upd_idem)
    next
      assume "new_cpu_local cl cache DIRECT_MAP_START ?msg ?s = Inl (Panic ?msg)" "cache_exhausted (pc_kmem ?s) cache"
      then show ?thesis using eq e k(4) cr unfolding if_P [OF True] by (intro disjI2 conjI exI [of _ ?s]) simp_all
    qed
  next
    case False
    then show ?thesis by (simp add: percpu_init_def)
  qed
qed

text \<open>
  The other processors run \<open>percpu_init_ap\<close> one after the other; the code that wakes them is not in the repository.
\<close>

primrec percpu_init_aps ::
  "'c gs_ops \<Rightarrow> cpu_local_struct \<Rightarrow> addr \<Rightarrow> u64 \<Rightarrow> nat list \<Rightarrow> 'c percpu_state \<Rightarrow> 'c percpu_state res" where
  "percpu_init_aps ops cl cache off [] s = Inr s"
| "percpu_init_aps ops cl cache off (i # is) s = bindE (percpu_init_ap ops cl cache off i s) (percpu_init_aps ops cl cache off is)"

definition own_id :: "'c gs_ops \<Rightarrow> cpu_local_struct \<Rightarrow> 'c percpu_state \<Rightarrow> nat \<Rightarrow> u64" where
  "own_id ops cl s i = take_bit (8 * len_cpu_id cl) (ucast (get_cpu_id ops (enable_fsgsbase ops (pc_cpus s i))))"

lemma percpu_inv_cong: "(\<And>i. i \<in> ids \<Longrightarrow> cid i = cid' i) \<Longrightarrow> percpu_inv ops cl cache ids cid s = percpu_inv ops cl cache ids cid' s"
  by (simp add: percpu_inv_def)

lemma percpu_init_aps_spec:
  assumes "percpu_inv ops cl cache ids cid s" "distinct is" "set is \<inter> ids = {}" and h: "struct_ok cl" "gs_laws ops kgs"
  shows "(\<exists>s'. percpu_init_aps ops cl cache DIRECT_MAP_START is s = Inr s' \<and>
      percpu_inv ops cl cache (set is \<union> ids) (\<lambda>i. if i \<in> set is then own_id ops cl s i else cid i) s') \<or>
    (\<exists>pre i post cid' t m. is = pre @ i # post \<and> percpu_init_aps ops cl cache DIRECT_MAP_START pre s = Inr t \<and>
      percpu_inv ops cl cache (set pre \<union> ids) cid' t \<and> cache_exhausted (pc_kmem t) cache \<and>
      percpu_init_aps ops cl cache DIRECT_MAP_START is s = Inl (Panic m))"
  using assms(1-3)
proof (induction "is" arbitrary: ids cid s)
  case (Cons i "is")
  have i: "i \<notin> ids" "i \<notin> set is" using Cons.prems by auto
  from percpu_init_ap_spec [OF Cons.prems(1) i(1) h, folded own_id_def] show ?case
  proof (elim disjE exE conjE)
    fix s1 assume 1: "percpu_init_ap ops cl cache DIRECT_MAP_START i s = Inr s1"
      "percpu_inv ops cl cache (insert i ids) (cid(i := own_id ops cl s i)) s1" "\<forall>j. j \<noteq> i \<longrightarrow> pc_cpus s1 j = pc_cpus s j"
    have o: "own_id ops cl s1 j = own_id ops cl s j" if "j \<in> set is" for j using 1(3) that i(2) by (auto simp: own_id_def)
    have u: "set (i # is) \<union> ids = set is \<union> insert i ids" by auto
    have pre: "distinct is" "set is \<inter> insert i ids = {}" using Cons.prems i by auto
    from Cons.IH [OF 1(2) pre] consider s' where "percpu_init_aps ops cl cache DIRECT_MAP_START is s1 = Inr s'"
        "percpu_inv ops cl cache (set is \<union> insert i ids) (\<lambda>j. if j \<in> set is then own_id ops cl s1 j else (cid(i := own_id ops cl s i)) j) s'"
      | pre j post cid' t m where "is = pre @ j # post" "percpu_init_aps ops cl cache DIRECT_MAP_START pre s1 = Inr t"
        "percpu_inv ops cl cache (set pre \<union> insert i ids) cid' t" "cache_exhausted (pc_kmem t) cache" "percpu_init_aps ops cl cache DIRECT_MAP_START is s1 = Inl (Panic m)" by blast
    then show ?thesis
    proof cases
      case 1
      have "percpu_inv ops cl cache (set (i # is) \<union> ids) (\<lambda>j. if j \<in> set (i # is) then own_id ops cl s j else cid j) s'"
        unfolding u by (rule percpu_inv_cong [THEN iffD1, OF _ 1(2)]) (use o in auto)
      then show ?thesis using 1(1) \<open>percpu_init_ap ops cl cache DIRECT_MAP_START i s = Inr s1\<close> by auto
    next
      case 2
      then show ?thesis using \<open>percpu_init_ap ops cl cache DIRECT_MAP_START i s = Inr s1\<close>
        by (intro disjI2 exI [of _ "i # pre"] exI [of _ j] exI [of _ post] exI [of _ cid'] exI [of _ t] exI [of _ m]) simp
    qed
  next
    assume "percpu_init_ap ops cl cache DIRECT_MAP_START i s = Inl (Panic ''allocator failure: cant allocate cpu_local data'')"
      "cache_exhausted (pc_kmem s) cache"
    then show ?thesis using Cons.prems(1) i(1)
      by (intro disjI2 exI [of _ "[]"] exI [of _ i] exI [of _ "is"] exI [of _ cid] exI [of _ s] exI) auto
  qed
qed auto

lemma percpu_blocks:
  assumes inv: "percpu_inv ops cl cache ids cid s" and z: "struct_ok cl" and i: "i \<in> ids"
  shows "is_direct_mapped_ptr (cpu_block ops i s)" "get_field (pc_ram s) (cpu_block ops i s + off_cpu_id cl) (len_cpu_id cl) = cid i"
    "j \<in> ids \<Longrightarrow> j \<noteq> i \<Longrightarrow> apart (cpu_block ops i s) (unat (sizeof_cpu_local cl)) (cpu_block ops j s) (unat (sizeof_cpu_local cl))"
proof -
  let ?z = "sizeof_cpu_local cl" and ?gs = "\<lambda>i. get_cpu_local ops i s"
  have U: "low_rep cache (pc_kmem s) (?gs ` ids)" "object_size (caches (pc_kmem s) cache) = ?z" "inj_on ?gs ids" "0 < unat ?z"
    using inv z by (auto simp: percpu_inv_def struct_ok_def)
  show "get_field (pc_ram s) (cpu_block ops i s + off_cpu_id cl) (len_cpu_id cl) = cid i" using inv i by (simp add: percpu_inv_def)
  note I = low_objects(2) [OF U(1,2) imageI [OF i]]
  show "is_direct_mapped_ptr (cpu_block ops i s)" unfolding cpu_block_def by (rule block_addr(3) [OF I U(4)])
  assume j: "j \<in> ids" "j \<noteq> i"
  note J = low_objects(2) [OF U(1,2) imageI [OF j(1)]]
  have "?gs j \<noteq> ?gs i" using U(3) i j by (auto simp: inj_on_def)
  then have "unat (?gs i) + unat ?z \<le> unat (?gs j) \<or> unat (?gs j) + unat ?z \<le> unat (?gs i)"
    using low_objects(3) [OF U(1,2) imageI [OF i] imageI [OF j(1)]] by blast
  then have "unat (cpu_block ops i s) + unat ?z \<le> unat (cpu_block ops j s) \<or> unat (cpu_block ops j s) + unat ?z \<le> unat (cpu_block ops i s)"
    unfolding cpu_block_def block_addr(1) [OF I U(4)] block_addr(1) [OF J U(4)] by auto
  from fields_apart [OF this, of 0 _ 0] show "apart (cpu_block ops i s) (unat ?z) (cpu_block ops j s) (unat ?z)"
    using block_addr(2) [OF I U(4)] block_addr(2) [OF J U(4)] by (simp add: cpu_block_def)
qed

lemma percpu_boot_spec:
  assumes "percpu_ready cache s" "struct_ok cl" "gs_laws ops kgs" "distinct (bsp # aps)" "supports_fsgsbase ops (pc_cpus s bsp)"
  shows "(\<exists>s'. bindE (percpu_init ops cl cache DIRECT_MAP_START bsp s) (percpu_init_aps ops cl cache DIRECT_MAP_START aps) = Inr s' \<and>
      percpu_inv ops cl cache (set (bsp # aps)) (\<lambda>i. if i = bsp then 0 else own_id ops cl s i) s' \<and>
      (\<forall>i\<in>set (bsp # aps). is_direct_mapped_ptr (cpu_block ops i s') \<and>
        (\<forall>j\<in>set (bsp # aps). j \<noteq> i \<longrightarrow> apart (cpu_block ops i s') (unat (sizeof_cpu_local cl)) (cpu_block ops j s') (unat (sizeof_cpu_local cl))))) \<or>
    (\<exists>ids cid t m. ids \<subset> set (bsp # aps) \<and> percpu_inv ops cl cache ids cid t \<and> cache_exhausted (pc_kmem t) cache \<and>
      (ids = {} \<longrightarrow> buddy (pc_kmem t) = buddy (pc_kmem s)) \<and>
      (ids = {} \<and> kmem_cache_create_sl (pc_kmem s) cache (sizeof_cpu_local cl) = Some (cache, pc_kmem t) \<or>
       (\<exists>pre i post. aps = pre @ i # post \<and> ids = set (bsp # pre) \<and>
          bindE (percpu_init ops cl cache DIRECT_MAP_START bsp s) (percpu_init_aps ops cl cache DIRECT_MAP_START pre) = Inr t)) \<and>
      bindE (percpu_init ops cl cache DIRECT_MAP_START bsp s) (percpu_init_aps ops cl cache DIRECT_MAP_START aps) = Inl (Panic m))"
proof -
  from percpu_init_spec [OF assms(1-3), of bsp, unfolded if_P [OF assms(5)]] show ?thesis
  proof (elim disjE exE conjE)
    fix s1 assume 1: "percpu_init ops cl cache DIRECT_MAP_START bsp s = Inr s1" "percpu_inv ops cl cache {bsp} (\<lambda>_. 0) s1"
      "\<forall>j. j \<noteq> bsp \<longrightarrow> pc_cpus s1 j = pc_cpus s j"
    have d: "distinct aps" "set aps \<inter> {bsp} = {}" and u: "set (bsp # aps) = set aps \<union> {bsp}" using assms(4) by auto
    from percpu_init_aps_spec [OF 1(2) d assms(2,3)] show ?thesis
    proof (elim disjE exE conjE)
      fix s' assume 2: "percpu_init_aps ops cl cache DIRECT_MAP_START aps s1 = Inr s'"
        "percpu_inv ops cl cache (set aps \<union> {bsp}) (\<lambda>i. if i \<in> set aps then own_id ops cl s1 i else 0) s'"
      have "percpu_inv ops cl cache (set (bsp # aps)) (\<lambda>i. if i = bsp then 0 else own_id ops cl s i) s'"
        unfolding u by (rule percpu_inv_cong [THEN iffD1, OF _ 2(2)]) (use d(2) 1(3) in \<open>auto simp: own_id_def\<close>)
      note inv = this and b = percpu_blocks(1,3) [OF this assms(2)]
      show ?thesis by (intro disjI1 exI [of _ s'] conjI inv) (use 1(1) 2(1) b in \<open>simp, blast\<close>)
    next
      fix pre i post cid t m
      assume a: "aps = pre @ i # post" "percpu_init_aps ops cl cache DIRECT_MAP_START pre s1 = Inr t"
        "percpu_inv ops cl cache (set pre \<union> {bsp}) cid t" "cache_exhausted (pc_kmem t) cache"
        "percpu_init_aps ops cl cache DIRECT_MAP_START aps s1 = Inl (Panic m)"
      have "set (bsp # pre) \<subset> set (bsp # aps)" using assms(4) by (auto simp: a(1))
      then show ?thesis using 1(1) a
        by (intro disjI2 exI [of _ "set (bsp # pre)"] exI [of _ cid] exI [of _ t] exI [of _ m] conjI) auto
    qed
  next
    fix t assume "percpu_init ops cl cache DIRECT_MAP_START bsp s = Inl (Panic ''allocator failure: cant allocate BSP cpu_local data'')"
      "percpu_inv ops cl cache {} (\<lambda>_. 0) t" "cache_exhausted (pc_kmem t) cache" "buddy (pc_kmem t) = buddy (pc_kmem s)"
      "kmem_cache_create_sl (pc_kmem s) cache (sizeof_cpu_local cl) = Some (cache, pc_kmem t)"
    then show ?thesis by (intro disjI2 exI [of _ "{}"] exI [of _ "\<lambda>_. 0"] exI [of _ t] exI) auto
  qed
qed

text \<open>
  C26. \<open>percpu_init\<close> on one processor and then \<open>percpu_init_ap\<close> on any others, each once, from allocators that are up: every
  processor ends with a block of its own, in the direct map and apart from all others, whose physical address is in its
  \<open>gs\<close> register and whose field \<open>cpu_id\<close> has the number of the processor, 0 for the first. The boot panics only
  when, in the state the run has reached, with the cache just made or some of the processors done, the cache
  has no free object left and the buddy allocator no block for another slab.
\<close>

theorem percpu_boot_correct:
  assumes "percpu_ready cache s" "struct_ok cl" "gs_laws ops kgs" "distinct (bsp # aps)" "supports_fsgsbase ops (pc_cpus s bsp)"
  shows "(\<exists>s'. bindE (percpu_init ops cl cache DIRECT_MAP_START bsp s) (percpu_init_aps ops cl cache DIRECT_MAP_START aps) = Inr s' \<and>
      percpu_inv ops cl cache (set (bsp # aps)) (\<lambda>i. if i = bsp then 0 else own_id ops cl s i) s' \<and>
      (\<forall>i\<in>set (bsp # aps). is_direct_mapped_ptr (cpu_block ops i s') \<and>
        (\<forall>j\<in>set (bsp # aps). j \<noteq> i \<longrightarrow> apart (cpu_block ops i s') (unat (sizeof_cpu_local cl)) (cpu_block ops j s') (unat (sizeof_cpu_local cl))))) \<or>
    (\<exists>ids cid t m. ids \<subset> set (bsp # aps) \<and> percpu_inv ops cl cache ids cid t \<and> cache_exhausted (pc_kmem t) cache \<and>
      (ids = {} \<longrightarrow> buddy (pc_kmem t) = buddy (pc_kmem s)) \<and>
      (ids = {} \<and> kmem_cache_create_sl (pc_kmem s) cache (sizeof_cpu_local cl) = Some (cache, pc_kmem t) \<or>
       (\<exists>pre i post. aps = pre @ i # post \<and> ids = set (bsp # pre) \<and>
          bindE (percpu_init ops cl cache DIRECT_MAP_START bsp s) (percpu_init_aps ops cl cache DIRECT_MAP_START pre) = Inr t)) \<and>
      bindE (percpu_init ops cl cache DIRECT_MAP_START bsp s) (percpu_init_aps ops cl cache DIRECT_MAP_START aps) = Inl (Panic m))"
  by (rule percpu_boot_spec [OF assms])

section \<open>The current task\<close>

lemma cpu_current_spec:
  assumes inv: "percpu_inv ops cl cache ids cid s" and z: "struct_ok cl" and i: "i \<in> ids" and j: "j \<in> ids"
  shows "\<exists>s'. cpu_set_current ops cl i task s = Some s' \<and> percpu_inv ops cl cache ids cid s' \<and>
    cpu_get_current_task ops cl j s' = (if j = i then Some task else cpu_get_current_task ops cl j s) \<and>
    (\<forall>k\<in>ids. peek (pc_ram s') (cpu_block ops k s) (unat (sizeof_cpu_local cl)) = peek (pc_ram s) (cpu_block ops k s) (unat (sizeof_cpu_local cl)))"
proof -
  let ?z = "sizeof_cpu_local cl" and ?gs = "\<lambda>i. get_cpu_local ops i s" and ?o = "off_current cl"
  have U: "low_rep cache (pc_kmem s) (?gs ` ids)" "object_size (caches (pc_kmem s) cache) = ?z" "inj_on ?gs ids" "0 < unat ?z" "unat ?o + 8 \<le> unat ?z"
      "unat (off_cpu_id cl) + len_cpu_id cl \<le> unat ?z"
    using inv z by (auto simp: percpu_inv_def struct_ok_def)
  note I = low_objects [OF U(1,2) imageI [OF i]] and J = low_objects [OF U(1,2) imageI [OF j]]
  define s' where "s' = s\<lparr>pc_ram := set_field (pc_ram s) (?gs i + ?o) 8 task\<rparr>"
  have gs: "get_cpu_local ops k s' = ?gs k" for k by (simp add: s'_def get_cpu_local_def)
  have ram: "pc_ram s' = set_field (pc_ram s) (?gs i + ?o) 8 task" by (simp add: s'_def)
  have low: "unat (?gs i + ?o) + 8 \<le> DIRECT_BYTES"
    using I(2) U(5) by (subst unat_add_no_overflow) (simp_all add: DIRECT_BYTES_def const_defs)
  have outside: "apart (?gs i + ?o) (length (le_bytes 8 task)) (cpu_block ops k s + o2) n"
    if k: "k \<in> ids" "unat o2 + n \<le> unat ?z" for k o2 n
  proof -
    note K = low_objects(2) [OF U(1,2) imageI [OF k(1)]]
    have "unat (cpu_block ops k s + o2) = unat (?gs k) + unat DIRECT_MAP_START + unat o2"
      unfolding cpu_block_def using block_addr(1,2) [OF K U(4)] k(2) by (subst unat_add_no_overflow) simp_all
    then show ?thesis using low K k(2) by (intro apart_ranges) (simp_all add: DIRECT_BYTES_def const_defs)
  qed
  have blocks: "peek (pc_ram s') (cpu_block ops k s) (unat ?z) = peek (pc_ram s) (cpu_block ops k s) (unat ?z)" if "k \<in> ids" for k
    using outside [OF that, of 0 "unat ?z"] by (simp add: s'_def set_field_def peek_poke_apart)
  have "get_field (pc_ram s') (cpu_block ops k s + off_cpu_id cl) (len_cpu_id cl) = get_field (pc_ram s) (cpu_block ops k s + off_cpu_id cl) (len_cpu_id cl)"
    if "k \<in> ids" for k using outside [OF that U(6)] by (simp add: s'_def set_field_def get_field_poke)
  then have "percpu_inv ops cl cache ids cid s'" using inv by (simp add: percpu_inv_def cpu_block_def gs) (simp add: s'_def)
  moreover have "cpu_get_current_task ops cl j s' = (if j = i then Some task else cpu_get_current_task ops cl j s)"
  proof (cases "j = i")
    case True
    then show ?thesis using I(1) by (simp add: cpu_get_current_task_def gs Let_def ram get_set_field take_bit_word_eq_self)
  next
    case False
    then have "?gs j \<noteq> ?gs i" using U(3) i j by (auto simp: inj_on_def)
    then have "apart (?gs i + ?o) 8 (?gs j + ?o) 8"
      using I(2) I(3) [of "?gs j"] J(2) j U(5) by (intro fields_apart [of _ "unat ?z"]) (simp_all add: DIRECT_BYTES_def const_defs)
    then show ?thesis using False J(1) by (simp add: cpu_get_current_task_def gs Let_def ram set_field_def get_field_poke)
  qed
  moreover have "cpu_set_current ops cl i task s = Some s'" using I(1) by (simp add: cpu_set_current_def Let_def s'_def)
  ultimately show ?thesis using blocks by blast
qed


section \<open>Witnesses\<close>

text \<open>A processor as its two base registers and its number, and a struct with the two fields the code names.\<close>

record cpu_regs =
  gs_reg :: u64
  kgs_reg :: u64
  apic_id :: u32

definition ex_gs_ops :: "cpu_regs gs_ops" where
  "ex_gs_ops = \<lparr>write_gs_base = \<lambda>v c. c\<lparr>gs_reg := v\<rparr>, write_kernel_gs_base = \<lambda>v c. c\<lparr>kgs_reg := v\<rparr>,
     swapgs = \<lambda>c. c\<lparr>gs_reg := kgs_reg c, kgs_reg := gs_reg c\<rparr>, get_cpu_id = apic_id, get_cpu_local_gs = gs_reg,
     supports_fsgsbase = \<lambda>_. True, enable_fsgsbase = \<lambda>c. c\<rparr>"

definition ex_cpu_local :: cpu_local_struct where
  "ex_cpu_local = \<lparr>sizeof_cpu_local = 16, off_cpu_id = 0, len_cpu_id = 4, off_current = 8\<rparr>"

definition ex_percpu :: "cpu_regs percpu_state" where
  "ex_percpu = \<lparr>pc_kmem = ex_slab, pc_ram = \<lambda>_. 1, pc_cpus = \<lambda>i. \<lparr>gs_reg = 0, kgs_reg = 0, apic_id = of_nat i\<rparr>\<rparr>"

lemma exhausted_full:
  assumes "slab_rep s c U" "cache_exhausted s c" "p \<in> U"
  shows "2 \<le> card U \<or> infinite U"
proof -
  let ?k = "caches s c"
  obtain fl fr pa fu os where inv: "slab_inv s c fl fr pa fu os" and U: "U = in_use s c (set (fr @ pa @ fu)) os"
    using assms(1) by (auto simp: slab_rep_def slab_rep_in_def)
  have l: "slab_lists s c fr pa fu" and k: "cache_ok ?k" and ok: "slabs_ok s c (free_bytes fl) (set (fr @ pa @ fu)) os" and pl: "placed s c fr pa fu"
    using inv by (auto simp: slab_inv_def)
  have "pa = []" "fr = []"
    using slab_lists_heads [OF l] assms(2) by (auto simp: cache_exhausted_def split: list.splits)
  then obtain d where d: "d \<in> set fu" "p \<in> slots ?k d" using assms(3) U by (auto simp: in_use_def)
  then have at: "slab_at s c os d" "inuse_num (descs s d) = objects_per_slab ?k" using ok pl by (auto simp: slabs_ok_def placed_def)
  then have "os d = []" by (simp add: slab_at_def)
  then have "slots ?k d \<subseteq> U" using d(1) by (auto simp: U in_use_def)
  moreover have "2 \<le> card (slots ?k d)" using card_slots [OF cache_okD [OF k]] at(1) k by (simp add: slab_at_def cache_ok_def cache_fit_def)
  ultimately show ?thesis using card_mono order_trans by blast
qed

lemma ex_never_starved:
  assumes "percpu_inv ex_gs_ops ex_cpu_local 0x9000 ids cid t" "ids \<subset> {0, 1}" "ids = {} \<longrightarrow> buddy (pc_kmem t) = buddy (pc_kmem ex_percpu)"
  shows "\<not> cache_exhausted (pc_kmem t) 0x9000"
proof
  assume x: "cache_exhausted (pc_kmem t) 0x9000"
  let ?k = "pc_kmem t" and ?U = "(\<lambda>i. get_cpu_local ex_gs_ops i t) ` ids"
  have r: "slab_rep ?k 0x9000 ?U" and o: "calc_slab_order 16 = Some (ucast (slab_order (caches ?k 0x9000)))"
    using assms(1) by (auto simp: percpu_inv_def low_rep_def ex_cpu_local_def)
  have f: "finite ids" "card ids < 2" using assms(2) psubset_card_mono [of "{0, 1 :: nat}" ids] finite_subset [of ids "{0, 1}"] by auto
  show False
  proof (cases "ids = {}")
    case True
    obtain fl where fl: "buddy_inv ex_buddy fl" "free_bytes fl = {0x400000 ..< 0xC00000}" using ex_buddy_ready by blast
    have "calc_slab_order 16 = Some 0" by code_simp
    then have "slab_order (caches ?k 0x9000) = 0"
      using o by (simp add: word_unat_eq_iff unsigned_ucast_eq take_bit_nat_eq_self unat_lt_u8 [THEN less_trans])
    then have "buddy_kalloc ex_buddy (chunk_bytes 0) = Some (NULL, ex_buddy)"
      using x assms(3) True by (simp add: cache_exhausted_def ex_percpu_def ex_slab_def)
    then have "\<forall>j\<in>{0..10}. fl j = []" using kalloc_inv [OF fl(1) size_order_chunk [of 0]] by (auto split: if_splits)
    then have "free_bytes fl = {}" by (auto simp: free_bytes_def)
    then show False using fl(2) by simp
  next
    case False
    then obtain i where "get_cpu_local ex_gs_ops i t \<in> ?U" by blast
    from exhausted_full [OF r x this] have "2 \<le> card ?U" using f(1) by auto
    then show False using card_image_le [OF f(1), of "\<lambda>i. get_cpu_local ex_gs_ops i t"] f(2) by linarith
  qed
qed

lemma ex_percpu_ok:
  "percpu_ready 0x9000 ex_percpu" "struct_ok ex_cpu_local" "gs_laws ex_gs_ops kgs_reg" "distinct [0, 1 :: nat]"
  "supports_fsgsbase ex_gs_ops (pc_cpus ex_percpu 0)"
proof -
  obtain fl where "buddy_inv (buddy ex_slab) fl"
      "\<forall>h\<in>{free_slabs 0x9000, partial_slabs 0x9000, full_slabs 0x9000}. unat h \<notin> free_bytes fl"
    using ex_slab_ready by blast
  moreover have "region_end ex_buddy \<le> DIRECT_BYTES" by (simp add: region_end_def ex_region DIRECT_BYTES_def const_defs)
  ultimately show "percpu_ready 0x9000 ex_percpu" by (auto simp: percpu_ready_def ex_percpu_def ex_slab_def)
qed (simp_all add: struct_ok_def ex_cpu_local_def gs_laws_def ex_gs_ops_def)

theorem percpu_boot_witness:
  "\<exists>s'. bindE (percpu_init ex_gs_ops ex_cpu_local 0x9000 DIRECT_MAP_START 0 ex_percpu)
      (percpu_init_aps ex_gs_ops ex_cpu_local 0x9000 DIRECT_MAP_START [1]) = Inr s' \<and>
    apart (cpu_block ex_gs_ops 0 s') 16 (cpu_block ex_gs_ops 1 s') 16 \<and> get_field (pc_ram s') (cpu_block ex_gs_ops 1 s') 4 = 1"
proof -
  from percpu_boot_correct [OF ex_percpu_ok] ex_never_starved obtain s' where
    s': "bindE (percpu_init ex_gs_ops ex_cpu_local 0x9000 DIRECT_MAP_START 0 ex_percpu)
      (percpu_init_aps ex_gs_ops ex_cpu_local 0x9000 DIRECT_MAP_START [1]) = Inr s'"
      "percpu_inv ex_gs_ops ex_cpu_local 0x9000 {0, 1} (\<lambda>i. if i = 0 then 0 else own_id ex_gs_ops ex_cpu_local ex_percpu i) s'"
      "apart (cpu_block ex_gs_ops 0 s') 16 (cpu_block ex_gs_ops 1 s') 16"
    by (fastforce simp: ex_cpu_local_def)
  have "get_field (pc_ram s') (cpu_block ex_gs_ops 1 s') 4 = own_id ex_gs_ops ex_cpu_local ex_percpu 1"
    using s'(2) by (simp add: percpu_inv_def ex_cpu_local_def)
  also have "\<dots> = 1" by (simp add: own_id_def ex_gs_ops_def ex_cpu_local_def ex_percpu_def take_bit_eq_mod)
  finally show ?thesis using s'(1,3) by blast
qed


end
