(* ===== verification/Virt_Kmalloc.thy ===== *)
theory Virt_Kmalloc
  imports Rb_Search
begin

text \<open>
  \<^verbatim>\<open>src/mikroKernellib/virt_kmalloc.c\<close> and \<^verbatim>\<open>include/virt_kmalloc.h\<close>: the tree of virtual
  allocation chunks. \<open>virt_kmalloc\<close> and \<open>virt_kfree\<close> have empty bodies in the source; what is
  modelled is the tree they are meant to use. The embedded \<open>struct rb_node\<close> of a \<open>struct vac\<close>
  is 16 bytes into it.
\<close>

section \<open>Chunks\<close>

record vac =
  vac_addr :: u64
  vac_end :: u64

type_synonym vac_heap = "addr \<Rightarrow> vac"

definition vac_node :: "addr \<Rightarrow> addr" where
  "vac_node v = v + 16"

definition vac_of_node :: "addr \<Rightarrow> addr" where
  "vac_of_node n = n - 16"

definition vac_cmp :: "vac_heap \<Rightarrow> addr \<Rightarrow> addr \<Rightarrow> int" where
  "vac_cmp vc a b =
     (let a_vac = vac_of_node a; b_vac = vac_of_node b in
      if vac_addr (vc a_vac) > vac_addr (vc b_vac) then 1
      else if vac_addr (vc a_vac) < vac_addr (vc b_vac) then -1
      else 0)"

text \<open>The callers of the tree drop its result.\<close>

definition rb_insert_vac :: "vac_heap \<Rightarrow> rb_state \<Rightarrow> addr \<Rightarrow> rb_state option" where
  "rb_insert_vac vc s v = do { r \<leftarrow> rb_insert s (vac_node v) (vac_cmp vc); Some (snd r) }"

definition rb_remove_vac :: "vac_heap \<Rightarrow> rb_state \<Rightarrow> addr \<Rightarrow> rb_state option" where
  "rb_remove_vac vc s v = do { r \<leftarrow> rb_delete s (vac_node v) (vac_cmp vc); Some (snd r) }"

section \<open>Searches by address\<close>

partial_function (option) rb_successor_vac_loop ::
  "vac_heap \<Rightarrow> rb_state \<Rightarrow> u64 \<Rightarrow> addr \<Rightarrow> addr \<Rightarrow> addr option" where
  "rb_successor_vac_loop vc s x current successor =
     (if current = NULL then Some successor
      else if x < vac_addr (vc (vac_of_node current))
      then do { c \<leftarrow> rd s current; rb_successor_vac_loop vc s x (left c) current }
      else do { c \<leftarrow> rd s current; rb_successor_vac_loop vc s x (right c) successor })"

definition rb_successor_vac :: "vac_heap \<Rightarrow> rb_state \<Rightarrow> u64 \<Rightarrow> addr option" where
  "rb_successor_vac vc s x = do {
     successor \<leftarrow> rb_successor_vac_loop vc s x (rb_root s) NULL;
     Some (if successor \<noteq> NULL then vac_of_node successor else NULL)
   }"

partial_function (option) rb_predeccessor_vac_loop ::
  "vac_heap \<Rightarrow> rb_state \<Rightarrow> u64 \<Rightarrow> addr \<Rightarrow> addr \<Rightarrow> addr option" where
  "rb_predeccessor_vac_loop vc s x current predecessor =
     (if current = NULL then Some predecessor
      else if x > vac_addr (vc (vac_of_node current))
      then do { c \<leftarrow> rd s current; rb_predeccessor_vac_loop vc s x (right c) current }
      else do { c \<leftarrow> rd s current; rb_predeccessor_vac_loop vc s x (left c) predecessor })"

definition rb_predeccessor_vac :: "vac_heap \<Rightarrow> rb_state \<Rightarrow> u64 \<Rightarrow> addr option" where
  "rb_predeccessor_vac vc s x = do {
     predecessor \<leftarrow> rb_predeccessor_vac_loop vc s x (rb_root s) NULL;
     Some (if predecessor \<noteq> NULL then vac_of_node predecessor else NULL)
   }"

partial_function (option) rb_find_vac_loop ::
  "vac_heap \<Rightarrow> rb_state \<Rightarrow> u64 \<Rightarrow> addr \<Rightarrow> addr option" where
  "rb_find_vac_loop vc s x current =
     (if current = NULL then Some NULL
      else if x < vac_addr (vc (vac_of_node current))
      then do { c \<leftarrow> rd s current; rb_find_vac_loop vc s x (left c) }
      else if x \<ge> vac_end (vc (vac_of_node current))
      then do { c \<leftarrow> rd s current; rb_find_vac_loop vc s x (right c) }
      else Some (vac_of_node current))"

definition rb_find_vac :: "vac_heap \<Rightarrow> rb_state \<Rightarrow> u64 \<Rightarrow> addr option" where
  "rb_find_vac vc s x = rb_find_vac_loop vc s x (rb_root s)"

section \<open>The contracts of the tree, for chunks\<close>

definition vac_key :: "vac_heap \<Rightarrow> addr \<Rightarrow> u64" where
  "vac_key vc n = vac_addr (vc (vac_of_node n))"

definition vac_fin :: "vac_heap \<Rightarrow> addr \<Rightarrow> u64" where
  "vac_fin vc n = vac_end (vc (vac_of_node n))"

lemma vac_of_node_node [simp]: "vac_of_node (vac_node v) = v"
  by (simp add: vac_of_node_def vac_node_def)

lemma vac_node_of_node [simp]: "vac_node (vac_of_node n) = n"
  by (simp add: vac_of_node_def vac_node_def)

interpretation vac_order: rb_order "vac_cmp vc" "vac_key vc" for vc
  by unfold_locales (auto simp: vac_cmp_def vac_key_def Let_def)

lemma vac_loops_NULL:
  "rb_successor_vac_loop vc s x NULL d = Some d"
  "rb_predeccessor_vac_loop vc s x NULL d = Some d"
  "rb_find_vac_loop vc s x NULL = Some NULL"
  by (simp_all add: rb_successor_vac_loop.simps rb_predeccessor_vac_loop.simps rb_find_vac_loop.simps)

interpretation vac_search: rb_search "vac_key vc" "vac_fin vc" vac_of_node
  "rb_successor_vac_loop vc" "rb_predeccessor_vac_loop vc" "rb_find_vac_loop vc" for vc
proof (unfold_locales, goal_cases)
  case (2 p x s d)
  then show ?case by (subst rb_successor_vac_loop.simps) (simp add: vac_key_def)
next
  case (3 p x s d)
  then show ?case by (subst rb_successor_vac_loop.simps) (simp add: vac_key_def flip: not_less)
next
  case (5 p x s d)
  then show ?case by (subst rb_predeccessor_vac_loop.simps) (simp add: vac_key_def)
next
  case (6 p x s d)
  then show ?case by (subst rb_predeccessor_vac_loop.simps) (simp add: vac_key_def flip: not_less)
next
  case (8 p x s)
  then show ?case by (subst rb_find_vac_loop.simps) (simp add: vac_key_def)
next
  case (9 p x s)
  then show ?case by (subst rb_find_vac_loop.simps) (simp add: vac_key_def vac_fin_def flip: not_less)
next
  case (10 p x s)
  then show ?case by (subst rb_find_vac_loop.simps) (simp add: vac_key_def vac_fin_def flip: not_less)
qed (simp_all add: vac_loops_NULL)

lemma find_vac_rep:
  assumes "rb_tree (vac_key vc) s t" "disjoint_ranges (vac_key vc) (vac_fin vc) (inorder t)"
  shows "(\<exists>a\<in>nodes t. vac_key vc a \<le> x \<and> x < vac_fin vc a \<and> rb_find_vac vc s x = Some (vac_of_node a)) \<or>
    (\<forall>a\<in>nodes t. \<not> (vac_key vc a \<le> x \<and> x < vac_fin vc a)) \<and> rb_find_vac vc s x = Some NULL"
  using vac_search.find_loop_rep [of s NULL t, OF _ assms(2), of x] assms(1)
  by (simp add: rb_tree_def rb_find_vac_def)

section \<open>Properties\<close>

text \<open>
  C21. A chunk whose address is not yet in the chunk tree can be found after \<open>rb_insert_vac\<close>: the
  insertion returns, the heap holds a red-black tree of the old nodes and the new one, and, when
  the chunk is non-empty and apart from the others, \<open>rb_find_vac\<close> returns it for every address
  of its range.
\<close>

theorem rb_insert_vac_find:
  assumes "rb_tree (vac_key vc) s t" "vac_node v \<noteq> NULL" "vac_node v \<notin> nodes t"
    "disjoint_ranges (vac_key vc) (vac_fin vc) (inorder t)"
    "\<forall>a\<in>nodes t. vac_fin vc a \<le> vac_addr (vc v) \<or> vac_end (vc v) \<le> vac_key vc a"
    "vac_addr (vc v) < vac_end (vc v)"
  shows "\<exists>s' t'. rb_insert_vac vc s v = Some s' \<and> rb_tree (vac_key vc) s' t' \<and>
    nodes t' = insert (vac_node v) (nodes t) \<and>
    (\<forall>x. vac_addr (vc v) \<le> x \<longrightarrow> x < vac_end (vc v) \<longrightarrow> rb_find_vac vc s' x = Some v)"
proof -
  let ?n = "vac_node v"
  have n: "vac_key vc ?n = vac_addr (vc v)" "vac_fin vc ?n = vac_end (vc v)"
    by (simp_all add: vac_key_def vac_fin_def)
  have ne: "\<forall>a\<in>nodes t. vac_key vc a < vac_fin vc a" using assms(4) by (simp add: disjoint_ranges_def)
  have "\<not> (\<exists>a\<in>nodes t. vac_key vc a = vac_key vc ?n)" using ne assms(5,6) n by (metis leD)
  then obtain s' t' where r: "rb_insert s ?n (vac_cmp vc) = Some (?n, s')"
      "rb_tree (vac_key vc) s' t'" "nodes t' = insert ?n (nodes t)"
    using vac_order.insert_correct [OF assms(1-3)] by auto
  have d: "disjoint_ranges (vac_key vc) (vac_fin vc) (inorder t')"
    using r(2,3) assms(5,6) n by (intro disjoint_ranges_insert [OF assms(4)]) (auto simp: rb_tree_def)
  have "rb_find_vac vc s' x = Some v" if x: "vac_addr (vc v) \<le> x" "x < vac_end (vc v)" for x
  proof -
    obtain a where a: "a \<in> nodes t'" "vac_key vc a \<le> x" "x < vac_fin vc a"
        "rb_find_vac vc s' x = Some (vac_of_node a)"
    proof -
      have "\<not> (\<forall>a\<in>nodes t'. \<not> (vac_key vc a \<le> x \<and> x < vac_fin vc a))" using x n r(3) by auto
      with find_vac_rep [OF r(2) d, of x] that show thesis by blast
    qed
    then have "a = ?n" using disjoint_ranges_unique [OF d a(1), of ?n x] x n r(3) by simp
    with a show ?thesis by simp
  qed
  with r show ?thesis by (auto simp: rb_insert_vac_def)
qed

text \<open>
  \<open>rb_remove_vac\<close> of a chunk of the tree takes out exactly that chunk and leaves a red-black
  tree of the others, in the same order.
\<close>

theorem rb_remove_vac_correct:
  assumes "rb_tree (vac_key vc) s t" "vac_node v \<in> nodes t"
  shows "\<exists>s' t'. rb_remove_vac vc s v = Some s' \<and> rb_tree (vac_key vc) s' t' \<and>
    inorder t' = remove1 (vac_node v) (inorder t)"
proof -
  obtain s' t' z where r: "rb_delete s (vac_node v) (vac_cmp vc) = Some (True, s')" "z \<in> nodes t"
      "vac_key vc z = vac_key vc (vac_node v)" "rb_tree (vac_key vc) s' t'" "inorder t' = remove1 z (inorder t)"
    using vac_order.delete_correct [OF assms(1), of "vac_node v"] assms(2) by (metis (no_types))
  have "z = vac_node v" using bst_inj [OF _ r(2) assms(2) r(3)] assms(1) by (simp add: rb_tree_def)
  with r show ?thesis by (auto simp: rb_remove_vac_def)
qed

text \<open>
  \<open>rb_successor_vac\<close> and \<open>rb_predeccessor_vac\<close> return the first chunk that starts above an
  address and the last one that starts below it.
\<close>

theorem rb_neighbours_vac_correct:
  assumes "rb_tree (vac_key vc) s t"
  shows "rb_successor_vac vc s x = Some (let n = first_above (vac_key vc) x (inorder t) NULL in
      if n = NULL then NULL else vac_of_node n) \<and>
    rb_predeccessor_vac vc s x = Some (let n = last_below (vac_key vc) x (inorder t) NULL in
      if n = NULL then NULL else vac_of_node n)"
proof -
  have t: "rb_root s = ptr t" "is_tree (rb_mem s) NULL t" "bst (vac_key vc) t"
    using assms by (auto simp: rb_tree_def)
  show ?thesis
    using vac_search.succ_loop_rep [OF t(2,3), of x NULL] vac_search.pred_loop_rep [OF t(2,3), of x NULL]
    by (simp add: rb_successor_vac_def rb_predeccessor_vac_def t(1) Let_def)
qed

section \<open>A concrete tree\<close>

definition ex_vc :: vac_heap where
  "ex_vc = (\<lambda>_. \<lparr>vac_addr = 0, vac_end = 0\<rparr>)
     (0x1000 := \<lparr>vac_addr = 0x20000, vac_end = 0x22000\<rparr>, 0x2000 := \<lparr>vac_addr = 0x10000, vac_end = 0x12000\<rparr>)"

definition ex_vac_rb :: rb_state where
  "ex_vac_rb = \<lparr>rb_root = 0x1010, rb_mem = (\<lambda>_. \<lparr>right = 0, left = 0, parent = 0, color = 0\<rparr>)
     (0x1010 := \<lparr>right = 0, left = 0, parent = 0, color = RB_BLACK\<rparr>)\<rparr>"

lemma ex_vac_tree: "rb_tree (vac_key ex_vc) ex_vac_rb (Node RB_BLACK Leaf 0x1010 Leaf)"
  by (simp add: rb_tree_def rb_inv_def bst_def ex_vac_rb_def)

theorem rb_insert_vac_witness:
  "\<exists>s'. rb_insert_vac ex_vc ex_vac_rb 0x2000 = Some s' \<and> rb_find_vac ex_vc s' 0x11fff = Some 0x2000"
  using rb_insert_vac_find [OF ex_vac_tree, of "0x2000"]
  by (auto simp: ex_vc_def vac_key_def vac_fin_def vac_node_def vac_of_node_def disjoint_ranges_def)

theorem rb_remove_vac_witness:
  "\<exists>s' t'. rb_remove_vac ex_vc ex_vac_rb 0x1000 = Some s' \<and> rb_tree (vac_key ex_vc) s' t' \<and> inorder t' = []"
  using rb_remove_vac_correct [OF ex_vac_tree, of "0x1000"] by (auto simp: vac_node_def)

theorem rb_neighbours_vac_witness:
  "rb_successor_vac ex_vc ex_vac_rb 0x100 = Some 0x1000 \<and> rb_predeccessor_vac ex_vc ex_vac_rb 0x100 = Some NULL"
  using rb_neighbours_vac_correct [OF ex_vac_tree, of "0x100"]
  by (simp add: first_above_def last_below_def vac_key_def vac_of_node_def ex_vc_def)

end
