(* ===== verification/Spinlock.thy ===== *)
theory Spinlock
  imports Prelude
begin

text \<open>
  \<^verbatim>\<open>src/mikroKernellib/spinlocks.asm\<close> and \<^verbatim>\<open>include/spinlocks.h\<close>: the ticket lock that guards the
  allocators and the kernel's page table, with any number of processors running \<open>spinlock_acquire\<close> and
  \<open>spinlock_release\<close> at once.

  The step relation takes one memory access of one processor at a time; instructions that touch only
  registers of their processor go with the access that follows or precedes them. \<open>flags\<close> is the RFLAGS
  register of each processor, \<open>apic\<close> what \<open>cpuid\<close> reports as its identifier. The lock is represented
  by the queue of the processors that have drawn a ticket. The sequential models of the allocators take
  a lock as one bit, which the theorems here justify: a lock is held by one processor at a time, with
  its interrupts disabled.
\<close>

section \<open>The lock\<close>

record spinlock_t =
  ticket :: u16
  serving :: u16
  cpu_id :: u32
  rflags :: u64

definition spinlock_init :: "spinlock_t \<Rightarrow> spinlock_t" where
  "spinlock_init lk = lk\<lparr>ticket := 0, serving := 0, cpu_id := 0xFFFFFFFF, rflags := 0\<rparr>"

definition clear_if :: "u64 \<Rightarrow> u64" where
  "clear_if f = f AND NOT 0x200"

text \<open>
  Where a processor stands: outside; spinning with its ticket in \<open>ax\<close> and its flags in \<open>rdx\<close>; past the
  comparison; past the write of \<open>rflags\<close>; holding the lock; in the release with the saved flags in \<open>rdx\<close>,
  before the write of \<open>cpu_id\<close>, before that of \<open>serving\<close>, and before its \<open>popfq\<close>.
\<close>

datatype pc =
    Outside
  | Spinning u16 u64
  | Entering u64
  | Naming
  | Holding
  | Leaving u64
  | Passing u64
  | Restoring u64

record lock_state =
  lk :: spinlock_t
  pcs :: "nat \<Rightarrow> pc"
  flags :: "nat \<Rightarrow> u64"

inductive lock_step :: "(nat \<Rightarrow> u32) \<Rightarrow> nat \<Rightarrow> lock_state \<Rightarrow> lock_state \<Rightarrow> bool" for apic n where
  draw: "i < n \<Longrightarrow> pcs s i = Outside \<Longrightarrow>
    lock_step apic n s (s\<lparr>lk := (lk s)\<lparr>ticket := ticket (lk s) + 1\<rparr>, pcs := (pcs s)(i := Spinning (ticket (lk s)) (flags s i)),
      flags := (flags s)(i := clear_if (flags s i))\<rparr>)"
| spin: "pcs s i = Spinning t f \<Longrightarrow> serving (lk s) \<noteq> t \<Longrightarrow> lock_step apic n s s"
| won: "pcs s i = Spinning t f \<Longrightarrow> serving (lk s) = t \<Longrightarrow> lock_step apic n s (s\<lparr>pcs := (pcs s)(i := Entering f)\<rparr>)"
| locked: "pcs s i = Entering f \<Longrightarrow> lock_step apic n s (s\<lparr>lk := (lk s)\<lparr>rflags := f\<rparr>, pcs := (pcs s)(i := Naming)\<rparr>)"
| named: "pcs s i = Naming \<Longrightarrow> lock_step apic n s (s\<lparr>lk := (lk s)\<lparr>cpu_id := apic i\<rparr>, pcs := (pcs s)(i := Holding)\<rparr>)"
| release: "pcs s i = Holding \<Longrightarrow> lock_step apic n s (s\<lparr>pcs := (pcs s)(i := Leaving (rflags (lk s)))\<rparr>)"
| unnamed: "pcs s i = Leaving f \<Longrightarrow>
    lock_step apic n s (s\<lparr>lk := (lk s)\<lparr>cpu_id := 0xFFFFFFFF\<rparr>, pcs := (pcs s)(i := Passing f)\<rparr>)"
| served: "pcs s i = Passing f \<Longrightarrow>
    lock_step apic n s (s\<lparr>lk := (lk s)\<lparr>serving := serving (lk s) + 1\<rparr>, pcs := (pcs s)(i := Restoring f)\<rparr>)"
| restore: "pcs s i = Restoring f \<Longrightarrow>
    lock_step apic n s (s\<lparr>pcs := (pcs s)(i := Outside), flags := (flags s)(i := f)\<rparr>)"

text \<open>The states reachable from a lock just initialised, when the processors have the flags \<open>f\<close>.\<close>

inductive reachable :: "(nat \<Rightarrow> u32) \<Rightarrow> nat \<Rightarrow> (nat \<Rightarrow> u64) \<Rightarrow> lock_state \<Rightarrow> bool" for apic n f where
  start: "reachable apic n f \<lparr>lk = spinlock_init l, pcs = \<lambda>_. Outside, flags = f\<rparr>"
| step: "reachable apic n f s \<Longrightarrow> lock_step apic n s s' \<Longrightarrow> reachable apic n f s'"

section \<open>The queue behind the tickets\<close>

definition owns :: "pc \<Rightarrow> bool" where
  "owns p \<longleftrightarrow> (case p of Entering _ \<Rightarrow> True | Naming \<Rightarrow> True | Holding \<Rightarrow> True | Leaving _ \<Rightarrow> True | Passing _ \<Rightarrow> True | _ \<Rightarrow> False)"

definition waits :: "pc \<Rightarrow> u16 \<Rightarrow> bool" where
  "waits p t \<longleftrightarrow> (\<exists>f. p = Spinning t f)"

definition queued :: "nat \<Rightarrow> lock_state \<Rightarrow> nat list \<Rightarrow> bool" where
  "queued n s q \<longleftrightarrow>
     distinct q \<and> set q \<subseteq> {..<n} \<and> ticket (lk s) = serving (lk s) + of_nat (length q) \<and>
     (\<forall>k<length q. waits (pcs s (q ! k)) (serving (lk s) + of_nat k) \<or> k = 0 \<and> owns (pcs s (q ! k))) \<and>
     (\<forall>i. i \<notin> set q \<longrightarrow> pcs s i = Outside \<or> (\<exists>f. pcs s i = Restoring f))"

text \<open>
  The flags a processor will have when it is outside again: its own there, and otherwise those it carries in
  \<open>rdx\<close> or has left in the lock.
\<close>

definition saved_flags :: "lock_state \<Rightarrow> nat \<Rightarrow> u64" where
  "saved_flags s i = (case pcs s i of
       Outside \<Rightarrow> flags s i
     | Spinning t f \<Rightarrow> f
     | Entering f \<Rightarrow> f
     | Naming \<Rightarrow> rflags (lk s)
     | Holding \<Rightarrow> rflags (lk s)
     | Leaving f \<Rightarrow> f
     | Passing f \<Rightarrow> f
     | Restoring f \<Rightarrow> f)"

definition flags_ok :: "(nat \<Rightarrow> u64) \<Rightarrow> lock_state \<Rightarrow> bool" where
  "flags_ok f0 s \<longleftrightarrow>
     (\<forall>i. saved_flags s i = f0 i \<and> flags s i = (if pcs s i = Outside then f0 i else clear_if (f0 i)))"

lemma queued_length: "queued n s q \<Longrightarrow> length q \<le> n"
  using card_mono [of "{..<n}" "set q"] distinct_card [of q] by (auto simp: queued_def)

lemma queued_in: "queued n s q \<Longrightarrow> pcs s i \<noteq> Outside \<Longrightarrow> \<forall>f. pcs s i \<noteq> Restoring f \<Longrightarrow> i \<in> set q"
  by (auto simp: queued_def)

lemma queued_owner: "queued n s q \<Longrightarrow> owns (pcs s i) \<Longrightarrow> q \<noteq> [] \<and> i = q ! 0"
proof -
  assume q: "queued n s q" "owns (pcs s i)"
  then have "i \<in> set q" by (intro queued_in) (auto simp: owns_def)
  then obtain k where k: "k < length q" "i = q ! k" by (auto simp: in_set_conv_nth)
  then have "k = 0" using q by (auto simp: queued_def waits_def owns_def)
  then show ?thesis using k by auto
qed

lemma queued_front:
  assumes q: "queued n s q" and n: "n < 2 ^ 16" and i: "pcs s i = Spinning (serving (lk s)) f"
  shows "q \<noteq> [] \<and> i = q ! 0"
proof -
  have "i \<in> set q" using queued_in [OF q] i by auto
  then obtain k where k: "k < length q" "i = q ! k" by (auto simp: in_set_conv_nth)
  then have "serving (lk s) + of_nat k = serving (lk s)" using q i by (auto simp: queued_def waits_def owns_def)
  then have "(of_nat k :: u16) = 0" by simp
  moreover have "unat (of_nat k :: u16) = k" using k(1) queued_length [OF q] n by (intro unat_of_nat_id) simp
  ultimately have "k = 0" by simp
  then show ?thesis using k by auto
qed

text \<open>
  A step of the front processor that keeps its place, and the three steps that change the queue: a
  processor joins at the back, the front leaves, and one outside the queue comes back.
\<close>

lemma queued_front_step:
  assumes q: "queued n s q" and h: "q \<noteq> [] \<and> i = q ! 0" and p: "owns p"
    and s': "pcs s' = (pcs s)(i := p)" "ticket (lk s') = ticket (lk s)" "serving (lk s') = serving (lk s)"
  shows "queued n s' q"
proof -
  have "waits (pcs s' (q ! k)) (serving (lk s) + of_nat k) \<or> k = 0 \<and> owns (pcs s' (q ! k))" if k: "k < length q" for k
  proof (cases "k = 0")
    case True
    then show ?thesis using h p by (simp add: s'(1))
  next
    case False
    then have "q ! k \<noteq> i" using q h k by (auto simp: queued_def nth_eq_iff_index_eq)
    then show ?thesis using q k False by (auto simp: queued_def s'(1))
  qed
  moreover have "i \<in> set q" using h by auto
  ultimately show ?thesis using q unfolding queued_def s'(2,3) by (auto simp: s'(1))
qed

lemma queued_join:
  assumes q: "queued n s q" and i: "i < n" "pcs s i = Outside"
    and s': "pcs s' = (pcs s)(i := Spinning (ticket (lk s)) f)" "ticket (lk s') = ticket (lk s) + 1" "serving (lk s') = serving (lk s)"
  shows "queued n s' (q @ [i])"
proof -
  have new: "i \<notin> set q"
  proof
    assume "i \<in> set q"
    then obtain k where "k < length q" "i = q ! k" by (auto simp: in_set_conv_nth)
    then show False using q i(2) by (auto simp: queued_def waits_def owns_def)
  qed
  then have old: "pcs s' (q ! k) = pcs s (q ! k)" if "k < length q" for k using that by (auto simp: s'(1))
  have "waits (pcs s' ((q @ [i]) ! k)) (serving (lk s') + of_nat k) \<or> k = 0 \<and> owns (pcs s' ((q @ [i]) ! k))"
    if k: "k < length (q @ [i])" for k
  proof (cases "k < length q")
    case True
    then show ?thesis using q old by (auto simp: queued_def s'(3) nth_append)
  next
    case False
    then have "k = length q" using k by simp
    then show ?thesis using q by (simp add: queued_def s'(1,3) waits_def)
  qed
  moreover have "distinct (q @ [i])" "set (q @ [i]) \<subseteq> {..<n}" "ticket (lk s') = serving (lk s') + of_nat (length (q @ [i]))"
    using q new i(1) by (auto simp: queued_def s'(2,3))
  moreover have "\<forall>j. j \<notin> set (q @ [i]) \<longrightarrow> pcs s' j = Outside \<or> (\<exists>f. pcs s' j = Restoring f)" using q by (auto simp: queued_def s'(1))
  ultimately show ?thesis unfolding queued_def by blast
qed

lemma queued_leave:
  assumes q: "queued n s q" and h: "q \<noteq> [] \<and> i = q ! 0"
    and s': "pcs s' = (pcs s)(i := Restoring f)" "ticket (lk s') = ticket (lk s)" "serving (lk s') = serving (lk s) + 1"
  shows "queued n s' (tl q)"
proof -
  obtain r where r: "q = i # r" using h by (cases q) auto
  have "waits (pcs s' (r ! k)) (serving (lk s) + 1 + of_nat k)" if "k < length r" for k
  proof -
    have "waits (pcs s (q ! Suc k)) (serving (lk s) + of_nat (Suc k))" using q that unfolding queued_def by (auto simp: r)
    moreover have "r ! k \<noteq> i" using q that by (auto simp: queued_def r)
    ultimately show ?thesis by (simp add: r s'(1) ac_simps)
  qed
  moreover have "ticket (lk s) = serving (lk s) + 1 + of_nat (length r)" using q by (simp add: queued_def r ac_simps)
  ultimately show ?thesis using q unfolding queued_def s'(2,3) by (auto simp: r s'(1))
qed

lemma queued_outside:
  assumes q: "queued n s q" and i: "pcs s i = Restoring f"
    and s': "pcs s' = (pcs s)(i := Outside)" "ticket (lk s') = ticket (lk s)" "serving (lk s') = serving (lk s)"
  shows "queued n s' q"
proof -
  have "i \<noteq> q ! k" if "k < length q" for k using q i that by (force simp: queued_def waits_def owns_def)
  then show ?thesis using q unfolding queued_def s'(2,3) by (auto simp: s'(1))
qed

lemma queued_step:
  assumes n: "n < 2 ^ 16" and q: "queued n s q" and st: "lock_step apic n s s'"
  shows "\<exists>q'. queued n s' q' \<and> (q' = q \<or> (\<exists>i. q' = q @ [i]) \<or> q \<noteq> [] \<and> q' = tl q)"
  using st
proof cases
  case (draw i)
  then show ?thesis using queued_join [OF q draw(2,3), of s'] by auto
next
  case (spin i t f)
  then show ?thesis using q by auto
next
  case (won i t f)
  then show ?thesis using queued_front_step [OF q queued_front [OF q n], of i f "Entering f" s'] by (auto simp: owns_def)
next
  case (locked i f)
  then show ?thesis using queued_front_step [OF q queued_owner [OF q, of i], of Naming s'] by (auto simp: owns_def)
next
  case (named i)
  then show ?thesis using queued_front_step [OF q queued_owner [OF q, of i], of Holding s'] by (auto simp: owns_def)
next
  case (release i)
  then show ?thesis using queued_front_step [OF q queued_owner [OF q, of i], of "Leaving (rflags (lk s))" s'] by (auto simp: owns_def)
next
  case (unnamed i f)
  then show ?thesis using queued_front_step [OF q queued_owner [OF q, of i], of "Passing f" s'] by (auto simp: owns_def)
next
  case (served i f)
  then show ?thesis using queued_leave [OF q queued_owner [OF q, of i], of s' f] queued_owner [OF q, of i] by (auto simp: owns_def)
next
  case (restore i f)
  then show ?thesis using queued_outside [OF q restore(2), of s'] by auto
qed

lemma flags_step:
  assumes q: "queued n s q" and f: "flags_ok f0 s" and st: "lock_step apic n s s'"
  shows "flags_ok f0 s'"
proof -
  have own: "j = i" if "owns (pcs s i)" "owns (pcs s j)" for i j using queued_owner [OF q] that by metis
  have fi: "saved_flags s i = f0 i" "flags s i = (if pcs s i = Outside then f0 i else clear_if (f0 i))" for i
    using f by (simp_all add: flags_ok_def)
  show ?thesis using st
  proof cases
    case (locked i g)
    have "pcs s j \<noteq> Naming \<and> pcs s j \<noteq> Holding" if "j \<noteq> i" for j using own [of i j] locked that by (auto simp: owns_def)
    then have "saved_flags s' j = f0 j \<and> flags s' j = (if pcs s' j = Outside then f0 j else clear_if (f0 j))" for j
      using fi [of j] locked by (cases "j = i"; cases "pcs s j") (auto simp: saved_flags_def)
    then show ?thesis by (simp add: flags_ok_def)
  qed (use fi in \<open>force simp: flags_ok_def saved_flags_def split: pc.splits\<close>)+
qed

lemma reachable_queued: "reachable apic n f s \<Longrightarrow> n < 2 ^ 16 \<Longrightarrow> (\<exists>q. queued n s q) \<and> flags_ok f s"
proof (induction rule: reachable.induct)
  case (start l)
  have "queued n \<lparr>lk = spinlock_init l, pcs = \<lambda>_. Outside, flags = f\<rparr> []" by (simp add: queued_def spinlock_init_def)
  then show ?case by (auto simp: flags_ok_def saved_flags_def)
next
  case (step s s')
  then show ?case using queued_step flags_step by metis
qed

text \<open>Runs of the lock.\<close>

inductive lock_steps :: "(nat \<Rightarrow> u32) \<Rightarrow> nat \<Rightarrow> lock_state \<Rightarrow> lock_state \<Rightarrow> bool" for apic n where
  stop: "lock_steps apic n s s"
| more: "lock_step apic n s s' \<Longrightarrow> lock_steps apic n s' s'' \<Longrightarrow> lock_steps apic n s s''"

lemma lock_steps_trans: "lock_steps apic n s s' \<Longrightarrow> lock_steps apic n s' s'' \<Longrightarrow> lock_steps apic n s s''"
  by (induction rule: lock_steps.induct) (auto intro: lock_steps.intros)

text \<open>What the front processor does on its own, as a function; it reaches the end of its release.\<close>

lemma front_passes:
  assumes q: "queued n s (i # q)"
  shows "\<exists>s'. lock_steps apic n s s' \<and> queued n s' q \<and> (\<forall>j. j \<noteq> i \<longrightarrow> pcs s' j = pcs s j)"
proof -
  have pass: "\<exists>s'. lock_steps apic n s s' \<and> queued n s' q \<and> (\<forall>j. j \<noteq> i \<longrightarrow> pcs s' j = pcs s j)"
    if "pcs s i = Passing f" "queued n s (i # q)" for s f
  proof -
    let ?s = "s\<lparr>lk := (lk s)\<lparr>serving := serving (lk s) + 1\<rparr>, pcs := (pcs s)(i := Restoring f)\<rparr>"
    have "queued n ?s (tl (i # q))" using queued_leave [OF that(2), of i ?s f] by simp
    moreover have "lock_steps apic n s ?s" by (rule more [OF served [OF that(1)] stop])
    ultimately show ?thesis by (intro exI [of _ ?s]) simp
  qed
  have one: "\<exists>s'. lock_steps apic n s s' \<and> queued n s' q \<and> (\<forall>j. j \<noteq> i \<longrightarrow> pcs s' j = pcs s j)"
    if st: "lock_step apic n s s1" "pcs s1 = (pcs s)(i := p)" "owns p" "ticket (lk s1) = ticket (lk s)" "serving (lk s1) = serving (lk s)"
      and q: "queued n s (i # q)"
      and rest: "queued n s1 (i # q) \<Longrightarrow> \<exists>s'. lock_steps apic n s1 s' \<and> queued n s' q \<and> (\<forall>j. j \<noteq> i \<longrightarrow> pcs s' j = pcs s1 j)" for s s1 p
  proof -
    have "queued n s1 (i # q)" using queued_front_step [OF q _ st(3,2,4,5)] by simp
    from rest [OF this] show ?thesis using more [OF st(1)] by (auto simp: st(2))
  qed
  have leave: "\<exists>s'. lock_steps apic n s s' \<and> queued n s' q \<and> (\<forall>j. j \<noteq> i \<longrightarrow> pcs s' j = pcs s j)"
    if "pcs s i = Leaving f" "queued n s (i # q)" for s f
    using one [OF unnamed [OF that(1)] _ _ _ _ that(2) pass, of "Passing f" f] by (simp add: owns_def)
  have hold: "\<exists>s'. lock_steps apic n s s' \<and> queued n s' q \<and> (\<forall>j. j \<noteq> i \<longrightarrow> pcs s' j = pcs s j)"
    if "pcs s i = Holding" "queued n s (i # q)" for s
    using one [OF release [OF that(1)] _ _ _ _ that(2) leave, of "Leaving (rflags (lk s))" "rflags (lk s)"] by (simp add: owns_def)
  have name: "\<exists>s'. lock_steps apic n s s' \<and> queued n s' q \<and> (\<forall>j. j \<noteq> i \<longrightarrow> pcs s' j = pcs s j)"
    if "pcs s i = Naming" "queued n s (i # q)" for s
    using one [OF named [OF that(1)] _ _ _ _ that(2) hold, of Holding] by (simp add: owns_def)
  have enter: "\<exists>s'. lock_steps apic n s s' \<and> queued n s' q \<and> (\<forall>j. j \<noteq> i \<longrightarrow> pcs s' j = pcs s j)"
    if "pcs s i = Entering f" "queued n s (i # q)" for s f
    using one [OF locked [OF that(1)] _ _ _ _ that(2) name, of Naming] by (simp add: owns_def)
  have "waits (pcs s i) (serving (lk s)) \<or> owns (pcs s i)" using q unfolding queued_def by force
  then consider f where "pcs s i = Spinning (serving (lk s)) f" | f where "pcs s i = Entering f" | "pcs s i = Naming" | "pcs s i = Holding"
    | f where "pcs s i = Leaving f" | f where "pcs s i = Passing f"
    by (auto simp: waits_def owns_def split: pc.splits)
  then show ?thesis
  proof cases
    case (1 f)
    then show ?thesis using one [OF won [OF 1 refl] _ _ _ _ q enter, of "Entering f" f] by (simp add: owns_def)
  qed (use enter name hold leave pass q in blast)+
qed

section \<open>Properties\<close>

text \<open>
  C28. In every reachable state of up to 65535 processors, at most one is between the won comparison
  and the write of \<open>serving\<close>. While it holds the lock its interrupts are disabled and \<open>rflags\<close> of the lock
  has the flags it came with; and every processor outside has the flags it had before it ever took
  the lock, so that a release restores them.
\<close>

theorem spinlock_mutual_exclusion:
  assumes "n < 2 ^ 16" "reachable apic n f s"
  shows "(\<forall>i j. owns (pcs s i) \<and> owns (pcs s j) \<longrightarrow> i = j) \<and>
    (\<forall>i. pcs s i = Holding \<longrightarrow> flags s i = clear_if (rflags (lk s)) \<and> \<not> bit (flags s i) 9 \<and> rflags (lk s) = f i) \<and>
    (\<forall>i. pcs s i = Outside \<longrightarrow> flags s i = f i)"
proof -
  obtain q where q: "queued n s q" and f: "flags_ok f s" using reachable_queued [OF assms(2,1)] by blast
  have "\<not> bit (clear_if x) 9" for x by (simp add: clear_if_def bit_simps)
  moreover have "flags s i = clear_if (rflags (lk s)) \<and> rflags (lk s) = f i" if "pcs s i = Holding" for i
    using f [unfolded flags_ok_def, rule_format, of i] that by (simp add: saved_flags_def)
  moreover have "flags s i = f i" if "pcs s i = Outside" for i using f that by (simp add: flags_ok_def)
  moreover have "i = j" if "owns (pcs s i)" "owns (pcs s j)" for i j using queued_owner [OF q that(1)] queued_owner [OF q that(2)] by simp
  ultimately show ?thesis by auto
qed

text \<open>
  C29. The lock is served in the order the tickets were drawn: in every reachable state the processors
  that have drawn a ticket stand in a queue, and every step leaves the queue as it is, adds a
  processor at its back, or takes its front away. The 16-bit tickets may wrap around.
\<close>

theorem spinlock_fifo:
  assumes "n < 2 ^ 16" "reachable apic n f s"
  shows "\<exists>q. queued n s q \<and>
    (\<forall>s'. lock_step apic n s s' \<longrightarrow> (\<exists>q'. queued n s' q' \<and> (q' = q \<or> (\<exists>i. q' = q @ [i]) \<or> q \<noteq> [] \<and> q' = tl q)))"
  using reachable_queued [OF assms(2,1)] queued_step [OF assms(1)] by metis

text \<open>
  C30. A processor that spins gets the lock once those before it have left: from every reachable state
  there is a run after which it holds the lock. So no state is a deadlock.
\<close>

theorem spinlock_progress:
  assumes "n < 2 ^ 16" "reachable apic n f0 s" "pcs s i = Spinning t f"
  shows "\<exists>s'. lock_steps apic n s s' \<and> pcs s' i = Holding"
proof -
  have "\<exists>s'. lock_steps apic n s s' \<and> pcs s' i = Holding" if "queued n s q" "pcs s i = Spinning t f" for q s
    using that
  proof (induction q arbitrary: s)
    case Nil
    have "pcs s i = Outside \<or> (\<exists>f. pcs s i = Restoring f)" using Nil.prems(1) by (simp add: queued_def)
    then show ?case using Nil.prems(2) by auto
  next
    case (Cons j q)
    show ?case
    proof (cases "i = j")
      case True
      then have "serving (lk s) = t" using Cons.prems unfolding queued_def by (force simp: waits_def owns_def)
      let ?s1 = "s\<lparr>pcs := (pcs s)(i := Entering f)\<rparr>"
      let ?s2 = "?s1\<lparr>lk := (lk ?s1)\<lparr>rflags := f\<rparr>, pcs := (pcs ?s1)(i := Naming)\<rparr>"
      let ?s3 = "?s2\<lparr>lk := (lk ?s2)\<lparr>cpu_id := apic i\<rparr>, pcs := (pcs ?s2)(i := Holding)\<rparr>"
      have "lock_step apic n s ?s1" by (rule won [OF Cons.prems(2)]) fact
      moreover have "lock_step apic n ?s1 ?s2" by (rule locked) simp
      moreover have "lock_step apic n ?s2 ?s3" by (rule named) simp
      ultimately have "lock_steps apic n s ?s3" by (blast intro: lock_steps.intros)
      then show ?thesis by (intro exI [of _ ?s3]) simp
    next
      case False
      obtain s' where s': "lock_steps apic n s s'" "queued n s' q" "pcs s' i = pcs s i" using front_passes [OF Cons.prems(1)] False by blast
      then show ?thesis using Cons.IH [OF s'(2)] Cons.prems(2) lock_steps_trans [OF s'(1)] by auto
    qed
  qed
  then show ?thesis using reachable_queued [OF assms(2,1)] assms(3) by blast
qed

section \<open>Witnesses\<close>

text \<open>Two processors with interrupts enabled draw a ticket, the first one takes the lock.\<close>

lemma ex_lock: "\<exists>s. reachable (\<lambda>_. 0) 2 (\<lambda>_. 0x202) s \<and> pcs s 0 = Holding \<and> pcs s 1 = Spinning 1 0x202"
proof -
  define s0 where "s0 = \<lparr>lk = spinlock_init \<lparr>ticket = 0, serving = 0, cpu_id = 0, rflags = 0\<rparr>, pcs = \<lambda>_. Outside, flags = \<lambda>_. 0x202\<rparr>"
  define s1 where "s1 = s0\<lparr>lk := (lk s0)\<lparr>ticket := ticket (lk s0) + 1\<rparr>, pcs := (pcs s0)(0 := Spinning (ticket (lk s0)) (flags s0 0)),
    flags := (flags s0)(0 := clear_if (flags s0 0))\<rparr>"
  define s2 where "s2 = s1\<lparr>lk := (lk s1)\<lparr>ticket := ticket (lk s1) + 1\<rparr>, pcs := (pcs s1)(1 := Spinning (ticket (lk s1)) (flags s1 1)),
    flags := (flags s1)(1 := clear_if (flags s1 1))\<rparr>"
  define s3 where "s3 = s2\<lparr>pcs := (pcs s2)(0 := Entering 0x202)\<rparr>"
  define s4 where "s4 = s3\<lparr>lk := (lk s3)\<lparr>rflags := 0x202\<rparr>, pcs := (pcs s3)(0 := Naming)\<rparr>"
  define s5 where "s5 = s4\<lparr>lk := (lk s4)\<lparr>cpu_id := (\<lambda>_. 0) (0 :: nat)\<rparr>, pcs := (pcs s4)(0 := Holding)\<rparr>"
  have "lock_step (\<lambda>_. 0) 2 s0 s1" unfolding s1_def by (rule draw) (simp_all add: s0_def)
  moreover have "lock_step (\<lambda>_. 0) 2 s1 s2" unfolding s2_def by (rule draw) (simp_all add: s1_def s0_def)
  moreover have "lock_step (\<lambda>_. 0) 2 s2 s3" unfolding s3_def by (rule won) (simp_all add: s2_def s1_def s0_def spinlock_init_def)
  moreover have "lock_step (\<lambda>_. 0) 2 s3 s4" unfolding s4_def by (rule locked) (simp add: s3_def)
  moreover have "lock_step (\<lambda>_. 0) 2 s4 s5" unfolding s5_def by (rule named) (simp add: s4_def)
  moreover have "reachable (\<lambda>_. 0) 2 (\<lambda>_. 0x202) s0" unfolding s0_def by (rule start)
  ultimately have "reachable (\<lambda>_. 0) 2 (\<lambda>_. 0x202) s5" using reachable.step [of "\<lambda>_. 0" 2 "\<lambda>_. 0x202"] by metis
  then show ?thesis
    by (intro exI [of _ s5]) (simp add: s5_def s4_def s3_def s2_def s1_def s0_def spinlock_init_def)
qed

theorem spinlock_mutual_exclusion_witness:
  "\<exists>s. reachable (\<lambda>_. 0) 2 (\<lambda>_. 0x202) s \<and> pcs s 0 = Holding \<and> \<not> owns (pcs s 1) \<and> \<not> bit (flags s 0) 9 \<and> rflags (lk s) = 0x202"
proof -
  obtain s where s: "reachable (\<lambda>_. 0) 2 (\<lambda>_. 0x202) s" "pcs s 0 = Holding" using ex_lock by blast
  have n: "(2::nat) < 2 ^ 16" by simp
  have "owns (pcs s 0)" using s(2) by (simp add: owns_def)
  then have "\<not> owns (pcs s 1)" using spinlock_mutual_exclusion [OF n s(1)] by (metis zero_neq_one)
  moreover have "\<not> bit (flags s 0) 9 \<and> rflags (lk s) = 0x202" using spinlock_mutual_exclusion [OF n s(1)] s(2) by blast
  ultimately have "\<not> owns (pcs s 1) \<and> \<not> bit (flags s 0) 9 \<and> rflags (lk s) = 0x202" by blast
  then show ?thesis using s by blast
qed

theorem spinlock_fifo_witness: "\<exists>s q. reachable (\<lambda>_. 0) 2 (\<lambda>_. 0x202) s \<and> queued 2 s q \<and> pcs s 0 = Holding"
proof -
  obtain s where s: "reachable (\<lambda>_. 0) 2 (\<lambda>_. 0x202) s" "pcs s 0 = Holding" using ex_lock by blast
  then show ?thesis using spinlock_fifo [OF _ s(1)] by auto
qed

theorem spinlock_progress_witness:
  "\<exists>s s'. pcs s 0 = Holding \<and> pcs s 1 = Spinning 1 0x202 \<and> lock_steps (\<lambda>_. 0) 2 s s' \<and> pcs s' 1 = Holding"
proof -
  obtain s where s: "reachable (\<lambda>_. 0) 2 (\<lambda>_. 0x202) s" "pcs s 0 = Holding" "pcs s 1 = Spinning 1 0x202" using ex_lock by blast
  then show ?thesis using spinlock_progress [OF _ s(1,3)] by auto
qed

end
