(* ===== verification/Vm_Entry.thy ===== *)
theory Vm_Entry
  imports Percpu Virt_Kmalloc Spinlock
begin

text \<open>
  The entry points of \<^verbatim>\<open>src/mikroKernellib/vm.c\<close> and \<^verbatim>\<open>src/mikroKernellib/virt_kmalloc.c\<close> that have a body,
  over the structs of \<^verbatim>\<open>include/tasks.h\<close>. \<open>vm_mmap\<close> and \<open>vm_handle_page_fault\<close> find the memory map of the current
  task and stop there; what is left of them is which pointers they follow, and that nothing changes. \<open>vm_mmap\<close>
  ends without a value.
\<close>

section \<open>Tasks\<close>

record mm =
  phys_pml4t :: u64
  vma_tree :: addr
  mm_lock :: addr

record task_struct =
  pid :: "32 word"
  tgid :: "32 word"
  task_mm :: addr

record 'c vm_state =
  vm_percpu :: "'c percpu_state"
  vm_tasks :: "addr \<Rightarrow> task_struct"
  vm_mms :: "addr \<Rightarrow> mm"

text \<open>\<open>current->task_mm->vma_tree\<close>: two pointers, either of which may be \<open>NULL\<close>.\<close>

definition current_mm :: "'c gs_ops \<Rightarrow> cpu_local_struct \<Rightarrow> nat \<Rightarrow> 'c vm_state \<Rightarrow> mm option" where
  "current_mm ops cl i s = do {
     current \<leftarrow> cpu_get_current_task ops cl i (vm_percpu s);
     if current = NULL then None
     else let m = task_mm (vm_tasks s current) in
       if m = NULL then None else Some (vm_mms s m)
   }"

definition vm_handle_userland_fault :: "u64 \<Rightarrow> mm \<Rightarrow> 'c vm_state \<Rightarrow> 'c vm_state" where
  "vm_handle_userland_fault va m s = s"

definition vm_handle_page_fault :: "'c gs_ops \<Rightarrow> cpu_local_struct \<Rightarrow> nat \<Rightarrow> u64 \<Rightarrow> 'c vm_state \<Rightarrow> 'c vm_state option" where
  "vm_handle_page_fault ops cl i va s =
     (if va < PML4_KERNEL_HALF_BASE
      then Some (vm_handle_userland_fault va \<lparr>phys_pml4t = 0, vma_tree = 0, mm_lock = 0\<rparr> s)
      else do { m \<leftarrow> current_mm ops cl i s; let rb_root = vma_tree m in Some s })"

definition vm_mmap :: "'c gs_ops \<Rightarrow> cpu_local_struct \<Rightarrow> nat \<Rightarrow> 'c vm_state \<Rightarrow> 'c vm_state option" where
  "vm_mmap ops cl i s = do { m \<leftarrow> current_mm ops cl i s; let rb_root = vma_tree m; pml4t = phys_pml4t m in Some s }"

text \<open>A fault in the user half always returns; one in the kernel half returns when the processor has a task with a memory map.\<close>

lemma vm_handle_page_fault_eq:
  "vm_handle_page_fault ops cl i va s =
     (if va < PML4_KERNEL_HALF_BASE \<or> current_mm ops cl i s \<noteq> None then Some s else None)"
  by (auto simp: vm_handle_page_fault_def vm_handle_userland_fault_def Let_def split: Option.bind_split)

text \<open>With the task set on a started processor, the map that is found is that task's.\<close>

lemma current_mm_after_set:
  assumes "percpu_inv ops cl cache ids cid (vm_percpu s)" "struct_ok cl" "i \<in> ids" "task \<noteq> NULL" "task_mm (vm_tasks s task) \<noteq> NULL"
  shows "\<exists>p. cpu_set_current ops cl i task (vm_percpu s) = Some p \<and>
    current_mm ops cl i (s\<lparr>vm_percpu := p\<rparr>) = Some (vm_mms s (task_mm (vm_tasks s task)))"
  using cpu_current_spec [OF assms(1-3) assms(3), of task] assms(4,5) by (auto simp: current_mm_def)

section \<open>The chunk allocator\<close>

record vac_state =
  vac_rb :: rb_state
  vac_rb_spinlock :: spinlock_t
  vac_kmem :: slab_state

definition sizeof_vac :: u64 where
  "sizeof_vac = 48"

text \<open>\<open>cache\<close> is the address of the static \<open>vac_cache\<close>.\<close>

definition init_virt_kmalloc :: "addr \<Rightarrow> vac_state \<Rightarrow> vac_state option" where
  "init_virt_kmalloc cache s =
     (let s = s\<lparr>vac_rb_spinlock := spinlock_init (vac_rb_spinlock s)\<rparr> in
      do { (c, k) \<leftarrow> kmem_cache_create_sl (vac_kmem s) cache sizeof_vac; Some (s\<lparr>vac_kmem := k\<rparr>) })"

definition virt_kfree :: "addr \<Rightarrow> vac_state \<Rightarrow> vac_state" where
  "virt_kfree p s = s"

lemma init_virt_kmalloc_rep:
  assumes "buddy_inv (buddy (vac_kmem s)) fl" "\<not> slab_lock (vac_kmem s)" "cache \<noteq> NULL"
    "\<forall>h\<in>{free_slabs cache, partial_slabs cache, full_slabs cache}. unat h \<notin> free_bytes fl"
  shows "\<exists>t. init_virt_kmalloc cache s = Some t \<and> slab_rep (vac_kmem t) cache {} \<and> object_size (caches (vac_kmem t) cache) = sizeof_vac \<and>
    ticket (vac_rb_spinlock t) = serving (vac_rb_spinlock t) \<and> vac_rb t = vac_rb s"
proof -
  obtain k where k: "kmem_cache_create (vac_kmem s) cache sizeof_vac = Some (cache, k)" "slab_rep_in k cache fl {}"
      "object_size (caches k cache) = sizeof_vac"
    using kmem_cache_create_rep [OF assms(1,2) _ _ assms(4), of sizeof_vac] by (auto simp: sizeof_vac_def)
  show ?thesis using kmem_cache_create_sl_eq [OF assms(2) k(1) assms(3)] k(2,3)
    by (auto simp: init_virt_kmalloc_def slab_rep_def spinlock_init_def)
qed

text \<open>Every history of requests to that cache and of writes to its chunks is served, with distinct chunks held.\<close>

lemma vac_cache_history:
  assumes "slab_rep k cache {}"
  shows "\<exists>t held. serve (\<lambda>s. kmem_cache_kalloc s cache) (\<lambda>s. kmem_cache_kfree s cache) (fill_object cache) rs k [] = Some (t, held) \<and>
    slab_rep t cache (set held) \<and> distinct held"
  using slab_cache.serve_law [of k cache "[]" rs] assms by simp

end
