(* ===== verification/Spec2Isabelle.thy ===== *)
theory Spec2Isabelle
  imports Kmath Vm Buddy_Overlap Paging_Unmap Kernel Vm_Entry
begin

text \<open>
  Verification of mikrokernellib, a small x86-64 kernel library in C. Paths are relative to \<^verbatim>\<open>src/\<close> of the
  repository; C files are in \<^verbatim>\<open>src/mikroKernellib/\<close>, headers in \<^verbatim>\<open>include/\<close>.

  \<^bold>\<open>The program.\<close> The boot loader leaves a memory map, a VBE handoff and the kernel image. \<open>start_kernel\<close> sets
  up the screen and the interrupt table, \<open>__init_phys_kmalloc\<close> builds a buddy allocator over a usable region of
  that map and eight slab caches on top of it, \<open>__init_mmu\<close> builds the first page table out of buddy pages and
  records each mapping as an area: an object of a slab cache, linked into a red-black tree. Then the kernel loads
  the table, enters \<open>kmain\<close> at its virtual address, and takes the boot mappings away. Locks guard the allocators
  and the page table. Per-processor data and the chunk tree of the virtual allocator sit on the same caches.

  \<^bold>\<open>Conventions\<close> (\<open>Prelude\<close>). Integers have the width of the C types and wrap. A pointer is a 64-bit word; each kind
  of struct has its own heap, a function from addresses to records, so that two pointers of one type may be equal and
  code that updates through one is seen through the other. Memory the program reads and writes as bytes or through
  casts is a function from addresses to bytes: \<open>Bytes\<close> has blocks, integer fields and pointers of eight bytes in
  it. Pointers are kept as the program stores them;
  \<open>Directmap\<close> shows that the translation at each dereference is injective and leaves translated pointers alone. A
  routine that follows pointers or loops returns an option, \<open>None\<close> for a \<open>NULL\<close> dereference and for a loop that
  does not end; one that can reach the \<open>PANIC\<close> macro returns a sum. Loops over pointers are \<open>partial_function\<close>s,
  loops with a bound in the source are recursive functions with a termination proof or recursion over the list of
  counter values. No fuel is used: where a loop is not bounded by its text, the theorems show that it returns, by
  giving the value \<open>Some\<close> of what it computes. A lock in the sequential models is one bit, and taking it while
  it is held is \<open>None\<close>; \<open>Spinlock\<close> justifies this.

  \<^bold>\<open>Red-black tree\<close> (\<^verbatim>\<open>rb_tree.c\<close>, \<^verbatim>\<open>rb_tree.h\<close>). \<open>Rb_Tree\<close> has every function on a heap of nodes with parent
  pointers. \<open>Rb_Rep\<close> says which tree, and which tree with a path to the current node, a heap represents; \<open>Rb_Zipper\<close>
  proves the two fixup loops correct as functions on such zippers, \<open>Rb_Fixup\<close> that the pointer code computes them,
  \<open>Rb_Correct\<close> what search, insertion and deletion do, \<open>Rb_Search\<close> the walks, the traversal and the height bound.
  The locale \<open>rb_order\<close> is the contract of a comparison function, \<open>rb_search\<close> that of the three address searches.

  \<^bold>\<open>Areas and chunks.\<close> \<open>Vm\<close> (\<^verbatim>\<open>vm.c\<close>, \<^verbatim>\<open>vm.h\<close>) and \<open>Virt_Kmalloc\<close> (\<^verbatim>\<open>virt_kmalloc.c\<close>) interpret both locales for
  \<open>vma_cmp\<close> and \<open>vac_cmp\<close>: insertion and deletion keep an ordered red-black tree with exactly the expected nodes,
  the searches return the area that holds an address and its neighbours, and the validator of \<^verbatim>\<open>rb_tree.h\<close>
  accepts. \<open>Vm_Entry\<close> has the entry points that only follow the current task, and \<open>__init_virt_kmalloc\<close>.

  \<^bold>\<open>Buddy allocator\<close> (\<^verbatim>\<open>phys_kmalloc.c\<close> up to line 324, \<^verbatim>\<open>kmath.c\<close>). \<open>Kmath\<close> has the integer helpers, \<open>Buddy\<close> the
  metadata and operations, \<open>Buddy_Lists\<close> the free lists as sequences, \<open>Buddy_Correct\<close> the invariant (the lists
  hold disjoint, aligned blocks of the region) and allocation, \<open>Buddy_Free\<close> release under the condition that the pair
  bits are sound, \<open>Buddy_Init\<close> initialisation from any memory map. \<open>Buddy_Props\<close> has the properties. The lists
  are \<open>tidy\<close>, with at most one block of each order below 10, after initialisation and as long as nothing is
  released, so that free memory above 12 KB has a block of 16 KB in it.
  Splitting does not keep the pair bits sound: \<open>Buddy_Overlap\<close> is a run that hands out the same page twice.

  \<^bold>\<open>Slab allocator and front end\<close> (the rest of \<^verbatim>\<open>phys_kmalloc.c\<close>). \<open>Slab\<close> is the model; the free list of a slab is
  threaded through the bytes of its objects. \<open>Slab_Lists\<close> has the three
  circular lists, \<open>Slab_Correct\<close> the invariant and the abstraction of a cache as its set of objects in use
  (\<open>slab_rep\<close>, and \<open>slab_rep_off\<close> with memory it stays clear of), \<open>Slab_Alloc\<close> growth and allocation, \<open>Slab_Create\<close>
  new caches. The invariant asks for objects of at least eight bytes. The code accepts smaller ones, whose pointers
  overwrite each other: \<open>Slab_Small\<close> shows that such a cache gives out an address above 4 GB at its second
  allocation. \<open>Slab_Props\<close> states the contract as the locale \<open>object_cache\<close>, proves there that every history of
  requests and of writes to the objects held is served with distinct objects, and interprets it; \<open>Slab_Boot\<close> takes
  the eight caches through initialisation. \<open>Mapped\<close> (\<^verbatim>\<open>mapped_phys_kmalloc.c\<close>) extends the locale by the bound of the direct map and shows
  as a sublocale that the moved pointers satisfy the contract again.

  \<^bold>\<open>Page tables\<close> (\<^verbatim>\<open>mmu.c\<close>, \<^verbatim>\<open>mmu.h\<close>). \<open>Mmu\<close> is the model: memory as words, tables from the buddy allocator,
  the walk caches of the loops. \<open>Mmu_Walk\<close> reads the tables as a tree of paths and defines \<open>translate\<close>, what the
  processor makes of an address, which is the abstract specification; \<open>Mmu_Map\<close>, \<open>Mmu_Unmap\<close> and \<open>Mmu_Props\<close> show
  that mapping and unmapping change it at the given pages and nowhere else, that the loops with caches agree
  with single calls, and that unmapping gives the tables it leaves empty back and keeps the others. Neither takes a
  byte that was not free or a table before.

  \<^bold>\<open>Kernel mappings\<close> (\<^verbatim>\<open>paging.c\<close>). \<open>Paging\<close> composes page tables, tree, area cache and lock. The invariant
  \<open>paging_inv\<close> of \<open>Paging_Correct\<close> has all of them and that the slabs of areas and the tables share no memory;
  \<open>Paging_Correct\<close> shows it for \<open>kmap_pages\<close> and \<open>Paging_Unmap\<close> for \<open>kunmap_pages\<close>, with their effect on tree and
  translation. \<open>Paging_Props\<close>, \<open>Paging_Ranges\<close>, \<open>Paging_Boot\<close> and \<open>Boot_Layout\<close> take \<open>__init_mmu\<close> apart: the pieces
  of the direct map, sequences of disjoint requests, the root table and the stack, and the arithmetic that makes the
  ranges of image, stack, usable memory, low memory and framebuffer disjoint. A panic is possible only below the
  amount of free memory that the requests can cost, 20 KB for the root table and the stack included. An empty tree of
  areas at the start is a hypothesis: \<open>kernel_rb_root\<close> lies in \<^verbatim>\<open>.bss\<close>, which comments in the code say is not
  cleared.

  \<^bold>\<open>Machine and boot.\<close> \<open>Spinlock\<close> (\<^verbatim>\<open>spinlocks.asm\<close>) is the ticket lock as a step relation over any number of
  processors: mutual exclusion with interrupts disabled and restored, first come first served, and from every
  reachable state a run that gives a waiting processor the lock. \<open>Idt\<close> has the gates and the frame
  of the stubs, \<open>Isr\<close> the dispatcher, \<open>Vesa\<close> and \<open>Vesa_Props\<close> the screen, \<open>Kstrings\<close> strings, \<open>memset\<close>, \<open>memcpy\<close> and the copy
  of the memory map. \<open>Percpu\<close> (\<^verbatim>\<open>per_cpu.c\<close>) gives each processor a block of its own. \<open>Kernel\<close> composes
  the components into \<open>start_kernel\<close> and \<open>kmain\<close>: the boot reaches its end with everything in order, or panics for
  want of memory.

  \<^bold>\<open>Arguments instead of code.\<close> The font, the linker's symbols, the addresses of stubs and static objects, and the
  tables of the boot loader are arguments. So are \<open>struct cpu_local\<close> and the assembly on the \<open>gs\<close> register, which the
  repository refers to and does not have; the laws \<open>Percpu\<close> assumes of them are satisfied by a concrete instance there.

  \<^bold>\<open>Not modelled.\<close> The boot loader (16-bit assembly on BIOS services). \<^verbatim>\<open>kasm.h\<close> and \<^verbatim>\<open>kasm-expanded.h\<close>: one
  macro or inline function for each machine instruction, of which the C code uses the one that halts; the second
  is included nowhere. \<^verbatim>\<open>mmu.asm\<close> and \<^verbatim>\<open>nasm_font.asm\<close>: single
  instructions on control registers, whose effect the models of the callers record, and the inclusion of the font.
  \<open>virt_kmalloc\<close>, which has no body, and the routines for stacks and modules in \<^verbatim>\<open>virt_kmalloc.c\<close>, which are only
  declared. The caches of the processor apart from the record of \<open>invlpg\<close>. The allocators' locks are taken by one processor at a time in the sequential models; interleavings
  are in \<open>Spinlock\<close> only.
\<close>

end
